(* ===== verification/GridKV_Prelude.thy ===== *)
theory GridKV_Prelude
  imports Main "HOL-Library.Word" "HOL-Library.AList" "HOL-Library.Multiset"
    "HOL-Library.Signed_Division"
begin

unbundle bit_operations_syntax

text \<open>
  Shared vocabulary of the GridKV development.

  \<^item> Go's fixed-width integers: \<open>int64\<close> and \<open>uint64\<close> are \<open>64 word\<close>; a signed comparison is
    written on \<open>sint\<close>, an unsigned one on the word itself. Lengths, slice offsets and loop
    counters (Go \<open>int\<close>, bounded by memory) are \<open>nat\<close>; configuration integers are \<open>int\<close>.
  \<^item> \<open>[]byte\<close> is \<open>byte list option\<close>: \<open>None\<close> is the nil slice, \<open>Some []\<close> the empty one.
    Go strings are byte strings, that is Isabelle's \<open>string\<close> (its characters are bytes).
  \<^item> \<open>time.Time\<close> is its number of nanoseconds since the Unix epoch, an unbounded \<open>int\<close>
    (\<open>time.Time\<close> is a pair of seconds and nanoseconds and does not wrap at 64 bits);
    \<open>UnixNano\<close> reads it as an \<open>int64\<close> and wraps. \<open>time.Now()\<close> is an argument \<open>now\<close>.
  \<^item> Go maps and \<open>sync.Map\<close> are association lists with distinct keys, read by \<open>map_of\<close>.
    \<open>Range\<close> and \<open>for ... range\<close> visit the list in its order; Go leaves that order open, and
    the theorems hold for every list, so for every order.
\<close>

named_theorems codec_simps "decoding an encoded field at an offset"
named_theorems store_simps "field and frame equations of the storage operations"

section \<open>Types\<close>

type_synonym byte = "8 word"
type_synonym int64 = "64 word"
type_synonym uint64 = "64 word"
type_synonym bytes = "byte list option"
type_synonym gotime = int
type_synonym duration = int

abbreviation go_nil :: bytes where
  "go_nil \<equiv> None"

definition go_bytes :: "bytes \<Rightarrow> byte list" where
  "go_bytes v = (case v of None \<Rightarrow> [] | Some bs \<Rightarrow> bs)"

definition go_len :: "bytes \<Rightarrow> nat" where
  "go_len v = length (go_bytes v)"

definition zero_time :: gotime where
  "zero_time = -62135596800000000000"

definition IsZero :: "gotime \<Rightarrow> bool" where
  "IsZero t \<longleftrightarrow> t = zero_time"

definition UnixNano :: "gotime \<Rightarrow> int64" where
  "UnixNano t = word_of_int t"

definition time_Unix0 :: "int64 \<Rightarrow> gotime" where
  "time_Unix0 ns = sint ns"

definition time_Second :: duration where
  "time_Second = 1000000000"

definition time_Millisecond :: duration where
  "time_Millisecond = 1000000"

section \<open>Slices\<close>

lemma go_bytes_simps [simp]:
  "go_bytes None = []" "go_bytes (Some bs) = bs"
  by (simp_all add: go_bytes_def)

lemma go_len_simps [simp]:
  "go_len None = 0" "go_len (Some bs) = length bs"
  by (simp_all add: go_len_def)

lemma go_len_0_iff: "go_len v = 0 \<longleftrightarrow> go_bytes v = []"
  by (simp add: go_len_def)

section \<open>Characters and bytes\<close>

definition byte_of_char :: "char \<Rightarrow> byte" where
  "byte_of_char c = of_nat (of_char c)"

definition char_of_byte :: "byte \<Rightarrow> char" where
  "char_of_byte b = char_of (unat b)"

lemma byte_bound: "unat (b :: byte) < 256"
  using unsigned_less [of b, where ?'a = nat] by simp

lemma of_char_less_256: "(of_char c :: nat) < 256"
  using of_char_mod_256 [of c, where ?'a = nat] by (metis mod_less_divisor zero_less_numeral)

lemma char_of_byte_of_char [simp]: "char_of_byte (byte_of_char c) = c"
  using of_char_less_256 [of c]
  by (simp add: char_of_byte_def byte_of_char_def unat_of_nat)

lemma byte_of_char_of_byte [simp]: "byte_of_char (char_of_byte b) = b"
proof -
  have "unat b < 256" by (rule byte_bound)
  then show ?thesis by (simp add: char_of_byte_def byte_of_char_def)
qed

lemma byte_of_char_inj [simp]: "byte_of_char a = byte_of_char b \<longleftrightarrow> a = b"
  by (metis char_of_byte_of_char)

definition StringToBytes :: "string \<Rightarrow> byte list" where
  "StringToBytes s = map byte_of_char s"

definition BytesToString :: "byte list \<Rightarrow> string" where
  "BytesToString bs = map char_of_byte bs"

lemma BytesToString_StringToBytes [simp]: "BytesToString (StringToBytes s) = s"
  by (simp add: BytesToString_def StringToBytes_def o_def)

lemma StringToBytes_BytesToString [simp]: "StringToBytes (BytesToString bs) = bs"
  by (simp add: BytesToString_def StringToBytes_def o_def)

lemma length_StringToBytes [simp]: "length (StringToBytes s) = length s"
  by (simp add: StringToBytes_def)

lemma length_BytesToString [simp]: "length (BytesToString s) = length s"
  by (simp add: BytesToString_def)

text \<open>
  \<open>zerocopy.FastCloneBytes\<close>: nil stays nil, the empty slice stays empty, anything else is copied
  element by element into a fresh slice of the same length.
\<close>

definition FastCloneBytes :: "bytes \<Rightarrow> bytes" where
  "FastCloneBytes src =
     (case src of None \<Rightarrow> None
      | Some bs \<Rightarrow> if length bs = 0 then Some [] else Some (map (\<lambda>i. bs ! i) [0..<length bs]))"

lemma FastCloneBytes_id [simp]: "FastCloneBytes src = src"
  by (cases src) (simp_all add: FastCloneBytes_def map_nth)

section \<open>Fixed-width integers in byte buffers\<close>

text \<open>\<open>binary.LittleEndian.PutUintN\<close> and \<open>UintN\<close> for every width, as base-256 digits.\<close>

primrec put_le :: "nat \<Rightarrow> nat \<Rightarrow> byte list" where
  "put_le 0 v = []"
| "put_le (Suc n) v = of_nat v # put_le n (v div 256)"

primrec get_le :: "byte list \<Rightarrow> nat" where
  "get_le [] = 0"
| "get_le (b # bs) = unat b + 256 * get_le bs"

definition put_be :: "nat \<Rightarrow> nat \<Rightarrow> byte list" where
  "put_be n v = rev (put_le n v)"

definition get_be :: "byte list \<Rightarrow> nat" where
  "get_be bs = get_le (rev bs)"

lemma length_put_le [simp]: "length (put_le n v) = n"
  by (induction n arbitrary: v) auto

lemma length_put_be [simp]: "length (put_be n v) = n"
  by (simp add: put_be_def)

lemma get_le_put_le_mod: "get_le (put_le n v) = v mod 256 ^ n"
proof (induction n arbitrary: v)
  case 0
  then show ?case by simp
next
  case (Suc n)
  have "unat (of_nat v :: byte) = v mod 256" by (simp add: unat_of_nat)
  then show ?case
    by (simp add: Suc.IH mod_mult2_eq)
qed

lemma get_le_put_le [simp]: "v < 256 ^ n \<Longrightarrow> get_le (put_le n v) = v"
  by (simp add: get_le_put_le_mod)

lemma get_be_put_be [simp]: "v < 256 ^ n \<Longrightarrow> get_be (put_be n v) = v"
  by (simp add: get_be_def put_be_def)

lemma get_le_less: "get_le bs < 256 ^ length bs"
proof (induction bs)
  case Nil
  then show ?case by simp
next
  case (Cons b bs)
  have "unat b < 256" by (rule byte_bound)
  with Cons.IH show ?case by simp
qed

lemma put_le_get_le: "put_le (length bs) (get_le bs) = bs"
proof (induction bs)
  case Nil
  then show ?case by simp
next
  case (Cons b bs)
  have "unat b < 256" by (rule byte_bound)
  moreover have "(of_nat (unat b + 256 * get_le bs) :: byte) = b"
  proof -
    have "(256 :: byte) = 0" by simp
    then show ?thesis by (simp only: of_nat_add of_nat_mult of_nat_numeral) simp
  qed
  ultimately show ?case using Cons.IH by simp
qed

definition put_u64 :: "uint64 \<Rightarrow> byte list" where
  "put_u64 v = put_le 8 (unat v)"

definition get_u64 :: "byte list \<Rightarrow> uint64" where
  "get_u64 bs = of_nat (get_le (take 8 bs))"

definition get_u32 :: "byte list \<Rightarrow> nat" where
  "get_u32 bs = get_le (take 4 bs)"

definition get_u16 :: "byte list \<Rightarrow> nat" where
  "get_u16 bs = get_le (take 2 bs)"

lemma length_put_u64 [simp]: "length (put_u64 v) = 8"
  by (simp add: put_u64_def)

lemma get_u64_put_u64 [simp]: "get_u64 (put_u64 v @ bs) = v"
proof -
  have "unat v < 256 ^ 8" using unsigned_less [of v, where ?'a = nat] by simp
  then show ?thesis by (simp add: get_u64_def put_u64_def)
qed

lemma get_u32_put_le [simp]: "v < 2 ^ 32 \<Longrightarrow> get_u32 (put_le 4 v @ bs) = v"
  by (simp add: get_u32_def)

lemma get_u16_put_le [simp]: "v < 2 ^ 16 \<Longrightarrow> get_u16 (put_le 2 v @ bs) = v"
  by (simp add: get_u16_def)

section \<open>Signed 64-bit arithmetic\<close>

lemma sint64_bounds: "- 9223372036854775808 \<le> sint (w :: int64)" "sint (w :: int64) < 9223372036854775808"
  using sint_ge [of w] sint_lt [of w] by simp_all

lemma signed_take_bit_63_eq:
  "- 9223372036854775808 \<le> k \<Longrightarrow> k < 9223372036854775808 \<Longrightarrow> signed_take_bit 63 k = (k :: int)"
  by (rule signed_take_bit_int_eq_self) simp_all

lemma sint64_add:
  "- 9223372036854775808 \<le> sint a + sint b \<Longrightarrow> sint a + sint b < 9223372036854775808
   \<Longrightarrow> sint (a + b :: int64) = sint a + sint b"
  by (simp add: sint_word_add signed_take_bit_63_eq)

lemma sint64_diff:
  "- 9223372036854775808 \<le> sint a - sint b \<Longrightarrow> sint a - sint b < 9223372036854775808
   \<Longrightarrow> sint (a - b :: int64) = sint a - sint b"
  by (simp add: sint_word_diff signed_take_bit_63_eq)

lemma sint64_of_int:
  "- 9223372036854775808 \<le> k \<Longrightarrow> k < 9223372036854775808 \<Longrightarrow> sint (word_of_int k :: int64) = k"
  by (simp add: sint_sbintrunc' signed_take_bit_63_eq)

lemma sint_inject [simp]: "sint (a :: 'a::len word) = sint b \<longleftrightarrow> a = b"
  by (rule signed_word_eqI [THEN iffI, rotated]) simp_all

lemma time_Unix0_UnixNano:
  "- 9223372036854775808 \<le> t \<Longrightarrow> t < 9223372036854775808 \<Longrightarrow> time_Unix0 (UnixNano t) = t"
  by (simp add: time_Unix0_def UnixNano_def sint64_of_int)

section \<open>Association lists\<close>

lemma map_of_AList_update [simp]: "map_of (AList.update k v xs) = (map_of xs)(k \<mapsto> v)"
  by (rule update_conv')

lemma map_of_AList_delete [simp]: "map_of (AList.delete k xs) = (map_of xs)(k := None)"
  by (rule delete_conv')

lemma distinct_keys_update [simp]:
  "distinct (map fst xs) \<Longrightarrow> distinct (map fst (AList.update k v xs))"
  by (rule distinct_update)

lemma distinct_keys_delete [simp]:
  "distinct (map fst xs) \<Longrightarrow> distinct (map fst (AList.delete k xs))"
  by (rule distinct_delete)

lemma set_keys_update [simp]: "fst ` set (AList.update k v xs) = insert k (fst ` set xs)"
  by (induction xs) auto

lemma set_keys_delete [simp]: "fst ` set (AList.delete k xs) = fst ` set xs - {k}"
  by (auto simp: AList.delete_eq)

lemma map_fst_update: "map_of xs k = Some w \<Longrightarrow> map fst (AList.update k v xs) = map fst xs"
  by (induction xs) (auto split: if_splits)

lemma set_update_subset: "set (AList.update k v xs) \<subseteq> insert (k, v) (set xs)"
  by (induction xs) auto

lemma update_new: "map_of xs k = None \<Longrightarrow> AList.update k v xs = xs @ [(k, v)]"
  by (induction xs) (auto split: if_splits)

end
