(* ===== verification/Hlc.thy ===== *)
theory Hlc
  imports GridKV_Prelude
begin

text \<open>
  \<open>internal/utils/hlc/hlc.go\<close> and the conversion \<open>hlcToInt64\<close> of \<open>internal/cluster/writer.go\<close>:
  the hybrid logical clock, its printed form \<open>nodeID:timestamp:counter\<close>, the two parsers of that
  form and the 64-bit version the writer derives from it.

  The contract of a logical clock is the locale \<open>logical_clock\<close>; inside it the clock condition
  (an event that happens before another has the smaller stamp) is proved once for every execution
  of nodes that tick and exchange stamped messages, and the locale is interpreted on \<open>Now\<close> and
  \<open>Update\<close>.
\<close>

section \<open>Clock state\<close>

record HLC =
  lastTs :: int64
  counter :: uint64
  nodeID :: string
  buf :: string
  cachedTS :: string
  cacheValid :: bool
  lastCacheTS :: int64
  lastCacheCtr :: uint64

definition NewHLC :: "string \<Rightarrow> HLC" where
  "NewHLC nid = \<lparr>lastTs = 0, counter = 0, nodeID = nid, buf = '''', cachedTS = '''',
     cacheValid = False, lastCacheTS = 0, lastCacheCtr = 0\<rparr>"

section \<open>Printing\<close>

text \<open>The digit loop of \<open>AppendInt\<close> and \<open>AppendUint\<close> fills \<open>tmp\<close> from its end.\<close>

fun append_digits :: "nat \<Rightarrow> string \<Rightarrow> string" where
  "append_digits i tmp =
     (if i = 0 then tmp else append_digits (i div 10) (char_of (48 + i mod 10) # tmp))"

declare append_digits.simps [simp del]

definition AppendInt :: "string \<Rightarrow> int64 \<Rightarrow> string" where
  "AppendInt b i =
     (if i = 0 then b @ ''0''
      else if sint i < 0 then
        (if sint i = -9223372036854775808 then b @ ''-9223372036854775808''
         else b @ ''-'' @ append_digits (unat (- i)) [])
      else b @ append_digits (unat i) [])"

definition AppendUint :: "string \<Rightarrow> uint64 \<Rightarrow> string" where
  "AppendUint b u = (if u = 0 then b @ ''0'' else b @ append_digits (unat u) [])"

section \<open>Now\<close>

definition HLC_Now :: "int64 \<Rightarrow> HLC \<Rightarrow> HLC \<times> string" where
  "HLC_Now now h =
     (let h1 = (if sint now > sint (lastTs h)
                then h\<lparr>lastTs := now, counter := 0, cacheValid := False\<rparr>
                else h\<lparr>counter := counter h + 1, cacheValid := False\<rparr>)
      in if cacheValid h1 \<and> lastTs h1 = lastCacheTS h1 \<and> counter h1 = lastCacheCtr h1
         then (h1, cachedTS h1)
         else
           (let b = AppendInt (AppendInt (nodeID h1 @ '':'') (lastTs h1) @ '':'') (counter h1);
                h2 = h1\<lparr>buf := b, cachedTS := b, cacheValid := True, lastCacheTS := lastTs h1,
                        lastCacheCtr := counter h1\<rparr>
            in (h2, b)))"

section \<open>Parsing\<close>

text \<open>
  Both parsers look for the first \<open>:\<close> at or after an index; the index is rejected when nothing
  follows it. The timestamp loop gives up on a character that is not a digit, the counter loop
  stops there and keeps what it has. Both accumulate in 64-bit arithmetic that wraps.
\<close>

fun index_colon :: "nat \<Rightarrow> string \<Rightarrow> nat option" where
  "index_colon i [] = None"
| "index_colon i (c # cs) = (if c = CHR '':'' then Some i else index_colon (Suc i) cs)"

definition is_digit :: "char \<Rightarrow> bool" where
  "is_digit c \<longleftrightarrow> 48 \<le> (of_char c :: nat) \<and> (of_char c :: nat) \<le> 57"

fun parse_ts :: "string \<Rightarrow> int64 \<Rightarrow> int64 option" where
  "parse_ts [] ts = Some ts"
| "parse_ts (c # cs) ts =
     (if \<not> is_digit c then None else parse_ts cs (ts * 10 + of_nat (of_char c - 48)))"

fun parse_ctr :: "string \<Rightarrow> uint64 \<Rightarrow> uint64" where
  "parse_ctr [] ctr = ctr"
| "parse_ctr (c # cs) ctr =
     (if \<not> is_digit c then ctr else parse_ctr cs (ctr * 10 + of_nat (of_char c - 48)))"

definition parse_hlc :: "string \<Rightarrow> (int64 \<times> uint64) option" where
  "parse_hlc remote =
     (if remote = '''' then None
      else case index_colon 0 remote of
        None \<Rightarrow> None
      | Some idx1 \<Rightarrow>
          if idx1 \<ge> length remote - 1 then None
          else case index_colon (idx1 + 1) (drop (idx1 + 1) remote) of
            None \<Rightarrow> None
          | Some idx2 \<Rightarrow>
              if idx2 \<ge> length remote - 1 then None
              else case parse_ts (take (idx2 - (idx1 + 1)) (drop (idx1 + 1) remote)) 0 of
                None \<Rightarrow> None
              | Some ts \<Rightarrow> Some (ts, parse_ctr (drop (idx2 + 1) remote) 0))"

section \<open>Update\<close>

definition HLC_Update :: "string \<Rightarrow> HLC \<Rightarrow> HLC" where
  "HLC_Update remote h =
     (case parse_hlc remote of
        None \<Rightarrow> h
      | Some (ts, ctr) \<Rightarrow>
          if sint ts > sint (lastTs h)
          then h\<lparr>lastTs := ts, counter := ctr, cacheValid := False\<rparr>
          else if ts = lastTs h \<and> ctr > counter h
          then h\<lparr>counter := ctr, cacheValid := False\<rparr>
          else h)"

section \<open>Version numbers\<close>

text \<open>
  \<open>hlcToInt64\<close> repeats the parser of \<open>Update\<close>; where that returns without effect it falls back
  to the wall clock, here the argument \<open>now\<close>.
\<close>

definition hlcToInt64 :: "gotime \<Rightarrow> string \<Rightarrow> int64" where
  "hlcToInt64 now hlcStr =
     (case parse_hlc hlcStr of
        None \<Rightarrow> UnixNano now
      | Some (ts, ctr) \<Rightarrow>
          (let tsTruncated = ts AND 0xFFFFFFFFFFFF;
               ctr1 = (if ctr > 65535 then 65535 else ctr)
           in push_bit 16 tsTruncated OR (ctr1 AND 0xFFFF)))"

section \<open>Decimal round trip\<close>

primrec dec_val :: "string \<Rightarrow> nat \<Rightarrow> nat" where
  "dec_val [] a = a"
| "dec_val (c # cs) a = dec_val cs (a * 10 + (of_char c - 48))"

lemma dec_val_append [simp]: "dec_val (xs @ ys) a = dec_val ys (dec_val xs a)"
  by (induction xs arbitrary: a) auto

lemma append_digits_append: "append_digits i tmp = append_digits i [] @ tmp"
proof (induction i arbitrary: tmp rule: less_induct)
  case (less i)
  show ?case
  proof (cases "i = 0")
    case False
    then have lt: "i div 10 < i" by simp
    show ?thesis
      using False less.IH [OF lt, of "char_of (48 + i mod 10) # tmp"]
        less.IH [OF lt, of "[char_of (48 + i mod 10)]"]
      by (simp add: append_digits.simps [of i])
  qed (simp add: append_digits.simps)
qed

lemma of_char_digit: "d < 10 \<Longrightarrow> (of_char (char_of (48 + d :: nat)) :: nat) = 48 + d"
  by (simp add: of_char_of)

lemma append_digits_step:
  "i \<noteq> 0 \<Longrightarrow> append_digits i [] = append_digits (i div 10) [] @ [char_of (48 + i mod 10)]"
  by (subst append_digits.simps) (simp, rule append_digits_append)

lemma append_digits_all_digits: "\<forall>c \<in> set (append_digits i []). is_digit c"
proof (induction i rule: less_induct)
  case (less i)
  show ?case
  proof (cases "i = 0")
    case False
    then have "\<forall>c \<in> set (append_digits (i div 10) []). is_digit c" by (intro less.IH) simp
    with False show ?thesis
      by (simp add: append_digits_step) (simp add: is_digit_def of_char_digit)
  qed (simp add: append_digits.simps)
qed

lemma dec_val_append_digits [simp]: "dec_val (append_digits i []) 0 = i"
proof (induction i rule: less_induct)
  case (less i)
  then show ?case
    by (cases "i = 0") (simp_all add: append_digits.simps [of 0] append_digits_step of_char_digit)
qed

lemma append_digits_Nil_iff: "append_digits i [] = [] \<longleftrightarrow> i = 0"
  by (cases "i = 0") (simp_all add: append_digits.simps [of 0] append_digits_step)

lemma parse_ts_digits:
  "\<forall>c \<in> set s. is_digit c \<Longrightarrow> parse_ts s (of_nat a) = Some (of_nat (dec_val s a))"
proof (induction s arbitrary: a)
  case (Cons c s)
  then show ?case using Cons.IH [of "a * 10 + (of_char c - 48)"] by simp
qed simp

lemma parse_ctr_digits:
  "\<forall>c \<in> set s. is_digit c \<Longrightarrow> parse_ctr s (of_nat a) = of_nat (dec_val s a)"
proof (induction s arbitrary: a)
  case (Cons c s)
  then show ?case using Cons.IH [of "a * 10 + (of_char c - 48)"] by simp
qed simp

text \<open>A non-negative number as \<open>AppendInt\<close> prints it.\<close>

definition show_dec :: "nat \<Rightarrow> string" where
  "show_dec i = (if i = 0 then ''0'' else append_digits i [])"

lemma AppendInt_nonneg: "0 \<le> sint i \<Longrightarrow> AppendInt b i = b @ show_dec (unat i)"
  by (simp add: AppendInt_def show_dec_def unat_eq_zero)

lemma show_dec_digits: "\<forall>c \<in> set (show_dec i). is_digit c"
  using append_digits_all_digits [of i] by (simp add: show_dec_def is_digit_def)

lemma show_dec_not_Nil [simp]: "show_dec i \<noteq> []"
  by (simp add: show_dec_def append_digits_Nil_iff)

lemma dec_val_show_dec [simp]: "dec_val (show_dec i) 0 = i"
  by (simp add: show_dec_def)

lemma show_dec_no_colon [simp]: "CHR '':'' \<notin> set (show_dec i)"
  using show_dec_digits [of i] by (auto simp: is_digit_def)

section \<open>Stamp round trip\<close>

lemma index_colon_append:
  "CHR '':'' \<notin> set xs \<Longrightarrow> index_colon i (xs @ CHR '':'' # ys) = Some (i + length xs)"
  by (induction xs arbitrary: i) auto

lemma parse_hlc_stamp:
  assumes "CHR '':'' \<notin> set nid"
  shows "parse_hlc (nid @ CHR '':'' # show_dec t @ CHR '':'' # show_dec c)
           = Some (of_nat t, of_nat c)"
proof -
  let ?s = "nid @ CHR '':'' # show_dec t @ CHR '':'' # show_dec c"
  have i1: "index_colon 0 ?s = Some (length nid)"
    using index_colon_append [OF assms, of 0] by simp
  have d1: "drop (length nid + 1) ?s = show_dec t @ CHR '':'' # show_dec c" by simp
  have i2: "index_colon (length nid + 1) (show_dec t @ CHR '':'' # show_dec c)
              = Some (length nid + 1 + length (show_dec t))"
    by (rule index_colon_append) simp
  have p1: "parse_ts (show_dec t) 0 = Some (of_nat t)"
    using parse_ts_digits [OF show_dec_digits, of t 0] by simp
  have p2: "parse_ctr (show_dec c) 0 = of_nat c"
    using parse_ctr_digits [OF show_dec_digits, of c 0] by simp
  have ne: "length (show_dec c) > 0" by simp
  show ?thesis
    unfolding parse_hlc_def i1 option.case d1 i2
    using ne by (simp add: p1 p2)
qed

section \<open>Stamps\<close>

text \<open>
  The order of stamps is the order of \<open>Update\<close>: the timestamp first (signed), then the counter
  (unsigned).
\<close>

datatype stamp = Stamp (stamp_ts: int) (stamp_ctr: nat)

instantiation stamp :: linorder
begin

definition less_eq_stamp :: "stamp \<Rightarrow> stamp \<Rightarrow> bool" where
  "less_eq_stamp a b \<longleftrightarrow>
     stamp_ts a < stamp_ts b \<or> stamp_ts a = stamp_ts b \<and> stamp_ctr a \<le> stamp_ctr b"

definition less_stamp :: "stamp \<Rightarrow> stamp \<Rightarrow> bool" where
  "less_stamp a b \<longleftrightarrow>
     stamp_ts a < stamp_ts b \<or> stamp_ts a = stamp_ts b \<and> stamp_ctr a < stamp_ctr b"

instance
  by standard (auto simp: less_eq_stamp_def less_stamp_def stamp.expand)

end

definition hlc_stamp :: "HLC \<Rightarrow> stamp" where
  "hlc_stamp h = Stamp (sint (lastTs h)) (unat (counter h))"

text \<open>
  The clock states the theorems speak about: node ids without \<open>:\<close>, a timestamp that is not
  negative and a counter below \<open>2^63\<close> (above it \<open>AppendInt (int64 counter)\<close> prints a sign). A
  reading of the wall clock is admissible when it moves the timestamp or leaves room to count.
\<close>

definition hlc_ok :: "HLC \<Rightarrow> bool" where
  "hlc_ok h \<longleftrightarrow>
     CHR '':'' \<notin> set (nodeID h) \<and> 0 \<le> sint (lastTs h) \<and> 0 \<le> sint (counter h)"

definition hlc_can_tick :: "int64 \<Rightarrow> HLC \<Rightarrow> bool" where
  "hlc_can_tick now h \<longleftrightarrow> sint now > sint (lastTs h) \<or> 0 \<le> sint (counter h + 1)"

lemma sint_eq_unat: "0 \<le> sint (w :: int64) \<Longrightarrow> sint w = int (unat w)"
  using sint64_bounds(2) [of w] by (simp add: uint_sint take_bit_int_eq_self)

lemma unat_Suc_nonneg: "0 \<le> sint (c :: uint64) \<Longrightarrow> unat (c + 1) = Suc (unat c)"
proof -
  assume "0 \<le> sint c"
  then have "unat c < 9223372036854775808" using sint_eq_unat [of c] sint64_bounds(2) [of c] by linarith
  then show ?thesis by (simp add: unat_word_ariths)
qed

lemma HLC_Now_result:
  assumes "hlc_ok h" "hlc_can_tick now h" "HLC_Now now h = (h', s)"
  shows "hlc_ok h'" "nodeID h' = nodeID h"
    and "s = nodeID h @ CHR '':'' # show_dec (unat (lastTs h')) @ CHR '':'' # show_dec (unat (counter h'))"
    and "hlc_stamp h < hlc_stamp h'" "sint now \<le> stamp_ts (hlc_stamp h')"
  using assms unat_Suc_nonneg [of "counter h"]
  by (auto simp: HLC_Now_def Let_def hlc_ok_def hlc_can_tick_def hlc_stamp_def less_stamp_def
      AppendInt_nonneg split: if_splits)

lemma HLC_Update_result:
  assumes "hlc_ok h" "hlc_ok d" "CHR '':'' \<notin> set nid"
    and s: "s = nid @ CHR '':'' # show_dec (unat (lastTs d)) @ CHR '':'' # show_dec (unat (counter d))"
  shows "hlc_ok (HLC_Update s h)" "hlc_stamp (HLC_Update s h) = max (hlc_stamp h) (hlc_stamp d)"
  using assms
  by (auto simp: HLC_Update_def parse_hlc_stamp hlc_ok_def hlc_stamp_def max_def less_eq_stamp_def
      word_less_nat_alt not_less)

section \<open>The clock condition\<close>

text \<open>
  Executions of a system of nodes that each own a clock: a node ticks, or merges the message that
  event \<open>i\<close> sent and ticks. The log keeps, per event, the node, its clock after the event and the
  message it can send. A step that is not enabled, or that receives from an event that has not
  happened, gives \<open>None\<close>.
\<close>

datatype ('n, 'a) clock_event = Tick 'n 'a | Receive 'n nat 'a

type_synonym ('n, 'c, 'm) clock_log = "('n \<times> 'c \<times> 'm) list"

type_synonym ('n, 'c, 'm) clock_system = "('n \<Rightarrow> 'c) \<times> ('n, 'c, 'm) clock_log"

fun clock_step ::
  "('a \<Rightarrow> 'c \<Rightarrow> bool) \<Rightarrow> ('a \<Rightarrow> 'c \<Rightarrow> 'c \<times> 'm) \<Rightarrow> ('m \<Rightarrow> 'c \<Rightarrow> 'c)
   \<Rightarrow> ('n, 'a) clock_event \<Rightarrow> ('n, 'c, 'm) clock_system \<Rightarrow> ('n, 'c, 'm) clock_system option" where
  "clock_step ok tick merge (Tick n a) (cs, lg) =
     (if ok a (cs n)
      then (case tick a (cs n) of (c, m) \<Rightarrow> Some (cs(n := c), lg @ [(n, c, m)]))
      else None)"
| "clock_step ok tick merge (Receive n i a) (cs, lg) =
     (if i < length lg
      then (let c0 = merge (snd (snd (lg ! i))) (cs n) in
            if ok a c0
            then (case tick a c0 of (c, m) \<Rightarrow> Some (cs(n := c), lg @ [(n, c, m)]))
            else None)
      else None)"

primrec clock_exec ::
  "('a \<Rightarrow> 'c \<Rightarrow> bool) \<Rightarrow> ('a \<Rightarrow> 'c \<Rightarrow> 'c \<times> 'm) \<Rightarrow> ('m \<Rightarrow> 'c \<Rightarrow> 'c)
   \<Rightarrow> ('n, 'a) clock_event list \<Rightarrow> ('n, 'c, 'm) clock_system \<Rightarrow> ('n, 'c, 'm) clock_system option"
where
  "clock_exec ok tick merge [] st = Some st"
| "clock_exec ok tick merge (e # es) st =
     (case clock_step ok tick merge e st of
        None \<Rightarrow> None | Some st' \<Rightarrow> clock_exec ok tick merge es st')"

fun event_node :: "('n, 'a) clock_event \<Rightarrow> 'n" where
  "event_node (Tick n a) = n"
| "event_node (Receive n i a) = n"

inductive happens_before :: "('n, 'a) clock_event list \<Rightarrow> nat \<Rightarrow> nat \<Rightarrow> bool" for es where
  hb_program: "i < j \<Longrightarrow> j < length es \<Longrightarrow> event_node (es ! i) = event_node (es ! j)
    \<Longrightarrow> happens_before es i j"
| hb_message: "j < length es \<Longrightarrow> es ! j = Receive n i a \<Longrightarrow> happens_before es i j"
| hb_trans: "happens_before es i j \<Longrightarrow> happens_before es j k \<Longrightarrow> happens_before es i k"

abbreviation log_clock :: "('n, 'c, 'm) clock_log \<Rightarrow> nat \<Rightarrow> 'c" where
  "log_clock lg i \<equiv> fst (snd (lg ! i))"

locale logical_clock =
  fixes ok :: "'a \<Rightarrow> 'c \<Rightarrow> bool"
    and tick :: "'a \<Rightarrow> 'c \<Rightarrow> 'c \<times> 'm"
    and merge :: "'m \<Rightarrow> 'c \<Rightarrow> 'c"
    and stamp_of :: "'c \<Rightarrow> 't::linorder"
    and inv :: "'c \<Rightarrow> bool"
  assumes tick_inv: "inv c \<Longrightarrow> ok a c \<Longrightarrow> tick a c = (c', m) \<Longrightarrow> inv c'"
    and tick_less: "inv c \<Longrightarrow> ok a c \<Longrightarrow> tick a c = (c', m) \<Longrightarrow> stamp_of c < stamp_of c'"
    and merge_inv: "inv c \<Longrightarrow> inv d \<Longrightarrow> ok a d \<Longrightarrow> tick a d = (d', m) \<Longrightarrow> inv (merge m c)"
    and merge_max: "inv c \<Longrightarrow> inv d \<Longrightarrow> ok a d \<Longrightarrow> tick a d = (d', m)
      \<Longrightarrow> stamp_of (merge m c) = max (stamp_of c) (stamp_of d')"
begin

definition sent :: "'c \<Rightarrow> 'm \<Rightarrow> bool" where
  "sent c m \<longleftrightarrow> (\<exists>a d. inv d \<and> ok a d \<and> tick a d = (c, m))"

definition log_inv :: "('n, 'c, 'm) clock_system \<Rightarrow> bool" where
  "log_inv st \<longleftrightarrow> (\<forall>n. inv (fst st n))
     \<and> (\<forall>(n, c, m) \<in> set (snd st). sent c m \<and> stamp_of c \<le> stamp_of (fst st n))"

definition ordered :: "('n, 'a) clock_event list \<Rightarrow> ('n, 'c, 'm) clock_log \<Rightarrow> nat \<Rightarrow> bool" where
  "ordered es lg j \<longleftrightarrow> fst (lg ! j) = event_node (es ! j)
     \<and> (\<forall>i < j. fst (lg ! i) = event_node (es ! j)
          \<longrightarrow> stamp_of (log_clock lg i) < stamp_of (log_clock lg j))
     \<and> (\<forall>n i a. es ! j = Receive n i a
          \<longrightarrow> i < j \<and> stamp_of (log_clock lg i) < stamp_of (log_clock lg j))"

lemma sent_tick: "inv c \<Longrightarrow> ok a c \<Longrightarrow> tick a c = (c', m) \<Longrightarrow> sent c' m"
  by (auto simp: sent_def)

lemma merge_sent:
  assumes "inv c" "sent d m"
  shows "inv (merge m c)" "stamp_of c \<le> stamp_of (merge m c)" "stamp_of d \<le> stamp_of (merge m c)"
  using assms merge_inv merge_max by (auto simp: sent_def)

lemma log_inv_nth:
  assumes "log_inv (cs, lg)" "i < length lg"
  shows "sent (log_clock lg i) (snd (snd (lg ! i)))"
    and "stamp_of (log_clock lg i) \<le> stamp_of (cs (fst (lg ! i)))"
proof -
  have "lg ! i \<in> set lg" using assms(2) by simp
  then show "sent (log_clock lg i) (snd (snd (lg ! i)))"
    and "stamp_of (log_clock lg i) \<le> stamp_of (cs (fst (lg ! i)))"
    using assms(1) by (cases "lg ! i"; force simp: log_inv_def)+
qed

text \<open>A node that moves from a clock at least as late as its own to a later one.\<close>

lemma log_inv_extend:
  assumes "log_inv (cs, lg)" "inv c0" "stamp_of (cs n) \<le> stamp_of c0" "ok a c0" "tick a c0 = (c, m)"
  shows "log_inv (cs(n := c), lg @ [(n, c, m)])"
proof -
  have "stamp_of (cs n) < stamp_of c"
    using tick_less [OF assms(2,4,5)] assms(3) by simp
  then show ?thesis
    using assms(1) tick_inv [OF assms(2,4,5)] sent_tick [OF assms(2,4,5)]
    by (fastforce simp: log_inv_def)
qed

lemma ordered_append:
  "j < length es \<Longrightarrow> length lg = length es \<Longrightarrow> ordered (es @ [e]) (lg @ [x]) j \<longleftrightarrow> ordered es lg j"
  by (auto simp: ordered_def nth_append)

lemma ordered_last:
  assumes "log_inv (cs, lg)" "length lg = length es" "stamp_of (cs (event_node e)) \<le> stamp_of c0"
    and "inv c0" "ok a c0" "tick a c0 = (c, m)"
    and "\<And>n i a. e = Receive n i a \<Longrightarrow> i < length lg \<and> stamp_of (log_clock lg i) \<le> stamp_of c0"
  shows "ordered (es @ [e]) (lg @ [(event_node e, c, m)]) (length es)"
proof -
  have "stamp_of c0 < stamp_of c" by (rule tick_less [OF assms(4,5,6)])
  moreover have "stamp_of (log_clock lg i) \<le> stamp_of c0"
    if "i < length lg" "fst (lg ! i) = event_node e" for i
    using log_inv_nth(2) [OF assms(1) that(1)] that(2) assms(3) by simp
  ultimately show ?thesis
    using assms(2,7) by (fastforce simp: ordered_def nth_append)
qed

lemma step_ordered:
  assumes "log_inv (cs, lg)" "length lg = length es" "\<forall>j < length es. ordered es lg j"
    and "clock_step ok tick merge e (cs, lg) = Some st'"
  shows "log_inv st' \<and> length (snd st') = length (es @ [e])
    \<and> (\<forall>j < length (es @ [e]). ordered (es @ [e]) (snd st') j)"
proof -
  obtain c0 a c m where st': "st' = (cs(event_node e := c), lg @ [(event_node e, c, m)])"
    and c0: "inv c0" "ok a c0" "tick a c0 = (c, m)" "stamp_of (cs (event_node e)) \<le> stamp_of c0"
    and rcv: "\<And>n i a. e = Receive n i a \<Longrightarrow> i < length lg \<and> stamp_of (log_clock lg i) \<le> stamp_of c0"
  proof (cases e)
    case (Tick n a)
    obtain c m where "tick a (cs n) = (c, m)" by (cases "tick a (cs n)")
    with assms that [of c m "cs n" a] Tick show thesis
      by (auto simp: log_inv_def split: if_splits)
  next
    case (Receive n i a)
    let ?c0 = "merge (snd (snd (lg ! i))) (cs n)"
    obtain c m where cm: "tick a ?c0 = (c, m)" by (cases "tick a ?c0")
    have i: "i < length lg" using assms(4) Receive by (simp split: if_splits)
    have "inv (cs n)" using assms(1) by (simp add: log_inv_def)
    note ms = merge_sent [OF this log_inv_nth(1) [OF assms(1) i]]
    show thesis
      using assms(4) Receive cm i ms that [of c m ?c0 a] by (auto simp: Let_def split: if_splits)
  qed
  have "ordered (es @ [e]) (snd st') (length es)"
    unfolding st' snd_conv using assms(1,2) c0(4,1-3) rcv by (rule ordered_last)
  moreover have "log_inv st'" unfolding st' using assms(1) c0(1,4,2,3) by (rule log_inv_extend)
  ultimately show ?thesis
    using assms(2,3) by (auto simp: st' less_Suc_eq ordered_append)
qed

lemma exec_ordered:
  assumes "log_inv st" "length (snd st) = length pre" "\<forall>j < length pre. ordered pre (snd st) j"
    and "clock_exec ok tick merge es st = Some st'"
  shows "length (snd st') = length (pre @ es) \<and> (\<forall>j < length (pre @ es). ordered (pre @ es) (snd st') j)"
  using assms
proof (induction es arbitrary: pre st)
  case (Cons e es)
  obtain st1 where s1: "clock_step ok tick merge e st = Some st1"
    and s2: "clock_exec ok tick merge es st1 = Some st'"
    using Cons.prems(4) by (auto split: option.splits)
  obtain cs lg where "st = (cs, lg)" by (cases st)
  with step_ordered [of cs lg pre e st1] s1 Cons.prems
  have "log_inv st1" "length (snd st1) = length (pre @ [e])"
    "\<forall>j < length (pre @ [e]). ordered (pre @ [e]) (snd st1) j"
    by auto
  from Cons.IH [OF this s2] show ?case by simp
qed simp

lemma clock_condition:
  assumes "\<And>n. inv (cs n)" "clock_exec ok tick merge es (cs, []) = Some (cs', lg)"
    and "happens_before es i j"
  shows "i < j" "j < length lg" "stamp_of (log_clock lg i) < stamp_of (log_clock lg j)"
proof -
  have ord: "length lg = length es" "\<forall>j < length es. ordered es lg j"
    using exec_ordered [of "(cs, [])" "[]" es "(cs', lg)"] assms(1,2) by (simp_all add: log_inv_def)
  have "i < j \<and> j < length lg \<and> stamp_of (log_clock lg i) < stamp_of (log_clock lg j)"
    using assms(3)
  proof induction
    case (hb_program i j)
    then show ?case using ord by (auto simp: ordered_def)
  next
    case (hb_message j n i a)
    then show ?case using ord by (auto simp: ordered_def)
  qed auto
  then show "i < j" "j < length lg" "stamp_of (log_clock lg i) < stamp_of (log_clock lg j)" by auto
qed

end

interpretation hlc: logical_clock hlc_can_tick HLC_Now HLC_Update hlc_stamp hlc_ok
proof
  show "hlc_ok c'" if "hlc_ok c" "hlc_can_tick a c" "HLC_Now a c = (c', m)" for a c c' m
    using that by (rule HLC_Now_result(1))
  show "hlc_stamp c < hlc_stamp c'" if "hlc_ok c" "hlc_can_tick a c" "HLC_Now a c = (c', m)" for a c c' m
    using that by (rule HLC_Now_result(4))
  show "hlc_ok (HLC_Update m c)"
    if "hlc_ok c" "hlc_ok d" "hlc_can_tick a d" "HLC_Now a d = (d', m)" for a c d d' m
    using HLC_Update_result(1) [OF that(1) _ _ HLC_Now_result(3) [OF that(2-4)]]
      HLC_Now_result(1) [OF that(2-4)] that(2) by (simp add: hlc_ok_def)
  show "hlc_stamp (HLC_Update m c) = max (hlc_stamp c) (hlc_stamp d')"
    if "hlc_ok c" "hlc_ok d" "hlc_can_tick a d" "HLC_Now a d = (d', m)" for a c d d' m
    using HLC_Update_result(2) [OF that(1) _ _ HLC_Now_result(3) [OF that(2-4)]]
      HLC_Now_result(1) [OF that(2-4)] that(2) by (simp add: hlc_ok_def)
qed

section \<open>The value of a version\<close>

lemma uint_of_nat_small: "c \<le> 65535 \<Longrightarrow> uint (of_nat c :: 64 word) = int c"
  by (simp add: uint_nat unat_of_nat)

lemma or_push16: "c \<le> 65535 \<Longrightarrow> push_bit 16 k OR int c = k * 65536 + int c"
proof -
  assume "c \<le> 65535"
  then have "take_bit 16 (int c) = int c" by (intro take_bit_int_eq_self) simp_all
  then have "push_bit 16 k OR int c = concat_bit 16 (int c) k"
    by (simp add: concat_bit_def or.commute)
  also have "\<dots> = k * 65536 + int c"
    using \<open>take_bit 16 (int c) = int c\<close> by (simp add: concat_bit_eq push_bit_eq_mult)
  finally show ?thesis .
qed

lemma uint_version:
  assumes "c \<le> 65535"
  shows "uint (push_bit 16 (of_nat t AND mask 48) OR of_nat c :: int64)
    = (int t mod 2 ^ 48) * 65536 + int c"
proof -
  have "uint (of_nat t AND mask 48 :: int64) = take_bit 48 (int t)"
    by (simp add: unsigned_take_bit_eq unsigned_of_nat of_nat_take_bit flip: take_bit_eq_mask)
  then have "uint (push_bit 16 (of_nat t AND mask 48) :: int64) = push_bit 16 (take_bit 48 (int t))"
    by (simp only: unsigned_push_bit_eq) (simp add: take_bit_push_bit)
  then show ?thesis
    by (simp only: unsigned_or_eq uint_of_nat_small [OF assms] or_push16 [OF assms] take_bit_eq_mod)
qed

lemma hlcToInt64_stamp:
  assumes "CHR '':'' \<notin> set nid" "c \<le> 65535"
  shows "hlcToInt64 now (nid @ CHR '':'' # show_dec t @ CHR '':'' # show_dec c)
    = push_bit 16 (of_nat t AND mask 48) OR of_nat c"
proof -
  have m: "(281474976710655 :: 64 word) = mask 48" "(65535 :: 64 word) = mask 16"
    by (simp_all add: mask_eq_exp_minus_1)
  have "of_nat c AND mask 16 = (of_nat c :: int64)"
    using assms(2) by (simp add: mask_eq_iff uint_of_nat_small)
  moreover have "\<not> (65535 :: int64) < of_nat c"
    using assms(2) by (simp add: word_less_def uint_of_nat_small)
  ultimately show ?thesis
    by (simp add: hlcToInt64_def parse_hlc_stamp [OF assms(1)] Let_def m)
qed

lemma mod_mult_add:
  fixes a c k m :: int
  assumes "0 \<le> c" "c < k" "0 \<le> m"
  shows "(a * k + c) mod (k * m) = (a mod m) * k + c"
proof -
  have "(a * k + c) div k = a" "(a * k + c) mod k = c" using assms by simp_all
  then show ?thesis using zmod_zmult2_eq [OF assms(3), of "a * k + c" k] by (simp add: mult.commute)
qed

text \<open>
  A version is the timestamp reduced to a signed 48-bit number, times \<open>2^16\<close>, plus the counter:
  it is negative in every second half of a \<open>2^48\<close> ns (78 hour) period.
\<close>

lemma sint_version:
  assumes "CHR '':'' \<notin> set nid" "c \<le> 65535"
  shows "sint (hlcToInt64 now (nid @ CHR '':'' # show_dec t @ CHR '':'' # show_dec c))
    = ((int t + 2 ^ 47) mod 2 ^ 48 - 2 ^ 47) * 65536 + int c"
proof -
  let ?v = "push_bit 16 (of_nat t AND mask 48) OR of_nat c :: int64"
  have "sint ?v = signed_take_bit 63 (uint ?v)" by (simp add: sint_uint)
  also have "\<dots> = ((int t mod 2 ^ 48) * 65536 + int c + 2 ^ 63) mod 2 ^ 64 - 2 ^ 63"
    unfolding uint_version [OF assms(2)]
    by (simp add: signed_take_bit_eq_take_bit_shift take_bit_eq_mod)
  also have "((int t mod 2 ^ 48) * 65536 + int c + 2 ^ 63) mod 2 ^ 64
      = ((int t mod 2 ^ 48 + 2 ^ 47) * 65536 + int c) mod (65536 * 2 ^ 48)"
    by (simp add: algebra_simps)
  also have "\<dots> = ((int t mod 2 ^ 48 + 2 ^ 47) mod 2 ^ 48) * 65536 + int c"
    using assms(2) by (intro mod_mult_add) simp_all
  also have "(int t mod 2 ^ 48 + 2 ^ 47) mod 2 ^ 48 = (int t + 2 ^ 47) mod 2 ^ 48"
    by (rule mod_add_left_eq)
  finally show ?thesis
    by (simp add: hlcToInt64_stamp [OF assms] algebra_simps)
qed

lemma version_less:
  fixes t1 t2 :: nat
  assumes "c1 \<le> 65535" "c2 \<le> 65535" "(int t1 + 2 ^ 47) div 2 ^ 48 = (int t2 + 2 ^ 47) div 2 ^ 48"
    and "t1 < t2 \<or> t1 = t2 \<and> c1 < c2"
  shows "((int t1 + 2 ^ 47) mod 2 ^ 48 - 2 ^ 47) * 65536 + int c1
    < ((int t2 + 2 ^ 47) mod 2 ^ 48 - 2 ^ 47) * 65536 + int c2"
proof -
  have "(int t2 + 2 ^ 47) mod 2 ^ 48 - (int t1 + 2 ^ 47) mod 2 ^ 48 = int t2 - int t1"
    using assms(3) by (simp add: minus_div_mult_eq_mod [symmetric])
  moreover have "(a - k) * 65536 + int c1 < (b - k) * 65536 + int c2"
    if "b - a = int t2 - int t1" for a b k :: int
    using that assms(1,2,4) by auto
  ultimately show ?thesis by blast
qed

lemmas hlc_eval = HLC_Now_def NewHLC_def AppendInt_def append_digits.simps char_of_def Let_def
  bit_0
  hlc_ok_def hlc_can_tick_def

section \<open>Properties\<close>

text \<open>
  C31: the clock condition. Take any execution of nodes whose ids contain no colon, that start with fresh clocks, stamp events
  with \<open>Now\<close> and merge a received stamp with \<open>Update\<close> before stamping, for any readings of the
  wall clocks (they may stand still or run backwards) that do not make a counter pass \<open>2^63\<close>: if
  event \<open>i\<close> happens before event \<open>j\<close>, then \<open>i\<close> has the smaller stamp.
\<close>

theorem HLC_clock_condition:
  assumes "\<And>n. CHR '':'' \<notin> set (ids n)"
    and "clock_exec hlc_can_tick HLC_Now HLC_Update es (\<lambda>n. NewHLC (ids n), []) = Some (cs, lg)"
    and "happens_before es i j"
  shows "hlc_stamp (log_clock lg i) < hlc_stamp (log_clock lg j)"
  using hlc.clock_condition(3) [OF _ assms(2,3)] assms(1) by (simp add: hlc_ok_def NewHLC_def)

theorem HLC_clock_condition_witness:
  "let es = [Tick True 500, Receive False 0 100]; ids = (\<lambda>n. if n then ''a'' else ''b'');
       r = clock_exec hlc_can_tick HLC_Now HLC_Update es (\<lambda>n. NewHLC (ids n), [])
   in map (\<lambda>e. snd (snd e)) (snd (the r)) = [''a:500:0'', ''b:500:1'']
      \<and> hlc_stamp (log_clock (snd (the r)) 0) < hlc_stamp (log_clock (snd (the r)) 1)"
proof -
  let ?es = "[Tick True 500, Receive False 0 100] :: (bool, int64) clock_event list" and ?ids = "\<lambda>n. if n then ''a'' else ''b''"
  let ?r = "clock_exec hlc_can_tick HLC_Now HLC_Update ?es (\<lambda>n. NewHLC (?ids n), [])"
  have "?r \<noteq> None" by code_simp
  then obtain cs lg where r: "?r = Some (cs, lg)" by auto
  have "happens_before ?es 0 1" by (rule hb_message [of _ _ False _ 100]) simp_all
  then have "hlc_stamp (log_clock lg 0) < hlc_stamp (log_clock lg 1)"
    using HLC_clock_condition [OF _ r] by simp
  moreover have "map (\<lambda>e. snd (snd e)) (snd (the ?r)) = [''a:500:0'', ''b:500:1'']"
    by code_simp
  ultimately show ?thesis unfolding Let_def r by simp
qed

text \<open>
  \<open>Now\<close> never goes back and what it prints can be read back: the new stamp is later than the
  clock's and not before the wall clock, and the parser of \<open>Update\<close> and \<open>hlcToInt64\<close> recovers
  the exact timestamp and counter from the printed string.
\<close>

theorem HLC_Now_monotone_roundtrip:
  assumes "hlc_ok h" "hlc_can_tick now h" "HLC_Now now h = (h', s)"
  shows "hlc_stamp h < hlc_stamp h' \<and> sint now \<le> sint (lastTs h')
    \<and> parse_hlc s = Some (lastTs h', counter h')"
  using HLC_Now_result [OF assms] assms(1) by (simp add: parse_hlc_stamp hlc_ok_def hlc_stamp_def)

theorem HLC_Now_monotone_roundtrip_witness:
  "let (h, s) = HLC_Now 1700 (NewHLC ''node-1'') in
     s = ''node-1:1700:0'' \<and> hlc_stamp (NewHLC ''node-1'') < hlc_stamp h
     \<and> parse_hlc s = Some (lastTs h, counter h)"
proof -
  obtain h s where hs: "HLC_Now 1700 (NewHLC ''node-1'') = (h, s)" by (cases "HLC_Now 1700 (NewHLC ''node-1'')")
  have "snd (HLC_Now 1700 (NewHLC ''node-1'')) = ''node-1:1700:0''" by (simp add: hlc_eval)
  moreover have "hlc_ok (NewHLC ''node-1'')" "hlc_can_tick 1700 (NewHLC ''node-1'')" by (simp_all add: hlc_eval)
  ultimately show ?thesis
    using HLC_Now_monotone_roundtrip [OF _ _ hs] hs by simp
qed

text \<open>
  Versions order writes as the clock does, inside one period of the truncation. Two stamps
  printed by any clocks, with counters that fit in 16 bits and timestamps in the same \<open>2^48\<close> ns
  period (periods start at odd multiples of \<open>2^47\<close> ns), are ordered by \<open>hlcToInt64\<close> as signed
  versions exactly as the stamps are.
\<close>

theorem hlcToInt64_monotone:
  assumes "hlc_ok h1" "hlc_can_tick n1 h1" "HLC_Now n1 h1 = (h1', s1)"
    and "hlc_ok h2" "hlc_can_tick n2 h2" "HLC_Now n2 h2 = (h2', s2)"
    and "hlc_stamp h1' < hlc_stamp h2'"
    and "counter h1' \<le> 65535" "counter h2' \<le> 65535"
    and "(sint (lastTs h1') + 2 ^ 47) div 2 ^ 48 = (sint (lastTs h2') + 2 ^ 47) div 2 ^ 48"
  shows "sint (hlcToInt64 now1 s1) < sint (hlcToInt64 now2 s2)"
proof -
  note r1 = HLC_Now_result [OF assms(1-3)] and r2 = HLC_Now_result [OF assms(4-6)]
  have ts: "sint (lastTs h1') = int (unat (lastTs h1'))" "sint (lastTs h2') = int (unat (lastTs h2'))"
    using r1(1) r2(1) by (simp_all only: hlc_ok_def sint_eq_unat)
  have c: "unat (counter h1') \<le> 65535" "unat (counter h2') \<le> 65535"
    using assms(8,9) by (simp_all add: word_le_nat_alt)
  have nid: "CHR '':'' \<notin> set (nodeID h1)" "CHR '':'' \<notin> set (nodeID h2)"
    using assms(1,4) by (auto simp: hlc_ok_def)
  have lt: "unat (lastTs h1') < unat (lastTs h2')
      \<or> unat (lastTs h1') = unat (lastTs h2') \<and> unat (counter h1') < unat (counter h2')"
    using assms(7) by (simp only: hlc_stamp_def less_stamp_def stamp.sel ts of_nat_less_iff of_nat_eq_iff)
  show ?thesis
    unfolding r1(3) r2(3) sint_version [OF nid(1) c(1)] sint_version [OF nid(2) c(2)]
    using version_less [OF c assms(10) [unfolded ts] lt] .
qed

theorem hlcToInt64_monotone_witness:
  "sint (hlcToInt64 0 ''a:1700:0'') < sint (hlcToInt64 0 ''b:1800:0'')"
proof -
  obtain h1 where h1: "HLC_Now 1700 (NewHLC ''a'') = (h1, ''a:1700:0'')"
    and f1: "lastTs h1 = 1700" "counter h1 = 0"
  proof
    show "HLC_Now 1700 (NewHLC ''a'') = (fst (HLC_Now 1700 (NewHLC ''a'')), ''a:1700:0'')" by (simp add: hlc_eval)
  qed (simp_all add: hlc_eval)
  obtain h2 where h2: "HLC_Now 1800 (NewHLC ''b'') = (h2, ''b:1800:0'')"
    and f2: "lastTs h2 = 1800" "counter h2 = 0"
  proof
    show "HLC_Now 1800 (NewHLC ''b'') = (fst (HLC_Now 1800 (NewHLC ''b'')), ''b:1800:0'')" by (simp add: hlc_eval)
  qed (simp_all add: hlc_eval)
  have ok: "hlc_ok (NewHLC ''a'')" "hlc_can_tick 1700 (NewHLC ''a'')"
    "hlc_ok (NewHLC ''b'')" "hlc_can_tick 1800 (NewHLC ''b'')" by (simp_all add: hlc_eval)
  show ?thesis
    by (rule hlcToInt64_monotone [OF ok(1,2) h1 ok(3,4) h2])
      (simp_all add: hlc_stamp_def less_stamp_def f1 f2)
qed

text \<open>
  Across periods the order is lost. Two consecutive stamps of one clock, taken 40 hours apart,
  get versions in the opposite order, the later one negative: \<open>hlcToInt64\<close> does not preserve
  monotonicity over the 8.9 years its comment gives.
\<close>

theorem hlcToInt64_wraps:
  "\<exists>h. hlc_ok h \<and>
     (let (h1, s1) = HLC_Now 100000000000000 h; (h2, s2) = HLC_Now 244000000000000 h1 in
        hlc_stamp h1 < hlc_stamp h2
        \<and> sint (hlcToInt64 0 s2) < 0 \<and> 0 < sint (hlcToInt64 0 s1))"
proof -
  let ?h = "NewHLC ''a''"
  obtain h1 s1 where n1: "HLC_Now 100000000000000 ?h = (h1, s1)" by fastforce
  obtain h2 s2 where n2: "HLC_Now 244000000000000 h1 = (h2, s2)" by fastforce
  have ok: "hlc_ok ?h" "hlc_can_tick 100000000000000 ?h"
    by (simp_all add: hlc_ok_def hlc_can_tick_def NewHLC_def)
  note r1 = HLC_Now_result [OF ok n1]
  have f1: "lastTs h1 = 100000000000000" "counter h1 = 0"
    using n1 by (auto simp: HLC_Now_def NewHLC_def Let_def)
  have can2: "hlc_can_tick 244000000000000 h1" by (simp add: hlc_can_tick_def f1)
  note r2 = HLC_Now_result [OF r1(1) can2 n2]
  have f2: "lastTs h2 = 244000000000000" "counter h2 = 0" using n2 f1
    by (auto simp: HLC_Now_def Let_def)
  have nid: "CHR '':'' \<notin> set (nodeID ?h)" "nodeID h1 = nodeID ?h" using ok(1) r1(2) by (simp_all add: hlc_ok_def)
  have "0 < sint (hlcToInt64 0 s1)" "sint (hlcToInt64 0 s2) < 0"
    unfolding r1(3) r2(3) nid(2) f1 f2 using sint_version [OF nid(1)] by simp_all
  with ok(1) n1 n2 r2(4) show ?thesis by (intro exI [of _ ?h]) simp
qed

end
