(* ===== verification/Hash_Ring.thy ===== *)
theory Hash_Ring
  imports GridKV_Prelude
begin

text \<open>
  \<open>internal/cluster/hashring.go\<close>: consistent hashing with virtual nodes. The hash function
  \<open>xxh3.HashString128(s).Hi\<close> is third-party code and is the parameter \<open>hi\<close> of the definitions.
  \<open>sort.Slice\<close> leaves the order of equal hashes open. The definitions take one order, that of \<open>sort_key\<close>; the
  properties of the ring are stated for every ring that differs from the defined one in the order of equal hashes
  only (\<open>rearranged\<close>). The pooled buffers of \<open>GetN\<close> are fresh on every call: the result buffer is cut to
  length 0 before it is put back, and \<open>seen\<close> is cleared when it is taken.

  The locale \<open>placement\<close> states what the reader, the writer and the gossip component rely on, and is
  interpreted on \<open>GetN\<close>.
\<close>

section \<open>State\<close>

record ringNode =
  hash :: uint64
  nodeID :: string

record ringData =
  nodes :: "ringNode list"

record hashRing =
  version :: int64
  virtualNodes :: int
  data :: "ringData option"

definition newHashRing :: "int \<Rightarrow> hashRing" where
  "newHashRing vn =
     \<lparr>version = 0, virtualNodes = (if vn \<le> 0 then 128 else vn), data = Some \<lparr>nodes = []\<rparr>\<rparr>"

definition ring_Version :: "hashRing \<Rightarrow> int64" where
  "ring_Version r = version r"

section \<open>Update\<close>

text \<open>
  \<open>string(rune(i))\<close>: the UTF-8 encoding of code point \<open>i\<close>. Surrogates and numbers above \<open>0x10FFFF\<close>
  (negative runes included) become U+FFFD.
\<close>

definition utf8_bytes :: "nat \<Rightarrow> nat list" where
  "utf8_bytes r =
     (if r < 0x80 then [r]
      else if r < 0x800 then [0xC0 + r div 64, 0x80 + r mod 64]
      else if 0xD800 \<le> r \<and> r \<le> 0xDFFF \<or> r > 0x10FFFF then [0xEF, 0xBF, 0xBD]
      else if r < 0x10000 then [0xE0 + r div 4096, 0x80 + r div 64 mod 64, 0x80 + r mod 64]
      else [0xF0 + r div 262144, 0x80 + r div 4096 mod 64, 0x80 + r div 64 mod 64, 0x80 + r mod 64])"

definition string_of_rune :: "nat \<Rightarrow> string" where
  "string_of_rune i = map char_of (utf8_bytes (i mod 2 ^ 32))"

definition vnodeKey :: "string \<Rightarrow> nat \<Rightarrow> string" where
  "vnodeKey nid i = nid @ '':'' @ string_of_rune i"

definition build_ring :: "(string \<Rightarrow> uint64) \<Rightarrow> int \<Rightarrow> string list \<Rightarrow> ringNode list" where
  "build_ring hi vn ids =
     sort_key hash
       (concat (map (\<lambda>nid. map (\<lambda>i. \<lparr>hash = hi (vnodeKey nid i), nodeID = nid\<rparr>) [0..<nat vn]) ids))"

definition ring_Update ::
  "(string \<Rightarrow> uint64) \<Rightarrow> int64 \<Rightarrow> string list \<Rightarrow> hashRing \<Rightarrow> hashRing \<times> bool" where
  "ring_Update hi v ids r =
     (if sint v \<le> sint (version r) then (r, False)
      else if length ids = 0 then (r\<lparr>data := Some \<lparr>nodes = []\<rparr>, version := v\<rparr>, True)
      else (r\<lparr>data := Some \<lparr>nodes = build_ring hi (virtualNodes r) ids\<rparr>, version := v\<rparr>, True))"

section \<open>Lookup\<close>

text \<open>\<open>sort.Search\<close>: the least index in \<open>[i, j)\<close> at which \<open>f\<close> holds, by bisection.\<close>

function sort_Search :: "nat \<Rightarrow> nat \<Rightarrow> (nat \<Rightarrow> bool) \<Rightarrow> nat" where
  "sort_Search i j f =
     (if i < j
      then (let h = (i + j) div 2 in if \<not> f h then sort_Search (h + 1) j f else sort_Search i h f)
      else i)"
  by auto

termination
  by (relation "measure (\<lambda>(i, j, f). j - i)") auto

declare sort_Search.simps [simp del]

definition findNode :: "ringNode list \<Rightarrow> uint64 \<Rightarrow> nat option" where
  "findNode ns h =
     (if length ns = 0 then None
      else (let idx = sort_Search 0 (length ns) (\<lambda>i. hash (ns ! i) \<ge> h)
            in Some (if idx \<ge> length ns then 0 else idx)))"

definition ring_Get :: "(string \<Rightarrow> uint64) \<Rightarrow> hashRing \<Rightarrow> string \<Rightarrow> string" where
  "ring_Get hi r key =
     (case data r of
        None \<Rightarrow> ''''
      | Some d \<Rightarrow>
          if length (nodes d) = 0 then ''''
          else case findNode (nodes d) (hi key) of
            None \<Rightarrow> ''''
          | Some idx \<Rightarrow> nodeID (nodes d ! idx))"

function GetN_loop ::
  "ringNode list \<Rightarrow> nat \<Rightarrow> int \<Rightarrow> nat \<Rightarrow> string list \<Rightarrow> string list \<Rightarrow> string list" where
  "GetN_loop ns idx n i seen result =
     (if i < length ns \<and> int (length result) < n
      then (let pos = (idx + i) mod length ns; nid = nodeID (ns ! pos) in
            if nid \<notin> set seen then GetN_loop ns idx n (i + 1) (nid # seen) (result @ [nid])
            else GetN_loop ns idx n (i + 1) seen result)
      else result)"
  by auto

termination
  by (relation "measure (\<lambda>(ns, idx, n, i, seen, result). length ns - i)") auto

declare GetN_loop.simps [simp del]

definition ring_GetN :: "(string \<Rightarrow> uint64) \<Rightarrow> hashRing \<Rightarrow> string \<Rightarrow> int \<Rightarrow> string list" where
  "ring_GetN hi r key n =
     (case data r of
        None \<Rightarrow> []
      | Some d \<Rightarrow>
          if length (nodes d) = 0 \<or> n \<le> 0 then []
          else case findNode (nodes d) (hi key) of
            None \<Rightarrow> []
          | Some idx \<Rightarrow> GetN_loop (nodes d) idx n 0 [] [])"

section \<open>Binary search finds the first match\<close>

lemma sort_Search_step:
  "i < j \<Longrightarrow> \<not> f ((i + j) div 2) \<Longrightarrow> sort_Search i j f = sort_Search ((i + j) div 2 + 1) j f"
  "i < j \<Longrightarrow> f ((i + j) div 2) \<Longrightarrow> sort_Search i j f = sort_Search i ((i + j) div 2) f"
  "\<not> i < j \<Longrightarrow> sort_Search i j f = i"
  by (simp_all add: sort_Search.simps [of i j f] Let_def)

lemma sort_Search_first:
  assumes "\<forall>a b. i \<le> a \<and> a \<le> b \<and> b < j \<and> f a \<longrightarrow> f b" "i \<le> j"
  shows "i \<le> sort_Search i j f \<and> sort_Search i j f \<le> j
    \<and> (\<forall>k. i \<le> k \<and> k < sort_Search i j f \<longrightarrow> \<not> f k) \<and> (sort_Search i j f < j \<longrightarrow> f (sort_Search i j f))"
  using assms
proof (induction i j f rule: sort_Search.induct)
  case (1 i j f)
  let ?h = "(i + j) div 2"
  consider "\<not> i < j" | "i < j" "\<not> f ?h" | "i < j" "f ?h" by blast
  then show ?case
  proof cases
    case 1
    then show ?thesis using "1.prems"(2) by (auto simp: sort_Search_step(3))
  next
    case 2
    then have h: "i \<le> ?h" "?h < j" by auto
    have lo: "\<not> f k" if "i \<le> k" "k \<le> ?h" for k
      using "1.prems"(1) that h 2(2) by blast
    have "\<forall>a b. ?h + 1 \<le> a \<and> a \<le> b \<and> b < j \<and> f a \<longrightarrow> f b"
      using "1.prems"(1) h by (meson add_leD1 le_trans)
    from "1.IH"(1) [OF 2(1) refl 2(2) this] h
    have ih: "?h + 1 \<le> sort_Search (?h + 1) j f" "sort_Search (?h + 1) j f \<le> j"
      "\<And>k. ?h + 1 \<le> k \<Longrightarrow> k < sort_Search (?h + 1) j f \<Longrightarrow> \<not> f k"
      "sort_Search (?h + 1) j f < j \<Longrightarrow> f (sort_Search (?h + 1) j f)"
      by auto
    have "\<not> f k" if "i \<le> k" "k < sort_Search (?h + 1) j f" for k
      using lo [of k] ih(3) [of k] that by linarith
    then show ?thesis unfolding sort_Search_step(1) [of i j f, OF 2] using ih h by simp
  next
    case 3
    then have h: "i \<le> ?h" "?h < j" by auto
    have "\<forall>a b. i \<le> a \<and> a \<le> b \<and> b < ?h \<and> f a \<longrightarrow> f b"
      using "1.prems"(1) h(2) by (meson less_trans)
    from "1.IH"(2) [OF 3(1) refl _ this] h 3(2)
    have ih: "i \<le> sort_Search i ?h f" "sort_Search i ?h f \<le> ?h"
      "\<And>k. i \<le> k \<Longrightarrow> k < sort_Search i ?h f \<Longrightarrow> \<not> f k"
      "sort_Search i ?h f < ?h \<Longrightarrow> f (sort_Search i ?h f)"
      by auto
    have "f (sort_Search i ?h f)" using ih(2,4) 3(2) by (cases "sort_Search i ?h f = ?h") auto
    then show ?thesis unfolding sort_Search_step(2) [of i j f, OF 3] using ih h by simp
  qed
qed

section \<open>The clockwise walk\<close>

text \<open>
  The abstract view of a lookup: walk the ring from the first hash at or after the key's, wrap
  around, and keep the first occurrence of every node.
\<close>

primrec uniq :: "'a list \<Rightarrow> 'a list \<Rightarrow> 'a list" where
  "uniq acc [] = []"
| "uniq acc (x # xs) = (if x \<in> set acc then uniq acc xs else x # uniq (x # acc) xs)"

definition walk :: "uint64 \<Rightarrow> ringNode list \<Rightarrow> ringNode list" where
  "walk h ns = dropWhile (\<lambda>x. hash x < h) ns @ takeWhile (\<lambda>x. hash x < h) ns"

definition preference :: "uint64 \<Rightarrow> ringNode list \<Rightarrow> string list" where
  "preference h ns = uniq [] (map nodeID (walk h ns))"

definition ring_nodes :: "hashRing \<Rightarrow> ringNode list" where
  "ring_nodes r = (case data r of None \<Rightarrow> [] | Some d \<Rightarrow> nodes d)"

definition ring_inv :: "hashRing \<Rightarrow> bool" where
  "ring_inv r \<longleftrightarrow> sorted (map hash (ring_nodes r)) \<and> 0 < virtualNodes r"

lemma set_uniq: "set (uniq acc xs) = set xs - set acc"
  by (induction xs arbitrary: acc) auto

lemma distinct_uniq: "distinct (uniq acc xs)"
  by (induction xs arbitrary: acc) (auto simp: set_uniq)

lemma uniq_filter:
  "\<forall>x. P x \<longrightarrow> (x \<in> set acc) = (x \<in> set acc') \<Longrightarrow> uniq acc (filter P xs) = filter P (uniq acc' xs)"
proof (induction xs arbitrary: acc acc')
  case (Cons x xs)
  have ext: "\<forall>y. P y \<longrightarrow> (y \<in> set (x # acc)) = (y \<in> set (x # acc'))" using Cons.prems by simp
  show ?case
  proof (cases "P x")
    case True
    then have "(x \<in> set acc) = (x \<in> set acc')" using Cons.prems by blast
    then show ?thesis using True Cons.IH [OF ext] Cons.IH [OF Cons.prems] by simp
  next
    case False
    then have "\<forall>y. P y \<longrightarrow> (y \<in> set acc) = (y \<in> set (x # acc'))" using Cons.prems by auto
    from Cons.IH [OF this] Cons.IH [OF Cons.prems] False show ?thesis by simp
  qed
qed simp

lemma set_walk [simp]: "set (walk h ns) = set ns"
proof -
  have "set ns = set (takeWhile (\<lambda>x. hash x < h) ns @ dropWhile (\<lambda>x. hash x < h) ns)" by simp
  then show ?thesis by (simp only: walk_def set_append Un_commute)
qed

lemma set_preference [simp]: "set (preference h ns) = nodeID ` set ns"
  by (simp add: preference_def set_uniq)

lemma distinct_preference [simp]: "distinct (preference h ns)"
  by (simp add: preference_def distinct_uniq)

lemma preference_Nil_iff [simp]: "preference h ns = [] \<longleftrightarrow> ns = []"
  by (metis image_is_empty set_empty set_preference)

lemma sorted_takeWhile_filter:
  "sorted (map f xs) \<Longrightarrow> takeWhile (\<lambda>x. f x < h) xs = filter (\<lambda>x. f x < h) xs
   \<and> dropWhile (\<lambda>x. f x < h) xs = filter (\<lambda>x. \<not> f x < (h :: 'b::linorder)) xs"
proof (induction xs)
  case (Cons x xs)
  show ?case
  proof (cases "f x < h")
    case False
    with Cons.prems have "\<forall>y \<in> set xs. \<not> f y < h" by auto
    with False show ?thesis by (auto simp: filter_empty_conv filter_id_conv)
  qed (use Cons in auto)
qed simp

lemma walk_filter:
  "sorted (map hash ns) \<Longrightarrow> walk h (filter P ns) = filter P (walk h ns)"
proof -
  assume s: "sorted (map hash ns)"
  then have "sorted (map hash (filter P ns))" by (rule sorted_filter)
  moreover have "filter Q (filter P ns) = filter P (filter Q ns)" for Q by (induction ns) auto
  ultimately show ?thesis
    using s by (simp only: walk_def sorted_takeWhile_filter filter_append)
qed

lemma findNode_walk:
  assumes "sorted (map hash ns)" "ns \<noteq> []"
  obtains idx where "findNode ns h = Some idx" "idx < length ns" "rotate idx ns = walk h ns"
proof -
  let ?f = "\<lambda>i. hash (ns ! i) \<ge> h"
  let ?s = "sort_Search 0 (length ns) ?f"
  have mono: "\<forall>a b. 0 \<le> a \<and> a \<le> b \<and> b < length ns \<and> ?f a \<longrightarrow> ?f b"
  proof (intro allI impI)
    fix a b assume ab: "0 \<le> a \<and> a \<le> b \<and> b < length ns \<and> h \<le> hash (ns ! a)"
    then have "hash (ns ! a) \<le> hash (ns ! b)" using sorted_nth_mono [OF assms(1), of a b] by simp
    with ab show "h \<le> hash (ns ! b)" by (blast intro: order_trans)
  qed
  have "?s \<le> length ns \<and> (\<forall>k. k < ?s \<longrightarrow> \<not> ?f k) \<and> (?s < length ns \<longrightarrow> ?f ?s)"
    using sort_Search_first [OF mono] by simp
  then have tw: "takeWhile (\<lambda>x. hash x < h) ns = take ?s ns" "?s \<le> length ns"
    by (auto intro!: takeWhile_eq_take_P_nth)
  have dw: "dropWhile (\<lambda>x. hash x < h) ns = drop ?s ns"
    using tw by (simp add: dropWhile_eq_drop)
  have "rotate (if ?s \<ge> length ns then 0 else ?s) ns = walk h ns"
    using tw(2) by (auto simp: walk_def tw(1) dw rotate_drop_take)
  with assms(2) show thesis by (intro that) (auto simp: findNode_def Let_def)
qed

lemma GetN_loop_uniq:
  assumes "set seen = set result"
  shows "GetN_loop ns idx n i seen result
    = result @ take (nat n - length result) (uniq seen (drop i (map nodeID (rotate idx ns))))"
  using assms
proof (induction ns idx n i seen result rule: GetN_loop.induct)
  case (1 ns idx n i seen result)
  show ?case
  proof (cases "i < length ns \<and> int (length result) < n")
    case True
    let ?nid = "nodeID (ns ! ((idx + i) mod length ns))"
    have d: "drop i (map nodeID (rotate idx ns)) = ?nid # drop (i + 1) (map nodeID (rotate idx ns))"
      using True Cons_nth_drop_Suc [of i "map nodeID (rotate idx ns)"] by (simp add: nth_rotate)
    have lt: "length result < nat n" using True by linarith
    have m: "take (nat n - length result) (x # xs) = x # take (nat n - Suc (length result)) xs"
      for x and xs :: "string list" using lt by (simp add: take_Cons' not_le)
    show ?thesis
    proof (cases "?nid \<in> set seen")
      case seen: True
      have "GetN_loop ns idx n i seen result = GetN_loop ns idx n (i + 1) seen result"
        using True seen by (simp add: GetN_loop.simps [of ns idx n i seen result] Let_def)
      with "1.IH"(2) [OF True refl refl] seen "1.prems" show ?thesis unfolding d by simp
    next
      case new: False
      have "GetN_loop ns idx n i seen result
          = GetN_loop ns idx n (i + 1) (?nid # seen) (result @ [?nid])"
        using True new by (simp add: GetN_loop.simps [of ns idx n i seen result] Let_def)
      with "1.IH"(1) [OF True refl refl new] new "1.prems" show ?thesis unfolding d by (simp add: m)
    qed
  next
    case False
    then have "GetN_loop ns idx n i seen result = result"
      by (subst GetN_loop.simps) (rule if_not_P)
    with False show ?thesis by auto
  qed
qed

section \<open>Every operation on the ring\<close>

lemma ring_nodes_new [simp]: "ring_nodes (newHashRing vn) = []"
  by (simp add: ring_nodes_def newHashRing_def)

lemma ring_inv_new [simp]: "ring_inv (newHashRing vn)"
  by (simp add: ring_inv_def) (simp add: newHashRing_def)

lemma ring_Update_accept:
  assumes "ring_Update hi v ids r = (r', True)"
  shows "ring_nodes r' = build_ring hi (virtualNodes r) ids" "version r' = v"
    "virtualNodes r' = virtualNodes r" "sint (version r) < sint v"
  using assms by (auto simp: ring_Update_def ring_nodes_def build_ring_def split: if_splits)

lemma ring_inv_Update: "ring_inv r \<Longrightarrow> ring_inv (fst (ring_Update hi v ids r))"
  by (auto simp: ring_inv_def ring_Update_def ring_nodes_def build_ring_def)

lemma set_build_ring: "0 < vn \<Longrightarrow> nodeID ` set (build_ring hi vn ids) = set ids"
  by (auto simp: build_ring_def image_UN image_image image_constant_conv)

lemma build_ring_filter:
  "build_ring hi vn (filter P ids) = filter (\<lambda>x. P (nodeID x)) (build_ring hi vn ids)"
proof -
  have "filter (\<lambda>x. P (nodeID x))
      (concat (map (\<lambda>nid. map (\<lambda>i. \<lparr>hash = hi (vnodeKey nid i), nodeID = nid\<rparr>) [0..<nat vn]) ids))
    = concat (map (\<lambda>nid. map (\<lambda>i. \<lparr>hash = hi (vnodeKey nid i), nodeID = nid\<rparr>) [0..<nat vn])
        (filter P ids))"
    by (induction ids) (auto simp: filter_map o_def)
  then show ?thesis by (simp add: build_ring_def filter_sort)
qed

lemma preference_filter:
  assumes "sorted (map hash ns)"
  shows "preference h (filter (\<lambda>x. P (nodeID x)) ns) = filter P (preference h ns)"
proof -
  have "map nodeID (filter (\<lambda>x. P (nodeID x)) xs) = filter P (map nodeID xs)" for xs
    by (simp add: filter_map o_def)
  from this [of "walk h ns"] show ?thesis
    unfolding preference_def walk_filter [OF assms] by (simp only:) (rule uniq_filter, simp)
qed

text \<open>\<open>GetN\<close> implements the abstract lookup.\<close>

lemma ring_GetN_nodes:
  "ring_GetN hi r key n =
     (if ring_nodes r = [] \<or> n \<le> 0 then []
      else case findNode (ring_nodes r) (hi key) of
        None \<Rightarrow> [] | Some idx \<Rightarrow> GetN_loop (ring_nodes r) idx n 0 [] [])"
  by (simp add: ring_GetN_def ring_nodes_def split: option.split)

lemma ring_Get_nodes:
  "ring_Get hi r key =
     (if ring_nodes r = [] then ''''
      else case findNode (ring_nodes r) (hi key) of
        None \<Rightarrow> '''' | Some idx \<Rightarrow> nodeID (ring_nodes r ! idx))"
  by (simp add: ring_Get_def ring_nodes_def split: option.split)

lemma ring_GetN_preference:
  assumes "sorted (map hash (ring_nodes r))"
  shows "ring_GetN hi r key n = take (nat n) (preference (hi key) (ring_nodes r))"
proof (cases "ring_nodes r = [] \<or> n \<le> 0")
  case True
  then show ?thesis by (auto simp: ring_GetN_nodes preference_def walk_def)
next
  case False
  then obtain idx where idx: "findNode (ring_nodes r) (hi key) = Some idx"
    "rotate idx (ring_nodes r) = walk (hi key) (ring_nodes r)"
    using findNode_walk [OF assms] by blast
  have "GetN_loop (ring_nodes r) idx n 0 [] [] = take (nat n) (preference (hi key) (ring_nodes r))"
    by (simp add: GetN_loop_uniq idx(2) preference_def)
  with False idx(1) show ?thesis by (simp add: ring_GetN_nodes)
qed

lemma uniq_hd: "xs \<noteq> [] \<Longrightarrow> hd (uniq [] xs) = hd xs"
  by (cases xs) auto

lemma ring_Get_preference:
  assumes "sorted (map hash (ring_nodes r))"
  shows "ring_Get hi r key =
    (if ring_nodes r = [] then '''' else hd (preference (hi key) (ring_nodes r)))"
proof (cases "ring_nodes r = []")
  case True
  then show ?thesis by (simp add: ring_Get_nodes)
next
  case False
  then obtain idx where idx: "findNode (ring_nodes r) (hi key) = Some idx" "idx < length (ring_nodes r)"
    "rotate idx (ring_nodes r) = walk (hi key) (ring_nodes r)"
    using findNode_walk [OF assms] by blast
  have "hd (preference (hi key) (ring_nodes r)) = hd (map nodeID (rotate idx (ring_nodes r)))"
    unfolding preference_def idx(3) [symmetric] using False by (intro uniq_hd) simp
  also have "\<dots> = nodeID (ring_nodes r ! idx)"
    using idx(2) False by (simp add: hd_map hd_rotate_conv_nth)
  finally show ?thesis
    using False idx(1) by (simp add: ring_Get_nodes)
qed

section \<open>Replica placement\<close>

text \<open>
  What the readers and writers rely on: for every key, \<open>place key n\<close> lists at most \<open>n\<close> different
  nodes, all of them when there are at most \<open>n\<close>, and a longer list extends a shorter one. Inside
  the locale: the replica sets of a key are nested, and a read set and a write set of one replica
  list that together have more members than the list have a node in common (the quorum argument).
\<close>

locale placement =
  fixes place :: "'k \<Rightarrow> int \<Rightarrow> 'n list" and members :: "'n set"
  assumes place_distinct: "distinct (place key n)"
    and place_members: "set (place key n) \<subseteq> members"
    and place_length: "length (place key n) = min (nat n) (card members)"
    and place_prefix: "m \<le> n \<Longrightarrow> place key m = take (nat m) (place key n)"
    and members_finite: "finite members"
begin

lemma place_mono: "m \<le> n \<Longrightarrow> set (place key m) \<subseteq> set (place key n)"
  using place_prefix by (metis set_take_subset)

lemma place_all: "int (card members) \<le> n \<Longrightarrow> set (place key n) = members"
  using place_members place_length [of key n] distinct_card [OF place_distinct, of key n]
  by (intro card_subset_eq members_finite) auto

lemma quorum_overlap:
  assumes "R \<subseteq> set (place key n)" "W \<subseteq> set (place key n)" "card R + card W > nat n"
  shows "R \<inter> W \<noteq> {}"
proof
  assume "R \<inter> W = {}"
  then have "card (R \<union> W) = card R + card W"
    using assms(1,2) by (intro card_Un_disjoint) (auto intro: finite_subset)
  moreover have "card (R \<union> W) \<le> length (place key n)"
    using assms(1,2) card_mono [of "set (place key n)" "R \<union> W"] card_length [of "place key n"] by simp
  ultimately show False using assms(3) place_length [of key n] by linarith
qed

end

lemma placement_ring:
  assumes "ring_inv r"
  shows "placement (ring_GetN hi r) (nodeID ` set (ring_nodes r))"
proof
  note p = ring_GetN_preference [OF assms [unfolded ring_inv_def, THEN conjunct1]]
  fix key m n
  show "distinct (ring_GetN hi r key n)" by (simp add: p)
  show "set (ring_GetN hi r key n) \<subseteq> nodeID ` set (ring_nodes r)"
    using set_take_subset [of "nat n" "preference (hi key) (ring_nodes r)"] by (simp add: p)
  show "length (ring_GetN hi r key n) = min (nat n) (card (nodeID ` set (ring_nodes r)))"
    using distinct_card [OF distinct_preference [of "hi key" "ring_nodes r"]] by (simp add: p)
  show "ring_GetN hi r key m = take (nat m) (ring_GetN hi r key n)" if "m \<le> n"
    using that by (simp add: p min_def)
qed simp

text \<open>The ring of a cluster: a new ring after one accepted update.\<close>

definition ring_of :: "(string \<Rightarrow> uint64) \<Rightarrow> int \<Rightarrow> string list \<Rightarrow> hashRing" where
  "ring_of hi vn ids = fst (ring_Update hi 1 ids (newHashRing vn))"

lemma ring_inv_ring_of [simp]: "ring_inv (ring_of hi vn ids)"
  by (simp add: ring_of_def ring_inv_Update)

interpretation ring: placement "ring_GetN hi (ring_of hi vn ids)"
  "nodeID ` set (ring_nodes (ring_of hi vn ids))" for hi vn ids
  by (rule placement_ring) simp

lemma take_removeAll:
  "distinct xs \<Longrightarrow> take n (filter (\<lambda>y. y \<noteq> x) xs) = take n (filter (\<lambda>y. y \<noteq> x) (take (Suc n) xs))"
proof (induction xs arbitrary: n)
  case (Cons y ys)
  show ?case
  proof (cases "y = x")
    case True
    then have "filter (\<lambda>y. y \<noteq> x) ys = ys" "filter (\<lambda>y. y \<noteq> x) (take n ys) = take n ys"
      using Cons.prems by (auto simp: filter_id_conv dest: in_set_takeD)
    with True show ?thesis by simp
  next
    case False
    then show ?thesis using Cons by (cases n) auto
  qed
qed simp

definition ring_Updates ::
  "(string \<Rightarrow> uint64) \<Rightarrow> (int64 \<times> string list) list \<Rightarrow> hashRing \<Rightarrow> hashRing" where
  "ring_Updates hi ups r = fold (\<lambda>(v, ids) r. fst (ring_Update hi v ids r)) ups r"

lemma ring_inv_Updates: "ring_inv r \<Longrightarrow> ring_inv (ring_Updates hi ups r)"
  unfolding ring_Updates_def
  by (induction ups arbitrary: r) (auto simp: ring_inv_Update)

lemma ring_Update_members:
  assumes "ring_inv r0" "ring_Update hi v ids r0 = (r, True)"
  shows "ring_inv r" "nodeID ` set (ring_nodes r) = set ids"
  using assms ring_inv_Update [OF assms(1), of hi v ids] ring_Update_accept [OF assms(2)]
  by (simp_all add: set_build_ring ring_inv_def)

lemma ring_of_members: "nodeID ` set (ring_nodes (ring_of hi vn ids)) = set ids"
proof -
  have "ring_Update hi 1 ids (newHashRing vn) = (ring_of hi vn ids, True)"
    by (simp add: ring_of_def ring_Update_def newHashRing_def)
  then show ?thesis by (rule ring_Update_members(2) [OF ring_inv_new])
qed

section \<open>Rings up to the order of equal hashes\<close>

definition rearranged :: "hashRing \<Rightarrow> hashRing \<Rightarrow> bool" where
  "rearranged r q \<longleftrightarrow> mset (ring_nodes q) = mset (ring_nodes r) \<and> sorted (map hash (ring_nodes q))
     \<and> version q = version r \<and> virtualNodes q = virtualNodes r"

lemma rearranged_refl: "ring_inv r \<Longrightarrow> rearranged r r"
  by (simp add: rearranged_def ring_inv_def)

lemma rearranged_inv:
  assumes "rearranged r q" "ring_inv r"
  shows "ring_inv q" "set (ring_nodes q) = set (ring_nodes r)"
  using assms by (simp_all add: rearranged_def ring_inv_def) (metis mset_eq_setD)

lemma rearranged_distinct:
  assumes "rearranged r q" "ring_inv r" "distinct (map hash (ring_nodes r))"
  shows "ring_nodes q = ring_nodes r"
proof (rule map_inj_on)
  have m: "mset (map hash (ring_nodes q)) = mset (map hash (ring_nodes r))"
    using assms(1) by (metis mset_map rearranged_def)
  show "map hash (ring_nodes q) = map hash (ring_nodes r)"
    using properties_for_sort [OF m] assms(1,2) by (simp add: rearranged_def ring_inv_def sorted_sort_id)
  show "inj_on hash (set (ring_nodes q) \<union> set (ring_nodes r))"
    using assms(3) rearranged_inv(2) [OF assms(1,2)] by (simp add: distinct_map)
qed

section \<open>The walk visits the nodes by their clockwise distance\<close>

definition nearest :: "('a \<Rightarrow> 'b::linorder) \<Rightarrow> ('a \<Rightarrow> 'n) \<Rightarrow> 'a list \<Rightarrow> 'n \<Rightarrow> 'b" where
  "nearest d f xs n = Min (set (map d (filter (\<lambda>x. f x = n) xs)))"

text \<open>How far clockwise from \<open>h\<close> the nearest virtual node of a node lies; the subtraction wraps.\<close>

definition clockwise :: "uint64 \<Rightarrow> ringNode list \<Rightarrow> string \<Rightarrow> uint64" where
  "clockwise h ns nid = nearest (\<lambda>x. hash x - h) nodeID ns nid"

lemma sub_before: "h \<le> a \<Longrightarrow> a \<le> b \<Longrightarrow> a - h \<le> b - h" for a b h :: uint64
  by (simp add: word_le_nat_alt unat_sub)

lemma sub_after: "a < h \<Longrightarrow> a \<le> b \<Longrightarrow> b < h \<Longrightarrow> a - h \<le> b - h" for a b h :: uint64
  by (simp add: word_le_nat_alt word_less_nat_alt unat_sub_if')

lemma sub_wrap: "h \<le> a \<Longrightarrow> b < h \<Longrightarrow> a - h \<le> b - h" for a b h :: uint64
proof -
  assume "h \<le> a" "b < h"
  moreover have "unat a < 2 ^ LENGTH(64)" by (rule unsigned_less)
  ultimately show ?thesis by (simp add: word_le_nat_alt word_less_nat_alt unat_sub_if')
qed

lemma sorted_walk:
  assumes "sorted (map hash ns)"
  shows "sorted (map (\<lambda>x. hash x - h) (walk h ns))"
proof -
  have s: "sorted_wrt (\<lambda>x y. hash x \<le> hash y) (filter P ns)" for P
    using sorted_filter [OF assms, of P] by (simp add: sorted_map)
  have "sorted (map (\<lambda>x. hash x - h) (filter (\<lambda>x. \<not> hash x < h) ns))"
    unfolding sorted_map by (rule sorted_wrt_mono_rel [OF _ s]) (auto simp: not_less intro: sub_before)
  moreover have "sorted (map (\<lambda>x. hash x - h) (filter (\<lambda>x. hash x < h) ns))"
    unfolding sorted_map by (rule sorted_wrt_mono_rel [OF _ s]) (auto intro: sub_after)
  ultimately show ?thesis
    by (auto simp: walk_def sorted_takeWhile_filter [OF assms] sorted_append not_less intro: sub_wrap)
qed

lemma nearest_skip: "f x \<noteq> n \<Longrightarrow> nearest d f (x # xs) n = nearest d f xs n"
  by (simp add: nearest_def)

lemma nearest_first: "\<forall>y \<in> set xs. d x \<le> d y \<Longrightarrow> nearest d f (x # xs) (f x) = d x"
  by (auto simp: nearest_def intro!: Min_eqI)

lemma nearest_bound: "\<forall>y \<in> set xs. d x \<le> d y \<Longrightarrow> n \<in> f ` set xs \<Longrightarrow> d x \<le> nearest d f xs n"
  unfolding nearest_def by (intro Min.boundedI) (auto simp: filter_empty_conv)

lemma sorted_first: "sorted (map d xs) \<Longrightarrow> sorted (map (nearest d f xs) (uniq acc (map f xs)))"
proof (induction xs arbitrary: acc)
  case (Cons x xs)
  have le: "\<forall>y \<in> set xs. d x \<le> d y" using Cons.prems by simp
  have eq: "map (nearest d f (x # xs)) (uniq acc' (map f xs)) = map (nearest d f xs) (uniq acc' (map f xs))"
    if "f x \<in> set acc'" for acc'
    using that by (auto simp: set_uniq intro!: nearest_skip)
  show ?case
  proof (cases "f x \<in> set acc")
    case True
    then have "uniq acc (map f (x # xs)) = uniq acc (map f xs)" by simp
    moreover have "sorted (map (nearest d f xs) (uniq acc (map f xs)))" using Cons.IH Cons.prems by simp
    ultimately show ?thesis by (simp only: eq [OF True])
  next
    case False
    have "sorted (map (nearest d f xs) (uniq (f x # acc) (map f xs)))" using Cons.IH Cons.prems by simp
    moreover have "\<forall>n \<in> set (uniq (f x # acc) (map f xs)). d x \<le> nearest d f xs n"
      using nearest_bound [OF le, of _ f] by (simp add: set_uniq)
    ultimately have "sorted (d x # map (nearest d f xs) (uniq (f x # acc) (map f xs)))" by simp
    moreover have "uniq acc (map f (x # xs)) = f x # uniq (f x # acc) (map f xs)" using False by simp
    ultimately show ?thesis by (simp only: list.map(2) eq [OF list.set_intros(1)] nearest_first [OF le])
  qed
qed simp

lemma sorted_preference:
  assumes "sorted (map hash ns)"
  shows "sorted (map (clockwise h ns) (preference h ns))"
proof -
  have "clockwise h ns = nearest (\<lambda>x. hash x - h) nodeID (walk h ns)" by (rule ext) (simp add: clockwise_def nearest_def)
  then show ?thesis using sorted_first [OF sorted_walk [OF assms], of h nodeID "[]"] by (simp add: preference_def)
qed

lemma sorted_split:
  assumes "sorted (map d xs)" "x \<in> set (take n xs)" "y \<in> set (drop n xs)"
  shows "d x \<le> d y"
proof -
  have "sorted (map d (take n xs) @ map d (drop n xs))"
    using assms(1) by (simp only: map_append [symmetric] append_take_drop_id)
  then show ?thesis using assms(2,3) by (auto simp: sorted_append)
qed

section \<open>Properties\<close>

text \<open>
  C29: replica placement. After any history of updates, once the membership list \<open>ids\<close> has been accepted, and however
  equal hashes are ordered, \<open>GetN\<close> returns for every key the \<open>min n |ids|\<close> different nodes of \<open>ids\<close> that come first
  clockwise from the hash of the key, in this order: their distances do not decrease, and no other node of \<open>ids\<close> is
  nearer. The first of them is the node \<open>Get\<close> returns, and asking for fewer replicas gives a prefix.
\<close>

theorem ring_GetN_replicas:
  assumes "ring_Update hi v ids (ring_Updates hi ups (newHashRing vn)) = (q, True)" "rearranged q r"
  shows "length (ring_GetN hi r key n) = min (nat n) (card (set ids))
    \<and> distinct (ring_GetN hi r key n) \<and> set (ring_GetN hi r key n) \<subseteq> set ids
    \<and> sorted (map (clockwise (hi key) (ring_nodes r)) (ring_GetN hi r key n))
    \<and> (\<forall>x \<in> set (ring_GetN hi r key n). \<forall>y \<in> set ids - set (ring_GetN hi r key n).
         clockwise (hi key) (ring_nodes r) x \<le> clockwise (hi key) (ring_nodes r) y)
    \<and> (0 < n \<and> ids \<noteq> [] \<longrightarrow> hd (ring_GetN hi r key n) = ring_Get hi r key)
    \<and> (m \<le> n \<longrightarrow> ring_GetN hi r key m = take (nat m) (ring_GetN hi r key n))"
proof -
  note q = ring_Update_members [OF ring_inv_Updates [OF ring_inv_new] assms(1)]
  note r = rearranged_inv [OF assms(2) q(1)]
  have ids: "nodeID ` set (ring_nodes r) = set ids" using q(2) r(2) by simp
  note pl = placement_ring [OF r(1), of hi, unfolded ids]
  have s: "sorted (map hash (ring_nodes r))" using r(1) by (simp add: ring_inv_def)
  let ?p = "preference (hi key) (ring_nodes r)" and ?d = "clockwise (hi key) (ring_nodes r)"
  note g = ring_GetN_preference [OF s, of hi key]
  have hd: "hd (ring_GetN hi r key n) = ring_Get hi r key" if "0 < n" "ids \<noteq> []"
  proof -
    have "ring_nodes r \<noteq> []" using that(2) ids by auto
    with that(1) show ?thesis by (simp add: g ring_Get_preference [OF s] hd_take)
  qed
  have near: "?d x \<le> ?d y" if "x \<in> set (ring_GetN hi r key n)" "y \<in> set ids - set (ring_GetN hi r key n)" for x y
  proof (rule sorted_split [OF sorted_preference [OF s]])
    show "x \<in> set (take (nat n) ?p)" using that(1) by (simp add: g)
    have "y \<in> set (take (nat n) ?p @ drop (nat n) ?p)" using that(2) ids by simp
    then show "y \<in> set (drop (nat n) ?p)" using that(2) by (simp only: g set_append Un_iff) simp
  qed
  have "sorted (map ?d (ring_GetN hi r key n))"
    using sorted_preference [OF s] by (simp add: g take_map [symmetric] sorted_wrt_take)
  with hd near show ?thesis
    using placement.place_distinct [OF pl] placement.place_length [OF pl]
      placement.place_members [OF pl] placement.place_prefix [OF pl] by blast
qed

theorem ring_GetN_replicas_witness:
  "let hi = (\<lambda>s. sum_list (map (\<lambda>c. of_nat (of_char c)) s));
       r = fst (ring_Update hi 1 [''a'', ''b'', ''c''] (newHashRing 2)); ns = ring_GetN hi r ''k'' 2
   in length ns = 2 \<and> distinct ns \<and> sorted (map (clockwise (hi ''k'') (ring_nodes r)) ns)"
proof -
  let ?hi = "\<lambda>s. sum_list (map (\<lambda>c. of_nat (of_char c)) s) :: uint64"
  let ?r = "fst (ring_Update ?hi 1 [''a'', ''b'', ''c''] (newHashRing 2))"
  have u: "ring_Update ?hi 1 [''a'', ''b'', ''c''] (ring_Updates ?hi [] (newHashRing 2)) = (?r, True)"
    by (simp add: ring_Updates_def ring_Update_def newHashRing_def)
  have "rearranged ?r ?r" by (intro rearranged_refl ring_inv_Update ring_inv_new)
  from ring_GetN_replicas [OF u this, where key = "''k''" and n = 2 and m = 1] show ?thesis by (simp add: Let_def)
qed

text \<open>
  C36: consistent hashing moves as little as possible. When node \<open>x\<close> leaves the membership and the hashes of the
  virtual nodes differ, the replica list of every key is the old list of one more replica without \<open>x\<close>: a key whose
  replicas did not include \<open>x\<close> keeps exactly its replicas, any other key replaces \<open>x\<close> by the next
  node of its walk and keeps the others in order. Read backwards, it says the same of a joining
  node.
\<close>

theorem ring_removal_minimal:
  assumes "ring_Update hi v ids (ring_Updates hi ups (newHashRing vn)) = (q, True)" "rearranged q r"
    and "ring_Update hi v' (filter (\<lambda>y. y \<noteq> x) ids) r = (q', True)" "rearranged q' r'"
    and "distinct (map hash (ring_nodes q))"
  shows "ring_GetN hi r' key n = take (nat n) (filter (\<lambda>y. y \<noteq> x) (ring_GetN hi r key (int (nat n) + 1)))"
proof -
  note q = ring_Update_members [OF ring_inv_Updates [OF ring_inv_new] assms(1)]
  note r = rearranged_inv(1) [OF assms(2) q(1)] rearranged_distinct [OF assms(2) q(1) assms(5)]
  note q' = ring_Update_members [OF r(1) assms(3)]
  have f: "ring_nodes q' = filter (\<lambda>z. nodeID z \<noteq> x) (ring_nodes r)"
    using ring_Update_accept [OF assms(1)] ring_Update_accept [OF assms(3)] assms(2) r(2)
    by (simp add: build_ring_filter rearranged_def)
  then have "distinct (map hash (ring_nodes q'))" using assms(5) r(2) by (simp add: distinct_map_filter)
  note r' = rearranged_inv(1) [OF assms(4) q'(1)] rearranged_distinct [OF assms(4) q'(1) this]
  have s: "sorted (map hash (ring_nodes r))" "sorted (map hash (ring_nodes r'))"
    using r(1) r'(1) by (simp_all add: ring_inv_def)
  have "preference (hi key) (ring_nodes r') = filter (\<lambda>y. y \<noteq> x) (preference (hi key) (ring_nodes r))"
    using preference_filter [OF s(1), where P = "\<lambda>y. y \<noteq> x"] f r'(2) by simp
  then show ?thesis
    using take_removeAll [OF distinct_preference, of "nat n" x "hi key" "ring_nodes r"]
    by (simp add: ring_GetN_preference [OF s(1)] ring_GetN_preference [OF s(2)] nat_add_distrib)
qed

theorem ring_removal_minimal_witness:
  "let hi = (\<lambda>s. sum_list (map (\<lambda>c. of_nat (of_char c)) s));
       r = fst (ring_Update hi 1 [''a'', ''d'', ''g''] (newHashRing 2));
       r' = fst (ring_Update hi 2 [''a'', ''g''] r)
   in distinct (map hash (ring_nodes r))
      \<and> ring_GetN hi r' ''k'' 1 = take 1 (filter (\<lambda>y. y \<noteq> ''d'') (ring_GetN hi r ''k'' 2))"
proof -
  let ?hi = "\<lambda>s. sum_list (map (\<lambda>c. of_nat (of_char c)) s) :: uint64"
  let ?r = "fst (ring_Update ?hi 1 [''a'', ''d'', ''g''] (newHashRing 2))"
  let ?r' = "fst (ring_Update ?hi 2 [''a'', ''g''] ?r)"
  have u: "ring_Update ?hi 1 [''a'', ''d'', ''g''] (ring_Updates ?hi [] (newHashRing 2)) = (?r, True)"
    by (simp add: ring_Updates_def ring_Update_def newHashRing_def)
  have u': "ring_Update ?hi 2 (filter (\<lambda>y. y \<noteq> ''d'') [''a'', ''d'', ''g'']) ?r = (?r', True)"
    by (simp add: ring_Update_def newHashRing_def)
  have d: "distinct (map hash (ring_nodes ?r))"
    by (simp add: ring_Update_def newHashRing_def ring_nodes_def build_ring_def vnodeKey_def string_of_rune_def utf8_bytes_def upt_rec)
  have a: "rearranged ?r ?r" "rearranged ?r' ?r'" by (intro rearranged_refl ring_inv_Update ring_inv_new)+
  from ring_removal_minimal [OF u a(1) u' a(2) d, of "''k''" 1] d show ?thesis by (simp add: Let_def)
qed

text \<open>
  Quorums meet. On the ring of any membership, a set of replicas that acknowledged a write of a
  key and a set of replicas that answered a read of it share a node as soon as their sizes add up to
  more than the replica count.
\<close>

theorem ring_quorum_overlap:
  assumes "R \<subseteq> set (ring_GetN hi (ring_of hi vn ids) key n)"
    and "W \<subseteq> set (ring_GetN hi (ring_of hi vn ids) key n)" "card R + card W > nat n"
  shows "R \<inter> W \<noteq> {}"
  using assms by (rule ring.quorum_overlap)

theorem ring_quorum_overlap_witness:
  "let hi = (\<lambda>s. of_nat (length s)); S = set (ring_GetN hi (ring_of hi 1 [''a'']) ''k'' 1)
   in S \<inter> S \<noteq> {}"
proof -
  let ?hi = "\<lambda>s. of_nat (length s) :: uint64"
  have "card (set (ring_GetN ?hi (ring_of ?hi 1 [''a'']) ''k'' 1)) = 1"
    using ring.place_length [of ?hi 1 "[''a'']" "''k''" 1] distinct_card [OF ring.place_distinct]
    by (simp add: ring_of_members)
  then show ?thesis
    using ring_quorum_overlap [OF order_refl order_refl, of 1 ?hi 1 "[''a'']" "''k''"]
    by (simp add: Let_def)
qed

end
