(* ===== verification/Stored_Item.thy ===== *)
theory Stored_Item
  imports GridKV_Prelude
begin

text \<open>
  \<open>internal/mem_storage/stored_item.go\<close>: the versioned value \<open>StoredItem\<close>, its comparison and
  copying methods, and \<open>ResolveConflict\<close>, the time-window variant of last-write-wins. A method
  on \<open>*StoredItem\<close> that the code calls with a nil receiver takes an \<open>option\<close>.
\<close>

section \<open>The data type and its methods\<close>

record StoredItem =
  Version :: int64
  ExpireAt :: gotime
  Value :: bytes
  Key :: string

definition IsExpired :: "gotime \<Rightarrow> StoredItem \<Rightarrow> bool" where
  "IsExpired now item = (if IsZero (ExpireAt item) then False else now > ExpireAt item)"

definition IsTombstone :: "StoredItem \<Rightarrow> bool" where
  "IsTombstone item \<longleftrightarrow> go_len (Value item) = 0 \<and> sint (Version item) > 0"

definition CompareVersion :: "StoredItem \<Rightarrow> StoredItem option \<Rightarrow> int" where
  "CompareVersion item other_opt =
     (case other_opt of
        None \<Rightarrow> 1
      | Some other \<Rightarrow>
          if sint (Version item) < sint (Version other) then -1
          else if sint (Version item) > sint (Version other) then 1
          else 0)"

definition DeepCopy :: "StoredItem option \<Rightarrow> StoredItem option" where
  "DeepCopy item_opt =
     (case item_opt of
        None \<Rightarrow> None
      | Some item \<Rightarrow>
          Some \<lparr>Version = Version item, ExpireAt = ExpireAt item,
                Value = (case Value item of None \<Rightarrow> None | Some v \<Rightarrow> FastCloneBytes (Some v)),
                Key = Key item\<rparr>)"

definition Copy :: "StoredItem option \<Rightarrow> StoredItem option" where
  "Copy item_opt =
     (case item_opt of
        None \<Rightarrow> None
      | Some item \<Rightarrow>
          Some \<lparr>Version = Version item, ExpireAt = ExpireAt item, Value = Value item,
                Key = Key item\<rparr>)"

definition Reset :: "StoredItem \<Rightarrow> StoredItem" where
  "Reset item = item\<lparr>Version := 0, ExpireAt := zero_time, Value := go_nil, Key := ''''\<rparr>"

definition WithVersion :: "StoredItem \<Rightarrow> int64 \<Rightarrow> StoredItem" where
  "WithVersion item version = (the (DeepCopy (Some item)))\<lparr>Version := version\<rparr>"

definition WithTTL :: "gotime \<Rightarrow> StoredItem \<Rightarrow> duration \<Rightarrow> StoredItem" where
  "WithTTL now item ttl =
     (let copied = the (DeepCopy (Some item))
      in if ttl > 0 then copied\<lparr>ExpireAt := now + ttl\<rparr> else copied\<lparr>ExpireAt := zero_time\<rparr>)"

definition Size :: "StoredItem option \<Rightarrow> int" where
  "Size item_opt =
     (case item_opt of
        None \<Rightarrow> 0
      | Some item \<Rightarrow> 64 + (24 + int (go_len (Value item))) + (16 + int (length (Key item))))"

definition IsValid :: "StoredItem option \<Rightarrow> bool" where
  "IsValid item_opt = (case item_opt of None \<Rightarrow> False | Some item \<Rightarrow> sint (Version item) > 0)"

section \<open>Conflict resolution\<close>

text \<open>The constants of \<open>ResolveConflict\<close>, as nanoseconds (\<open>time.Duration\<close> is an \<open>int64\<close>).\<close>

definition time_Hour :: int64 where
  "time_Hour = 3600000000000"

definition closeTimeWindow :: int64 where
  "closeTimeWindow = 100000000"

definition mediumTimeWindow :: int64 where
  "mediumTimeWindow = 500000000"

definition minVersionGap :: int64 where
  "minVersionGap = 1000"

definition ResolveConflict :: "gotime \<Rightarrow> StoredItem \<Rightarrow> StoredItem option \<Rightarrow> bool" where
  "ResolveConflict now item other_opt =
     (case other_opt of
        None \<Rightarrow> False
      | Some other \<Rightarrow>
          (let iv = Version item; ov = Version other in
           if sint iv < 0 \<and> sint ov \<ge> 0 then True
           else if sint iv < 0 \<or> sint ov < 0 then sint ov > sint iv
           else
             (let itemTs = signed_drop_bit 16 iv; otherTs = signed_drop_bit 16 ov;
                  currentTime = UnixNano now in
              if sint itemTs > sint (currentTime + time_Hour)
                 \<or> sint otherTs > sint (currentTime + time_Hour) then False
              else
                (let timeDiff = (if sint otherTs > sint itemTs then otherTs - itemTs
                                 else itemTs - otherTs) in
                 if sint timeDiff \<le> sint closeTimeWindow \<and> ov \<noteq> iv then sint ov > sint iv
                 else if sint timeDiff \<le> sint mediumTimeWindow \<and> ov \<noteq> iv
                   then sint (ov - iv) > sint minVersionGap
                 else if sint ov > sint iv then True
                 else if sint ov < sint iv then False
                 else
                   (let itemExpired = IsExpired now item; otherExpired = IsExpired now other in
                    if otherExpired \<and> \<not> itemExpired then False
                    else if \<not> otherExpired \<and> itemExpired then True
                    else False)))))"

section \<open>Lemmas\<close>

lemma DeepCopy_id [simp]: "DeepCopy x = x"
  by (cases x) (simp_all add: DeepCopy_def split: option.splits)

lemma Copy_id [simp]: "Copy x = x"
  by (cases x) (simp_all add: Copy_def)

lemma CompareVersion_pos_iff:
  "CompareVersion item (Some other) > 0 \<longleftrightarrow> sint (Version item) > sint (Version other)"
  by (simp add: CompareVersion_def)

lemma IsTombstone_not_value: "go_len (Value item) > 0 \<Longrightarrow> \<not> IsTombstone item"
  by (simp add: IsTombstone_def)

text \<open>
  The 16 low bits of a version are a counter, the rest a timestamp. When the timestamps of two
  non-negative versions are more than 100 ms apart, the versions are far more than
  \<open>minVersionGap\<close> apart, so the middle window of the code decides as plain comparison does.
\<close>

lemma shift16_gap:
  fixes a b :: int
  assumes "b div 65536 - a div 65536 > 100000000"
  shows "b - a > 1000"
  using assms by linarith

lemma sint_shift16: "sint (signed_drop_bit 16 (v :: int64)) = sint v div 65536"
  by (simp add: sint_signed_drop_bit_eq drop_bit_eq_div)

lemma sint_diff_nonneg:
  fixes a b :: int64
  assumes "0 \<le> sint a" "0 \<le> sint b"
  shows "sint (a - b) = sint a - sint b"
  using assms sint64_bounds(2) [of a] sint64_bounds(2) [of b] by (intro sint64_diff) linarith+

lemma ResolveConflict_valid_iff:
  assumes iv: "0 \<le> sint (Version item)" and ov: "0 \<le> sint (Version other)"
    and its: "sint (Version item) div 65536 \<le> sint (UnixNano now + time_Hour)"
    and ots: "sint (Version other) div 65536 \<le> sint (UnixNano now + time_Hour)"
  shows "ResolveConflict now item (Some other) \<longleftrightarrow>
     sint (Version other) > sint (Version item)
     \<or> Version other = Version item \<and> IsExpired now item \<and> \<not> IsExpired now other"
proof -
  let ?i = "sint (Version item)" and ?o = "sint (Version other)"
  have ts: "0 \<le> ?i div 65536" "0 \<le> ?o div 65536" using iv ov by simp_all
  let ?diff = "if ?o div 65536 > ?i div 65536
               then signed_drop_bit 16 (Version other) - signed_drop_bit 16 (Version item)
               else signed_drop_bit 16 (Version item) - signed_drop_bit 16 (Version other)"
  have diff: "sint ?diff = \<bar>?o div 65536 - ?i div 65536\<bar>"
    using ts by (auto simp: sint_diff_nonneg sint_shift16)
  have gap: "sint (Version other - Version item) = ?o - ?i"
    by (rule sint_diff_nonneg [OF ov iv])
  have far: "?o - ?i > 1000 \<longleftrightarrow> ?o > ?i" if "\<bar>?o div 65536 - ?i div 65536\<bar> > 100000000"
    using that shift16_gap [of ?o ?i] shift16_gap [of ?i ?o] by linarith
  have cw: "sint closeTimeWindow = 100000000" "sint minVersionGap = 1000"
    by (simp_all add: closeTimeWindow_def minVersionGap_def)
  show ?thesis
    using iv ov its ots far
    by (auto simp: ResolveConflict_def Let_def sint_shift16 diff gap cw not_less not_le
        split: if_splits)
qed

section \<open>Properties\<close>

text \<open>
  On two valid (non-negative) versions whose timestamps are not more than an hour in the
  future, the windowed rules of \<open>ResolveConflict\<close> decide exactly as last-write-wins with the
  expiration tie-break: the other item replaces this one if and only if its version is higher, or
  the versions are equal, this item has expired and the other has not.
\<close>

theorem ResolveConflict_lww:
  assumes iv: "0 \<le> sint (Version item)" and ov: "0 \<le> sint (Version other)"
    and its: "sint (Version item) div 65536 \<le> sint (UnixNano now + time_Hour)"
    and ots: "sint (Version other) div 65536 \<le> sint (UnixNano now + time_Hour)"
  shows "ResolveConflict now item (Some other) \<longleftrightarrow>
     sint (Version other) > sint (Version item)
     \<or> Version other = Version item \<and> IsExpired now item \<and> \<not> IsExpired now other"
  using assms by (rule ResolveConflict_valid_iff)

theorem ResolveConflict_lww_witness:
  "ResolveConflict 1700000000000000000
     \<lparr>Version = 65536000000000, ExpireAt = zero_time, Value = Some [1], Key = ''k''\<rparr>
     (Some \<lparr>Version = 26214400000000000, ExpireAt = zero_time, Value = Some [2], Key = ''k''\<rparr>)"
  by (subst ResolveConflict_lww) (simp_all add: UnixNano_def time_Hour_def)

text \<open>
  Conflict resolution is antisymmetric for every pair of items, negative and future versions
  included: two replicas never each prefer the other's copy.
\<close>

theorem ResolveConflict_antisym:
  "\<not> (ResolveConflict now a (Some b) \<and> ResolveConflict now b (Some a))"
proof (cases "sint (Version a) < 0 \<or> sint (Version b) < 0")
  case True
  then show ?thesis by (auto simp: ResolveConflict_def Let_def)
next
  case valid: False
  show ?thesis
  proof (cases "sint (Version a) div 65536 \<le> sint (UnixNano now + time_Hour)
      \<and> sint (Version b) div 65536 \<le> sint (UnixNano now + time_Hour)")
    case True
    with valid show ?thesis
      by (auto simp: ResolveConflict_valid_iff not_less)
  next
    case False
    with valid show ?thesis
      by (auto simp: ResolveConflict_def Let_def sint_shift16 not_le)
  qed
qed

end
