(* ===== verification/Compress.thy ===== *)
theory Compress
  imports GridKV_Prelude
begin

text \<open>
  \<open>internal/utils/compress\<close>: LZ4 compression of values and the size-tiered buffer pool. The LZ4
  block functions are third-party code; they are the record \<open>lz4\<close> that the definitions take as an
  argument. A buffer is described by its length, all that \<open>CompressBlock\<close> and \<open>UncompressBlock\<close>
  depend on.
\<close>

section \<open>The LZ4 parameter\<close>

text \<open>
  \<open>CompressBlock src n\<close>: the block written into a buffer of length \<open>n\<close>; \<open>None\<close> is an error and the
  empty list is \<open>n == 0\<close>, incompressible. \<open>UncompressBlock src n\<close>: the bytes written into a buffer of
  length \<open>n\<close>; \<open>None\<close> is an error, a buffer that is too short included.
\<close>

record lz4 =
  CompressBlockBound :: "nat \<Rightarrow> nat"
  CompressBlock :: "byte list \<Rightarrow> nat \<Rightarrow> byte list option"
  UncompressBlock :: "byte list \<Rightarrow> nat \<Rightarrow> byte list option"

text \<open>
  What the code relies on: a block that was produced from \<open>src\<close> is decoded to \<open>src\<close> by every buffer
  that can hold it.
\<close>

definition lz4_decodes :: "lz4 \<Rightarrow> bool" where
  "lz4_decodes z \<longleftrightarrow>
     (\<forall>src n out m. CompressBlock z src n = Some out \<longrightarrow> out \<noteq> [] \<longrightarrow> length src \<le> m
        \<longrightarrow> UncompressBlock z out m = Some src)"

section \<open>The buffer pool\<close>

definition maxAlloc :: nat where
  "maxAlloc = 8 * 1024 * 1024"

definition tier_idx :: "nat \<Rightarrow> nat" where
  "tier_idx sz = (if sz > 256 * 1024 then (if sz > 512 * 1024 then 2 else 1) else 0)"

definition compressPools :: "nat list" where
  "compressPools = [256 * 1024, 1024 * 1024, 4 * 1024 * 1024]"

definition decompressPools :: "nat list" where
  "decompressPools = [256 * 1024, 512 * 1024, 2 * 1024 * 1024]"

text \<open>
  \<open>getFromTier\<close>: the length of the buffer that is returned, given the capacities the pools hand out
  per tier.
\<close>

definition getFromTier :: "nat list \<Rightarrow> nat \<Rightarrow> nat" where
  "getFromTier pools sz =
     (let cap = pools ! tier_idx sz in
      if cap < sz then (if sz > maxAlloc then maxAlloc else sz) else sz)"

definition GetCompress :: "lz4 \<Rightarrow> nat \<Rightarrow> nat" where
  "GetCompress z sz = getFromTier compressPools (CompressBlockBound z sz)"

definition GetDecompress :: "nat \<Rightarrow> nat" where
  "GetDecompress sz = getFromTier decompressPools (sz + 64)"

section \<open>Compression\<close>

definition Compress :: "lz4 \<Rightarrow> bytes \<Rightarrow> int \<Rightarrow> bytes \<times> bool" where
  "Compress z dat threshold =
     (if int (go_len dat) < threshold then (dat, False)
      else case CompressBlock z (go_bytes dat) (GetCompress z (go_len dat)) of
        None \<Rightarrow> (dat, False)
      | Some out \<Rightarrow>
          if length out = 0 then (dat, False)
          else if length out < go_len dat * 95 div 100 then (Some out, True)
          else (dat, False))"

definition CompressTo :: "lz4 \<Rightarrow> bytes \<Rightarrow> nat \<Rightarrow> int \<Rightarrow> bytes \<times> nat \<times> bool" where
  "CompressTo z dat dst threshold =
     (if int (go_len dat) < threshold then (dat, 0, False)
      else
        (let bound = CompressBlockBound z (go_len dat);
             useDst = dst \<ge> bound;
             buf = (if useDst then bound else GetCompress z (go_len dat))
         in case CompressBlock z (go_bytes dat) buf of
              None \<Rightarrow> (dat, 0, False)
            | Some out \<Rightarrow>
                if length out = 0 then (dat, 0, False)
                else if length out < go_len dat * 95 div 100 then (Some out, length out, True)
                else (dat, 0, False)))"

definition normEstimate :: "bytes \<Rightarrow> int \<Rightarrow> nat" where
  "normEstimate dat estimatedSize =
     (let e1 = (if estimatedSize \<le> 0 then int (go_len dat * 2) else estimatedSize);
          e2 = (if e1 < int (go_len dat * 2) then int (go_len dat * 2) else e1);
          maxEstimate = 64 * 1024 * 1024
      in nat (if e2 > maxEstimate then maxEstimate else e2))"

text \<open>\<open>DecompressTo\<close> with a destination of capacity \<open>dst\<close> (0 for nil); \<open>None\<close> is the error result.\<close>

definition DecompressTo :: "lz4 \<Rightarrow> bytes \<Rightarrow> nat \<Rightarrow> int \<Rightarrow> (bytes \<times> nat) option" where
  "DecompressTo z dat dst estimatedSize =
     (let est = normEstimate dat estimatedSize;
          useDst = dst \<ge> est;
          buf = (if useDst then est else GetDecompress est)
      in case UncompressBlock z (go_bytes dat) buf of
           Some out \<Rightarrow> Some (Some out, length out)
         | None \<Rightarrow>
             (case UncompressBlock z (go_bytes dat) (GetDecompress (est * 4)) of
                None \<Rightarrow> None
              | Some out \<Rightarrow> Some (Some out, length out)))"

definition Decompress :: "lz4 \<Rightarrow> bytes \<Rightarrow> int \<Rightarrow> bytes option" where
  "Decompress z dat estimatedSize =
     (case UncompressBlock z (go_bytes dat) (normEstimate dat estimatedSize) of
        None \<Rightarrow> map_option fst (DecompressTo z dat 0 (estimatedSize * 4))
      | Some out \<Rightarrow> Some (Some out))"

definition CompressThreshold :: int where
  "CompressThreshold = 64"

section \<open>Lemmas\<close>

lemma tier_idx_less: "tier_idx sz < 3"
  by (simp add: tier_idx_def)

text \<open>
  The length of a buffer does not depend on what the pools hold, as long as they hold no buffer
  above \<open>maxAlloc\<close> (\<open>putToTier\<close> keeps none above 2 MB).
\<close>

lemma getFromTier_min:
  "length pools = 3 \<Longrightarrow> \<forall>c \<in> set pools. c \<le> maxAlloc \<Longrightarrow> getFromTier pools sz = min sz maxAlloc"
  using tier_idx_less [of sz] nth_mem [of "tier_idx sz" pools]
  by (fastforce simp: getFromTier_def Let_def min_def)

lemma GetDecompress_min: "GetDecompress sz = min (sz + 64) maxAlloc"
  by (simp add: GetDecompress_def getFromTier_min decompressPools_def maxAlloc_def)

lemma Compress_False: "Compress z dat th = (out, False) \<Longrightarrow> out = dat"
  by (auto simp: Compress_def split: if_splits option.splits)

lemma Compress_True:
  assumes "Compress z dat th = (out, True)"
  obtains bs n where "out = Some bs" "bs \<noteq> []" "length bs < go_len dat * 95 div 100"
    "CompressBlock z (go_bytes dat) n = Some bs"
proof (cases "CompressBlock z (go_bytes dat) (GetCompress z (go_len dat))")
  case None
  with assms show thesis by (simp add: Compress_def split: if_splits)
next
  case (Some bs)
  with assms that [OF _ _ _ Some] show thesis by (auto simp: Compress_def split: if_splits)
qed

lemma normEstimate_ge:
  "int n \<le> est \<Longrightarrow> n \<le> 64 * 1024 * 1024 \<Longrightarrow> n \<le> normEstimate dat est"
  by (auto simp: normEstimate_def Let_def)

lemma normEstimate_pos: "0 < go_len dat \<Longrightarrow> 0 < normEstimate dat est"
  by (auto simp: normEstimate_def Let_def)

text \<open>
  Decompression gives the original back when the recorded size is right and at most the 8 MB the
  pool allocates.
\<close>

lemma DecompressTo_Compress:
  assumes "lz4_decodes z" "Compress z dat th = (out, True)" "go_len dat \<le> maxAlloc"
    "int (go_len dat) \<le> est"
  shows "DecompressTo z out 0 est = Some (Some (go_bytes dat), go_len dat)"
proof -
  obtain bs n where bs: "out = Some bs" "bs \<noteq> []" "CompressBlock z (go_bytes dat) n = Some bs"
    using assms(2) by (elim Compress_True)
  have "go_len dat \<le> normEstimate out est"
    using assms(3,4) by (intro normEstimate_ge) (simp_all add: maxAlloc_def)
  then have "length (go_bytes dat) \<le> GetDecompress (normEstimate out est)"
    using assms(3) by (auto simp: GetDecompress_min go_len_def)
  then have "UncompressBlock z bs (GetDecompress (normEstimate out est)) = Some (go_bytes dat)"
    using assms(1) bs(2,3) by (simp add: lz4_decodes_def)
  moreover have "0 < normEstimate out est" using bs(1,2) by (intro normEstimate_pos) simp
  ultimately show ?thesis using bs(1) by (simp add: DecompressTo_def Let_def go_len_def)
qed

section \<open>A concrete block codec\<close>

text \<open>
  A run-length codec that meets the contract \<open>lz4_decodes\<close>: the examples of the development use it
  for the LZ4 parameter.
\<close>

definition rle_compress :: "byte list \<Rightarrow> nat \<Rightarrow> byte list option" where
  "rle_compress src n =
     (case src of
        [] \<Rightarrow> None
      | b # _ \<Rightarrow>
          if length src < 256 ^ 4 \<and> src = replicate (length src) b then Some (b # put_le 4 (length src)) else None)"

definition rle_uncompress :: "byte list \<Rightarrow> nat \<Rightarrow> byte list option" where
  "rle_uncompress blk n =
     (case blk of
        [] \<Rightarrow> None
      | b # len \<Rightarrow> if get_le len \<le> n then Some (replicate (get_le len) b) else None)"

definition rle_lz4 :: lz4 where
  "rle_lz4 = \<lparr>CompressBlockBound = (\<lambda>n. n + 16), CompressBlock = rle_compress,
     UncompressBlock = rle_uncompress\<rparr>"

lemma rle_lz4_decodes: "lz4_decodes rle_lz4"
proof -
  have "rle_uncompress out m = Some src" if "rle_compress src n = Some out" "length src \<le> m" for src n out m
  proof (cases src)
    case (Cons b bs)
    with that(1) have r: "length src < 256 ^ 4" "src = replicate (length src) b"
      "out = b # put_le 4 (length src)"
      by (auto simp: rle_compress_def split: if_splits)
    have "get_le (put_le 4 (length src)) = length src" using r(1) by simp
    with that(2) r(2) show ?thesis by (simp add: rle_uncompress_def r(3))
  qed (use that in \<open>simp add: rle_compress_def\<close>)
  then show ?thesis by (auto simp: lz4_decodes_def rle_lz4_def)
qed

end
