(* ===== verification/Mem_Storage.thy ===== *)
theory Mem_Storage
  imports Stored_Item Compress
begin

text \<open>
  \<open>internal/mem_storage/mem_storage.go\<close>: the sharded in-memory store, operation by operation.

  \<^item> The hash \<open>xxh3.HashString128(key).Lo\<close> and LZ4 are third-party code: the record \<open>env\<close>, an
    argument of the operations.
  \<^item> A shard's \<open>sync.Map\<close> is an association list; its LRU (a \<open>container/list\<close> and a map from
    keys to list elements) is the list of keys, most recently used first: a key is in the map
    exactly when it is in the list.
  \<^item> The statistics counters are unbounded integers; the ring positions \<open>syncHead\<close> and \<open>syncTail\<close>
    count operations since the start and are natural numbers.
  \<^item> The byte counts of \<open>checkAndEvict\<close> are unbounded integers too; they agree with the source's \<open>int64\<close> as long as
    \<open>MaxMemoryMB\<close> is below \<open>2^36\<close>, so that its percentages do not overflow.
  \<^item> A method that fails returns the new state and an error; \<open>ErrPanic\<close> stands for the run-time
    panic of an index out of range.
  \<^item> An operation runs alone here, so its compare-and-swap loop succeeds in the first iteration
    (\<open>store_iter_total\<close>); the theory \<open>Store_Concurrent\<close> runs that loop under interleaving.
\<close>

section \<open>State\<close>

record env =
  hash_Lo :: "string \<Rightarrow> uint64"
  lz :: lz4

datatype storage_err =
  ErrNotFound | ErrExpired | ErrVersionMismatch | ErrMemoryLimit | ErrEmptyKey | ErrNilItem
  | ErrDecompress | ErrRetry | ErrPanic

record compressedItem =
  cVersion :: int64
  cExpireAt :: gotime
  cValue :: bytes
  Compressed :: bool
  OrigSize :: nat

text \<open>\<open>OpType\<close> is an integer type with two constants; other numbers can only come from the wire.\<close>

datatype OpType = OpSet | OpDelete | OpOther nat

record SyncOperation =
  opKey :: string
  opType :: OpType
  opItem :: "StoredItem option"

record storageShard =
  sdata :: "(string \<times> compressedItem) list"
  lru :: "string list"
  syncBuffer :: "SyncOperation option list"
  syncHead :: nat
  syncTail :: nat
  syncCapacity :: nat
  syncMask :: nat
  keyCount :: int
  byteCount :: int
  compressedSize :: int
  originalSize :: int

record MemStorage =
  shards :: "storageShard list"
  shardCount :: int
  shardMask :: uint64
  maxMemoryMB :: int
  totalKeys :: int
  totalBytes :: int
  compressedBytes :: int
  originalBytes :: int
  getCount :: int
  setCount :: int
  hitCount :: int
  missCount :: int
  evictCount :: int
  compressionEnabled :: bool
  compressionThresh :: int
  evictThreshold :: int
  evictTarget :: int
  evictShardIdx :: uint64
  evictBatchSize :: int
  asyncEviction :: bool

record Config =
  MaxMemoryMB :: int
  ShardCount :: int
  CompressionEnabled :: bool
  CompressionThreshold :: int
  EvictThreshold :: int
  EvictTarget :: int
  EvictBatchSize :: int
  AsyncEviction :: bool

definition DefaultConfig :: Config where
  "DefaultConfig = \<lparr>MaxMemoryMB = 512, ShardCount = 0, CompressionEnabled = True,
     CompressionThreshold = 64, EvictThreshold = 85, EvictTarget = 70, EvictBatchSize = 10,
     AsyncEviction = True\<rparr>"

section \<open>Construction\<close>

definition smear :: "nat \<Rightarrow> uint64 \<Rightarrow> uint64" where
  "smear k n = n OR drop_bit k n"

definition nextPowerOf2 :: "uint64 \<Rightarrow> uint64" where
  "nextPowerOf2 n =
     (if n = 0 then 1
      else smear 32 (smear 16 (smear 8 (smear 4 (smear 2 (smear 1 (n - 1)))))) + 1)"

definition new_shard :: storageShard where
  "new_shard = (let cap = unat (nextPowerOf2 8192) in
     \<lparr>sdata = [], lru = [], syncBuffer = replicate cap None, syncHead = 0, syncTail = 0,
      syncCapacity = cap, syncMask = cap - 1, keyCount = 0, byteCount = 0, compressedSize = 0,
      originalSize = 0\<rparr>)"

text \<open>\<open>New\<close>, with \<open>runtime.GOMAXPROCS(0)\<close> as \<open>cpuCount\<close>; the background goroutines it starts run
  \<open>cleanExpired\<close> and \<open>runAsyncEviction\<close>, below.\<close>

definition New_shardCount :: "int \<Rightarrow> int \<Rightarrow> int" where
  "New_shardCount cpuCount sc =
     (let n0 = (if sc = 0
                then (let c = cpuCount * 8; c1 = (if c < 256 then 256 else c)
                      in if c1 > 4096 then 4096 else c1)
                else sc)
      in sint (nextPowerOf2 (word_of_int n0)))"

definition New :: "int \<Rightarrow> Config \<Rightarrow> MemStorage" where
  "New cpuCount config =
     (let n = New_shardCount cpuCount (ShardCount config);
          b0 = (if EvictBatchSize config = 0 then 10 else EvictBatchSize config);
          b1 = (if b0 < 1 then 1 else b0)
      in \<lparr>shards = replicate (nat n) new_shard, shardCount = n, shardMask = word_of_int (n - 1),
          maxMemoryMB = (if MaxMemoryMB config \<le> 0 then 512 else MaxMemoryMB config),
          totalKeys = 0, totalBytes = 0, compressedBytes = 0, originalBytes = 0, getCount = 0,
          setCount = 0, hitCount = 0, missCount = 0, evictCount = 0,
          compressionEnabled = CompressionEnabled config,
          compressionThresh =
            (if CompressionThreshold config = 0 then 64 else CompressionThreshold config),
          evictThreshold = (if EvictThreshold config = 0 then 85 else EvictThreshold config),
          evictTarget = (if EvictTarget config = 0 then 70 else EvictTarget config),
          evictShardIdx = 0, evictBatchSize = (if b1 > 100 then 100 else b1),
          asyncEviction = (if \<not> AsyncEviction config then True else AsyncEviction config)\<rparr>)"

definition getShard :: "env \<Rightarrow> MemStorage \<Rightarrow> string \<Rightarrow> nat option" where
  "getShard E s key =
     (let i = unat (hash_Lo E key AND shardMask s) in if i < length (shards s) then Some i else None)"

definition upd_shard :: "nat \<Rightarrow> (storageShard \<Rightarrow> storageShard) \<Rightarrow> MemStorage \<Rightarrow> MemStorage" where
  "upd_shard i f s = s\<lparr>shards := (shards s)[i := f (shards s ! i)]\<rparr>"

definition load :: "MemStorage \<Rightarrow> nat \<Rightarrow> string \<Rightarrow> compressedItem option" where
  "load s i key = map_of (sdata (shards s ! i)) key"

section \<open>Sizes and compression\<close>

text \<open>\<open>unsafe.Sizeof(compressedItem{})\<close> is 72 on a 64-bit machine: 8 + 24 + 24 + 8 + 8.\<close>

definition calculateItemSize :: "string \<Rightarrow> bytes \<Rightarrow> int" where
  "calculateItemSize key v = int (length key) + int (go_len v) + 16 + 24 + 72 + 64"

definition compress_value :: "env \<Rightarrow> MemStorage \<Rightarrow> bytes \<Rightarrow> bytes \<times> bool" where
  "compress_value E s dat = Compress (lz E) dat (compressionThresh s)"

definition decompressValue :: "env \<Rightarrow> compressedItem \<Rightarrow> bytes option" where
  "decompressValue E ci =
     (if \<not> Compressed ci then Some None
      else
        (let e0 = (if OrigSize ci \<le> 0 then go_len (cValue ci) * 2 else OrigSize ci);
             e1 = (if e0 < go_len (cValue ci) * 2 then go_len (cValue ci) * 2 else e0)
         in map_option fst (DecompressTo (lz E) (cValue ci) 0 (int e1))))"

definition prepareCompressedItem ::
  "env \<Rightarrow> MemStorage \<Rightarrow> string \<Rightarrow> StoredItem \<Rightarrow> compressedItem \<times> int" where
  "prepareCompressedItem E s key item =
     (let origSize = go_len (Value item);
          (v, isC) = (if compressionEnabled s \<and> int origSize \<ge> compressionThresh s
                      then compress_value E s (Value item) else (Value item, False))
      in (\<lparr>cVersion = Version item, cExpireAt = ExpireAt item, cValue = v, Compressed = isC,
           OrigSize = origSize\<rparr>, calculateItemSize key v))"

section \<open>LRU and sync buffer\<close>

definition touchLRU :: "nat \<Rightarrow> string \<Rightarrow> MemStorage \<Rightarrow> MemStorage" where
  "touchLRU i key = upd_shard i (\<lambda>sh.
     if key \<in> set (lru sh) then sh\<lparr>lru := key # remove1 key (lru sh)\<rparr>
     else sh\<lparr>lru := key # lru sh\<rparr>)"

definition removeFromLRU :: "nat \<Rightarrow> string \<Rightarrow> MemStorage \<Rightarrow> MemStorage" where
  "removeFromLRU i key = upd_shard i (\<lambda>sh.
     if key \<in> set (lru sh) then sh\<lparr>lru := remove1 key (lru sh)\<rparr> else sh)"

definition clear_slots :: "nat \<Rightarrow> nat \<Rightarrow> storageShard \<Rightarrow> storageShard" where
  "clear_slots from to sh =
     sh\<lparr>syncBuffer := fold (\<lambda>j buf. buf[j AND syncMask sh := None]) [from..<to] (syncBuffer sh)\<rparr>"

definition push_sync :: "SyncOperation \<Rightarrow> storageShard \<Rightarrow> storageShard" where
  "push_sync op sh =
     (let head = syncHead sh; tail = syncTail sh;
          sh1 = (if head - tail \<ge> syncCapacity sh
                 then (let newTail = head - syncCapacity sh + 1
                       in (clear_slots tail newTail sh)\<lparr>syncTail := newTail\<rparr>)
                 else sh)
      in sh1\<lparr>syncBuffer := (syncBuffer sh1)[head AND syncMask sh1 := Some op], syncHead := head + 1\<rparr>)"

definition addToSyncBuffer ::
  "nat \<Rightarrow> string \<Rightarrow> OpType \<Rightarrow> StoredItem option \<Rightarrow> MemStorage \<Rightarrow> MemStorage" where
  "addToSyncBuffer i key ot item =
     upd_shard i (push_sync
       \<lparr>opKey = key, opType = ot,
        opItem = (case item of
                    None \<Rightarrow> None
                  | Some it \<Rightarrow> Some \<lparr>Version = Version it, ExpireAt = ExpireAt it, Value = go_nil,
                                     Key = key\<rparr>)\<rparr>)"

section \<open>Eviction\<close>

text \<open>
  Removing a stored item and all that was counted for it: the code of \<open>Delete\<close>, \<open>evictBatchLRU\<close>
  and \<open>cleanExpired\<close> after the atomic delete.
\<close>

definition uncount :: "nat \<Rightarrow> string \<Rightarrow> compressedItem \<Rightarrow> MemStorage \<Rightarrow> MemStorage" where
  "uncount i key ci s =
     (let itemSize = calculateItemSize key (cValue ci);
          vlen = int (go_len (cValue ci));
          s1 = upd_shard i (\<lambda>sh. sh\<lparr>keyCount := keyCount sh - 1, byteCount := byteCount sh - itemSize,
                 compressedSize := compressedSize sh - vlen,
                 originalSize := originalSize sh - int (OrigSize ci)\<rparr>) s
      in s1\<lparr>totalKeys := totalKeys s1 - 1, totalBytes := totalBytes s1 - itemSize,
            compressedBytes := compressedBytes s1 - vlen,
            originalBytes := originalBytes s1 - int (OrigSize ci)\<rparr>)"

definition delete_data :: "nat \<Rightarrow> string \<Rightarrow> MemStorage \<Rightarrow> MemStorage" where
  "delete_data i key = upd_shard i (\<lambda>sh. sh\<lparr>sdata := AList.delete key (sdata sh)\<rparr>)"

text \<open>
  One round of the eviction loop: the back of the list leaves the LRU; if the shard still has the
  key, it is deleted and counted as evicted.
\<close>

definition evict_oldest :: "nat \<Rightarrow> MemStorage \<Rightarrow> MemStorage \<times> bool" where
  "evict_oldest i s =
     (let key = last (lru (shards s ! i));
          s1 = upd_shard i (\<lambda>sh. sh\<lparr>lru := butlast (lru sh)\<rparr>) s
      in case load s1 i key of
           None \<Rightarrow> (s1, False)
         | Some ci \<Rightarrow>
             (let s2 = uncount i key ci (delete_data i key s1)
              in (s2\<lparr>evictCount := evictCount s2 + 1\<rparr>, True)))"

fun evict_loop :: "nat \<Rightarrow> nat \<Rightarrow> nat \<Rightarrow> nat \<Rightarrow> MemStorage \<Rightarrow> MemStorage \<times> nat" where
  "evict_loop 0 i batch evicted s = (s, evicted)"
| "evict_loop (Suc len) i batch evicted s =
     (if evicted < batch
      then (case evict_oldest i s of (s', b) \<Rightarrow>
              evict_loop len i batch (if b then evicted + 1 else evicted) s')
      else (s, evicted))"

text \<open>
  \<open>evictBatchLRU\<close>: the loop runs while fewer than \<open>batchSize\<close> keys are evicted and the LRU list is
  not empty; each round removes one list element, so the list's length bounds the rounds.
\<close>

definition evictBatchLRU :: "int \<Rightarrow> MemStorage \<Rightarrow> (MemStorage \<times> nat) option" where
  "evictBatchLRU batchSize s =
     (let b0 = (if batchSize \<le> 0 then 1 else batchSize);
          b1 = (if b0 > 100 then 100 else b0);
          n = evictShardIdx s + 1;
          s1 = s\<lparr>evictShardIdx := n\<rparr>;
          i = unat (n AND shardMask s)
      in if i < length (shards s)
         then Some (evict_loop (length (lru (shards s1 ! i))) i (nat b1) 0 s1)
         else None)"

text \<open>
  The two eviction loops evict batches until the target is reached, the maximum is reached or a batch
  evicts nothing; every further round evicts at least one key, so \<open>maxEvictions\<close> bounds the rounds.
\<close>

fun evict_until ::
  "nat \<Rightarrow> int \<Rightarrow> int \<Rightarrow> int \<Rightarrow> nat \<Rightarrow> MemStorage \<Rightarrow> (MemStorage \<times> nat) option" where
  "evict_until 0 itemSize target maxEvictions evicted s = Some (s, evicted)"
| "evict_until (Suc fuel) itemSize target maxEvictions evicted s =
     (if totalBytes s + itemSize > target \<and> int evicted < maxEvictions
      then (case evictBatchLRU (evictBatchSize s) s of
              None \<Rightarrow> None
            | Some (s', n) \<Rightarrow>
                if n = 0 then Some (s', evicted)
                else evict_until fuel itemSize target maxEvictions (evicted + n) s')
      else Some (s, evicted))"

definition checkAndEvict :: "int \<Rightarrow> MemStorage \<Rightarrow> MemStorage \<times> (storage_err + unit)" where
  "checkAndEvict itemSize s =
     (let maxBytes = maxMemoryMB s * 1024 * 1024;
          current = totalBytes s;
          threshold = (maxBytes * evictThreshold s) sdiv 100
      in if current + itemSize \<le> threshold then (s, Inr ())
         else if asyncEviction s then
           (if current + itemSize > maxBytes
            then (case evictBatchLRU 5 s of
                    None \<Rightarrow> (s, Inl ErrPanic)
                  | Some (s', evicted) \<Rightarrow>
                      if evicted = 0 then (s', Inl ErrMemoryLimit) else (s', Inr ()))
            else (s, Inr ()))
         else
           (case evict_until 200 itemSize ((maxBytes * evictTarget s) sdiv 100) 200 0 s of
              None \<Rightarrow> (s, Inl ErrPanic)
            | Some (s', _) \<Rightarrow>
                if totalBytes s' + itemSize > maxBytes then (s', Inl ErrMemoryLimit)
                else (s', Inr ())))"

definition runAsyncEviction :: "MemStorage \<Rightarrow> MemStorage option" where
  "runAsyncEviction s =
     (if maxMemoryMB s \<le> 0 then Some s
      else
        (let maxBytes = maxMemoryMB s * 1024 * 1024;
             threshold = (maxBytes * evictThreshold s) sdiv 100
         in if totalBytes s \<le> threshold then Some s
            else map_option fst
              (evict_until (nat (evictBatchSize s * 10)) 0 ((maxBytes * evictTarget s) sdiv 100)
                 (evictBatchSize s * 10) 0 s)))"

section \<open>Set\<close>

definition updateStatsForNewKey :: "nat \<Rightarrow> compressedItem \<Rightarrow> int \<Rightarrow> MemStorage \<Rightarrow> MemStorage" where
  "updateStatsForNewKey i ci itemSize s =
     (let vlen = int (go_len (cValue ci));
          s1 = upd_shard i (\<lambda>sh. sh\<lparr>keyCount := keyCount sh + 1, byteCount := byteCount sh + itemSize,
                 compressedSize := compressedSize sh + vlen,
                 originalSize := originalSize sh + int (OrigSize ci)\<rparr>) s
      in s1\<lparr>totalKeys := totalKeys s1 + 1, totalBytes := totalBytes s1 + itemSize,
            compressedBytes := compressedBytes s1 + vlen,
            originalBytes := originalBytes s1 + int (OrigSize ci), setCount := setCount s1 + 1\<rparr>)"

definition updateStatsForExistingKey ::
  "nat \<Rightarrow> compressedItem \<Rightarrow> compressedItem \<Rightarrow> int \<Rightarrow> MemStorage \<Rightarrow> MemStorage" where
  "updateStatsForExistingKey i oldItem newItem newItemSize s =
     (let oldSize = calculateItemSize '''' (cValue oldItem);
          dv = int (go_len (cValue newItem)) - int (go_len (cValue oldItem));
          dorig = int (OrigSize newItem) - int (OrigSize oldItem);
          s1 = upd_shard i (\<lambda>sh. sh\<lparr>byteCount := byteCount sh + (newItemSize - oldSize),
                 compressedSize := compressedSize sh + dv,
                 originalSize := originalSize sh + dorig\<rparr>) s
      in s1\<lparr>totalBytes := totalBytes s1 + (newItemSize - oldSize),
            compressedBytes := compressedBytes s1 + dv,
            originalBytes := originalBytes s1 + dorig, setCount := setCount s1 + 1\<rparr>)"

definition store_data :: "nat \<Rightarrow> string \<Rightarrow> compressedItem \<Rightarrow> MemStorage \<Rightarrow> MemStorage" where
  "store_data i key ci = upd_shard i (\<lambda>sh. sh\<lparr>sdata := AList.update key ci (sdata sh)\<rparr>)"

text \<open>\<open>None\<close> is \<open>errRetry\<close>.\<close>

definition tryStoreNewKey ::
  "nat \<Rightarrow> string \<Rightarrow> compressedItem \<Rightarrow> int \<Rightarrow> StoredItem \<Rightarrow> MemStorage \<Rightarrow> MemStorage option" where
  "tryStoreNewKey i key ci itemSize item s =
     (case load s i key of
        None \<Rightarrow> Some (addToSyncBuffer i key OpSet (Some item) (touchLRU i key
                  (updateStatsForNewKey i ci itemSize (store_data i key ci s))))
      | Some _ \<Rightarrow> None)"

definition tryUpdateExistingKey ::
  "nat \<Rightarrow> string \<Rightarrow> compressedItem \<Rightarrow> compressedItem \<Rightarrow> int \<Rightarrow> StoredItem \<Rightarrow> MemStorage
   \<Rightarrow> MemStorage option" where
  "tryUpdateExistingKey i key existing ci itemSize item s =
     (if sint (cVersion ci) \<le> sint (cVersion existing) then Some (s\<lparr>setCount := setCount s + 1\<rparr>)
      else case load s i key of
        None \<Rightarrow> None
      | Some current \<Rightarrow>
          if cVersion current \<noteq> cVersion existing then None
          else if current = existing
          then Some (addToSyncBuffer i key OpSet (Some item) (touchLRU i key
                 (updateStatsForExistingKey i existing ci itemSize (store_data i key ci s))))
          else None)"

definition store_iter ::
  "nat \<Rightarrow> string \<Rightarrow> compressedItem \<Rightarrow> int \<Rightarrow> StoredItem \<Rightarrow> MemStorage \<Rightarrow> MemStorage option" where
  "store_iter i key ci itemSize item s =
     (case load s i key of
        None \<Rightarrow> tryStoreNewKey i key ci itemSize item s
      | Some existing \<Rightarrow> tryUpdateExistingKey i key existing ci itemSize item s)"

partial_function (option) storeItemWithConflictResolution ::
  "nat \<Rightarrow> string \<Rightarrow> compressedItem \<Rightarrow> int \<Rightarrow> StoredItem \<Rightarrow> MemStorage \<Rightarrow> MemStorage option" where
  "storeItemWithConflictResolution i key ci itemSize item s =
     (case store_iter i key ci itemSize item s of
        Some s' \<Rightarrow> Some s'
      | None \<Rightarrow> storeItemWithConflictResolution i key ci itemSize item s)"

lemma store_iter_total: "store_iter i key ci itemSize item s \<noteq> None"
  by (simp add: store_iter_def tryStoreNewKey_def tryUpdateExistingKey_def split: option.splits)

lemma storeItemWithConflictResolution_eq [code]:
  "storeItemWithConflictResolution i key ci itemSize item s = store_iter i key ci itemSize item s"
  using store_iter_total [of i key ci itemSize item s]
  by (subst storeItemWithConflictResolution.simps) (auto split: option.splits)

text \<open>
  \<open>Set\<close>. The last branch stands for a loop that never returns; by \<open>store_iter_total\<close> it is not
  taken.
\<close>

definition Set :: "env \<Rightarrow> string \<Rightarrow> StoredItem option \<Rightarrow> MemStorage \<Rightarrow> MemStorage \<times> (storage_err + unit)" where
  "Set E key item_opt s =
     (if key = '''' then (s, Inl ErrEmptyKey)
      else case item_opt of
        None \<Rightarrow> (s, Inl ErrNilItem)
      | Some item \<Rightarrow>
          (case getShard E s key of
             None \<Rightarrow> (s, Inl ErrPanic)
           | Some i \<Rightarrow>
               (let (ci, itemSize) = prepareCompressedItem E s key item;
                    (s1, r) = (if maxMemoryMB s > 0 then checkAndEvict itemSize s else (s, Inr ()))
                in case r of
                     Inl e \<Rightarrow> (s1, Inl e)
                   | Inr _ \<Rightarrow>
                       (case storeItemWithConflictResolution i key ci itemSize item s1 of
                          Some s2 \<Rightarrow> (s2, Inr ())
                        | None \<Rightarrow> (s1, Inl ErrRetry)))))"

section \<open>Get\<close>

text \<open>The deletion on the read path: the byte counters keep what they had for the key.\<close>

definition drop_expired :: "nat \<Rightarrow> string \<Rightarrow> MemStorage \<Rightarrow> MemStorage" where
  "drop_expired i key s =
     (let s0 = s\<lparr>missCount := missCount s + 1\<rparr>;
          s1 = upd_shard i (\<lambda>sh. sh\<lparr>sdata := AList.delete key (sdata sh),
                                     keyCount := keyCount sh - 1\<rparr>) s0
      in removeFromLRU i key (s1\<lparr>totalKeys := totalKeys s1 - 1\<rparr>))"

text \<open>
  \<open>Get\<close> and \<open>GetNoCopy\<close> differ in how an uncompressed value is returned: cloned, or the slice itself.
\<close>

definition get_with ::
  "(bytes \<Rightarrow> bytes) \<Rightarrow> env \<Rightarrow> gotime \<Rightarrow> string \<Rightarrow> MemStorage \<Rightarrow> MemStorage \<times> (storage_err + StoredItem)"
where
  "get_with clone E now key s =
     (if key = '''' then (s, Inl ErrEmptyKey)
      else
        (let s0 = s\<lparr>getCount := getCount s + 1\<rparr> in
         case getShard E s0 key of
           None \<Rightarrow> (s0, Inl ErrPanic)
         | Some i \<Rightarrow>
             (case load s0 i key of
                None \<Rightarrow> (s0\<lparr>missCount := missCount s0 + 1\<rparr>, Inl ErrNotFound)
              | Some ci \<Rightarrow>
                  if \<not> IsZero (cExpireAt ci) \<and> sint (UnixNano now) > sint (UnixNano (cExpireAt ci))
                  then (drop_expired i key s0, Inl ErrExpired)
                  else
                    (let s1 = touchLRU i key (s0\<lparr>hitCount := hitCount s0 + 1\<rparr>) in
                     if Compressed ci
                     then (case decompressValue E ci of
                             None \<Rightarrow> (s1, Inl ErrDecompress)
                           | Some v \<Rightarrow> (s1, Inr \<lparr>Version = cVersion ci, ExpireAt = cExpireAt ci,
                                                 Value = v, Key = ''''\<rparr>))
                     else (s1, Inr \<lparr>Version = cVersion ci, ExpireAt = cExpireAt ci,
                                    Value = clone (cValue ci), Key = ''''\<rparr>)))))"

definition Get :: "env \<Rightarrow> gotime \<Rightarrow> string \<Rightarrow> MemStorage \<Rightarrow> MemStorage \<times> (storage_err + StoredItem)" where
  "Get = get_with FastCloneBytes"

definition GetNoCopy :: "env \<Rightarrow> gotime \<Rightarrow> string \<Rightarrow> MemStorage \<Rightarrow> MemStorage \<times> (storage_err + StoredItem)" where
  "GetNoCopy = get_with (\<lambda>v. v)"

section \<open>Delete\<close>

definition Delete :: "env \<Rightarrow> string \<Rightarrow> int64 \<Rightarrow> MemStorage \<Rightarrow> MemStorage \<times> (storage_err + unit)" where
  "Delete E key version s =
     (if key = '''' then (s, Inl ErrEmptyKey)
      else case getShard E s key of
        None \<Rightarrow> (s, Inl ErrPanic)
      | Some i \<Rightarrow>
          (case load s i key of
             None \<Rightarrow> (s, Inr ())
           | Some ci \<Rightarrow>
               if sint version > 0 \<and> sint (cVersion ci) > sint version
               then (s, Inl ErrVersionMismatch)
               else (addToSyncBuffer i key OpDelete None
                       (removeFromLRU i key (uncount i key ci (delete_data i key s))), Inr ())))"

section \<open>Background cleaning, keys, clear\<close>

definition is_past :: "gotime \<Rightarrow> compressedItem \<Rightarrow> bool" where
  "is_past now ci \<longleftrightarrow> \<not> IsZero (cExpireAt ci) \<and> now > cExpireAt ci"

definition clean_key :: "nat \<Rightarrow> string \<Rightarrow> MemStorage \<Rightarrow> MemStorage" where
  "clean_key i key s =
     (case load s i key of
        None \<Rightarrow> s
      | Some ci \<Rightarrow> removeFromLRU i key (uncount i key ci (delete_data i key s)))"

definition clean_shard :: "gotime \<Rightarrow> nat \<Rightarrow> MemStorage \<Rightarrow> MemStorage" where
  "clean_shard now i s =
     (let expiredKeys = map fst (filter (\<lambda>(k, ci). is_past now ci) (sdata (shards s ! i)))
      in fold (clean_key i) expiredKeys s)"

definition cleanExpired :: "gotime \<Rightarrow> MemStorage \<Rightarrow> MemStorage" where
  "cleanExpired now s = fold (clean_shard now) [0..<length (shards s)] s"

definition keys_shard :: "gotime \<Rightarrow> storageShard \<Rightarrow> storageShard \<times> string list" where
  "keys_shard now sh =
     (sh\<lparr>sdata := filter (\<lambda>(k, ci). \<not> is_past now ci) (sdata sh)\<rparr>,
      map fst (filter (\<lambda>(k, ci). \<not> is_past now ci) (sdata sh)))"

definition Keys :: "gotime \<Rightarrow> MemStorage \<Rightarrow> MemStorage \<times> string list" where
  "Keys now s =
     (s\<lparr>shards := map (\<lambda>sh. fst (keys_shard now sh)) (shards s)\<rparr>,
      concat (map (\<lambda>sh. snd (keys_shard now sh)) (shards s)))"

definition clear_shard :: "storageShard \<Rightarrow> storageShard" where
  "clear_shard sh = sh\<lparr>sdata := [], lru := [], keyCount := 0, byteCount := 0, compressedSize := 0,
     originalSize := 0, syncTail := syncHead sh\<rparr>"

definition Clear :: "MemStorage \<Rightarrow> MemStorage" where
  "Clear s = s\<lparr>shards := map clear_shard (shards s), totalKeys := 0, totalBytes := 0,
     compressedBytes := 0, originalBytes := 0\<rparr>"

section \<open>Draining the sync buffers\<close>

definition fill_value :: "env \<Rightarrow> gotime \<Rightarrow> SyncOperation \<Rightarrow> MemStorage \<Rightarrow> MemStorage \<times> SyncOperation" where
  "fill_value E now op s =
     (case opItem op of
        None \<Rightarrow> (s, op)
      | Some it \<Rightarrow>
          if Value it = go_nil \<and> opType op = OpSet
          then (case GetNoCopy E now (opKey op) s of
                  (s', Inl _) \<Rightarrow> (s', op)
                | (s', Inr stored) \<Rightarrow>
                    if go_len (Value stored) > 0
                    then (s', op\<lparr>opItem := Some (it\<lparr>Value := FastCloneBytes (Value stored)\<rparr>)\<rparr>)
                    else (s', op))
          else (s, op))"

fun drain_loop ::
  "env \<Rightarrow> gotime \<Rightarrow> nat \<Rightarrow> nat list \<Rightarrow> MemStorage \<Rightarrow> SyncOperation list \<Rightarrow> MemStorage \<times> SyncOperation list"
where
  "drain_loop E now i [] s ops = (s, ops)"
| "drain_loop E now i (j # js) s ops =
     (let slot = j AND syncMask (shards s ! i) in
      case syncBuffer (shards s ! i) ! slot of
        None \<Rightarrow> drain_loop E now i js s ops
      | Some op \<Rightarrow>
          (case fill_value E now op s of (s1, op1) \<Rightarrow>
             drain_loop E now i js
               (upd_shard i (\<lambda>sh. sh\<lparr>syncBuffer := (syncBuffer sh)[slot := None]\<rparr>) s1)
               (ops @ [op1])))"

definition drain_shard ::
  "env \<Rightarrow> gotime \<Rightarrow> nat \<Rightarrow> MemStorage \<times> SyncOperation list \<Rightarrow> MemStorage \<times> SyncOperation list" where
  "drain_shard E now i st =
     (case st of (s, ops) \<Rightarrow>
        (let head = syncHead (shards s ! i); tail = syncTail (shards s ! i) in
         if head = tail then (s, ops)
         else (case drain_loop E now i [tail..<head] s ops of (s1, ops1) \<Rightarrow>
                 (upd_shard i (\<lambda>sh. sh\<lparr>syncTail := head\<rparr>) s1, ops1))))"

definition GetSyncBuffer :: "env \<Rightarrow> gotime \<Rightarrow> MemStorage \<Rightarrow> MemStorage \<times> SyncOperation list" where
  "GetSyncBuffer E now s = fold (drain_shard E now) [0..<length (shards s)] (s, [])"

section \<open>Batch operations\<close>

text \<open>
  The batches are a map from shard index to the keys of that shard in the order of the request; an
  index out of range panics while grouping.
\<close>

fun group_by_shard ::
  "env \<Rightarrow> MemStorage \<Rightarrow> ('x \<Rightarrow> string) \<Rightarrow> 'x list \<Rightarrow> (nat \<times> 'x list) list \<Rightarrow> (nat \<times> 'x list) list option"
where
  "group_by_shard E s kf [] batches = Some batches"
| "group_by_shard E s kf (x # xs) batches =
     (case getShard E s (kf x) of
        None \<Rightarrow> None
      | Some i \<Rightarrow>
          (let old = (case map_of batches i of None \<Rightarrow> [] | Some ys \<Rightarrow> ys)
           in group_by_shard E s kf xs (AList.update i (old @ [x]) batches)))"

definition batch_get_key ::
  "(bytes \<Rightarrow> bytes) \<Rightarrow> env \<Rightarrow> gotime \<Rightarrow> nat \<Rightarrow> string
   \<Rightarrow> MemStorage \<times> (string \<times> StoredItem) list \<Rightarrow> MemStorage \<times> (string \<times> StoredItem) list" where
  "batch_get_key clone E now i key st =
     (case st of (s, result) \<Rightarrow>
        (let s0 = s\<lparr>getCount := getCount s + 1\<rparr> in
         case load s0 i key of
           None \<Rightarrow> (s0\<lparr>missCount := missCount s0 + 1\<rparr>, result)
         | Some ci \<Rightarrow>
             if is_past now ci then (drop_expired i key s0, result)
             else
               (let s1 = touchLRU i key (s0\<lparr>hitCount := hitCount s0 + 1\<rparr>);
                    item = (\<lambda>v. \<lparr>Version = cVersion ci, ExpireAt = cExpireAt ci, Value = v, Key = ''''\<rparr>)
                in if Compressed ci
                   then (case decompressValue E ci of
                           None \<Rightarrow> (s1, result)
                         | Some None \<Rightarrow> (s1, result)
                         | Some (Some bs) \<Rightarrow> (s1, AList.update key (item (Some bs)) result))
                   else (s1, AList.update key (item (clone (cValue ci))) result))))"

definition batch_get_with ::
  "(bytes \<Rightarrow> bytes) \<Rightarrow> env \<Rightarrow> gotime \<Rightarrow> string list \<Rightarrow> MemStorage
   \<Rightarrow> MemStorage \<times> (storage_err + (string \<times> StoredItem) list)" where
  "batch_get_with clone E now keys s =
     (if length keys = 0 then (s, Inr [])
      else case group_by_shard E s (\<lambda>k. k) (filter (\<lambda>k. k \<noteq> '''') keys) [] of
        None \<Rightarrow> (s, Inl ErrPanic)
      | Some batches \<Rightarrow>
          (case fold (\<lambda>(i, ks). fold (batch_get_key clone E now i) ks) batches (s, []) of
             (s', result) \<Rightarrow> (s', Inr result)))"

definition BatchGet ::
  "env \<Rightarrow> gotime \<Rightarrow> string list \<Rightarrow> MemStorage \<Rightarrow> MemStorage \<times> (storage_err + (string \<times> StoredItem) list)"
where
  "BatchGet = batch_get_with FastCloneBytes"

definition BatchGetNoCopy ::
  "env \<Rightarrow> gotime \<Rightarrow> string list \<Rightarrow> MemStorage \<Rightarrow> MemStorage \<times> (storage_err + (string \<times> StoredItem) list)"
where
  "BatchGetNoCopy = batch_get_with (\<lambda>v. v)"

definition BatchSet ::
  "env \<Rightarrow> (string \<times> StoredItem option) list \<Rightarrow> MemStorage \<Rightarrow> MemStorage \<times> (storage_err + unit)" where
  "BatchSet E items s =
     (if length items = 0 then (s, Inr ())
      else
        (let todo = [(k, it). (k, Some it) \<leftarrow> items, k \<noteq> ''''] in
         case group_by_shard E s fst todo [] of
           None \<Rightarrow> (s, Inl ErrPanic)
         | Some batches \<Rightarrow>
             (let totalSize = sum_list (map (\<lambda>(k, it). calculateItemSize k (Value it)) todo);
                  (s1, r) = (if maxMemoryMB s > 0 then checkAndEvict totalSize s else (s, Inr ()))
              in case r of
                   Inl e \<Rightarrow> (s1, Inl e)
                 | Inr _ \<Rightarrow>
                     (fold (\<lambda>(i, kits). fold (\<lambda>(k, it) s. fst (Set E k (Some it) s)) kits) batches s1,
                      Inr ()))))"

end
