(* ===== verification/Mem_Storage_Inv.thy ===== *)
theory Mem_Storage_Inv
  imports Mem_Storage
begin

text \<open>
  The invariant of \<open>MemStorage\<close> and its preservation by every operation. It is stated per shard:
  \<open>data_ok\<close> (keys are distinct, in the shard their hash selects, and on the LRU list, whose entries
  are distinct), \<open>sync_ok\<close> (the ring buffer's shape and positions) and \<open>count_ok\<close> (the counters bound
  what is stored); \<open>totals_ok\<close> says that every global counter is the sum of the shards' counters.
\<close>

section \<open>Association lists and sums\<close>

lemma sum_list_update_int:
  fixes f :: "'a \<Rightarrow> int"
  shows "i < length xs \<Longrightarrow> sum_list (map f (xs[i := y])) = sum_list (map f xs) + f y - f (xs ! i)"
proof (induction xs arbitrary: i)
  case (Cons x xs)
  then show ?case by (cases i) auto
qed simp

lemma sum_update_new:
  "k \<notin> fst ` set xs \<Longrightarrow> sum_list (map f (AList.update k v xs)) = sum_list (map f xs) + (f (k, v) :: int)"
  by (induction xs) auto

lemma sum_update_old:
  "map_of xs k = Some w \<Longrightarrow>
   sum_list (map f (AList.update k v xs)) = sum_list (map f xs) + f (k, v) - (f (k, w) :: int)"
  by (induction xs) (auto split: if_splits)

lemma delete_notin: "k \<notin> fst ` set xs \<Longrightarrow> AList.delete k xs = xs"
  by (induction xs) (auto simp: AList.delete_eq filter_id_conv)

lemma sum_delete:
  "distinct (map fst xs) \<Longrightarrow> map_of xs k = Some w \<Longrightarrow>
   sum_list (map f (AList.delete k xs)) = sum_list (map f xs) - (f (k, w) :: int)"
proof (induction xs)
  case (Cons x xs)
  show ?case
  proof (cases "fst x = k")
    case True
    then have "AList.delete k (x # xs) = AList.delete k xs" by (cases x) (simp add: AList.delete_eq)
    moreover have "AList.delete k xs = xs" using Cons.prems(1) True by (intro delete_notin) auto
    ultimately show ?thesis using Cons.prems True by (cases x) auto
  next
    case False
    then have "AList.delete k (x # xs) = x # AList.delete k xs" by (cases x) (simp add: AList.delete_eq)
    with Cons False show ?thesis by (cases x) auto
  qed
qed simp

lemma length_as_sum: "int (length xs) = sum_list (map (\<lambda>_. 1) xs)"
  by (induction xs) auto

lemma length_update_new: "k \<notin> fst ` set xs \<Longrightarrow> length (AList.update k v xs) = Suc (length xs)"
  by (induction xs) auto

lemma length_update_old: "map_of xs k = Some w \<Longrightarrow> length (AList.update k v xs) = length xs"
  by (induction xs) (auto split: if_splits)

lemma length_delete_int:
  "distinct (map fst xs) \<Longrightarrow> map_of xs k = Some w \<Longrightarrow> int (length (AList.delete k xs)) = int (length xs) - 1"
  unfolding length_as_sum by (rule sum_delete)

section \<open>The invariant\<close>

definition data_bytes :: "storageShard \<Rightarrow> int" where
  "data_bytes sh = sum_list (map (\<lambda>(k, ci). calculateItemSize k (cValue ci)) (sdata sh))"

definition data_ok :: "(string \<Rightarrow> bool) \<Rightarrow> storageShard \<Rightarrow> bool" where
  "data_ok home sh \<longleftrightarrow> distinct (map fst (sdata sh)) \<and> distinct (lru sh)
     \<and> fst ` set (sdata sh) \<subseteq> set (lru sh) \<and> (\<forall>k \<in> fst ` set (sdata sh). home k)"

definition sync_ok :: "storageShard \<Rightarrow> bool" where
  "sync_ok sh \<longleftrightarrow> syncCapacity sh = 2 ^ 13 \<and> syncMask sh = 2 ^ 13 - 1
     \<and> length (syncBuffer sh) = syncCapacity sh
     \<and> syncTail sh \<le> syncHead sh \<and> syncHead sh - syncTail sh \<le> syncCapacity sh"

definition count_ok :: "storageShard \<Rightarrow> bool" where
  "count_ok sh \<longleftrightarrow> int (length (sdata sh)) \<le> keyCount sh \<and> data_bytes sh \<le> byteCount sh"

definition home :: "env \<Rightarrow> MemStorage \<Rightarrow> nat \<Rightarrow> string \<Rightarrow> bool" where
  "home E s i k \<longleftrightarrow> k \<noteq> '''' \<and> getShard E s k = Some i"

definition totals_ok :: "MemStorage \<Rightarrow> bool" where
  "totals_ok s \<longleftrightarrow> totalKeys s = sum_list (map keyCount (shards s))
     \<and> totalBytes s = sum_list (map byteCount (shards s))
     \<and> compressedBytes s = sum_list (map compressedSize (shards s))
     \<and> originalBytes s = sum_list (map originalSize (shards s))"

definition mask_ok :: "MemStorage \<Rightarrow> bool" where
  "mask_ok s \<longleftrightarrow> length (shards s) = unat (shardMask s) + 1"

definition storage_inv :: "env \<Rightarrow> MemStorage \<Rightarrow> bool" where
  "storage_inv E s \<longleftrightarrow> mask_ok s \<and> totals_ok s
     \<and> (\<forall>i < length (shards s). data_ok (home E s i) (shards s ! i)
          \<and> sync_ok (shards s ! i) \<and> count_ok (shards s ! i))"

lemma and_mask_le: "unat (h AND m) \<le> unat (m :: uint64)"
  using word_and_le1 [of h m] by (simp add: word_le_nat_alt and.commute)

lemma getShard_total:
  assumes "mask_ok s"
  obtains i where "getShard E s key = Some i" "i < length (shards s)"
  using assms and_mask_le [of "hash_Lo E key" "shardMask s"]
  by (auto simp: getShard_def mask_ok_def Let_def)

lemma getShard_less: "getShard E s key = Some i \<Longrightarrow> i < length (shards s)"
  by (auto simp: getShard_def Let_def split: if_splits)

section \<open>Field equations\<close>

lemma upd_shard_fields [store_simps]:
  "shards (upd_shard i f s) = (shards s)[i := f (shards s ! i)]"
  "shardMask (upd_shard i f s) = shardMask s"
  "shardCount (upd_shard i f s) = shardCount s"
  "maxMemoryMB (upd_shard i f s) = maxMemoryMB s"
  "totalKeys (upd_shard i f s) = totalKeys s" "totalBytes (upd_shard i f s) = totalBytes s"
  "compressedBytes (upd_shard i f s) = compressedBytes s"
  "originalBytes (upd_shard i f s) = originalBytes s"
  "getCount (upd_shard i f s) = getCount s" "setCount (upd_shard i f s) = setCount s"
  "hitCount (upd_shard i f s) = hitCount s" "missCount (upd_shard i f s) = missCount s"
  "evictCount (upd_shard i f s) = evictCount s"
  "compressionEnabled (upd_shard i f s) = compressionEnabled s"
  "compressionThresh (upd_shard i f s) = compressionThresh s"
  "evictThreshold (upd_shard i f s) = evictThreshold s"
  "evictTarget (upd_shard i f s) = evictTarget s"
  "evictShardIdx (upd_shard i f s) = evictShardIdx s"
  "evictBatchSize (upd_shard i f s) = evictBatchSize s"
  "asyncEviction (upd_shard i f s) = asyncEviction s"
  by (simp_all add: upd_shard_def)

lemma getShard_cong:
  "shardMask s' = shardMask s \<Longrightarrow> length (shards s') = length (shards s) \<Longrightarrow> getShard E s' = getShard E s"
  by (rule ext) (simp add: getShard_def)

lemma storage_inv_step:
  assumes "storage_inv E s" "i < length (shards s)" "shards s' = (shards s)[i := sh]"
    and "shardMask s' = shardMask s"
    and "data_ok (home E s i) sh" "sync_ok sh" "count_ok sh"
    and "totalKeys s' = totalKeys s + (keyCount sh - keyCount (shards s ! i))"
    and "totalBytes s' = totalBytes s + (byteCount sh - byteCount (shards s ! i))"
    and "compressedBytes s' = compressedBytes s + (compressedSize sh - compressedSize (shards s ! i))"
    and "originalBytes s' = originalBytes s + (originalSize sh - originalSize (shards s ! i))"
  shows "storage_inv E s'"
proof -
  have g: "getShard E s' = getShard E s" by (rule getShard_cong) (simp_all add: assms(3,4))
  then have h: "home E s' j = home E s j" for j by (intro ext) (simp add: home_def)
  have "totals_ok s'"
    using assms(1,2,8-11) by (simp add: storage_inv_def totals_ok_def assms(3) sum_list_update_int)
  moreover have "mask_ok s'" using assms(1) by (simp add: storage_inv_def mask_ok_def assms(3,4))
  ultimately show ?thesis
    using assms(1,2,5-7) by (auto simp: storage_inv_def h assms(3) nth_list_update)
qed

section \<open>Shard-level preservation\<close>

lemma shard_ok_at:
  assumes "storage_inv E s" "i < length (shards s)"
  shows "data_ok (home E s i) (shards s ! i)" "sync_ok (shards s ! i)" "count_ok (shards s ! i)"
  using assms by (auto simp: storage_inv_def)

lemma data_ok_cong:
  "sdata sh' = sdata sh \<Longrightarrow> lru sh' = lru sh \<Longrightarrow> data_ok h sh' = data_ok h sh"
  by (simp add: data_ok_def)

lemma sync_ok_cong:
  "syncCapacity sh' = syncCapacity sh \<Longrightarrow> syncMask sh' = syncMask sh \<Longrightarrow>
   length (syncBuffer sh') = length (syncBuffer sh) \<Longrightarrow> syncTail sh' = syncTail sh \<Longrightarrow>
   syncHead sh' = syncHead sh \<Longrightarrow> sync_ok sh' = sync_ok sh"
  by (simp add: sync_ok_def)

definition touch_sh :: "string \<Rightarrow> storageShard \<Rightarrow> storageShard" where
  "touch_sh key sh = (if key \<in> set (lru sh) then sh\<lparr>lru := key # remove1 key (lru sh)\<rparr>
     else sh\<lparr>lru := key # lru sh\<rparr>)"

definition unlru_sh :: "string \<Rightarrow> storageShard \<Rightarrow> storageShard" where
  "unlru_sh key sh = (if key \<in> set (lru sh) then sh\<lparr>lru := remove1 key (lru sh)\<rparr> else sh)"

lemma touchLRU_sh [store_simps]: "touchLRU i key = upd_shard i (touch_sh key)"
  by (simp add: touchLRU_def touch_sh_def [abs_def])

lemma removeFromLRU_sh [store_simps]: "removeFromLRU i key = upd_shard i (unlru_sh key)"
  by (simp add: removeFromLRU_def unlru_sh_def [abs_def])

lemma touch_sh_fields [simp]:
  "sdata (touch_sh key sh) = sdata sh" "keyCount (touch_sh key sh) = keyCount sh"
  "byteCount (touch_sh key sh) = byteCount sh" "compressedSize (touch_sh key sh) = compressedSize sh"
  "originalSize (touch_sh key sh) = originalSize sh"
  "syncBuffer (touch_sh key sh) = syncBuffer sh" "syncMask (touch_sh key sh) = syncMask sh"
  "syncHead (touch_sh key sh) = syncHead sh" "syncTail (touch_sh key sh) = syncTail sh"
  "syncCapacity (touch_sh key sh) = syncCapacity sh"
  by (simp_all add: touch_sh_def)

lemma unlru_sh_fields [simp]:
  "sdata (unlru_sh key sh) = sdata sh" "keyCount (unlru_sh key sh) = keyCount sh"
  "byteCount (unlru_sh key sh) = byteCount sh" "compressedSize (unlru_sh key sh) = compressedSize sh"
  "originalSize (unlru_sh key sh) = originalSize sh"
  "syncBuffer (unlru_sh key sh) = syncBuffer sh" "syncMask (unlru_sh key sh) = syncMask sh"
  "syncHead (unlru_sh key sh) = syncHead sh" "syncTail (unlru_sh key sh) = syncTail sh"
  "syncCapacity (unlru_sh key sh) = syncCapacity sh"
  by (simp_all add: unlru_sh_def)

lemma set_lru_touch [simp]: "set (lru (touch_sh key sh)) = insert key (set (lru sh))"
  by (auto simp: touch_sh_def dest: notin_set_remove1) (metis in_set_remove1)

lemma distinct_lru_touch: "distinct (lru sh) \<Longrightarrow> distinct (lru (touch_sh key sh))"
  by (simp add: touch_sh_def)

lemma set_lru_unlru: "distinct (lru sh) \<Longrightarrow> set (lru (unlru_sh key sh)) = set (lru sh) - {key}"
  by (simp add: unlru_sh_def)

lemma distinct_lru_unlru: "distinct (lru sh) \<Longrightarrow> distinct (lru (unlru_sh key sh))"
  by (simp add: unlru_sh_def)

lemma data_ok_touch: "data_ok h sh \<Longrightarrow> data_ok h (touch_sh key sh)"
  by (auto simp: data_ok_def distinct_lru_touch)

lemma push_sync_fields [simp]:
  "sdata (push_sync op sh) = sdata sh" "lru (push_sync op sh) = lru sh"
  "keyCount (push_sync op sh) = keyCount sh" "byteCount (push_sync op sh) = byteCount sh"
  "compressedSize (push_sync op sh) = compressedSize sh"
  "originalSize (push_sync op sh) = originalSize sh"
  "syncMask (push_sync op sh) = syncMask sh" "syncCapacity (push_sync op sh) = syncCapacity sh"
  "syncHead (push_sync op sh) = syncHead sh + 1"
  by (simp_all add: push_sync_def clear_slots_def Let_def)

lemma length_fold_clear [simp]:
  "length (fold (\<lambda>j buf. buf[g j := None]) js buf) = length buf"
  by (induction js arbitrary: buf) auto

lemma length_push_sync [simp]: "length (syncBuffer (push_sync op sh)) = length (syncBuffer sh)"
  by (simp add: push_sync_def clear_slots_def Let_def)

lemma sync_ok_push: "sync_ok sh \<Longrightarrow> sync_ok (push_sync op sh)"
  by (simp add: sync_ok_def) (auto simp: push_sync_def clear_slots_def Let_def)

lemma count_ok_cong:
  "sdata sh' = sdata sh \<Longrightarrow> keyCount sh' = keyCount sh \<Longrightarrow> byteCount sh' = byteCount sh
   \<Longrightarrow> count_ok sh' = count_ok sh"
  by (simp add: count_ok_def data_bytes_def)

text \<open>A new key, a replaced value, a deleted key: the stored data and its counters.\<close>

lemma calculateItemSize_nonneg [simp]: "0 \<le> calculateItemSize k v"
  by (simp add: calculateItemSize_def)

lemma count_ok_new:
  assumes "count_ok sh" "map_of (sdata sh) key = None"
    and "sdata sh' = AList.update key ci (sdata sh)" "keyCount sh' = keyCount sh + 1"
    and "byteCount sh' = byteCount sh + calculateItemSize key (cValue ci)"
  shows "count_ok sh'"
proof -
  have "key \<notin> fst ` set (sdata sh)" using assms(2) by (simp add: map_of_eq_None_iff)
  then show ?thesis
    using assms(1) by (simp add: count_ok_def data_bytes_def assms(3-5) length_update_new sum_update_new)
qed

lemma count_ok_replace:
  assumes "count_ok sh" "map_of (sdata sh) key = Some old"
    and "sdata sh' = AList.update key ci (sdata sh)" "keyCount sh' = keyCount sh"
    and "byteCount sh' \<ge> byteCount sh + calculateItemSize key (cValue ci) - calculateItemSize key (cValue old)"
  shows "count_ok sh'"
  using assms(1,2,5)
  by (simp add: count_ok_def data_bytes_def assms(3,4) length_update_old [OF assms(2)]
      sum_update_old [OF assms(2)])

lemma count_ok_delete:
  assumes "count_ok sh" "distinct (map fst (sdata sh))" "map_of (sdata sh) key = Some old"
    and "sdata sh' = AList.delete key (sdata sh)" "keyCount sh' \<ge> keyCount sh - 1"
    and "byteCount sh' \<ge> byteCount sh - calculateItemSize key (cValue old)"
  shows "count_ok sh'"
  using assms(1,5,6)
  by (simp add: count_ok_def data_bytes_def assms(4) length_delete_int [OF assms(2,3)]
      sum_delete [OF assms(2,3)])

lemma data_ok_update:
  assumes "data_ok h sh" "h key" "sdata sh' = AList.update key ci (sdata sh)"
    and "set (lru sh') = insert key (set (lru sh))" "distinct (lru sh')"
  shows "data_ok h sh'"
  using assms by (auto simp: data_ok_def)

lemma data_ok_delete:
  assumes "data_ok h sh" "sdata sh' = AList.delete key (sdata sh)"
    and "set (lru sh') \<supseteq> set (lru sh) - {key}" "distinct (lru sh')"
  shows "data_ok h sh'"
  using assms by (auto simp: data_ok_def)

section \<open>Preservation by the operations\<close>

definition sync_op :: "string \<Rightarrow> OpType \<Rightarrow> StoredItem option \<Rightarrow> SyncOperation" where
  "sync_op key ot item = \<lparr>opKey = key, opType = ot,
     opItem = map_option (\<lambda>it. \<lparr>Version = Version it, ExpireAt = ExpireAt it, Value = go_nil, Key = key\<rparr>) item\<rparr>"

lemma addToSyncBuffer_sh [store_simps]:
  "addToSyncBuffer i key ot item = upd_shard i (push_sync (sync_op key ot item))"
  by (cases item) (simp_all add: addToSyncBuffer_def sync_op_def)

lemma storage_inv_cong:
  assumes "shards s' = shards s" "shardMask s' = shardMask s" "totalKeys s' = totalKeys s"
    "totalBytes s' = totalBytes s" "compressedBytes s' = compressedBytes s"
    "originalBytes s' = originalBytes s"
  shows "storage_inv E s' = storage_inv E s"
proof -
  have "home E s' i = home E s i" for i
    using getShard_cong [of s' s E] assms by (intro ext) (simp add: home_def)
  then show ?thesis by (simp add: storage_inv_def totals_ok_def mask_ok_def assms)
qed

lemma storage_inv_stats [simp]:
  "storage_inv E (s\<lparr>getCount := c\<rparr>) = storage_inv E s"
  "storage_inv E (s\<lparr>setCount := c\<rparr>) = storage_inv E s"
  "storage_inv E (s\<lparr>hitCount := c\<rparr>) = storage_inv E s"
  "storage_inv E (s\<lparr>missCount := c\<rparr>) = storage_inv E s"
  "storage_inv E (s\<lparr>evictCount := c\<rparr>) = storage_inv E s"
  "storage_inv E (s\<lparr>evictShardIdx := w\<rparr>) = storage_inv E s"
  by (rule storage_inv_cong; simp)+

lemma storage_inv_upd:
  assumes "storage_inv E s" "i < length (shards s)"
    and "data_ok (home E s i) (f (shards s ! i))" "sync_ok (f (shards s ! i))"
    and "sdata (f (shards s ! i)) = sdata (shards s ! i)"
    and "keyCount (f (shards s ! i)) = keyCount (shards s ! i)"
    and "byteCount (f (shards s ! i)) = byteCount (shards s ! i)"
    and "compressedSize (f (shards s ! i)) = compressedSize (shards s ! i)"
    and "originalSize (f (shards s ! i)) = originalSize (shards s ! i)"
  shows "storage_inv E (upd_shard i f s)"
proof (rule storage_inv_step [OF assms(1,2)])
  show "count_ok (f (shards s ! i))"
    using shard_ok_at(3) [OF assms(1,2)] count_ok_cong [OF assms(5-7)] by blast
qed (use assms in \<open>simp_all add: store_simps\<close>)

lemma storage_inv_touchLRU:
  "storage_inv E s \<Longrightarrow> i < length (shards s) \<Longrightarrow> storage_inv E (touchLRU i key s)"
  unfolding touchLRU_sh
  by (rule storage_inv_upd)
    (simp_all add: data_ok_touch shard_ok_at sync_ok_cong [of "touch_sh key (shards s ! i)" "shards s ! i"])

lemma storage_inv_sync:
  "storage_inv E s \<Longrightarrow> i < length (shards s) \<Longrightarrow> storage_inv E (addToSyncBuffer i key ot item s)"
  unfolding addToSyncBuffer_sh
  by (rule storage_inv_upd)
    (simp_all add: shard_ok_at sync_ok_push data_ok_cong [of "push_sync (sync_op key ot item) (shards s ! i)" "shards s ! i"])

lemma home_stable:
  assumes "shardMask s' = shardMask s" "length (shards s') = length (shards s)"
  shows "home E s' i = home E s i"
  using getShard_cong [OF assms, of E] by (intro ext) (simp add: home_def)

lemma storage_inv_new_key:
  assumes "storage_inv E s" "home E s i key" "load s i key = None"
  shows "storage_inv E (touchLRU i key
    (updateStatsForNewKey i ci (calculateItemSize key (cValue ci)) (store_data i key ci s)))"
proof -
  have i: "i < length (shards s)" using assms(2) by (auto simp: home_def dest: getShard_less)
  let ?sh = "shards s ! i"
  let ?sh1 = "touch_sh key (?sh\<lparr>sdata := AList.update key ci (sdata ?sh), keyCount := keyCount ?sh + 1,
      byteCount := byteCount ?sh + calculateItemSize key (cValue ci),
      compressedSize := compressedSize ?sh + int (go_len (cValue ci)),
      originalSize := originalSize ?sh + int (OrigSize ci)\<rparr>)"
  note ok = shard_ok_at [OF assms(1) i]
  show ?thesis
  proof (rule storage_inv_step [OF assms(1) i, where sh = ?sh1])
    show "data_ok (home E s i) ?sh1"
      by (rule data_ok_update [OF ok(1) assms(2), of _ ci])
        (use ok(1) in \<open>simp_all add: distinct_lru_touch data_ok_def\<close>)
    show "sync_ok ?sh1" using ok(2) by (simp add: sync_ok_def)
    show "count_ok ?sh1" using assms(3)
      by (intro count_ok_new [OF ok(3), of key _ ci]) (simp_all add: load_def)
  qed (use i in \<open>simp_all add: store_simps updateStatsForNewKey_def store_data_def Let_def\<close>)
qed

lemma storage_inv_replace_key:
  assumes "storage_inv E s" "home E s i key" "load s i key = Some old"
  shows "storage_inv E (touchLRU i key
    (updateStatsForExistingKey i old ci (calculateItemSize key (cValue ci)) (store_data i key ci s)))"
proof -
  have i: "i < length (shards s)" using assms(2) by (auto simp: home_def dest: getShard_less)
  let ?sh = "shards s ! i"
  let ?sh1 = "touch_sh key (?sh\<lparr>sdata := AList.update key ci (sdata ?sh),
      byteCount := byteCount ?sh + (calculateItemSize key (cValue ci) - calculateItemSize '''' (cValue old)),
      compressedSize := compressedSize ?sh + (int (go_len (cValue ci)) - int (go_len (cValue old))),
      originalSize := originalSize ?sh + (int (OrigSize ci) - int (OrigSize old))\<rparr>)"
  note ok = shard_ok_at [OF assms(1) i]
  show ?thesis
  proof (rule storage_inv_step [OF assms(1) i, where sh = ?sh1])
    show "data_ok (home E s i) ?sh1"
      by (rule data_ok_update [OF ok(1) assms(2), of _ ci])
        (use ok(1) in \<open>simp_all add: distinct_lru_touch data_ok_def\<close>)
    show "sync_ok ?sh1" using ok(2) by (simp add: sync_ok_def)
    show "count_ok ?sh1" using assms(3)
      by (intro count_ok_replace [OF ok(3), of key old _ ci]) (simp_all add: load_def calculateItemSize_def)
  qed (use i in \<open>simp_all add: store_simps updateStatsForExistingKey_def store_data_def Let_def\<close>)
qed

lemma store_length [simp]:
  "length (shards (upd_shard i f s)) = length (shards s)"
  "length (shards (touchLRU j key s)) = length (shards s)"
  "length (shards (removeFromLRU j key s)) = length (shards s)"
  "length (shards (addToSyncBuffer j key ot item s)) = length (shards s)"
  "length (shards (updateStatsForNewKey j ci sz s)) = length (shards s)"
  "length (shards (updateStatsForExistingKey j ci0 ci sz s)) = length (shards s)"
  "length (shards (store_data j key ci s)) = length (shards s)"
  "length (shards (delete_data j key s)) = length (shards s)"
  "length (shards (uncount j key ci s)) = length (shards s)"
  by (simp_all add: store_simps updateStatsForNewKey_def updateStatsForExistingKey_def store_data_def
      delete_data_def uncount_def Let_def)

lemma storage_inv_store_iter:
  assumes "storage_inv E s" "home E s i key"
    and "store_iter i key ci (calculateItemSize key (cValue ci)) item s = Some s'"
  shows "storage_inv E s'"
proof -
  have i: "i < length (shards s)" using assms(2) by (auto simp: home_def dest: getShard_less)
  show ?thesis
    using assms(3) storage_inv_new_key [OF assms(1,2), of ci] storage_inv_replace_key [OF assms(1,2), of _ ci] i assms(1)
    by (auto simp: store_iter_def tryStoreNewKey_def tryUpdateExistingKey_def storage_inv_sync
        split: option.splits if_splits)
qed

lemma storage_inv_delete_key:
  assumes "storage_inv E s" "i < length (shards s)" "load s i key = Some ci"
    and f: "\<And>sh. sdata (f sh) = sdata sh" "\<And>sh. keyCount (f sh) = keyCount sh"
      "\<And>sh. byteCount (f sh) = byteCount sh" "\<And>sh. compressedSize (f sh) = compressedSize sh"
      "\<And>sh. originalSize (f sh) = originalSize sh" "\<And>sh. sync_ok (f sh) = sync_ok sh"
      "\<And>sh. lru sh = lru (shards s ! i) \<Longrightarrow>
         set (lru (f sh)) \<supseteq> set (lru sh) - {key} \<and> distinct (lru (f sh))"
  shows "storage_inv E (upd_shard i f (uncount i key ci (delete_data i key s)))"
proof -
  let ?sh = "shards s ! i"
  let ?new = "?sh\<lparr>sdata := AList.delete key (sdata ?sh), keyCount := keyCount ?sh - 1,
      byteCount := byteCount ?sh - calculateItemSize key (cValue ci),
      compressedSize := compressedSize ?sh - int (go_len (cValue ci)),
      originalSize := originalSize ?sh - int (OrigSize ci)\<rparr>"
  note ok = shard_ok_at [OF assms(1,2)]
  have d: "distinct (map fst (sdata ?sh))" "distinct (lru ?sh)" using ok(1) by (simp_all add: data_ok_def)
  show ?thesis
  proof (rule storage_inv_step [OF assms(1,2), where sh = "f ?new"])
    show "data_ok (home E s i) (f ?new)"
      by (rule data_ok_delete [OF ok(1), of _ key]) (use f(7) [of ?new] d(2) in \<open>simp_all add: f\<close>)
    show "sync_ok (f ?new)" using ok(2) by (simp add: f) (simp add: sync_ok_def)
    show "count_ok (f ?new)" using assms(3)
      by (intro count_ok_delete [OF ok(3) d(1), of key ci]) (simp_all add: f load_def)
  qed (use assms(2) in \<open>simp_all add: store_simps uncount_def delete_data_def Let_def f\<close>)
qed

lemma storage_inv_delete_unlru:
  assumes "storage_inv E s" "i < length (shards s)" "load s i key = Some ci"
  shows "storage_inv E (removeFromLRU i key (uncount i key ci (delete_data i key s)))"
proof -
  have "distinct (lru (shards s ! i))" using shard_ok_at(1) [OF assms(1,2)] by (simp add: data_ok_def)
  then show ?thesis
    unfolding removeFromLRU_sh using assms
    by (intro storage_inv_delete_key) (simp_all add: set_lru_unlru distinct_lru_unlru sync_ok_def)
qed

lemma storage_inv_drop_expired:
  assumes "storage_inv E s" "i < length (shards s)" "load s i key = Some ci"
  shows "storage_inv E (drop_expired i key s)"
proof -
  let ?sh = "shards s ! i"
  let ?new = "unlru_sh key (?sh\<lparr>sdata := AList.delete key (sdata ?sh), keyCount := keyCount ?sh - 1\<rparr>)"
  note ok = shard_ok_at [OF assms(1,2)]
  have d: "distinct (map fst (sdata ?sh))" "distinct (lru ?sh)" using ok(1) by (simp_all add: data_ok_def)
  show ?thesis
  proof (rule storage_inv_step [OF assms(1,2), where sh = ?new])
    show "data_ok (home E s i) ?new"
      by (rule data_ok_delete [OF ok(1), of _ key]) (use d(2) in \<open>simp_all add: set_lru_unlru distinct_lru_unlru\<close>)
    show "sync_ok ?new" using ok(2) by (simp add: sync_ok_def)
    show "count_ok ?new" using assms(3)
      by (intro count_ok_delete [OF ok(3) d(1), of key ci]) (simp_all add: load_def)
  qed (use assms(2) in \<open>simp_all add: store_simps drop_expired_def Let_def\<close>)
qed

lemma set_butlast: "xs \<noteq> [] \<Longrightarrow> set xs = insert (last xs) (set (butlast xs))"
  by (induction xs) auto

lemma data_ok_butlast:
  assumes "data_ok h sh" "lru sh \<noteq> []" "map_of (sdata sh) (last (lru sh)) = None"
  shows "data_ok h (sh\<lparr>lru := butlast (lru sh)\<rparr>)"
proof -
  have "last (lru sh) \<notin> fst ` set (sdata sh)" using assms(3) by (simp add: map_of_eq_None_iff)
  moreover have "fst ` set (sdata sh) \<subseteq> insert (last (lru sh)) (set (butlast (lru sh)))"
    using assms(1) set_butlast [OF assms(2)] by (simp add: data_ok_def)
  ultimately have "fst ` set (sdata sh) \<subseteq> set (butlast (lru sh))" by (rule subset_insert [THEN iffD1])
  then show ?thesis
    using assms(1) by (simp add: data_ok_def distinct_butlast)
qed

lemma upd_shard_commute_load:
  "i < length (shards s) \<Longrightarrow> load (upd_shard i f s) i key = map_of (sdata (f (shards s ! i))) key"
  by (simp add: load_def store_simps)

lemma evict_oldest_inv:
  assumes "storage_inv E s" "i < length (shards s)" "lru (shards s ! i) \<noteq> []" "evict_oldest i s = (s', b)"
  shows "storage_inv E s' \<and> length (shards s') = length (shards s)
    \<and> lru (shards s' ! i) = butlast (lru (shards s ! i))"
proof -
  let ?l = "lru (shards s ! i)"
  let ?b = "\<lambda>sh. sh\<lparr>lru := butlast (lru sh)\<rparr>"
  note ok = shard_ok_at [OF assms(1,2)]
  have dl: "distinct ?l" using ok(1) by (simp add: data_ok_def)
  show ?thesis
  proof (cases "load s i (last ?l)")
    case None
    then have "map_of (sdata (shards s ! i)) (last ?l) = None" by (simp add: load_def)
    then have "storage_inv E (upd_shard i ?b s)"
      using assms(1-3) ok by (intro storage_inv_upd) (simp_all add: data_ok_butlast sync_ok_def)
    with None assms(2,4) show ?thesis
      by (auto simp: evict_oldest_def Let_def upd_shard_commute_load store_simps load_def)
  next
    case (Some ci)
    have set_l: "set ?l - {last ?l} \<subseteq> set (butlast ?l)"
      using set_butlast [OF assms(3)] by auto
    let ?new = "(shards s ! i)\<lparr>lru := butlast ?l, sdata := AList.delete (last ?l) (sdata (shards s ! i)),
        keyCount := keyCount (shards s ! i) - 1,
        byteCount := byteCount (shards s ! i) - calculateItemSize (last ?l) (cValue ci),
        compressedSize := compressedSize (shards s ! i) - int (go_len (cValue ci)),
        originalSize := originalSize (shards s ! i) - int (OrigSize ci)\<rparr>"
    have fields: "shards s' = (shards s)[i := ?new]" "shardMask s' = shardMask s"
      "totalKeys s' = totalKeys s - 1" "totalBytes s' = totalBytes s - calculateItemSize (last ?l) (cValue ci)"
      "compressedBytes s' = compressedBytes s - int (go_len (cValue ci))"
      "originalBytes s' = originalBytes s - int (OrigSize ci)"
      using Some assms(2,4)
      by (auto simp: evict_oldest_def Let_def upd_shard_commute_load store_simps load_def uncount_def
          delete_data_def)
    have "storage_inv E s'"
    proof (rule storage_inv_step [OF assms(1,2) fields(1,2)])
      show "data_ok (home E s i) ?new"
        using set_l dl by (intro data_ok_delete [OF ok(1)]) (simp_all add: distinct_butlast)
      show "sync_ok ?new" using ok(2) by (simp add: sync_ok_def)
      show "count_ok ?new" using Some ok(1)
        by (intro count_ok_delete [OF ok(3), of "last ?l" ci]) (simp_all add: load_def data_ok_def)
    qed (simp_all add: fields)
    then show ?thesis using assms(2) fields(1) by simp
  qed
qed

text \<open>What an operation leaves alone: the configuration, and the stored items up to deletion.\<close>

definition same_config :: "MemStorage \<Rightarrow> MemStorage \<Rightarrow> bool" where
  "same_config s s' \<longleftrightarrow> shardMask s' = shardMask s \<and> length (shards s') = length (shards s)
     \<and> maxMemoryMB s' = maxMemoryMB s \<and> compressionEnabled s' = compressionEnabled s
     \<and> compressionThresh s' = compressionThresh s \<and> evictThreshold s' = evictThreshold s
     \<and> evictTarget s' = evictTarget s \<and> evictBatchSize s' = evictBatchSize s
     \<and> asyncEviction s' = asyncEviction s"

definition submap :: "MemStorage \<Rightarrow> MemStorage \<Rightarrow> bool" where
  "submap s s' \<longleftrightarrow> (\<forall>j k. load s' j k = None \<or> load s' j k = load s j k)"

lemma same_config_refl [simp]: "same_config s s"
  by (simp add: same_config_def)

lemma same_config_trans: "same_config s s' \<Longrightarrow> same_config s' s'' \<Longrightarrow> same_config s s''"
  by (simp add: same_config_def)

lemma submap_refl [simp]: "submap s s"
  by (simp add: submap_def)

lemma submap_trans: "submap s s' \<Longrightarrow> submap s' s'' \<Longrightarrow> submap s s''"
  unfolding submap_def by metis

lemma getShard_same_config: "same_config s s' \<Longrightarrow> getShard E s' = getShard E s"
  by (rule getShard_cong) (simp_all add: same_config_def)

lemma home_same_config: "same_config s s' \<Longrightarrow> home E s' = home E s"
  by (intro ext) (simp add: home_def getShard_same_config)

lemma evict_oldest_frame:
  assumes "i < length (shards s)" "evict_oldest i s = (s', b)"
  shows "same_config s s' \<and> submap s s'"
proof -
  have "load s' j k = None \<or> load s' j k = load s j k" for j k
    using assms
    by (cases "j = i")
      (auto simp: evict_oldest_def Let_def upd_shard_commute_load store_simps load_def uncount_def
        delete_data_def split: option.splits)
  moreover have "same_config s s'"
    using assms by (auto simp: same_config_def evict_oldest_def Let_def store_simps uncount_def
        delete_data_def split: option.splits)
  ultimately show ?thesis by (simp add: submap_def)
qed

lemma evict_loop_inv:
  assumes "storage_inv E s" "i < length (shards s)" "len \<le> length (lru (shards s ! i))"
    and "evict_loop len i batch n s = (s', m)"
  shows "storage_inv E s' \<and> same_config s s' \<and> submap s s' \<and> n \<le> m"
  using assms
proof (induction len arbitrary: s n)
  case (Suc len)
  show ?case
  proof (cases "n < batch")
    case True
    obtain s1 b where e: "evict_oldest i s = (s1, b)" by (cases "evict_oldest i s")
    have "lru (shards s ! i) \<noteq> []" using Suc.prems(3) by auto
    note inv = evict_oldest_inv [OF Suc.prems(1,2) this e] and fr = evict_oldest_frame [OF Suc.prems(2) e]
    have "storage_inv E s' \<and> same_config s1 s' \<and> submap s1 s' \<and> (if b then n + 1 else n) \<le> m"
      using inv Suc.prems True e by (intro Suc.IH) auto
    then show ?thesis
      using fr same_config_trans submap_trans by (auto split: if_splits)
  qed (use Suc.prems in simp)
qed simp

lemma evictBatchLRU_inv:
  assumes "storage_inv E s" "evictBatchLRU b s = Some (s', n)"
  shows "storage_inv E s' \<and> same_config s s' \<and> submap s s'"
proof -
  let ?s = "s\<lparr>evictShardIdx := evictShardIdx s + 1\<rparr>"
  let ?i = "unat ((evictShardIdx s + 1) AND shardMask s)"
  let ?b = "nat (if (if b \<le> 0 then 1 else b) > 100 then 100 else (if b \<le> 0 then 1 else b))"
  have l: "?i < length (shards ?s)"
    and e: "evict_loop (length (lru (shards ?s ! ?i))) ?i ?b 0 ?s = (s', n)"
    using assms(2) by (auto simp: evictBatchLRU_def Let_def split: if_splits)
  have "storage_inv E s' \<and> same_config ?s s' \<and> submap ?s s' \<and> 0 \<le> n"
    by (rule evict_loop_inv [OF _ l _ e]) (simp_all add: assms(1))
  then show ?thesis by (simp add: same_config_def submap_def load_def)
qed

lemma evictBatchLRU_total: "mask_ok s \<Longrightarrow> evictBatchLRU b s \<noteq> None"
  using and_mask_le [of "evictShardIdx s + 1" "shardMask s"]
  by (auto simp: evictBatchLRU_def mask_ok_def Let_def)

lemma evict_until_inv:
  assumes "storage_inv E s" "evict_until fuel sz tgt mx n s = Some (s', m)"
  shows "storage_inv E s' \<and> same_config s s' \<and> submap s s'"
  using assms
proof (induction fuel arbitrary: s n)
  case (Suc fuel)
  show ?case
  proof (cases "totalBytes s + sz > tgt \<and> int n < mx")
    case True
    then obtain s1 k where e: "evictBatchLRU (evictBatchSize s) s = Some (s1, k)"
      using Suc.prems(2) by (auto split: option.splits)
    note inv = evictBatchLRU_inv [OF Suc.prems(1) e]
    have "storage_inv E s' \<and> same_config s1 s' \<and> submap s1 s'"
      using Suc.prems(2) True e inv Suc.IH [of s1 "n + k"] by (auto split: if_splits)
    with inv show ?thesis using same_config_trans submap_trans by blast
  qed (use Suc.prems in \<open>simp split: if_splits\<close>)
qed simp

lemma checkAndEvict_inv:
  assumes "storage_inv E s" "checkAndEvict sz s = (s', r)"
  shows "storage_inv E s' \<and> same_config s s' \<and> submap s s'"
proof -
  have a: "storage_inv E s1 \<and> same_config s s1 \<and> submap s s1" if "evictBatchLRU 5 s = Some (s1, k)" for s1 k
    using evictBatchLRU_inv [OF assms(1) that] .
  have b: "storage_inv E s1 \<and> same_config s s1 \<and> submap s s1"
    if "evict_until 200 sz tgt 200 0 s = Some (s1, k)" for s1 k tgt
    using evict_until_inv [OF assms(1) that] .
  from assms show ?thesis
    by (auto simp: checkAndEvict_def Let_def dest: a b split: if_splits option.splits)
qed

lemma runAsyncEviction_inv:
  assumes "storage_inv E s" "runAsyncEviction s = Some s'"
  shows "storage_inv E s' \<and> same_config s s' \<and> submap s s'"
  using assms evict_until_inv [OF assms(1)]
  by (auto simp: runAsyncEviction_def Let_def split: if_splits)

text \<open>The fuel of the eviction loops suffices: more rounds change nothing.\<close>

lemma evict_until_fuel:
  "int n + int fuel \<ge> mx \<Longrightarrow> evict_until (fuel + k) sz tgt mx n s = evict_until fuel sz tgt mx n s"
proof (induction fuel arbitrary: n s)
  case 0
  then show ?case by (cases k) simp_all
next
  case (Suc fuel)
  show ?case
  proof (cases "evictBatchLRU (evictBatchSize s) s")
    case (Some p)
    obtain s1 m where "p = (s1, m)" by (cases p)
    with Some Suc show ?thesis by auto
  qed simp
qed

lemma prepareCompressedItem_size:
  "prepareCompressedItem E s key item = (ci, sz) \<Longrightarrow> sz = calculateItemSize key (cValue ci)"
  by (auto simp: prepareCompressedItem_def Let_def split: prod.splits if_splits)

text \<open>The branches of \<open>Set\<close> on a state that satisfies the invariant.\<close>

lemma Set_cases:
  assumes "storage_inv E s" "Set E key item_opt s = (s', r)"
  obtains (empty) "key = ''''" "s' = s" "r = Inl ErrEmptyKey"
  | (nil) "key \<noteq> ''''" "item_opt = None" "s' = s" "r = Inl ErrNilItem"
  | (full) item i ci sz s1 e where "item_opt = Some item" "home E s i key"
      "prepareCompressedItem E s key item = (ci, sz)"
      "checkAndEvict sz s = (s1, Inl e)" "s' = s1" "r = Inl e"
  | (stored) item i ci sz s1 where "item_opt = Some item" "home E s i key"
      "prepareCompressedItem E s key item = (ci, sz)" "sz = calculateItemSize key (cValue ci)"
      "s1 = s \<or> checkAndEvict sz s = (s1, Inr ())"
      "store_iter i key ci sz item s1 = Some s'" "r = Inr ()"
proof -
  have m: "mask_ok s" using assms(1) by (simp add: storage_inv_def)
  obtain i where i: "getShard E s key = Some i" by (rule getShard_total [OF m])
  show thesis
  proof (cases "key = '''' \<or> item_opt = None")
    case True
    then show thesis using assms(2) empty nil by (cases "key = ''''") (simp_all add: Set_def)
  next
    case False
    then obtain item where item: "item_opt = Some item" and k: "key \<noteq> ''''" by auto
    then have h: "home E s i key" using i by (simp add: home_def)
    obtain ci sz where p: "prepareCompressedItem E s key item = (ci, sz)"
      by (cases "prepareCompressedItem E s key item")
    obtain s1 r1 where c: "(if maxMemoryMB s > 0 then checkAndEvict sz s else (s, Inr ())) = (s1, r1)"
      by (cases "if maxMemoryMB s > 0 then checkAndEvict sz s else (s, Inr ())")
    show thesis
    proof (cases r1)
      case (Inl e)
      then show thesis
        using assms(2) c p k i item full [OF item h p] by (auto simp: Set_def split: if_splits)
    next
      case (Inr u)
      obtain s2 where s2: "store_iter i key ci sz item s1 = Some s2"
        using store_iter_total [of i key ci sz item s1] by auto
      have "s' = s2 \<and> r = Inr ()"
        using assms(2) c p k i item Inr s2
        by (auto simp: Set_def storeItemWithConflictResolution_eq)
      moreover have "s1 = s \<or> checkAndEvict sz s = (s1, Inr ())"
        using c Inr by (auto split: if_splits)
      ultimately show thesis
        using stored [OF item h p prepareCompressedItem_size [OF p]] s2 by blast
    qed
  qed
qed

lemma store_iter_config:
  assumes "store_iter i key ci sz item s = Some s'"
  shows "same_config s s'"
  using assms
  by (auto simp: store_iter_def tryStoreNewKey_def tryUpdateExistingKey_def same_config_def store_simps
      store_data_def updateStatsForNewKey_def updateStatsForExistingKey_def Let_def
      split: option.splits if_splits)

lemma Set_inv:
  assumes "storage_inv E s" "Set E key item s = (s', r)"
  shows "storage_inv E s' \<and> same_config s s'"
  using assms
proof (cases rule: Set_cases)
  case (full item i ci sz s1 e)
  then show ?thesis using checkAndEvict_inv [OF assms(1)] by blast
next
  case (stored item i ci sz s1)
  have s1: "storage_inv E s1 \<and> same_config s s1"
    using stored(5) checkAndEvict_inv [OF assms(1)] assms(1) by (metis same_config_refl)
  then have "home E s1 i key" using stored(2) home_same_config by metis
  with s1 stored(4,6) have "storage_inv E s'" by (blast intro: storage_inv_store_iter)
  with s1 store_iter_config [OF stored(6)] show ?thesis using same_config_trans by blast
qed (use assms in simp_all)

lemma touchLRU_config: "same_config s (touchLRU i key s)"
  by (simp add: same_config_def store_simps)

lemma drop_expired_config: "same_config s (drop_expired i key s)"
  by (simp add: same_config_def drop_expired_def Let_def store_simps)

lemma same_config_stats [simp]:
  "same_config s (s'\<lparr>getCount := c\<rparr>) = same_config s s'"
  "same_config s (s'\<lparr>hitCount := c\<rparr>) = same_config s s'"
  "same_config s (s'\<lparr>missCount := c\<rparr>) = same_config s s'"
  "same_config (s\<lparr>getCount := c\<rparr>) s' = same_config s s'"
  "same_config (s\<lparr>hitCount := c\<rparr>) s' = same_config s s'"
  "same_config (s\<lparr>missCount := c\<rparr>) s' = same_config s s'"
  by (simp_all add: same_config_def)

lemma get_stats_simps [simp]:
  "getShard E (s\<lparr>getCount := c\<rparr>) key = getShard E s key"
  "load (s\<lparr>getCount := c\<rparr>) i key = load s i key"
  "load (s\<lparr>missCount := c\<rparr>) i key = load s i key"
  "load (s\<lparr>hitCount := c\<rparr>) i key = load s i key"
  by (simp_all add: getShard_def load_def)

lemma get_with_inv:
  assumes "storage_inv E s" "get_with clone E now key s = (s', r)"
  shows "storage_inv E s' \<and> same_config s s'"
proof -
  have t: "storage_inv E (touchLRU i key (s\<lparr>getCount := c, hitCount := d\<rparr>))
      \<and> same_config s (touchLRU i key (s\<lparr>getCount := c, hitCount := d\<rparr>))"
    if "getShard E s key = Some i" for i c d
    using assms(1) getShard_less [OF that] touchLRU_config [of "s\<lparr>getCount := c, hitCount := d\<rparr>" i key]
    by (simp add: storage_inv_touchLRU)
  have d: "storage_inv E (drop_expired i key (s\<lparr>getCount := c\<rparr>))
      \<and> same_config s (drop_expired i key (s\<lparr>getCount := c\<rparr>))"
    if "getShard E s key = Some i" "load s i key = Some ci" for i c ci
    using assms(1) getShard_less [OF that(1)] that(2) drop_expired_config [of "s\<lparr>getCount := c\<rparr>" i key]
      storage_inv_drop_expired [of E "s\<lparr>getCount := c\<rparr>" i key ci] by simp
  from assms show ?thesis
    by (auto simp: get_with_def Let_def t d split: if_splits option.splits)
qed

lemma Delete_inv:
  assumes "storage_inv E s" "Delete E key v s = (s', r)"
  shows "storage_inv E s' \<and> same_config s s'"
proof -
  have d: "storage_inv E (addToSyncBuffer i key OpDelete None
        (removeFromLRU i key (uncount i key ci (delete_data i key s))))"
    if "getShard E s key = Some i" "load s i key = Some ci" for i ci
    using storage_inv_delete_unlru [OF assms(1) getShard_less [OF that(1)] that(2)] getShard_less [OF that(1)]
    by (intro storage_inv_sync) simp_all
  have c: "same_config s (addToSyncBuffer i key OpDelete None
        (removeFromLRU i key (uncount i key ci (delete_data i key s))))" for i ci
    by (simp add: same_config_def store_simps uncount_def delete_data_def Let_def)
  from assms show ?thesis
    by (auto simp: Delete_def d c split: if_splits option.splits)
qed

lemma clean_key_inv:
  "storage_inv E s \<Longrightarrow> i < length (shards s) \<Longrightarrow> storage_inv E (clean_key i key s) \<and> same_config s (clean_key i key s)"
  by (rule conjI; cases "load s i key")
    (simp_all add: clean_key_def storage_inv_delete_unlru,
     simp_all add: same_config_def store_simps uncount_def delete_data_def Let_def)

text \<open>A fold of steps that each keep the invariant and the configuration.\<close>

lemma fold_storage_inv:
  assumes "\<And>x s. x \<in> set xs \<Longrightarrow> storage_inv E s \<Longrightarrow> same_config s0 s \<Longrightarrow>
      storage_inv E (f x s) \<and> same_config s (f x s)"
    and "storage_inv E s" "same_config s0 s"
  shows "storage_inv E (fold f xs s) \<and> same_config s0 (fold f xs s)"
  using assms
proof (induction xs arbitrary: s)
  case (Cons x xs)
  have "storage_inv E (f x s) \<and> same_config s (f x s)" using Cons.prems by simp
  then show ?case using Cons.prems Cons.IH [of "f x s"] same_config_trans by auto
qed simp

lemma same_config_length: "same_config s s' \<Longrightarrow> length (shards s') = length (shards s)"
  by (simp add: same_config_def)

lemma cleanExpired_inv:
  assumes "storage_inv E s"
  shows "storage_inv E (cleanExpired now s) \<and> same_config s (cleanExpired now s)"
  unfolding cleanExpired_def
proof (rule fold_storage_inv [OF _ assms])
  fix i t assume "i \<in> set [0..<length (shards s)]" "storage_inv E t" "same_config s t"
  then have "i < length (shards t)" "storage_inv E t" by (simp_all add: same_config_length)
  then show "storage_inv E (clean_shard now i t) \<and> same_config t (clean_shard now i t)"
    unfolding clean_shard_def Let_def
    by (intro fold_storage_inv) (auto simp: same_config_length intro: clean_key_inv [THEN conjunct1] clean_key_inv [THEN conjunct2])
qed simp

lemma sum_list_mono_filter:
  assumes "\<And>x. x \<in> set xs \<Longrightarrow> 0 \<le> f x"
  shows "sum_list (map f (filter P xs)) \<le> (sum_list (map f xs) :: int)"
  using assms by (induction xs) (auto simp: add_increasing)

lemma Keys_inv:
  assumes "storage_inv E s"
  shows "storage_inv E (fst (Keys now s)) \<and> same_config s (fst (Keys now s))"
proof -
  let ?s = "fst (Keys now s)"
  have sh: "shards ?s = map (\<lambda>sh. fst (keys_shard now sh)) (shards s)" by (simp add: Keys_def)
  have c: "same_config s ?s" by (simp add: same_config_def Keys_def)
  have "data_ok h (fst (keys_shard now sh)) \<and> sync_ok (fst (keys_shard now sh)) \<and> count_ok (fst (keys_shard now sh))"
    if "data_ok h sh" "sync_ok sh" "count_ok sh" for h sh
  proof -
    let ?P = "\<lambda>(k, ci). \<not> is_past now ci"
    have "sum_list (map (\<lambda>(k, ci). calculateItemSize k (cValue ci)) (filter ?P (sdata sh)))
        \<le> sum_list (map (\<lambda>(k, ci). calculateItemSize k (cValue ci)) (sdata sh))"
      by (rule sum_list_mono_filter) auto
    moreover have "int (length (filter ?P (sdata sh))) \<le> keyCount sh"
      using that(3) length_filter_le [of ?P "sdata sh"] unfolding count_ok_def by linarith
    ultimately have "count_ok (fst (keys_shard now sh))"
      using that(3) by (simp add: count_ok_def data_bytes_def keys_shard_def)
    moreover have "data_ok h (fst (keys_shard now sh))"
      using that(1) by (auto simp: data_ok_def keys_shard_def distinct_map_filter)
    ultimately show ?thesis using that(2) by (simp add: sync_ok_def keys_shard_def)
  qed
  moreover have "totals_ok ?s"
    using assms by (simp add: storage_inv_def totals_ok_def Keys_def keys_shard_def o_def)
  moreover have "mask_ok ?s" using assms by (simp add: storage_inv_def mask_ok_def Keys_def)
  ultimately show ?thesis
    using assms c unfolding storage_inv_def sh home_same_config [OF c] by simp blast
qed

lemma sum_list_zero: "\<forall>x \<in> set xs. f x = 0 \<Longrightarrow> sum_list (map f xs) = (0 :: int)"
  by (induction xs) auto

lemma Clear_inv:
  assumes "storage_inv E s"
  shows "storage_inv E (Clear s) \<and> same_config s (Clear s)"
proof -
  have c: "same_config s (Clear s)" by (simp add: same_config_def Clear_def)
  have "totals_ok (Clear s)"
    by (simp add: totals_ok_def Clear_def clear_shard_def o_def sum_list_zero)
  moreover have "mask_ok (Clear s)" using assms by (simp add: storage_inv_def mask_ok_def Clear_def)
  moreover have "data_ok h (clear_shard sh) \<and> sync_ok (clear_shard sh) \<and> count_ok (clear_shard sh)"
    if "sync_ok sh" for h sh
    using that by (simp add: data_ok_def sync_ok_def count_ok_def data_bytes_def clear_shard_def)
  ultimately show ?thesis
    using assms c by (simp add: storage_inv_def home_same_config [OF c]) (simp add: Clear_def)
qed

lemma fill_value_inv:
  assumes "storage_inv E s" "fill_value E now op s = (s', op')"
  shows "storage_inv E s' \<and> same_config s s'"
proof -
  have g: "storage_inv E t \<and> same_config s t" if "GetNoCopy E now k s = (t, r)" for t r k
    using get_with_inv [OF assms(1)] that by (simp add: GetNoCopy_def)
  from assms show ?thesis
    by (auto simp: fill_value_def dest: g split: if_splits option.splits prod.splits sum.splits)
qed

lemma storage_inv_clear_slot:
  "storage_inv E s \<Longrightarrow> i < length (shards s) \<Longrightarrow>
   storage_inv E (upd_shard i (\<lambda>sh. sh\<lparr>syncBuffer := (syncBuffer sh)[slot := None]\<rparr>) s)"
  by (rule storage_inv_upd) (use shard_ok_at [of E s i] in \<open>simp_all add: data_ok_def sync_ok_def\<close>)

lemma drain_loop_inv:
  assumes "storage_inv E s" "i < length (shards s)" "drain_loop E now i js s ops = (s', ops')"
  shows "storage_inv E s' \<and> same_config s s'"
  using assms
proof (induction js arbitrary: s ops)
  case (Cons j js)
  let ?slot = "j AND syncMask (shards s ! i)"
  show ?case
  proof (cases "syncBuffer (shards s ! i) ! ?slot")
    case None
    then show ?thesis using Cons by simp
  next
    case (Some op)
    obtain s1 op1 where f: "fill_value E now op s = (s1, op1)" by (cases "fill_value E now op s")
    note i1 = fill_value_inv [OF Cons.prems(1) f]
    let ?s2 = "upd_shard i (\<lambda>sh. sh\<lparr>syncBuffer := (syncBuffer sh)[?slot := None]\<rparr>) s1"
    have l: "i < length (shards s1)" using i1 Cons.prems(2) same_config_length [of s s1] by simp
    have "same_config s1 ?s2" by (simp add: same_config_def store_simps)
    moreover have "storage_inv E s' \<and> same_config ?s2 s'"
      using Cons.prems(3) Some f i1 l by (intro Cons.IH) (simp_all add: storage_inv_clear_slot Let_def)
    ultimately show ?thesis using i1 same_config_trans by blast
  qed
qed simp

text \<open>Reads do not touch the sync buffers.\<close>

definition sync_view :: "MemStorage \<Rightarrow> (SyncOperation option list \<times> nat \<times> nat \<times> nat \<times> nat) list" where
  "sync_view s = map (\<lambda>sh. (syncBuffer sh, syncHead sh, syncTail sh, syncCapacity sh, syncMask sh)) (shards s)"

lemma map_update_same:
  assumes "f y = f (xs ! i)"
  shows "map f (xs[i := y]) = map f xs"
proof (cases "i < length xs")
  case True
  with assms have "map f (xs[i := y]) = (map f xs)[i := map f xs ! i]" by (simp add: map_update)
  then show ?thesis by (simp only: list_update_id)
qed (simp add: list_update_beyond)

lemma sync_view_simps [simp]:
  "sync_view (touchLRU i key s) = sync_view s" "sync_view (drop_expired i key s) = sync_view s"
  "sync_view (s\<lparr>getCount := c\<rparr>) = sync_view s" "sync_view (s\<lparr>hitCount := c\<rparr>) = sync_view s"
  "sync_view (s\<lparr>missCount := c\<rparr>) = sync_view s"
proof -
  have u: "sync_view (upd_shard i f s) = sync_view s"
    if "\<And>sh. (syncBuffer (f sh), syncHead (f sh), syncTail (f sh), syncCapacity (f sh), syncMask (f sh))
      = (syncBuffer sh, syncHead sh, syncTail sh, syncCapacity sh, syncMask sh)" for f s
    unfolding sync_view_def upd_shard_fields(1) by (rule map_update_same) (rule that)
  show "sync_view (touchLRU i key s) = sync_view s" by (simp add: store_simps u)
  have v: "sync_view (t\<lparr>totalKeys := c\<rparr>) = sync_view t" "sync_view (t\<lparr>missCount := c\<rparr>) = sync_view t" for t c
    by (simp_all add: sync_view_def)
  show "sync_view (drop_expired i key s) = sync_view s"
    by (simp add: drop_expired_def Let_def store_simps u v)
qed (simp_all add: sync_view_def)

lemma get_with_sync_view: "get_with clone E now key s = (s', r) \<Longrightarrow> sync_view s' = sync_view s"
  by (auto simp: get_with_def Let_def split: if_splits option.splits)

lemma fill_value_sync_view: "fill_value E now op s = (s', op') \<Longrightarrow> sync_view s' = sync_view s"
  by (auto simp: fill_value_def GetNoCopy_def dest: get_with_sync_view
      split: if_splits option.splits prod.splits sum.splits)

lemma sync_view_nth:
  assumes "sync_view s' = sync_view s" "i < length (shards s)"
  shows "syncBuffer (shards s' ! i) = syncBuffer (shards s ! i)" "syncHead (shards s' ! i) = syncHead (shards s ! i)"
    "syncTail (shards s' ! i) = syncTail (shards s ! i)" "syncMask (shards s' ! i) = syncMask (shards s ! i)"
    "i < length (shards s')"
proof -
  have l: "length (shards s') = length (shards s)"
    using arg_cong [OF assms(1), of length] by (simp add: sync_view_def)
  then show "i < length (shards s')" using assms(2) by simp
  with assms(2) arg_cong [OF assms(1), of "\<lambda>xs. xs ! i"]
  show "syncBuffer (shards s' ! i) = syncBuffer (shards s ! i)" "syncHead (shards s' ! i) = syncHead (shards s ! i)"
    "syncTail (shards s' ! i) = syncTail (shards s ! i)" "syncMask (shards s' ! i) = syncMask (shards s ! i)"
    by (simp_all add: sync_view_def)
qed

lemma drain_loop_head:
  assumes "i < length (shards s)" "drain_loop E now i js s ops = (s', ops')"
  shows "syncHead (shards s' ! i) = syncHead (shards s ! i) \<and> i < length (shards s')"
  using assms
proof (induction js arbitrary: s ops)
  case (Cons j js)
  let ?slot = "j AND syncMask (shards s ! i)"
  show ?case
  proof (cases "syncBuffer (shards s ! i) ! ?slot")
    case (Some op)
    obtain s1 op1 where f: "fill_value E now op s = (s1, op1)" by (cases "fill_value E now op s")
    note v = sync_view_nth [OF fill_value_sync_view [OF f] Cons.prems(1)]
    let ?s2 = "upd_shard i (\<lambda>sh. sh\<lparr>syncBuffer := (syncBuffer sh)[?slot := None]\<rparr>) s1"
    have "syncHead (shards s' ! i) = syncHead (shards ?s2 ! i) \<and> i < length (shards s')"
      using Cons.prems(2) Some f v(5) by (intro Cons.IH) (simp_all add: Let_def)
    with v(2,5) show ?thesis by (simp add: store_simps)
  qed (use Cons in simp)
qed simp

lemma drain_shard_inv:
  assumes "storage_inv E s" "i < length (shards s)" "drain_shard E now i (s, ops) = (s', ops')"
  shows "storage_inv E s' \<and> same_config s s'"
proof (cases "syncHead (shards s ! i) = syncTail (shards s ! i)")
  case False
  let ?h = "syncHead (shards s ! i)"
  obtain s1 ops1 where d: "drain_loop E now i [syncTail (shards s ! i)..<?h] s ops = (s1, ops1)"
    by (cases "drain_loop E now i [syncTail (shards s ! i)..<?h] s ops")
  note i1 = drain_loop_inv [OF assms(1,2) d] and hd = drain_loop_head [OF assms(2) d]
  have s': "s' = upd_shard i (\<lambda>sh. sh\<lparr>syncTail := ?h\<rparr>) s1"
    using assms(3) False d by (simp add: drain_shard_def Let_def)
  have "storage_inv E s'"
    unfolding s' by (rule storage_inv_upd) (use i1 hd shard_ok_at [of E s1 i] in \<open>simp_all add: data_ok_def sync_ok_def\<close>)
  moreover have "same_config s1 s'" by (simp add: s' same_config_def store_simps)
  ultimately show ?thesis using i1 same_config_trans by blast
qed (use assms in \<open>simp add: drain_shard_def\<close>)

lemma GetSyncBuffer_inv:
  assumes "storage_inv E s" "GetSyncBuffer E now s = (s', ops)"
  shows "storage_inv E s' \<and> same_config s s'"
proof -
  have "storage_inv E (fst (fold (drain_shard E now) is (t, os))) \<and> same_config t (fst (fold (drain_shard E now) is (t, os)))"
    if "storage_inv E t" "\<forall>i \<in> set is. i < length (shards t)" for "is" t os
    using that
  proof (induction "is" arbitrary: t os)
    case (Cons i "is")
    obtain t1 os1 where d: "drain_shard E now i (t, os) = (t1, os1)" by (cases "drain_shard E now i (t, os)")
    have i1: "storage_inv E t1 \<and> same_config t t1" using drain_shard_inv [OF Cons.prems(1) _ d] Cons.prems(2) by simp
    then have "\<forall>i \<in> set is. i < length (shards t1)" using Cons.prems(2) by (simp add: same_config_def)
    from Cons.IH [OF _ this, of os1] i1 show ?case using d same_config_trans by auto
  qed simp
  from this [OF assms(1), of "[0..<length (shards s)]" "[]"] assms(2) show ?thesis
    by (simp add: GetSyncBuffer_def)
qed

lemma batch_get_key_inv:
  assumes "storage_inv E s" "i < length (shards s)" "batch_get_key clone E now i key (s, res) = (s', res')"
  shows "storage_inv E s' \<and> same_config s s'"
proof -
  have t: "storage_inv E (touchLRU i key (s\<lparr>getCount := c, hitCount := d\<rparr>))
      \<and> same_config s (touchLRU i key (s\<lparr>getCount := c, hitCount := d\<rparr>))" for c d
    using assms(1,2) touchLRU_config [of "s\<lparr>getCount := c, hitCount := d\<rparr>" i key]
    by (simp add: storage_inv_touchLRU)
  have d: "storage_inv E (drop_expired i key (s\<lparr>getCount := c\<rparr>))
      \<and> same_config s (drop_expired i key (s\<lparr>getCount := c\<rparr>))"
    if "load s i key = Some ci" for c ci
    using assms(1,2) that drop_expired_config [of "s\<lparr>getCount := c\<rparr>" i key]
      storage_inv_drop_expired [of E "s\<lparr>getCount := c\<rparr>" i key ci] by simp
  from assms show ?thesis
    by (auto simp: batch_get_key_def Let_def t d split: if_splits option.splits)
qed

lemma group_by_shard_range:
  assumes "group_by_shard E s kf xs bs = Some bs'" "\<forall>i \<in> fst ` set bs. i < length (shards s)"
  shows "\<forall>i \<in> fst ` set bs'. i < length (shards s)"
  using assms
proof (induction E s kf xs bs rule: group_by_shard.induct)
  case (2 E s kf x xs bs)
  then obtain i where i: "getShard E s (kf x) = Some i" by (auto split: option.splits)
  let ?b = "AList.update i ((case map_of bs i of None \<Rightarrow> [] | Some ys \<Rightarrow> ys) @ [x]) bs"
  have "\<forall>j \<in> fst ` set ?b. j < length (shards s)"
    using "2.prems"(2) getShard_less [OF i] by simp
  with "2.IH" [OF i refl] "2.prems"(1) i show ?case by simp
qed simp

lemma fold_pair_storage_inv:
  assumes "\<And>x s r. x \<in> set xs \<Longrightarrow> storage_inv E s \<Longrightarrow> same_config s0 s \<Longrightarrow>
      storage_inv E (fst (f x (s, r))) \<and> same_config s (fst (f x (s, r)))"
    and "storage_inv E s" "same_config s0 s"
  shows "storage_inv E (fst (fold f xs (s, r))) \<and> same_config s0 (fst (fold f xs (s, r)))"
  using assms
proof (induction xs arbitrary: s r)
  case (Cons x xs)
  obtain s1 r1 where e: "f x (s, r) = (s1, r1)" by (cases "f x (s, r)")
  have "storage_inv E s1 \<and> same_config s s1" using Cons.prems(1) [of x s r] Cons.prems(2,3) e by simp
  then show ?case using Cons.prems Cons.IH [of s1 r1] e same_config_trans by auto
qed simp

lemma batch_get_with_inv:
  assumes "storage_inv E s" "batch_get_with clone E now keys s = (s', r)"
  shows "storage_inv E s' \<and> same_config s s'"
proof (cases "group_by_shard E s (\<lambda>k. k) (filter (\<lambda>k. k \<noteq> '''') keys) []")
  case (Some bs)
  let ?f = "\<lambda>(i, ks). fold (batch_get_key clone E now i) ks"
  have rng: "\<forall>i \<in> fst ` set bs. i < length (shards s)" by (rule group_by_shard_range [OF Some]) simp
  have "storage_inv E (fst (fold ?f bs (s, []))) \<and> same_config s (fst (fold ?f bs (s, [])))"
  proof (rule fold_pair_storage_inv [OF _ assms(1)])
    fix x t r assume x: "x \<in> set bs" "storage_inv E t" "same_config s t"
    obtain i ks where ik: "x = (i, ks)" by (cases x)
    have i: "i < length (shards t)" using x rng ik same_config_length [OF x(3)] by force
    have "storage_inv E (fst (fold (batch_get_key clone E now i) ks (t, r)))
        \<and> same_config t (fst (fold (batch_get_key clone E now i) ks (t, r)))"
    proof (rule fold_pair_storage_inv [OF _ x(2)])
      fix k u q assume "storage_inv E u" "same_config t u"
      then show "storage_inv E (fst (batch_get_key clone E now i k (u, q)))
          \<and> same_config u (fst (batch_get_key clone E now i k (u, q)))"
        using batch_get_key_inv [of E u i clone now k q] i same_config_length [of t u]
        by (cases "batch_get_key clone E now i k (u, q)") simp
    qed simp
    then show "storage_inv E (fst (?f x (t, r))) \<and> same_config t (fst (?f x (t, r)))" by (simp add: ik)
  qed simp
  with assms Some show ?thesis
    by (auto simp: batch_get_with_def split: if_splits prod.splits)
qed (use assms in \<open>auto simp: batch_get_with_def split: if_splits\<close>)

lemma BatchSet_inv:
  assumes "storage_inv E s" "BatchSet E items s = (s', r)"
  shows "storage_inv E s' \<and> same_config s s'"
proof (cases "length items = 0")
  case True
  then show ?thesis using assms by (simp add: BatchSet_def)
next
  case ne: False
  let ?todo = "[(k, it). (k, Some it) \<leftarrow> items, k \<noteq> '''']"
  let ?sz = "sum_list (map (\<lambda>(k, it). calculateItemSize k (Value it)) ?todo)"
  let ?sets = "fold (\<lambda>(i, kits). fold (\<lambda>(k, it) s. fst (Set E k (Some it) s)) kits)"
  have st: "storage_inv E (?sets bs t) \<and> same_config t (?sets bs t)" if "storage_inv E t" for bs t
  proof (rule fold_storage_inv [OF _ that])
    fix x u assume "storage_inv E u"
    obtain i kits where x: "x = (i, kits :: (string \<times> StoredItem) list)" by (cases x)
    have "storage_inv E (fold (\<lambda>(k, it) s. fst (Set E k (Some it) s)) kits u)
        \<and> same_config u (fold (\<lambda>(k, it) s. fst (Set E k (Some it) s)) kits u)"
    proof (rule fold_storage_inv [OF _ \<open>storage_inv E u\<close>])
      fix y v assume "storage_inv E v"
      then show "storage_inv E ((\<lambda>(k, it) s. fst (Set E k (Some it) s)) y v)
          \<and> same_config v ((\<lambda>(k, it) s. fst (Set E k (Some it) s)) y v)"
        using Set_inv by (cases y) (metis (no_types, lifting) case_prod_conv prod.collapse)
    qed simp
    then show "storage_inv E ((\<lambda>(i, kits). fold (\<lambda>(k, it) s. fst (Set E k (Some it) s)) kits) x u)
        \<and> same_config u ((\<lambda>(i, kits). fold (\<lambda>(k, it) s. fst (Set E k (Some it) s)) kits) x u)"
      by (simp add: x)
  qed simp
  obtain s1 r1 where c: "(if maxMemoryMB s > 0 then checkAndEvict ?sz s else (s, Inr ())) = (s1, r1)"
    by (cases "if maxMemoryMB s > 0 then checkAndEvict ?sz s else (s, Inr ())")
  have i1: "storage_inv E s1 \<and> same_config s s1"
    using c checkAndEvict_inv [OF assms(1)] assms(1) by (auto split: if_splits)
  show ?thesis
  proof (cases "group_by_shard E s fst ?todo []")
    case None
    with assms ne show ?thesis by (simp add: BatchSet_def Let_def)
  next
    case (Some bs)
    have "storage_inv E (?sets bs s1) \<and> same_config s (?sets bs s1)"
      using st [of s1 bs] i1 same_config_trans by blast
    with i1 Some c ne assms show ?thesis
      by (cases r1) (auto simp: BatchSet_def Let_def)
  qed
qed

section \<open>Reachable states\<close>

text \<open>Every exported operation of the store, as a step; the background goroutines are steps too.\<close>

datatype storage_call =
  CSet string "StoredItem option" | CGet gotime string | CGetNoCopy gotime string
  | CDelete string int64 | CBatchGet gotime "string list" | CBatchGetNoCopy gotime "string list"
  | CBatchSet "(string \<times> StoredItem option) list" | CGetSyncBuffer gotime | CKeys gotime | CClear
  | CCleanExpired gotime | CRunAsyncEviction

fun storage_exec :: "env \<Rightarrow> storage_call \<Rightarrow> MemStorage \<Rightarrow> MemStorage" where
  "storage_exec E (CSet key item) s = fst (Set E key item s)"
| "storage_exec E (CGet now key) s = fst (Get E now key s)"
| "storage_exec E (CGetNoCopy now key) s = fst (GetNoCopy E now key s)"
| "storage_exec E (CDelete key v) s = fst (Delete E key v s)"
| "storage_exec E (CBatchGet now ks) s = fst (BatchGet E now ks s)"
| "storage_exec E (CBatchGetNoCopy now ks) s = fst (BatchGetNoCopy E now ks s)"
| "storage_exec E (CBatchSet items) s = fst (BatchSet E items s)"
| "storage_exec E (CGetSyncBuffer now) s = fst (GetSyncBuffer E now s)"
| "storage_exec E (CKeys now) s = fst (Keys now s)"
| "storage_exec E CClear s = Clear s"
| "storage_exec E (CCleanExpired now) s = cleanExpired now s"
| "storage_exec E CRunAsyncEviction s = (case runAsyncEviction s of None \<Rightarrow> s | Some s' \<Rightarrow> s')"

lemma storage_exec_inv:
  assumes "storage_inv E s"
  shows "storage_inv E (storage_exec E c s) \<and> same_config s (storage_exec E c s)"
proof -
  note pair = prod.collapse [symmetric]
  note call = Set_inv [OF assms pair] get_with_inv [OF assms pair] Delete_inv [OF assms pair]
    batch_get_with_inv [OF assms pair] BatchSet_inv [OF assms pair] GetSyncBuffer_inv [OF assms pair]
    Keys_inv [OF assms] Clear_inv [OF assms] cleanExpired_inv [OF assms]
  show ?thesis
  proof (cases c)
    case CRunAsyncEviction
    then show ?thesis using runAsyncEviction_inv [OF assms] assms by (auto split: option.splits)
  qed (simp_all add: Get_def GetNoCopy_def BatchGet_def BatchGetNoCopy_def call)
qed

section \<open>Powers of two and the initial state\<close>

text \<open>The shift cascade sets every bit below the highest one.\<close>

lemma bit_smear_step:
  assumes "\<And>n. bit y n \<longleftrightarrow> (\<exists>d < m. bit x (n + d))"
  shows "bit (smear m y) n \<longleftrightarrow> (\<exists>d < 2 * m. bit x (n + d))"
proof -
  have "(\<exists>d < m. bit x (n + m + d)) \<longleftrightarrow> (\<exists>d. m \<le> d \<and> d < 2 * m \<and> bit x (n + d))"
  proof
    assume "\<exists>d < m. bit x (n + m + d)"
    then obtain d where "d < m" "bit x (n + (m + d))" by (auto simp: add.assoc)
    then show "\<exists>d. m \<le> d \<and> d < 2 * m \<and> bit x (n + d)" by (intro exI [of _ "m + d"]) simp
  next
    assume "\<exists>d. m \<le> d \<and> d < 2 * m \<and> bit x (n + d)"
    then obtain d where "m \<le> d" "d < 2 * m" "bit x (n + d)" by blast
    then show "\<exists>d < m. bit x (n + m + d)" by (intro exI [of _ "d - m"]) simp
  qed
  moreover have "bit (smear m y) n \<longleftrightarrow> bit y n \<or> bit y (n + m)"
    by (simp add: smear_def bit_or_iff bit_drop_bit_eq add.commute)
  moreover have "(\<exists>d < 2 * m. bit x (n + d)) \<longleftrightarrow>
      (\<exists>d < m. bit x (n + d)) \<or> (\<exists>d. m \<le> d \<and> d < 2 * m \<and> bit x (n + d))"
    using not_le by fastforce
  ultimately show ?thesis using assms by simp
qed

lemma bit_smear_chain:
  "bit (smear 32 (smear 16 (smear 8 (smear 4 (smear 2 (smear 1 x)))))) n \<longleftrightarrow> (\<exists>d < 64. bit x (n + d))"
proof -
  have 0: "bit x n \<longleftrightarrow> (\<exists>d < 1. bit x (n + d))" for n by simp
  note 1 = bit_smear_step [OF 0]
  note 2 = bit_smear_step [OF 1, simplified]
  note 3 = bit_smear_step [OF 2, simplified]
  note 4 = bit_smear_step [OF 3, simplified]
  note 5 = bit_smear_step [OF 4, simplified]
  note 6 = bit_smear_step [OF 5, simplified]
  show ?thesis using 6 by simp
qed

lemma nextPowerOf2_least:
  assumes "0 < unat n" "unat n \<le> 2 ^ 63"
  obtains k where "k \<le> 63" "nextPowerOf2 n = 2 ^ k" "unat n \<le> 2 ^ k" "k = 0 \<or> 2 ^ (k - 1) < unat n"
proof -
  let ?x = "n - 1"
  have x: "unat ?x = unat n - 1" using assms(1) by (simp add: unat_gt_0 unat_minus_one)
  define k where "k = (LEAST k. unat ?x < 2 ^ k)"
  have lt: "unat ?x < 2 ^ k" unfolding k_def by (rule LeastI [of _ 63]) (use assms x in simp)
  have k63: "k \<le> 63" unfolding k_def by (rule Least_le) (use assms x in simp)
  have ge: "2 ^ (k - 1) \<le> unat ?x" if "k \<noteq> 0"
    using not_less_Least [of "k - 1" "\<lambda>k. unat ?x < 2 ^ k"] that by (simp add: k_def [symmetric])
  have bit_x: "bit ?x j \<longleftrightarrow> bit (unat ?x) j" for j
    by (simp add: bit_unsigned_iff)
  have "smear 32 (smear 16 (smear 8 (smear 4 (smear 2 (smear 1 ?x))))) = mask k"
  proof (rule bit_eqI)
    fix m assume "possible_bit TYPE(uint64) m"
    then have m64: "m < 64" by simp
    have "(\<exists>d < 64. bit ?x (m + d)) \<longleftrightarrow> m < k"
    proof
      assume "\<exists>d < 64. bit ?x (m + d)"
      then obtain d where "bit (unat ?x) (m + d)" using bit_x by auto
      then have "2 ^ (m + d) \<le> unat ?x" by (rule_tac ccontr) (simp add: bit_iff_odd not_le)
      then have "(2::nat) ^ (m + d) < 2 ^ k" using lt by linarith
      then show "m < k" by simp
    next
      assume mk: "m < k"
      then have "2 ^ (k - 1) \<le> unat ?x" "unat ?x < 2 * 2 ^ (k - 1)"
        using ge lt by (auto simp: power_eq_if)
      then have "unat ?x div 2 ^ (k - 1) = 1" by (intro div_nat_eqI) simp_all
      then have "bit (unat ?x) (k - 1)" by (simp add: bit_iff_odd)
      then have "bit ?x (k - 1)" by (simp only: bit_x)
      with mk k63 show "\<exists>d < 64. bit ?x (m + d)" by (intro exI [of _ "k - 1 - m"]) auto
    qed
    then show "bit (smear 32 (smear 16 (smear 8 (smear 4 (smear 2 (smear 1 ?x)))))) m \<longleftrightarrow> bit (mask k :: uint64) m"
      unfolding bit_smear_chain using m64 by (simp add: bit_mask_iff)
  qed
  then have "nextPowerOf2 n = mask k + 1" using assms(1) by (auto simp: nextPowerOf2_def)
  then have "nextPowerOf2 n = 2 ^ k" by (simp add: mask_eq_exp_minus_1)
  moreover have "unat n \<le> 2 ^ k" using lt x by linarith
  moreover have "k = 0 \<or> 2 ^ (k - 1) < unat n" using ge x assms(1) by (cases "k = 0") auto
  ultimately show thesis using k63 that by blast
qed

lemma nextPowerOf2_8192: "nextPowerOf2 8192 = 8192"
  by (simp add: nextPowerOf2_def smear_def)

lemma new_shard_ok: "data_ok h new_shard" "sync_ok new_shard" "count_ok new_shard"
  by (simp_all add: new_shard_def Let_def nextPowerOf2_8192 data_ok_def sync_ok_def count_ok_def data_bytes_def)

lemma unat_word_of_int: "0 \<le> k \<Longrightarrow> k < 2 ^ 64 \<Longrightarrow> unat (word_of_int k :: uint64) = nat k"
  by (simp add: unsigned_of_int take_bit_int_eq_self)

lemma New_inv:
  assumes "1 \<le> New_shardCount cpus (ShardCount cfg)"
  shows "storage_inv E (New cpus cfg)"
proof -
  let ?n = "New_shardCount cpus (ShardCount cfg)"
  have "?n < 2 ^ 63"
    using sint64_bounds(2) by (simp add: New_shardCount_def Let_def)
  then have "unat (word_of_int (?n - 1) :: uint64) = nat (?n - 1)"
    using assms by (intro unat_word_of_int) simp_all
  then have m: "mask_ok (New cpus cfg)"
    using assms by (simp add: mask_ok_def New_def Let_def del: of_int_diff)
  have "totals_ok (New cpus cfg)"
    by (simp add: totals_ok_def New_def Let_def new_shard_def sum_list_replicate)
  with m show ?thesis
    by (simp add: storage_inv_def) (simp add: New_def Let_def new_shard_ok)
qed

lemma New_shardCount_pos:
  assumes "0 \<le> sc" "sc \<le> 2 ^ 62" "0 \<le> cpus"
  shows "1 \<le> New_shardCount cpus sc"
proof -
  define n :: int where "n = (if sc = 0
                then (let c = cpus * 8; c1 = (if c < 256 then 256 else c)
                      in if c1 > 4096 then 4096 else c1)
                else sc)"
  have n: "1 \<le> n" "n \<le> 2 ^ 62" using assms by (auto simp: n_def Let_def)
  have u: "unat (word_of_int n :: uint64) = nat n"
    using n by (intro unat_word_of_int) simp_all
  have "0 < unat (word_of_int n :: uint64)" "unat (word_of_int n :: uint64) \<le> 2 ^ 63"
    unfolding u using n by (auto simp: nat_le_iff)
  then obtain k where k: "k \<le> 63" "nextPowerOf2 (word_of_int n) = 2 ^ k"
    "k = 0 \<or> 2 ^ (k - 1) < unat (word_of_int n :: uint64)"
    by (rule nextPowerOf2_least)
  have "k \<le> 62"
  proof (rule ccontr)
    assume "\<not> k \<le> 62"
    then have "k = 63" using k(1) by linarith
    then have "(2::nat) ^ 62 < nat n" using k(3) u by simp
    then show False using n(2) by (simp add: nat_le_iff)
  qed
  then have "(2 :: int) ^ k \<le> 2 ^ 62" by (intro power_increasing) simp_all
  then have "sint (word_of_int (2 ^ k) :: int64) = 2 ^ k" by (intro sint64_of_int) (simp_all add: order_trans [of _ 0])
  then have "sint (2 ^ k :: int64) = 2 ^ k" by simp
  then show ?thesis by (simp add: New_shardCount_def n_def [symmetric] k(2))
qed

lemma storage_exec_all:
  "storage_inv E s \<Longrightarrow> storage_inv E (fold (storage_exec E) calls s) \<and> same_config s (fold (storage_exec E) calls s)"
  by (rule fold_storage_inv) (auto simp: storage_exec_inv)

lemma storage_inv_bytes:
  assumes "storage_inv E s"
  shows "sum_list (map data_bytes (shards s)) \<le> totalBytes s"
    and "int (sum_list (map (\<lambda>sh. length (sdata sh)) (shards s))) \<le> totalKeys s"
proof -
  have c: "\<forall>sh \<in> set (shards s). count_ok sh"
    using assms by (auto simp: storage_inv_def in_set_conv_nth)
  have "sum_list (map data_bytes (shards s)) \<le> sum_list (map byteCount (shards s))"
    using c by (intro sum_list_mono) (simp add: count_ok_def)
  then show "sum_list (map data_bytes (shards s)) \<le> totalBytes s"
    using assms by (simp add: storage_inv_def totals_ok_def)
  have "int (sum_list (map (\<lambda>sh. length (sdata sh)) xs)) = sum_list (map (\<lambda>sh. int (length (sdata sh))) xs)" for xs
    by (induction xs) auto
  also have "sum_list (map (\<lambda>sh. int (length (sdata sh))) (shards s)) \<le> sum_list (map keyCount (shards s))"
    using c by (intro sum_list_mono) (simp add: count_ok_def)
  finally show "int (sum_list (map (\<lambda>sh. length (sdata sh)) (shards s))) \<le> totalKeys s"
    using assms by (simp add: storage_inv_def totals_ok_def)
qed

definition example_env :: env where
  "example_env = \<lparr>hash_Lo = (\<lambda>key. of_nat (length key)), lz = rle_lz4\<rparr>"

section \<open>Properties\<close>

text \<open>
  C2: the store's invariant holds in every reachable state. Start from \<open>New\<close> with a shard count
  between 0 and \<open>2^62\<close> and run any sequence of operations, background cleaning and eviction
  included: every stored key is in the shard its hash selects, once, and on that shard's LRU list;
  the sync ring is within its bounds; each global counter is the sum of the shard counters; and the
  accounting never undercounts, so \<open>totalBytes\<close> is at least the size of what is stored and
  \<open>totalKeys\<close> at least the number of keys.
\<close>

theorem storage_invariant_reachable:
  assumes "0 \<le> ShardCount cfg" "ShardCount cfg \<le> 2 ^ 62" "0 \<le> cpus"
  shows "storage_inv E (fold (storage_exec E) calls (New cpus cfg))
    \<and> sum_list (map data_bytes (shards (fold (storage_exec E) calls (New cpus cfg))))
        \<le> totalBytes (fold (storage_exec E) calls (New cpus cfg))
    \<and> int (sum_list (map (\<lambda>sh. length (sdata sh)) (shards (fold (storage_exec E) calls (New cpus cfg)))))
        \<le> totalKeys (fold (storage_exec E) calls (New cpus cfg))"
proof -
  have "storage_inv E (New cpus cfg)" by (rule New_inv) (rule New_shardCount_pos [OF assms])
  then have "storage_inv E (fold (storage_exec E) calls (New cpus cfg))" using storage_exec_all by blast
  then show ?thesis using storage_inv_bytes by blast
qed

theorem storage_invariant_reachable_witness:
  "storage_inv example_env (fold (storage_exec example_env) [CDelete ''k'' 1, CClear] (New 4 DefaultConfig))"
proof -
  have "0 \<le> ShardCount DefaultConfig" "ShardCount DefaultConfig \<le> 2 ^ 62" "0 \<le> (4 :: int)"
    by (simp_all add: DefaultConfig_def)
  from storage_invariant_reachable [OF this] show ?thesis by blast
qed

text \<open>
  \<open>nextPowerOf2\<close> returns the least power of two that is not below its argument, for every
  argument up to \<open>2^63\<close>.
\<close>

theorem nextPowerOf2_correct:
  assumes "0 < unat n" "unat n \<le> 2 ^ 63"
  shows "\<exists>k \<le> 63. nextPowerOf2 n = 2 ^ k \<and> unat n \<le> 2 ^ k \<and> (k = 0 \<or> 2 ^ (k - 1) < unat n)"
  using nextPowerOf2_least [OF assms] by metis

theorem nextPowerOf2_correct_witness:
  "\<exists>k \<le> 63. nextPowerOf2 300 = 2 ^ k \<and> unat (300 :: uint64) \<le> 2 ^ k \<and> (k = 0 \<or> 2 ^ (k - 1) < unat (300 :: uint64))"
  by (rule nextPowerOf2_correct) simp_all

end
