(* ===== verification/Lww.thy ===== *)
theory Lww
  imports GridKV_Prelude
begin

text \<open>
  Last-write-wins replication, for every component that merges versioned writes: the merge of a
  value into a register and the locale \<open>lww_replica\<close>, whose law says that a write merges into
  the register of its key and leaves the others. Convergence (replicas that received the same writes,
  in any order and any number of times, agree) is proved once inside the locale.
\<close>

definition lww_merge :: "('v \<Rightarrow> 't::linorder) \<Rightarrow> 'v option \<Rightarrow> 'v \<Rightarrow> 'v option" where
  "lww_merge ver old v =
     (case old of None \<Rightarrow> Some v | Some u \<Rightarrow> if ver v \<le> ver u then Some u else Some v)"

lemma map_option_lww:
  assumes "\<And>c. ver' (f c) = ver c"
  shows "map_option f (lww_merge ver old v) = lww_merge ver' (map_option f old) (f v)"
  by (cases old) (simp_all add: lww_merge_def assms)

text \<open>The outcome of a fold of merges is a member with the greatest version.\<close>

lemma fold_merge_max:
  assumes "fold (\<lambda>v old. lww_merge ver old v) vs init = Some w"
  shows "w \<in> set vs \<union> set_option init \<and> (\<forall>u \<in> set vs \<union> set_option init. ver u \<le> ver w)"
  using assms
proof (induction vs arbitrary: init)
  case (Cons v vs)
  have "w \<in> set vs \<union> set_option (lww_merge ver init v)
      \<and> (\<forall>u \<in> set vs \<union> set_option (lww_merge ver init v). ver u \<le> ver w)"
    using Cons.prems by (intro Cons.IH) simp
  then show ?case
    by (cases init) (auto simp: lww_merge_def split: if_splits intro: order_trans)
qed auto

lemma fold_merge_Some: "\<exists>y. fold (\<lambda>v old. lww_merge ver old v) vs (Some u) = Some y"
proof (induction vs arbitrary: u)
  case (Cons v vs)
  then show ?case by (cases "ver v \<le> ver u") (simp_all add: lww_merge_def)
qed simp

lemma lww_merge_None [simp]: "lww_merge ver None v = Some v"
  by (simp add: lww_merge_def)

lemma fold_merge_None: "fold (\<lambda>v old. lww_merge ver old v) vs init = None \<longleftrightarrow> vs = [] \<and> init = None"
proof (cases init)
  case None
  show ?thesis
  proof (cases vs)
    case (Cons v vs')
    then show ?thesis using None fold_merge_Some [of ver vs' v] by auto
  qed (use None in simp)
next
  case (Some u)
  then show ?thesis using fold_merge_Some [of ver vs u] by auto
qed

text \<open>A sequence of writes, the values it writes to one key, and the premise on versions.\<close>

primrec puts :: "('op \<Rightarrow> 's \<Rightarrow> 's option) \<Rightarrow> 'op list \<Rightarrow> 's \<Rightarrow> 's option" where
  "puts put [] s = Some s"
| "puts put (op # ops) s = (case put op s of None \<Rightarrow> None | Some s' \<Rightarrow> puts put ops s')"

definition writes :: "('op \<Rightarrow> 'k) \<Rightarrow> ('op \<Rightarrow> 'v) \<Rightarrow> 'op list \<Rightarrow> 'k \<Rightarrow> 'v list" where
  "writes key_of val_of ops k = map val_of (filter (\<lambda>op. key_of op = k) ops)"

definition versions_unique :: "('v \<Rightarrow> 't) \<Rightarrow> 'v option \<Rightarrow> 'v list \<Rightarrow> bool" where
  "versions_unique ver init vs \<longleftrightarrow> inj_on ver (set vs \<union> set_option init)"

text \<open>With unique versions the outcome depends only on the set of values merged.\<close>

lemma fold_merge_set:
  assumes "set vs = set ws" "versions_unique ver init vs"
  shows "fold (\<lambda>v old. lww_merge ver old v) vs init = fold (\<lambda>v old. lww_merge ver old v) ws init"
proof (cases "fold (\<lambda>v old. lww_merge ver old v) vs init")
  case None
  then have "vs = []" "init = None" by (simp_all add: fold_merge_None)
  moreover from this(1) assms(1) have "ws = []" by simp
  ultimately show ?thesis by simp
next
  case (Some a)
  then have "fold (\<lambda>v old. lww_merge ver old v) ws init \<noteq> None"
    using assms(1) by (metis fold_merge_None option.distinct(1) set_empty)
  then obtain b where b: "fold (\<lambda>v old. lww_merge ver old v) ws init = Some b" by auto
  note ma = fold_merge_max [OF Some] and mb = fold_merge_max [OF b]
  have "ver a = ver b" using ma mb assms(1) by (intro antisym) auto
  then have "a = b" using assms ma mb by (auto simp: versions_unique_def dest: inj_onD)
  then show ?thesis using Some b by simp
qed

locale lww_replica =
  fixes put :: "'op \<Rightarrow> 's \<Rightarrow> 's option"
    and view_of :: "'s \<Rightarrow> 'k \<Rightarrow> 'v option"
    and key_of :: "'op \<Rightarrow> 'k" and val_of :: "'op \<Rightarrow> 'v" and ver :: "'v \<Rightarrow> 't::linorder"
    and inv :: "'s \<Rightarrow> bool"
  assumes put_inv: "inv s \<Longrightarrow> put op s = Some s' \<Longrightarrow> inv s'"
    and put_view: "inv s \<Longrightarrow> put op s = Some s' \<Longrightarrow>
      view_of s' k = (if k = key_of op then lww_merge ver (view_of s k) (val_of op) else view_of s k)"
begin

lemma puts_view:
  assumes "inv s" "puts put ops s = Some s'"
  shows "inv s' \<and> view_of s' k = fold (\<lambda>v old. lww_merge ver old v) (writes key_of val_of ops k) (view_of s k)"
  using assms
proof (induction ops arbitrary: s)
  case (Cons op ops)
  then obtain s1 where s1: "put op s = Some s1" "puts put ops s1 = Some s'" by (auto split: option.splits)
  note v = put_view [OF Cons.prems(1) s1(1), of k] and i = put_inv [OF Cons.prems(1) s1(1)]
  from Cons.IH [OF i s1(2)] show ?case by (auto simp: writes_def v)
qed (simp add: writes_def)

lemma convergence:
  assumes "inv s1" "inv s2" "view_of s1 k = view_of s2 k"
    and "puts put ops1 s1 = Some t1" "puts put ops2 s2 = Some t2" "set ops1 = set ops2"
    and "versions_unique ver (view_of s1 k) (writes key_of val_of ops1 k)"
  shows "view_of t1 k = view_of t2 k"
proof -
  have w: "set (writes key_of val_of ops1 k) = set (writes key_of val_of ops2 k)" using assms(6) by (simp add: writes_def)
  have "view_of t1 k = fold (\<lambda>v old. lww_merge ver old v) (writes key_of val_of ops1 k) (view_of s1 k)"
    "view_of t2 k = fold (\<lambda>v old. lww_merge ver old v) (writes key_of val_of ops2 k) (view_of s1 k)"
    using puts_view [OF assms(1,4)] puts_view [OF assms(2,5)] assms(3) by auto
  with fold_merge_set [OF w assms(7)] show ?thesis by simp
qed

end

end
