(* ===== verification/Mem_Storage_Spec.thy ===== *)
theory Mem_Storage_Spec
  imports Mem_Storage_Inv Lww
begin

text \<open>
  What \<open>MemStorage\<close> promises, above its invariant.

  \<^item> \<open>view\<close> is the abstract store: for each key the version, the expiration and the decoded value.
    \<open>Set\<close> refines the last-write-wins merge on it, \<open>Get\<close> reads it.
  \<^item> The locale \<open>lww_replica\<close> of theory \<open>Lww\<close> is interpreted on \<open>Set\<close>: replicas that received
    the same writes, in any order and any number of times, agree.
  \<^item> The locale \<open>bounded_queue\<close> states the contract of the sync buffer, a queue that drops its
    oldest element when full; it is interpreted on the ring buffer operations.
\<close>

section \<open>The abstract store\<close>

definition lookup :: "env \<Rightarrow> MemStorage \<Rightarrow> string \<Rightarrow> compressedItem option" where
  "lookup E s key = (case getShard E s key of None \<Rightarrow> None | Some i \<Rightarrow> load s i key)"

definition decoded :: "env \<Rightarrow> compressedItem \<Rightarrow> bytes option" where
  "decoded E ci = (if Compressed ci then decompressValue E ci else Some (cValue ci))"

type_synonym item_view = "int64 \<times> gotime \<times> bytes"

definition view :: "env \<Rightarrow> MemStorage \<Rightarrow> string \<Rightarrow> item_view option" where
  "view E s key = map_option (\<lambda>ci. (cVersion ci, cExpireAt ci, the (decoded E ci))) (lookup E s key)"

definition item_view :: "StoredItem \<Rightarrow> item_view" where
  "item_view item = (Version item, ExpireAt item, Value item)"

lemma decompressValue_prepare:
  assumes "lz4_decodes (lz E)" "go_len (Value item) \<le> maxAlloc"
    and p: "prepareCompressedItem E s key item = (ci, sz)"
  shows "decoded E ci = Some (Value item)"
proof -
  obtain v c where vc: "(if compressionEnabled s \<and> int (go_len (Value item)) \<ge> compressionThresh s
      then compress_value E s (Value item) else (Value item, False)) = (v, c)"
    by (cases "if compressionEnabled s \<and> int (go_len (Value item)) \<ge> compressionThresh s
      then compress_value E s (Value item) else (Value item, False)")
  have ci: "Compressed ci = c" "cValue ci = v" "OrigSize ci = go_len (Value item)"
    using p vc by (auto simp: prepareCompressedItem_def Let_def split: prod.splits)
  show ?thesis
  proof (cases c)
    case False
    then have "v = Value item" using vc by (auto simp: compress_value_def dest: Compress_False split: if_splits)
    with False show ?thesis by (simp add: decoded_def ci)
  next
    case True
    then have cp: "Compress (lz E) (Value item) (compressionThresh s) = (v, True)"
      using vc by (auto simp: compress_value_def split: if_splits)
    then obtain bs where bs: "v = Some bs" "length bs < go_len (Value item) * 95 div 100"
      by (elim Compress_True)
    then have len: "0 < go_len (Value item)" by (cases "go_len (Value item)") auto
    then have some: "Some (go_bytes (Value item)) = Value item"
      by (cases "Value item") (simp_all add: go_len_def)
    show ?thesis
      using DecompressTo_Compress [OF assms(1) cp assms(2)] True some
      by (simp add: decoded_def decompressValue_def ci Let_def)
  qed
qed

lemma prepare_fields:
  assumes "prepareCompressedItem E s key item = (ci, sz)"
  shows "cVersion ci = Version item" "cExpireAt ci = ExpireAt item"
  using assms by (auto simp: prepareCompressedItem_def Let_def split: prod.splits)

section \<open>What Set stores\<close>

lemma load_upd_shard:
  "load (upd_shard i f s) j key =
     (if j = i \<and> i < length (shards s) then map_of (sdata (f (shards s ! i))) key else load s j key)"
  by (auto simp: load_def store_simps nth_list_update) (simp add: list_update_beyond)

lemma load_upd_same:
  "(\<And>sh. sdata (f sh) = sdata sh) \<Longrightarrow> load (upd_shard i f s) j key = load s j key"
  by (simp add: load_upd_shard) (simp add: load_def)

lemma load_counters [simp]:
  "load (s\<lparr>totalKeys := c\<rparr>) j k = load s j k" "load (s\<lparr>totalBytes := c\<rparr>) j k = load s j k"
  "load (s\<lparr>compressedBytes := c\<rparr>) j k = load s j k" "load (s\<lparr>originalBytes := c\<rparr>) j k = load s j k"
  "load (s\<lparr>setCount := c\<rparr>) j k = load s j k"
  by (simp_all add: load_def)

lemma load_frame [simp]:
  "load (touchLRU i key s) j k = load s j k"
  "load (removeFromLRU i key s) j k = load s j k"
  "load (addToSyncBuffer i key ot item s) j k = load s j k"
  "load (updateStatsForNewKey i ci sz s) j k = load s j k"
  "load (updateStatsForExistingKey i ci0 ci sz s) j k = load s j k"
  "load (uncount i key ci s) j k = load s j k"
  by (simp_all add: touchLRU_sh removeFromLRU_sh addToSyncBuffer_sh load_upd_same
      updateStatsForNewKey_def updateStatsForExistingKey_def uncount_def Let_def)

lemma load_store_data:
  "i < length (shards s) \<Longrightarrow>
   load (store_data i key ci s) j k = (if j = i \<and> k = key then Some ci else load s j k)"
  by (auto simp: store_data_def load_upd_shard) (auto simp: load_def)

lemma store_iter_load:
  assumes "i < length (shards s)" "store_iter i key ci sz item s = Some s'"
  shows "load s' j k =
    (if j = i \<and> k = key then lww_merge (\<lambda>c. sint (cVersion c)) (load s i key) ci else load s j k)"
  using assms
  by (auto simp: store_iter_def tryStoreNewKey_def tryUpdateExistingKey_def load_store_data lww_merge_def
      split: option.splits if_splits)

lemma lookup_load: "getShard E s key = Some i \<Longrightarrow> lookup E s key = load s i key"
  by (simp add: lookup_def)

lemma lookup_submap:
  assumes "same_config s s'" "submap s s'"
  shows "lookup E s' k = None \<or> lookup E s' k = lookup E s k"
  using assms getShard_same_config [OF assms(1), of E]
  by (auto simp: lookup_def submap_def split: option.split)

lemma store_iter_lookup:
  assumes "home E s i key" "store_iter i key ci sz item s = Some s'"
  shows "lookup E s' k =
    (if k = key then lww_merge (\<lambda>c. sint (cVersion c)) (lookup E s key) ci else lookup E s k)"
proof -
  have i: "getShard E s key = Some i" "i < length (shards s)"
    using assms(1) by (auto simp: home_def dest: getShard_less)
  have g: "getShard E s' = getShard E s" by (rule getShard_same_config [OF store_iter_config [OF assms(2)]])
  show ?thesis
    using i store_iter_load [OF i(2) assms(2)] by (auto simp: lookup_def g split: option.splits)
qed

text \<open>
  A successful \<open>Set\<close>: the eviction that makes room (\<open>s1\<close>) only deletes, then the item is merged
  in.
\<close>

lemma Set_lookup:
  assumes "storage_inv E s" "Set E key (Some item) s = (s', Inr ())"
  obtains ci sz s1 where "prepareCompressedItem E s key item = (ci, sz)"
    "submap s s1" "same_config s s1"
    "\<And>k. lookup E s' k =
      (if k = key then lww_merge (\<lambda>c. sint (cVersion c)) (lookup E s1 key) ci else lookup E s1 k)"
  using assms
proof (cases rule: Set_cases)
  case (stored item' i ci sz s1)
  have s1: "storage_inv E s1 \<and> same_config s s1 \<and> submap s s1"
    using stored(5) checkAndEvict_inv [OF assms(1)] assms(1) by (metis same_config_refl submap_refl)
  then have "home E s1 i key" using stored(2) home_same_config by metis
  from store_iter_lookup [OF this stored(6)] s1 stored(1,3) show thesis
    by (intro that) auto
qed simp_all

lemma get_with_hit:
  assumes "storage_inv E s" "key \<noteq> ''''" "lookup E s key = Some ci" "decoded E ci = Some v"
    and "IsZero (cExpireAt ci) \<or> sint (UnixNano now) \<le> sint (UnixNano (cExpireAt ci))"
  shows "snd (get_with (\<lambda>v. v) E now key s)
    = Inr \<lparr>Version = cVersion ci, ExpireAt = cExpireAt ci, Value = v, Key = ''''\<rparr>"
proof -
  have m: "mask_ok s" using assms(1) by (simp add: storage_inv_def)
  obtain i where "getShard E s key = Some i" by (rule getShard_total [OF m])
  with assms(2-5) show ?thesis
    by (auto simp: get_with_def Let_def lookup_def decoded_def split: if_splits option.splits)
qed

lemma Get_eq_GetNoCopy: "Get = GetNoCopy"
proof -
  have "FastCloneBytes = (\<lambda>v. v)" by (rule ext) simp
  then show ?thesis by (simp add: Get_def GetNoCopy_def)
qed

section \<open>Convergence\<close>

text \<open>
  \<open>Set\<close> as a write of a replica, when it evicts nothing: the item fits below the hard limit, and its
  value is at most the 8 MB the decompression buffers hold.
\<close>

definition storage_put :: "env \<Rightarrow> string \<times> StoredItem \<Rightarrow> MemStorage \<Rightarrow> MemStorage option" where
  "storage_put E op s =
     (case op of (key, item) \<Rightarrow>
        if key \<noteq> '''' \<and> asyncEviction s \<and> go_len (Value item) \<le> maxAlloc
           \<and> totalBytes s + snd (prepareCompressedItem E s key item) \<le> maxMemoryMB s * 1024 * 1024
        then Some (fst (Set E key (Some item) s)) else None)"

definition view_version :: "item_view \<Rightarrow> int" where
  "view_version v = sint (fst v)"

lemma checkAndEvict_fits:
  "asyncEviction s \<Longrightarrow> totalBytes s + sz \<le> maxMemoryMB s * 1024 * 1024 \<Longrightarrow> checkAndEvict sz s = (s, Inr ())"
  by (simp add: checkAndEvict_def Let_def)

lemma storage_put_Set:
  assumes "storage_inv E s" "storage_put E (key, item) s = Some s'"
  obtains i ci where "Set E key (Some item) s = (s', Inr ())" "home E s i key"
    "prepareCompressedItem E s key item = (ci, calculateItemSize key (cValue ci))"
    "store_iter i key ci (calculateItemSize key (cValue ci)) item s = Some s'"
    "go_len (Value item) \<le> maxAlloc"
proof -
  obtain r where r: "Set E key (Some item) s = (s', r)"
    using assms(2) by (cases "Set E key (Some item) s") (auto simp: storage_put_def split: if_splits)
  have g: "key \<noteq> ''''" "asyncEviction s" "go_len (Value item) \<le> maxAlloc"
    "totalBytes s + snd (prepareCompressedItem E s key item) \<le> maxMemoryMB s * 1024 * 1024"
    using assms(2) by (auto simp: storage_put_def split: if_splits)
  from assms(1) r show thesis
  proof (cases rule: Set_cases)
    case (full item' i ci sz s1 e)
    then show thesis using g checkAndEvict_fits [OF g(2), of sz] by simp
  next
    case (stored item' i ci sz s1)
    then have "s1 = s" using g checkAndEvict_fits [OF g(2), of sz] by auto
    with stored r g(3) show thesis by (intro that [of i ci]) auto
  qed (use g in simp_all)
qed

lemma storage_put_view:
  assumes "storage_inv E s \<and> lz4_decodes (lz E)" "storage_put E op s = Some s'"
  shows "view E s' k = (if k = fst op then lww_merge view_version (view E s k) (item_view (snd op)) else view E s k)"
proof -
  obtain key item where op: "op = (key, item)" by (cases op)
  obtain i ci where st: "home E s i key" "prepareCompressedItem E s key item = (ci, calculateItemSize key (cValue ci))"
    "store_iter i key ci (calculateItemSize key (cValue ci)) item s = Some s'" "go_len (Value item) \<le> maxAlloc"
    using storage_put_Set [of E s key item s'] assms op by blast
  have "decoded E ci = Some (Value item)"
    using decompressValue_prepare [OF _ st(4,2)] assms(1) by blast
  then have iv: "(cVersion ci, cExpireAt ci, the (decoded E ci)) = item_view item"
    using prepare_fields [OF st(2)] by (simp add: item_view_def)
  show ?thesis
    unfolding view_def store_iter_lookup [OF st(1,3)] op
    using iv map_option_lww [of view_version "\<lambda>ci. (cVersion ci, cExpireAt ci, the (decoded E ci))"
        "\<lambda>c. sint (cVersion c)"]
    by (simp add: view_version_def)
qed

interpretation replica: lww_replica "storage_put E" "view E" fst "\<lambda>op. item_view (snd op)" view_version
  "\<lambda>s. storage_inv E s \<and> lz4_decodes (lz E)" for E
proof
  fix s op s' k
  assume a: "storage_inv E s \<and> lz4_decodes (lz E)" "storage_put E op s = Some s'"
  obtain key item where op: "op = (key, item)" by (cases op)
  obtain i ci where "Set E key (Some item) s = (s', Inr ())"
    using storage_put_Set [of E s key item s'] a op by blast
  then show "storage_inv E s' \<and> lz4_decodes (lz E)" using Set_inv a(1) by blast
  show "view E s' k = (if k = fst op then lww_merge view_version (view E s k) (item_view (snd op)) else view E s k)"
    using a by (rule storage_put_view)
qed

section \<open>The sync buffer is a bounded queue\<close>

text \<open>The pending operations of a shard, oldest first.\<close>

definition pending :: "storageShard \<Rightarrow> SyncOperation option list" where
  "pending sh = map (\<lambda>j. syncBuffer sh ! (j AND syncMask sh)) [syncTail sh..<syncHead sh]"

text \<open>
  A queue of capacity \<open>cap\<close> that makes room by dropping its oldest element. Inside the locale: after
  any sequence of pushes the queue holds the last \<open>cap\<close> of everything pushed, in order.
\<close>

locale bounded_queue =
  fixes push :: "'a \<Rightarrow> 's \<Rightarrow> 's" and contents :: "'s \<Rightarrow> 'a list" and cap :: nat and qinv :: "'s \<Rightarrow> bool"
  assumes push_inv: "qinv s \<Longrightarrow> qinv (push x s)"
    and push_contents: "qinv s \<Longrightarrow> contents (push x s)
      = (if length (contents s) \<ge> cap then drop (length (contents s) - cap + 1) (contents s) else contents s) @ [x]"
    and contents_bound: "qinv s \<Longrightarrow> length (contents s) \<le> cap"
    and cap_pos: "0 < cap"
begin

lemma push_suffix:
  assumes "qinv s"
  shows "contents (push x s) = drop (length (contents s @ [x]) - cap) (contents s @ [x])"
  using push_contents [OF assms] contents_bound [OF assms] cap_pos by (cases "length (contents s) = cap") auto

lemma pushes_suffix:
  "qinv s \<Longrightarrow> qinv (fold push xs s)
    \<and> contents (fold push xs s) = drop (length (contents s @ xs) - cap) (contents s @ xs)"
proof (induction xs arbitrary: s)
  case Nil
  then show ?case using contents_bound [of s] by simp
next
  case (Cons x xs)
  have "drop (length (drop n ys @ xs) - cap) (drop n ys @ xs) = drop (length (ys @ xs) - cap) (ys @ xs)"
    if "n = length ys - cap" for n and ys :: "'a list"
    using that by (cases "length ys \<le> cap") (simp_all add: drop_append add.commute)
  from Cons.IH [OF push_inv [OF Cons.prems], of x] this [OF refl, of "contents s @ [x]"]
  show ?case using push_suffix [OF Cons.prems, of x] by simp
qed

end

lemma and_syncMask: "sync_ok sh \<Longrightarrow> j AND syncMask sh = j mod syncCapacity sh"
proof -
  assume "sync_ok sh"
  then have c: "syncCapacity sh = 2 ^ 13" "syncMask sh = mask 13"
    by (simp_all add: sync_ok_def mask_eq_exp_minus_1)
  show ?thesis unfolding c by (simp only: take_bit_eq_mask [symmetric] take_bit_eq_mod)
qed

lemma fold_clear_nth:
  "k < length buf \<Longrightarrow>
   fold (\<lambda>j b. b[g j := None]) js buf ! k = (if k \<in> g ` set js then None else buf ! k)"
  by (induction js arbitrary: buf) (auto simp: nth_list_update)

lemma mod_inj_window:
  fixes a b cap :: nat
  assumes "a < b" "b < a + cap"
  shows "a mod cap \<noteq> b mod cap"
proof
  assume "a mod cap = b mod cap"
  then have "cap dvd b - a" using assms(1) by (metis less_imp_le mod_eq_dvd_iff_nat)
  then show False using assms by (auto dest: dvd_imp_le)
qed

lemma push_sync_pending:
  assumes ok: "sync_ok sh"
  shows "pending (push_sync op sh) =
    (if length (pending sh) \<ge> 2 ^ 13 then drop (length (pending sh) - 2 ^ 13 + 1) (pending sh) else pending sh) @ [Some op]"
proof -
  let ?C = "2 ^ 13 :: nat" and ?h = "syncHead sh" and ?t = "syncTail sh" and ?b = "syncBuffer sh"
  have c: "syncCapacity sh = ?C" "?t \<le> ?h" "?h - ?t \<le> ?C" "length ?b = ?C"
    using ok by (simp_all add: sync_ok_def)
  have m: "j AND syncMask sh = j mod ?C" for j using and_syncMask [OF ok] c(1) by simp
  have lp: "length (pending sh) = ?h - ?t" by (simp add: pending_def)
  have p: "pending sh = map (\<lambda>j. ?b ! (j mod ?C)) [?t..<?h]" by (simp only: pending_def m)
  let ?t' = "if ?h - ?t \<ge> ?C then ?t + 1 else ?t"
  let ?b1 = "if ?h - ?t \<ge> ?C then ?b[?t mod ?C := None] else ?b"
  have nt: "?h - ?C + 1 = ?t + 1" "[?t..<?t + 1] = [?t]" if "?h - ?t \<ge> ?C" using that c by auto
  have st: "syncTail (push_sync op sh) = ?t'" "syncBuffer (push_sync op sh) = ?b1[?h mod ?C := Some op]"
    using nt by (auto simp: push_sync_def clear_slots_def Let_def c(1) m)
  have "(?b1[?h mod ?C := Some op]) ! (j mod ?C) = ?b ! (j mod ?C)" if "?t' \<le> j" "j < ?h" for j
  proof -
    have "?h < j + ?C" using that c by (auto split: if_splits)
    then have "j mod ?C \<noteq> ?h mod ?C" using that(2) by (intro mod_inj_window)
    moreover have "j mod ?C \<noteq> ?t mod ?C" if full: "?h - ?t \<ge> ?C"
    proof -
      have "?t < j" "j < ?t + ?C" using full \<open>?t' \<le> j\<close> \<open>j < ?h\<close> c(2,3) by simp_all
      then show ?thesis using mod_inj_window [of ?t j ?C] by simp
    qed
    ultimately show ?thesis by auto
  qed
  then have "map (\<lambda>j. (?b1[?h mod ?C := Some op]) ! (j mod ?C)) [?t'..<?h] = map (\<lambda>j. ?b ! (j mod ?C)) [?t'..<?h]"
    by simp
  moreover have "[?t'..<?h + 1] = [?t'..<?h] @ [?h]" using c by auto
  moreover have "(?b1[?h mod ?C := Some op]) ! (?h mod ?C) = Some op" using c(4) by simp
  ultimately have "pending (push_sync op sh) = map (\<lambda>j. ?b ! (j mod ?C)) [?t'..<?h] @ [Some op]"
    by (simp only: pending_def push_sync_fields st m map_append list.map)
  also have "map (\<lambda>j. ?b ! (j mod ?C)) [?t'..<?h]
      = (if ?h - ?t \<ge> ?C then drop (?h - ?t - ?C + 1) (pending sh) else pending sh)"
    using c by (auto simp: p drop_map)
  finally show ?thesis by (simp only: lp)
qed

lemma pending_bound: "sync_ok sh \<Longrightarrow> length (pending sh) \<le> 2 ^ 13"
  by (simp add: pending_def sync_ok_def)

definition queue_ops :: "storageShard \<Rightarrow> SyncOperation list" where
  "queue_ops sh = map the (pending sh)"

definition queue_inv :: "storageShard \<Rightarrow> bool" where
  "queue_inv sh \<longleftrightarrow> sync_ok sh \<and> None \<notin> set (pending sh)"

lemma queue_inv_push: "queue_inv sh \<Longrightarrow> queue_inv (push_sync op sh)"
  by (auto simp: queue_inv_def sync_ok_push push_sync_pending dest: in_set_dropD)

interpretation sync_ring: bounded_queue push_sync queue_ops "2 ^ 13" queue_inv
proof
  fix sh op assume q: "queue_inv sh"
  then show "queue_inv (push_sync op sh)" by (rule queue_inv_push)
  show "queue_ops (push_sync op sh)
      = (if length (queue_ops sh) \<ge> 2 ^ 13
         then drop (length (queue_ops sh) - 2 ^ 13 + 1) (queue_ops sh) else queue_ops sh) @ [op]"
    using q by (simp add: queue_ops_def queue_inv_def push_sync_pending drop_map)
  show "length (queue_ops sh) \<le> 2 ^ 13"
    using q pending_bound by (simp add: queue_ops_def queue_inv_def)
qed simp

text \<open>Draining a shard returns its queue, oldest first, and leaves it empty.\<close>

definition op_head :: "SyncOperation \<Rightarrow> string \<times> OpType" where
  "op_head op = (opKey op, opType op)"

lemma fill_value_head: "fill_value E now op s = (s', op') \<Longrightarrow> op_head op' = op_head op"
  by (auto simp: fill_value_def op_head_def split: option.splits if_splits prod.splits sum.splits)

lemma drain_loop_ops:
  assumes "i < length (shards s)" "distinct (map (\<lambda>j. j AND syncMask (shards s ! i)) js)"
    and "\<forall>j \<in> set js. syncBuffer (shards s ! i) ! (j AND syncMask (shards s ! i)) \<noteq> None"
    and "drain_loop E now i js s ops = (s', ops')"
  shows "map op_head ops' = map op_head ops
      @ map (\<lambda>j. op_head (the (syncBuffer (shards s ! i) ! (j AND syncMask (shards s ! i))))) js"
  using assms
proof (induction js arbitrary: s ops)
  case (Cons j js)
  let ?m = "syncMask (shards s ! i)" and ?b = "syncBuffer (shards s ! i)"
  obtain op where op: "?b ! (j AND ?m) = Some op" using Cons.prems(3) by auto
  obtain s1 op1 where f: "fill_value E now op s = (s1, op1)" by (cases "fill_value E now op s")
  note v = sync_view_nth [OF fill_value_sync_view [OF f] Cons.prems(1)]
  let ?s2 = "upd_shard i (\<lambda>sh. sh\<lparr>syncBuffer := (syncBuffer sh)[j AND ?m := None]\<rparr>) s1"
  have b2: "syncBuffer (shards ?s2 ! i) = ?b[j AND ?m := None]" "syncMask (shards ?s2 ! i) = ?m"
    using v by (simp_all add: store_simps)
  have ne: "j' AND ?m \<noteq> j AND ?m" if "j' \<in> set js" for j'
  proof
    assume "j' AND ?m = j AND ?m"
    then have "j AND ?m \<in> (\<lambda>j. j AND ?m) ` set js" using that by (metis image_eqI)
    then show False using Cons.prems(2) by simp
  qed
  have same: "(?b[j AND ?m := None]) ! (j' AND ?m) = ?b ! (j' AND ?m)" if "j' \<in> set js" for j'
    using ne [OF that] by (metis nth_list_update_neq)
  then have keep: "\<forall>j' \<in> set js. (?b[j AND ?m := None]) ! (j' AND ?m) \<noteq> None"
    using Cons.prems(3) by simp
  have "map op_head ops' = map op_head (ops @ [op1])
      @ map (\<lambda>j. op_head (the (syncBuffer (shards ?s2 ! i) ! (j AND syncMask (shards ?s2 ! i))))) js"
    using Cons.prems(2,4) v(5) op f keep by (intro Cons.IH) (simp_all add: b2 Let_def)
  also have "map (\<lambda>j. op_head (the (syncBuffer (shards ?s2 ! i) ! (j AND syncMask (shards ?s2 ! i))))) js
      = map (\<lambda>j. op_head (the (?b ! (j AND ?m)))) js"
    using same by (simp add: b2)
  finally show ?case using op fill_value_head [OF f] by simp
qed simp

lemma distinct_slots:
  assumes "sync_ok sh"
  shows "distinct (map (\<lambda>j. j AND syncMask sh) [syncTail sh..<syncHead sh])"
proof -
  have c: "syncCapacity sh = 2 ^ 13" "syncHead sh - syncTail sh \<le> 2 ^ 13" using assms by (simp_all add: sync_ok_def)
  have "inj_on (\<lambda>j. j mod 2 ^ 13) {syncTail sh..<syncHead sh}"
  proof (rule inj_onI)
    fix a b assume "a \<in> {syncTail sh..<syncHead sh}" "b \<in> {syncTail sh..<syncHead sh}"
      and e: "a mod 2 ^ 13 = b mod 2 ^ 13"
    then have "a < b + 2 ^ 13" "b < a + 2 ^ 13" using c(2) by (auto simp: less_diff_conv2 le_diff_conv)
    then show "a = b" using mod_inj_window [of a b "2 ^ 13"] mod_inj_window [of b a "2 ^ 13"] e
      by (cases a b rule: linorder_cases) auto
  qed
  then show ?thesis
    using and_syncMask [OF assms] c(1) by (simp add: distinct_map)
qed

lemma drain_shard_queue:
  assumes "i < length (shards s)" "queue_inv (shards s ! i)"
    and "drain_shard E now i (s, ops) = (s', ops')"
  shows "map op_head ops' = map op_head ops @ map op_head (queue_ops (shards s ! i))
    \<and> queue_ops (shards s' ! i) = []"
proof (cases "syncHead (shards s ! i) = syncTail (shards s ! i)")
  case True
  then show ?thesis using assms(3) by (simp add: drain_shard_def queue_ops_def pending_def)
next
  case False
  let ?sh = "shards s ! i"
  obtain s1 where d: "drain_loop E now i [syncTail ?sh..<syncHead ?sh] s ops = (s1, ops')"
    and s': "s' = upd_shard i (\<lambda>sh. sh\<lparr>syncTail := syncHead ?sh\<rparr>) s1"
    using assms(3) False by (auto simp: drain_shard_def Let_def split: prod.splits)
  have "\<forall>j \<in> set [syncTail ?sh..<syncHead ?sh]. syncBuffer ?sh ! (j AND syncMask ?sh) \<noteq> None"
    using assms(2) by (force simp: queue_inv_def pending_def)
  from drain_loop_ops [OF assms(1) distinct_slots this d] assms(2)
  have "map op_head ops' = map op_head ops @ map op_head (queue_ops ?sh)"
    by (simp add: queue_ops_def pending_def queue_inv_def o_def)
  moreover have "queue_ops (shards s' ! i) = []"
    using drain_loop_head [OF assms(1) d] by (simp add: s' store_simps queue_ops_def pending_def)
  ultimately show ?thesis by blast
qed

lemma queue_new_shard: "queue_inv new_shard" "queue_ops new_shard = []"
  using new_shard_ok(2) by (simp_all add: queue_inv_def queue_ops_def pending_def new_shard_def Let_def)

section \<open>Writes that fit\<close>

lemma prepare_size_le:
  assumes "prepareCompressedItem E s key item = (ci, sz)"
  shows "sz \<le> calculateItemSize key (Value item)" "0 \<le> sz"
proof -
  have sz: "sz = calculateItemSize key (cValue ci)" by (rule prepareCompressedItem_size [OF assms])
  obtain v c where vc: "(if compressionEnabled s \<and> int (go_len (Value item)) \<ge> compressionThresh s
      then compress_value E s (Value item) else (Value item, False)) = (v, c)"
    by (cases "if compressionEnabled s \<and> int (go_len (Value item)) \<ge> compressionThresh s
      then compress_value E s (Value item) else (Value item, False)")
  have v: "cValue ci = v" using assms vc by (auto simp: prepareCompressedItem_def Let_def split: prod.splits)
  have "go_len v \<le> go_len (Value item)"
  proof (cases c)
    case True
    then have "Compress (lz E) (Value item) (compressionThresh s) = (v, True)"
      using vc by (auto simp: compress_value_def split: if_splits)
    then obtain bs where "v = Some bs" "length bs < go_len (Value item) * 95 div 100" by (elim Compress_True)
    then show ?thesis by simp
  next
    case False
    then show ?thesis using vc by (auto simp: compress_value_def dest: Compress_False split: if_splits)
  qed
  then show "sz \<le> calculateItemSize key (Value item)" "0 \<le> sz" by (simp_all add: sz v calculateItemSize_def)
qed

lemma store_iter_totalBytes:
  assumes "store_iter i key ci sz item s = Some s'" "0 \<le> sz"
  shows "totalBytes s' \<le> totalBytes s + sz"
  using assms
  by (auto simp: store_iter_def tryStoreNewKey_def tryUpdateExistingKey_def store_simps store_data_def
      updateStatsForNewKey_def updateStatsForExistingKey_def calculateItemSize_def Let_def
      split: option.splits if_splits)

lemma storage_put_fits:
  assumes "storage_inv E s" "key \<noteq> ''''" "asyncEviction s" "go_len (Value item) \<le> maxAlloc"
    and "totalBytes s + calculateItemSize key (Value item) \<le> maxMemoryMB s * 1024 * 1024"
  obtains s' where "storage_put E (key, item) s = Some s'" "storage_inv E s'" "same_config s s'"
    "totalBytes s' \<le> totalBytes s + calculateItemSize key (Value item)"
proof -
  obtain ci sz where p: "prepareCompressedItem E s key item = (ci, sz)"
    by (cases "prepareCompressedItem E s key item")
  note le = prepare_size_le [OF p]
  obtain s' where s': "storage_put E (key, item) s = Some s'"
    using assms(2-5) p le by (simp add: storage_put_def)
  obtain i where st: "Set E key (Some item) s = (s', Inr ())" "store_iter i key ci sz item s = Some s'"
    using storage_put_Set [OF assms(1) s'] p by (metis Pair_inject)
  have "totalBytes s' \<le> totalBytes s + calculateItemSize key (Value item)"
    using store_iter_totalBytes [OF st(2) le(2)] le(1) by simp
  with s' Set_inv [OF assms(1) st(1)] that show thesis by blast
qed

lemma puts_fit:
  assumes "storage_inv E s" "asyncEviction s"
    and "\<forall>(key, item) \<in> set ops. key \<noteq> '''' \<and> go_len (Value item) \<le> maxAlloc"
    and "totalBytes s + sum_list (map (\<lambda>(key, item). calculateItemSize key (Value item)) ops) \<le> maxMemoryMB s * 1024 * 1024"
  shows "\<exists>t. puts (storage_put E) ops s = Some t \<and> storage_inv E t"
  using assms
proof (induction ops arbitrary: s)
  case (Cons op ops)
  obtain key item where op: "op = (key, item)" by (cases op)
  have nn: "0 \<le> sum_list (map (\<lambda>(key, item). calculateItemSize key (Value item)) ops)"
    by (rule sum_list_nonneg) auto
  obtain s' where s': "storage_put E (key, item) s = Some s'" "storage_inv E s'" "same_config s s'"
    "totalBytes s' \<le> totalBytes s + calculateItemSize key (Value item)"
    using Cons.prems op nn by (elim storage_put_fits [of E s key item]) auto
  have "\<exists>t. puts (storage_put E) ops s' = Some t \<and> storage_inv E t"
    using Cons.prems s' op by (intro Cons.IH) (auto simp: same_config_def)
  then show ?case using s'(1) op by simp
qed simp

text \<open>A small store for the examples.\<close>

definition example_store :: MemStorage where
  "example_store = New 1 (DefaultConfig\<lparr>ShardCount := 4, CompressionThreshold := 4\<rparr>)"

definition example_item :: "int64 \<Rightarrow> StoredItem" where
  "example_item v = \<lparr>Version = v, ExpireAt = zero_time, Value = Some [7, 7, 7, 7, 7, 7, 7, 7, 7, 7], Key = ''k''\<rparr>"

lemma example_store_inv: "storage_inv example_env example_store"
  unfolding example_store_def by (rule New_inv) (rule New_shardCount_pos, simp_all add: DefaultConfig_def)

lemma example_store_fields [simp]:
  "asyncEviction example_store" "totalBytes example_store = 0" "maxMemoryMB example_store = 512"
  by (simp_all add: example_store_def New_def DefaultConfig_def Let_def)

lemma example_store_empty [simp]: "lookup E example_store k = None" "view E example_store k = None"
proof -
  have "load example_store i k = None" if "i < length (shards example_store)" for i
    using that by (simp add: load_def example_store_def New_def Let_def new_shard_def)
  then show "lookup E example_store k = None"
    by (auto simp: lookup_def dest: getShard_less split: option.split)
  then show "view E example_store k = None" by (simp add: view_def)
qed

lemma example_item_fields [simp]:
  "Version (example_item v) = v" "ExpireAt (example_item v) = zero_time"
  "go_len (Value (example_item v)) = 10" "calculateItemSize ''k'' (Value (example_item v)) = 187"
  by (simp_all add: example_item_def calculateItemSize_def)

lemma example_env_decodes [simp]: "lz4_decodes (lz example_env)"
  by (simp add: example_env_def rle_lz4_decodes)

section \<open>Properties\<close>

lemma Set_then_Get:
  assumes "storage_inv E s" "Set E key (Some item) s = (s', Inr ())"
    and "\<forall>ci. lookup E s key = Some ci \<longrightarrow> sint (cVersion ci) < sint (Version item)"
    and "lz4_decodes (lz E)" "go_len (Value item) \<le> maxAlloc"
    and "IsZero (ExpireAt item) \<or> sint (UnixNano now) \<le> sint (UnixNano (ExpireAt item))"
  shows "snd (Get E now key s')
    = Inr \<lparr>Version = Version item, ExpireAt = ExpireAt item, Value = Value item, Key = ''''\<rparr>"
proof -
  obtain ci sz s1 where p: "prepareCompressedItem E s key item = (ci, sz)" and s1: "submap s s1" "same_config s s1"
    and l: "\<And>k. lookup E s' k =
      (if k = key then lww_merge (\<lambda>c. sint (cVersion c)) (lookup E s1 key) ci else lookup E s1 k)"
    using Set_lookup [OF assms(1,2)] by blast
  note f = prepare_fields [OF p]
  have "lookup E s1 key = None \<or> lookup E s1 key = lookup E s key" using lookup_submap [OF s1(2,1)] .
  then have "lookup E s' key = Some ci"
    using assms(3) by (auto simp: l lww_merge_def f split: option.splits)
  moreover have "decoded E ci = Some (Value item)" by (rule decompressValue_prepare [OF assms(4,5) p])
  moreover have "key \<noteq> ''''" using assms(2) by (auto simp: Set_def)
  ultimately show ?thesis
    using get_with_hit [of E s' key ci "Value item" now] Set_inv [OF assms(1,2)] assms(6) f
    by (simp add: Get_eq_GetNoCopy GetNoCopy_def)
qed

text \<open>
  Read your write. After \<open>Set\<close> succeeds with a version above the stored one (or on a key that
  is not stored), \<open>Get\<close> returns exactly the version, expiration and value that were set, through
  compression and decompression, whatever the eviction that made room removed; provided the value is
  at most 8 MB, the item has not expired, and LZ4 decodes what it encoded.
\<close>

theorem Set_Get:
  assumes "storage_inv E s" "Set E key (Some item) s = (s', Inr ())"
    and "\<forall>ci. lookup E s key = Some ci \<longrightarrow> sint (cVersion ci) < sint (Version item)"
    and "lz4_decodes (lz E)" "go_len (Value item) \<le> maxAlloc"
    and "IsZero (ExpireAt item) \<or> sint (UnixNano now) \<le> sint (UnixNano (ExpireAt item))"
  shows "snd (Get E now key s')
    = Inr \<lparr>Version = Version item, ExpireAt = ExpireAt item, Value = Value item, Key = ''''\<rparr>"
  using assms by (rule Set_then_Get)

theorem Set_Get_witness:
  "\<exists>s'. Set example_env ''k'' (Some (example_item 5)) example_store = (s', Inr ())
     \<and> snd (Get example_env 0 ''k'' s')
       = Inr \<lparr>Version = 5, ExpireAt = zero_time, Value = Value (example_item 5), Key = ''''\<rparr>"
proof -
  obtain s' where "storage_put example_env (''k'', example_item 5) example_store = Some s'"
    by (rule storage_put_fits [OF example_store_inv, of "''k''" "example_item 5"]) (simp_all add: maxAlloc_def)
  then have s: "Set example_env ''k'' (Some (example_item 5)) example_store = (s', Inr ())"
    by (rule storage_put_Set [OF example_store_inv])
  have "snd (Get example_env 0 ''k'' s')
      = Inr \<lparr>Version = Version (example_item 5), ExpireAt = ExpireAt (example_item 5), Value = Value (example_item 5), Key = ''''\<rparr>"
    by (rule Set_Get [OF example_store_inv s]) (simp_all add: maxAlloc_def IsZero_def)
  with s show ?thesis by auto
qed

text \<open>
  A stale write changes nothing. A \<open>Set\<close> that evicts nothing and whose version is not above
  the stored one leaves the abstract store as it was, for every key.
\<close>

theorem Set_stale:
  assumes "storage_inv E s" "lz4_decodes (lz E)" "storage_put E (key, item) s = Some s'"
    and "view E s key = Some old" "sint (Version item) \<le> view_version old"
  shows "view E s' = view E s"
  using storage_put_view [of E s "(key, item)" s'] assms
  by (intro ext) (auto simp: lww_merge_def view_version_def item_view_def)

theorem Set_stale_witness:
  "\<exists>s s'. storage_put example_env (''k'', example_item 5) example_store = Some s
     \<and> storage_put example_env (''k'', example_item 3) s = Some s' \<and> view example_env s' = view example_env s"
proof -
  obtain s where s: "storage_put example_env (''k'', example_item 5) example_store = Some s"
    "storage_inv example_env s" "same_config example_store s" "totalBytes s \<le> 187"
    by (rule storage_put_fits [OF example_store_inv, of "''k''" "example_item 5"]) (simp_all add: maxAlloc_def)
  have c: "asyncEviction s" "maxMemoryMB s = 512" using s(3) by (simp_all add: same_config_def)
  obtain s' where s': "storage_put example_env (''k'', example_item 3) s = Some s'"
    by (rule storage_put_fits [OF s(2), of "''k''" "example_item 3"])
      (use c s(4) in \<open>simp_all add: maxAlloc_def\<close>)
  have "view example_env s ''k'' = Some (item_view (example_item 5))"
    using storage_put_view [OF _ s(1), of "''k''"] example_store_inv by simp
  from Set_stale [OF s(2) example_env_decodes s' this] have "view example_env s' = view example_env s"
    by (simp add: view_version_def item_view_def)
  with s(1) s' show ?thesis by blast
qed

text \<open>
  C1: replicas converge. Two stores with the same content receive the same set of writes, each in
  its own order and with any repetitions. If equal versions of a key carry equal items, the stores
  hold the same content for that key afterwards.
\<close>

theorem replicas_converge:
  assumes "storage_inv E s1" "storage_inv E s2" "lz4_decodes (lz E)" "view E s1 k = view E s2 k"
    and "puts (storage_put E) ops1 s1 = Some t1" "puts (storage_put E) ops2 s2 = Some t2"
    and "set ops1 = set ops2"
    and "versions_unique view_version (view E s1 k) (writes fst (\<lambda>op. item_view (snd op)) ops1 k)"
  shows "view E t1 k = view E t2 k"
  using replica.convergence [of E s1 s2 k ops1 t1 ops2 t2] assms by simp

theorem replicas_converge_witness:
  "\<exists>t1 t2. puts (storage_put example_env) [(''k'', example_item 5), (''k'', example_item 3)] example_store = Some t1
     \<and> puts (storage_put example_env) [(''k'', example_item 3), (''k'', example_item 5)] example_store = Some t2
     \<and> view example_env t1 ''k'' = view example_env t2 ''k''"
proof -
  let ?o1 = "[(''k'', example_item 5), (''k'', example_item 3)]"
  let ?o2 = "[(''k'', example_item 3), (''k'', example_item 5)]"
  obtain t1 where t1: "puts (storage_put example_env) ?o1 example_store = Some t1"
    using puts_fit [OF example_store_inv, of ?o1] by (auto simp: maxAlloc_def)
  obtain t2 where t2: "puts (storage_put example_env) ?o2 example_store = Some t2"
    using puts_fit [OF example_store_inv, of ?o2] by (auto simp: maxAlloc_def)
  have "set ?o1 = set ?o2" by auto
  moreover have "versions_unique view_version (view example_env example_store ''k'')
      (writes fst (\<lambda>op. item_view (snd op)) ?o1 ''k'')"
    by (auto simp: versions_unique_def writes_def view_version_def item_view_def inj_on_def)
  ultimately have "view example_env t1 ''k'' = view example_env t2 ''k''"
    by (rule replicas_converge [OF example_store_inv example_store_inv example_env_decodes refl t1 t2])
  with t1 t2 show ?thesis by blast
qed

text \<open>
  The sync buffer is a bounded FIFO. Pushing any sequence of operations into a shard's ring
  buffer leaves the last 8192 of the earlier content followed by the pushed operations, in order:
  only the oldest operations are dropped, and only when the buffer is full.
\<close>

theorem sync_buffer_fifo:
  assumes "queue_inv sh"
  shows "queue_ops (fold push_sync ops sh)
    = drop (length (queue_ops sh @ ops) - 2 ^ 13) (queue_ops sh @ ops)"
  using sync_ring.pushes_suffix [OF assms] by blast

theorem sync_buffer_fifo_witness:
  "queue_ops (fold push_sync [sync_op ''a'' OpSet None, sync_op ''b'' OpDelete None] new_shard)
    = [sync_op ''a'' OpSet None, sync_op ''b'' OpDelete None]"
proof -
  show ?thesis
    using sync_buffer_fifo [OF queue_new_shard(1), of "[sync_op ''a'' OpSet None, sync_op ''b'' OpDelete None]"]
    by (simp add: queue_new_shard(2))
qed

text \<open>
  Draining loses nothing. \<open>GetSyncBuffer\<close> on one shard returns, after what it already
  collected, every pending operation (its key and kind) exactly once, oldest first, and leaves the
  shard's queue empty.
\<close>

theorem drain_returns_queue:
  assumes "i < length (shards s)" "queue_inv (shards s ! i)"
    and "drain_shard E now i (s, ops) = (s', ops')"
  shows "map op_head ops' = map op_head ops @ map op_head (queue_ops (shards s ! i))
    \<and> queue_ops (shards s' ! i) = []"
  using assms by (rule drain_shard_queue)

theorem drain_returns_queue_witness:
  "\<exists>s' ops'. drain_shard example_env 0 0 (upd_shard 0 (push_sync (sync_op ''a'' OpDelete None)) example_store, []) = (s', ops')
     \<and> map op_head ops' = [(''a'', OpDelete)] \<and> queue_ops (shards s' ! 0) = []"
proof -
  let ?op = "sync_op ''a'' OpDelete None"
  let ?s = "upd_shard 0 (push_sync ?op) example_store"
  have "New_shardCount 1 (ShardCount (DefaultConfig\<lparr>ShardCount := 4, CompressionThreshold := 4\<rparr>)) \<ge> 1"
    by (rule New_shardCount_pos) (simp_all add: DefaultConfig_def)
  then have len: "0 < length (shards example_store)" "shards example_store ! 0 = new_shard"
    by (simp_all add: example_store_def New_def Let_def)
  then have sh: "shards ?s ! 0 = push_sync ?op new_shard" "0 < length (shards ?s)" by (simp_all add: store_simps)
  have q: "queue_inv (shards ?s ! 0)" "queue_ops (shards ?s ! 0) = [?op]"
    unfolding sh using sync_ring.push_inv [OF queue_new_shard(1)] sync_ring.push_suffix [OF queue_new_shard(1), of ?op]
    by (simp_all add: queue_new_shard(2))
  obtain s' ops' where d: "drain_shard example_env 0 0 (?s, []) = (s', ops')"
    by (cases "drain_shard example_env 0 0 (?s, [])")
  from drain_returns_queue [OF sh(2) q(1) d] d q(2) show ?thesis
    by (simp add: op_head_def sync_op_def)
qed

end
