(* ===== verification/Store_Concurrent.thy ===== *)
theory Store_Concurrent
  imports Mem_Storage
begin

text \<open>
  The compare-and-swap loop of \<open>storeItemWithConflictResolution\<close>, \<open>tryStoreNewKey\<close> and
  \<open>tryUpdateExistingKey\<close> (\<open>internal/mem_storage/mem_storage.go\<close>) run by any number of goroutines that
  \<open>Set\<close> one key. A step is one atomic access to the shard's \<open>sync.Map\<close>; any goroutine may take the
  next step.

  The cell of the key holds a pointer to an immutable \<open>compressedItem\<close>. Goroutine \<open>t\<close> writes pointer
  \<open>t\<close>; \<open>item\<close> maps pointers to items, those stored before the run included.
\<close>

section \<open>States and steps\<close>

datatype pc = PLoad | PNew | PUpdate nat | PCas nat | PDone

type_synonym cell_state = "nat option \<times> pc list"

definition ptr_version :: "(nat \<Rightarrow> compressedItem) \<Rightarrow> nat \<Rightarrow> int" where
  "ptr_version item p = sint (cVersion (item p))"

inductive cas_step :: "(nat \<Rightarrow> compressedItem) \<Rightarrow> cell_state \<Rightarrow> cell_state \<Rightarrow> bool" for item where
  load_none: "t < length pcs \<Longrightarrow> pcs ! t = PLoad \<Longrightarrow>
    cas_step item (None, pcs) (None, pcs[t := PNew])"
| load_some: "t < length pcs \<Longrightarrow> pcs ! t = PLoad \<Longrightarrow>
    cas_step item (Some p, pcs) (Some p, pcs[t := PUpdate p])"
| new_stored: "t < length pcs \<Longrightarrow> pcs ! t = PNew \<Longrightarrow>
    cas_step item (None, pcs) (Some t, pcs[t := PDone])"
| new_exists: "t < length pcs \<Longrightarrow> pcs ! t = PNew \<Longrightarrow>
    cas_step item (Some p, pcs) (Some p, pcs[t := PLoad])"
| update_stale: "t < length pcs \<Longrightarrow> pcs ! t = PUpdate p \<Longrightarrow> ptr_version item t \<le> ptr_version item p \<Longrightarrow>
    cas_step item (cell, pcs) (cell, pcs[t := PDone])"
| verify_gone: "t < length pcs \<Longrightarrow> pcs ! t = PUpdate p \<Longrightarrow> ptr_version item p < ptr_version item t \<Longrightarrow>
    cas_step item (None, pcs) (None, pcs[t := PLoad])"
| verify_changed: "t < length pcs \<Longrightarrow> pcs ! t = PUpdate p \<Longrightarrow> ptr_version item p < ptr_version item t \<Longrightarrow>
    ptr_version item q \<noteq> ptr_version item p \<Longrightarrow>
    cas_step item (Some q, pcs) (Some q, pcs[t := PLoad])"
| verify_same: "t < length pcs \<Longrightarrow> pcs ! t = PUpdate p \<Longrightarrow> ptr_version item p < ptr_version item t \<Longrightarrow>
    ptr_version item q = ptr_version item p \<Longrightarrow>
    cas_step item (Some q, pcs) (Some q, pcs[t := PCas p])"
| cas_stored: "t < length pcs \<Longrightarrow> pcs ! t = PCas p \<Longrightarrow>
    cas_step item (Some p, pcs) (Some t, pcs[t := PDone])"
| cas_failed: "t < length pcs \<Longrightarrow> pcs ! t = PCas p \<Longrightarrow> cell \<noteq> Some p \<Longrightarrow>
    cas_step item (cell, pcs) (cell, pcs[t := PLoad])"

inductive_cases cas_stepE: "cas_step item (cell, pcs) st'"

definition cas_init :: "nat option \<Rightarrow> nat \<Rightarrow> cell_state" where
  "cas_init cell n = (cell, replicate n PLoad)"

definition all_done :: "cell_state \<Rightarrow> bool" where
  "all_done st \<longleftrightarrow> (\<forall>pc \<in> set (snd st). pc = PDone)"

section \<open>Invariant\<close>

text \<open>
  Every goroutine that is done is covered: the cell's version is at least its own. A goroutine that
  loaded pointer \<open>p\<close> knows a lower bound on the cell, and one about to swap has the greater version.
\<close>

definition at_least :: "(nat \<Rightarrow> compressedItem) \<Rightarrow> nat option \<Rightarrow> int \<Rightarrow> bool" where
  "at_least item cell v \<longleftrightarrow> (\<exists>q. cell = Some q \<and> v \<le> ptr_version item q)"

fun pc_ok :: "(nat \<Rightarrow> compressedItem) \<Rightarrow> nat option \<Rightarrow> nat \<Rightarrow> pc \<Rightarrow> bool" where
  "pc_ok item cell t PLoad = True"
| "pc_ok item cell t PNew = True"
| "pc_ok item cell t (PUpdate p) = at_least item cell (ptr_version item p)"
| "pc_ok item cell t (PCas p) = (at_least item cell (ptr_version item p) \<and> ptr_version item p < ptr_version item t)"
| "pc_ok item cell t PDone = at_least item cell (ptr_version item t)"

definition cas_inv :: "(nat \<Rightarrow> compressedItem) \<Rightarrow> nat option \<Rightarrow> cell_state \<Rightarrow> bool" where
  "cas_inv item init st \<longleftrightarrow>
     (\<forall>t < length (snd st). pc_ok item (fst st) t (snd st ! t))
     \<and> (\<forall>p. init = Some p \<longrightarrow> at_least item (fst st) (ptr_version item p))
     \<and> (\<forall>q. fst st = Some q \<longrightarrow> init = Some q \<or> q < length (snd st))"

lemma at_least_mono:
  assumes "at_least item cell v"
    and "\<And>q. cell = Some q \<Longrightarrow> \<exists>q'. cell' = Some q' \<and> ptr_version item q \<le> ptr_version item q'"
  shows "at_least item cell' v"
proof -
  obtain q where "cell = Some q" "v \<le> ptr_version item q" using assms(1) by (auto simp: at_least_def)
  with assms(2) [of q] show ?thesis by (auto simp: at_least_def intro: order_trans)
qed

lemma pc_ok_mono:
  assumes "pc_ok item cell t pc"
    "\<And>q. cell = Some q \<Longrightarrow> \<exists>q'. cell' = Some q' \<and> ptr_version item q \<le> ptr_version item q'"
  shows "pc_ok item cell' t pc"
  using assms at_least_mono [of item cell _ cell'] by (cases pc) simp_all

lemma cas_inv_step_at:
  assumes "cas_inv item init (cell, pcs)" "t < length pcs"
    and "\<And>q. cell = Some q \<Longrightarrow> \<exists>q'. cell' = Some q' \<and> ptr_version item q \<le> ptr_version item q'"
    and "pc_ok item cell' t pc'" "\<And>q. cell' = Some q \<Longrightarrow> cell = Some q \<or> q = t"
  shows "cas_inv item init (cell', pcs[t := pc'])"
proof -
  have "pc_ok item cell' u (pcs[t := pc'] ! u)" if "u < length pcs" for u
    using assms(1,2,4) that pc_ok_mono [of item cell u "pcs ! u" cell'] assms(3)
    by (cases "u = t") (auto simp: cas_inv_def)
  moreover have "at_least item cell' (ptr_version item p)" if "init = Some p" for p
    using assms(1,3) that at_least_mono [of item cell _ cell'] by (auto simp: cas_inv_def)
  ultimately show ?thesis using assms(1,2,5) by (auto simp: cas_inv_def)
qed

lemma cas_inv_step:
  assumes "cas_inv item init (cell, pcs)" "cas_step item (cell, pcs) st'"
  shows "cas_inv item init st'"
proof -
  have pc: "pc_ok item cell t (pcs ! t)" if "t < length pcs" for t using assms(1) that by (simp add: cas_inv_def)
  show ?thesis
    using assms(2) by (cases rule: cas_stepE)
      (use pc in \<open>fastforce intro!: cas_inv_step_at [OF assms(1)] simp: at_least_def\<close>)+
qed

lemma cas_inv_reachable:
  assumes "(cas_step item)\<^sup>*\<^sup>* (cas_init cell n) st"
  shows "cas_inv item cell st \<and> length (snd st) = n"
  using assms
proof (induction rule: rtranclp_induct)
  case base
  show ?case by (auto simp: cas_init_def cas_inv_def at_least_def)
next
  case (step st st')
  moreover have "length (snd st') = length (snd st)" using step.hyps(2) by (cases st) (auto elim: cas_stepE)
  moreover have "cas_inv item cell st'" using cas_inv_step [of item cell "fst st" "snd st" st'] step by simp
  ultimately show ?case by simp
qed

section \<open>Termination\<close>

text \<open>
  A retry happens only after another goroutine changed the cell, and every goroutine changes it at
  most once. The measure weighs the goroutines that are not done above the position of each in its
  loop; a position is stale when the cell has changed since it was read.
\<close>

fun pc_weight :: "nat option \<Rightarrow> pc \<Rightarrow> nat" where
  "pc_weight cell PDone = 0"
| "pc_weight cell PLoad = 3"
| "pc_weight cell PNew = (if cell = None then 1 else 4)"
| "pc_weight cell (PUpdate p) = (if cell = Some p then 2 else 5)"
| "pc_weight cell (PCas p) = (if cell = Some p then 1 else 4)"

definition not_done :: "pc list \<Rightarrow> nat" where
  "not_done pcs = length (filter (\<lambda>pc. pc \<noteq> PDone) pcs)"

definition cas_measure :: "cell_state \<Rightarrow> nat" where
  "cas_measure st = not_done (snd st) * (5 * length (snd st) + 1) + sum_list (map (pc_weight (fst st)) (snd st))"

lemma sum_list_update_nat:
  fixes f :: "'a \<Rightarrow> nat"
  shows "i < length xs \<Longrightarrow> sum_list (map f (xs[i := y])) + f (xs ! i) = sum_list (map f xs) + f y"
proof (induction xs arbitrary: i)
  case (Cons x xs)
  then show ?case by (cases i) auto
qed simp

lemma not_done_sum: "not_done pcs = sum_list (map (\<lambda>pc. if pc = PDone then 0 else 1) pcs)"
  unfolding not_done_def by (induction pcs) auto

lemma not_done_update:
  "t < length pcs \<Longrightarrow> pcs ! t \<noteq> PDone \<Longrightarrow>
   not_done (pcs[t := pc]) = (if pc = PDone then not_done pcs - 1 else not_done pcs) \<and> 0 < not_done pcs"
proof -
  assume t: "t < length pcs" "pcs ! t \<noteq> PDone"
  then have "pcs ! t \<in> set (filter (\<lambda>pc. pc \<noteq> PDone) pcs)" by simp
  then have "0 < not_done pcs" unfolding not_done_def by (rule length_pos_if_in_set)
  with t show ?thesis
    using sum_list_update_nat [of t pcs "\<lambda>pc. if pc = PDone then 0 else 1" pc]
    by (auto simp: not_done_sum split: if_splits)
qed

lemma pc_weight_bound: "pc_weight cell pc \<le> 5"
  by (cases pc) auto

lemma sum_weight_bound: "sum_list (map (pc_weight cell) pcs) \<le> 5 * length pcs"
  by (induction pcs) (auto simp: pc_weight_bound add_mono)

lemma measure_same_cell:
  assumes "t < length pcs" "pcs ! t \<noteq> PDone" "pc_weight cell pc < pc_weight cell (pcs ! t)"
  shows "cas_measure (cell, pcs[t := pc]) < cas_measure (cell, pcs)"
proof -
  have "not_done (pcs[t := pc]) \<le> not_done pcs" using not_done_update [OF assms(1,2), of pc] by auto
  then have "not_done (pcs[t := pc]) * (5 * length pcs + 1) \<le> not_done pcs * (5 * length pcs + 1)"
    by (rule mult_le_mono1)
  then show ?thesis
    using sum_list_update_nat [OF assms(1), of "pc_weight cell" pc] assms(3) by (simp add: cas_measure_def)
qed

lemma measure_new_cell:
  assumes "t < length pcs" "pcs ! t \<noteq> PDone"
  shows "cas_measure (cell', pcs[t := PDone]) < cas_measure (cell, pcs)"
proof -
  obtain m where m: "not_done pcs = Suc m" "not_done (pcs[t := PDone]) = m"
    using not_done_update [OF assms, of PDone] by (cases "not_done pcs") auto
  show ?thesis
    using sum_weight_bound [of cell' "pcs[t := PDone]"] by (simp add: cas_measure_def m)
qed

lemma cas_step_decreases: "cas_step item (cell, pcs) st' \<Longrightarrow> cas_measure st' < cas_measure (cell, pcs)"
  by (cases rule: cas_stepE) (auto intro!: measure_same_cell measure_new_cell)

lemma cas_progress: "\<not> all_done (cell, pcs) \<Longrightarrow> \<exists>st'. cas_step item (cell, pcs) st'"
proof -
  assume "\<not> all_done (cell, pcs)"
  then obtain t where t: "t < length pcs" "pcs ! t \<noteq> PDone" by (auto simp: all_done_def in_set_conv_nth)
  show ?thesis
  proof (cases "pcs ! t")
    case PLoad
    then show ?thesis using t cas_step.load_none cas_step.load_some by (cases cell) blast+
  next
    case PNew
    then show ?thesis using t cas_step.new_stored cas_step.new_exists by (cases cell) blast+
  next
    case (PUpdate p)
    then show ?thesis
      using t cas_step.update_stale cas_step.verify_gone cas_step.verify_changed cas_step.verify_same
      by (cases cell) (metis not_le)+
  next
    case (PCas p)
    then show ?thesis using t cas_step.cas_stored cas_step.cas_failed by (cases "cell = Some p") blast+
  qed (use t in simp)
qed

definition example_ptr :: "nat \<Rightarrow> compressedItem" where
  "example_ptr t = \<lparr>cVersion = of_nat t + 1, cExpireAt = zero_time, cValue = Some [1], Compressed = False, OrigSize = 1\<rparr>"

section \<open>Properties\<close>

text \<open>
  C27: concurrent writers leave the newest version. Whatever the interleaving of any number of
  goroutines that \<open>Set\<close> one key, once all have returned the cell holds the item of one of the writers,
  or the one stored before, and its version is the greatest of all of them.
\<close>

theorem concurrent_set_max:
  assumes "(cas_step item)\<^sup>*\<^sup>* (cas_init cell n) (cell', pcs)" "all_done (cell', pcs)" "0 < n"
  shows "\<exists>q. cell' = Some q \<and> (cell = Some q \<or> q < n)
    \<and> (\<forall>t < n. ptr_version item t \<le> ptr_version item q)
    \<and> (\<forall>p. cell = Some p \<longrightarrow> ptr_version item p \<le> ptr_version item q)"
proof -
  have inv: "cas_inv item cell (cell', pcs)" "length pcs = n" using cas_inv_reachable [OF assms(1)] by simp_all
  have fin: "pcs ! t = PDone" if "t < n" for t using assms(2) that inv(2) by (auto simp: all_done_def)
  have al: "at_least item cell' (ptr_version item t)" if "t < n" for t
    using inv fin [OF that] that by (force simp: cas_inv_def)
  then obtain q where q: "cell' = Some q" using assms(3) by (auto simp: at_least_def)
  with al inv show ?thesis by (auto simp: cas_inv_def at_least_def)
qed

theorem concurrent_set_max_witness:
  "\<exists>q. Some 0 = Some q \<and> (None = Some q \<or> q < 1)
    \<and> (\<forall>t < 1. ptr_version example_ptr t \<le> ptr_version example_ptr q)
    \<and> (\<forall>p. None = Some p \<longrightarrow> ptr_version example_ptr p \<le> ptr_version example_ptr q)"
proof (rule concurrent_set_max)
  have "cas_step example_ptr (cas_init None 1) (None, [PLoad][0 := PNew])"
    using cas_step.load_none [of 0 "[PLoad]" example_ptr] by (simp add: cas_init_def)
  moreover have "cas_step example_ptr (None, [PLoad][0 := PNew]) (Some 0, [PDone])"
    using cas_step.new_stored [of 0 "[PNew]" example_ptr] by simp
  ultimately show "(cas_step example_ptr)\<^sup>*\<^sup>* (cas_init None 1) (Some 0, [PDone])"
    by (meson converse_rtranclp_into_rtranclp rtranclp.rtrancl_refl)
qed (simp_all add: all_done_def)

text \<open>
  C28: the loop terminates under every schedule. Each step of any goroutine decreases a measure of
  the shared state, so no execution is infinite, and as long as some goroutine has not returned a
  step is possible: all the retry loops end.
\<close>

theorem concurrent_set_terminates:
  "wf {(st', st). cas_step item st st'} \<and> (\<forall>st. all_done st \<or> (\<exists>st'. cas_step item st st'))"
proof
  have "{(st', st). cas_step item st st'} \<subseteq> measure cas_measure"
    using cas_step_decreases by auto
  then show "wf {(st', st). cas_step item st st'}" by (rule wf_subset [OF wf_measure])
  show "\<forall>st. all_done st \<or> (\<exists>st'. cas_step item st st')" using cas_progress by (metis prod.collapse)
qed

end
