(* ===== verification/Codec.thy ===== *)
theory Codec
  imports Mem_Storage
begin

text \<open>
  \<open>internal/cluster/codec.go\<close>: the binary encodings of sync operations and of membership messages,
  with the message types of \<open>internal/cluster/types.go\<close> and \<open>NodeInfo\<close> of \<open>internal/cluster/member.go\<close>.
  The pooled buffers are emptied before use and copied before they are returned, so an encoder is a
  function to a fresh byte list; a nil result is \<open>None\<close>.

  \<open>Deserialize\<close> allocates a slice for the number of operations that the message claims, up to \<open>2^32\<close>, before it looks
  at them; the model has no bound on memory, so this allocation has no effect in it.

  The locale \<open>wire_codec\<close> states the law of an encoder/decoder pair that works at an offset of a
  larger buffer; decoding a sequence of elements is proved inside it, and it is interpreted on
  strings, node records and framed operations.
\<close>

section \<open>Messages\<close>

type_synonym NodeState = "32 word"

definition NodeStateUnknown :: NodeState where "NodeStateUnknown = 0"
definition NodeStateAlive :: NodeState where "NodeStateAlive = 1"
definition NodeStateSuspect :: NodeState where "NodeStateSuspect = 2"
definition NodeStateDead :: NodeState where "NodeStateDead = 3"

record NodeInfo =
  NodeID :: string
  Address :: string
  State :: NodeState
  Incarnation :: int64
  LastActive :: gotime
  SuspectSince :: gotime

datatype member_msg =
  PingMsg (From: string) (To: string) (Inc: int64)
| AckMsg (From: string) (To: string) (Inc: int64)
| ConnectMsg (MsgNodeID: string) (MsgAddress: string) (Inc: int64)
| LeaveMsg (MsgNodeID: string) (Inc: int64)
| IndirectProbeMsg (From: string) (Target: string) (Inc: int64)
| IndirectAckMsg (From: string) (To: string) (Target: string) (Inc: int64)
| ClusterSyncMsg (From: string) (MsgMembers: "NodeInfo list")

section \<open>Strings\<close>

definition encodeStringTo :: "byte list \<Rightarrow> string \<Rightarrow> byte list" where
  "encodeStringTo buf s = buf @ put_le 2 (length s) @ StringToBytes s"

definition decodeString :: "byte list \<Rightarrow> nat \<Rightarrow> string \<times> nat" where
  "decodeString dat offset =
     (if offset + 2 > length dat then ('''', 0)
      else
        (let strLen = get_u16 (drop offset dat); offset1 = offset + 2 in
         if offset1 + strLen > length dat then ('''', 0)
         else if strLen = 0 then ('''', offset1)
         else if strLen > length dat \<or> strLen > 65535 then ('''', 0)
         else
           (let result = BytesToString (take strLen (drop offset1 dat)) in
            if length result \<noteq> strLen then ('''', 0) else (result, offset1 + strLen))))"

section \<open>Sync operations\<close>

definition encodeOpStreaming :: "string \<Rightarrow> OpType \<Rightarrow> StoredItem \<Rightarrow> byte list" where
  "encodeOpStreaming key ot item =
     (let keyBytes = StringToBytes key;
          valueLen = (case Value item of None \<Rightarrow> 0 | Some v \<Rightarrow> length v);
          expireAt = (if \<not> IsZero (ExpireAt item) then UnixNano (ExpireAt item) else 0)
      in [of_nat (length keyBytes AND 0xFF), of_nat (drop_bit 8 (length keyBytes))] @ keyBytes
         @ put_u64 (Version item) @ [if ot = OpDelete then 1 else 0] @ put_u64 expireAt
         @ put_le 4 valueLen @ (if valueLen > 0 then go_bytes (Value item) else []))"

fun Serialize_ops :: "SyncOperation list \<Rightarrow> byte list" where
  "Serialize_ops [] = []"
| "Serialize_ops (op # ops) =
     (case opItem op of
        None \<Rightarrow> Serialize_ops ops
      | Some item \<Rightarrow>
          (let b = encodeOpStreaming (opKey op) (opType op) item
           in put_le 4 (length b) @ b @ Serialize_ops ops))"

definition Serialize :: "SyncOperation list \<Rightarrow> bytes" where
  "Serialize ops =
     (if length ops = 0 then None else Some (put_le 4 (length ops) @ Serialize_ops ops))"

definition OpType_of :: "byte \<Rightarrow> OpType" where
  "OpType_of b = (if b = 0 then OpSet else if b = 1 then OpDelete else OpOther (unat b))"

definition decodeOp :: "byte list \<Rightarrow> SyncOperation option" where
  "decodeOp dat =
     (if length dat < 2 then None
      else
        (let keyLen = get_u16 dat; o1 = 2 in
         if o1 + keyLen > length dat then None
         else
           (let key = BytesToString (take keyLen (drop o1 dat)); o2 = o1 + keyLen in
            if o2 + 8 > length dat then None
            else
              (let version = get_u64 (drop o2 dat); o3 = o2 + 8 in
               if o3 \<ge> length dat then None
               else
                 (let ot = OpType_of (dat ! o3); o4 = o3 + 1 in
                  if o4 + 8 > length dat then None
                  else
                    (let expireAt = get_u64 (drop o4 dat); o5 = o4 + 8 in
                     if o5 + 4 > length dat then None
                     else
                       (let valueLen = get_u32 (drop o5 dat); o6 = o5 + 4 in
                        if valueLen > 0 \<and> o6 + valueLen > length dat then None
                        else
                          (let v = (if valueLen > 0
                                    then FastCloneBytes (Some (take valueLen (drop o6 dat))) else None);
                               expireTime = (if sint expireAt > 0 then time_Unix0 expireAt else zero_time)
                           in Some \<lparr>opKey = key, opType = ot,
                                opItem = Some \<lparr>Version = version, ExpireAt = expireTime, Value = v,
                                               Key = key\<rparr>\<rparr>))))))))"

text \<open>The loop of \<open>Deserialize\<close>: a nil operation (\<open>None\<close>) is appended like any other.\<close>

fun Deserialize_loop :: "nat \<Rightarrow> byte list \<Rightarrow> nat \<Rightarrow> SyncOperation option list" where
  "Deserialize_loop 0 dat offset = []"
| "Deserialize_loop (Suc n) dat offset =
     (if offset + 4 > length dat then []
      else
        (let opLen = get_u32 (drop offset dat); o1 = offset + 4 in
         if o1 + opLen > length dat then []
         else decodeOp (take opLen (drop o1 dat)) # Deserialize_loop n dat (o1 + opLen)))"

definition Deserialize :: "byte list \<Rightarrow> SyncOperation option list" where
  "Deserialize dat =
     (if length dat < 4 then [] else Deserialize_loop (get_u32 dat) dat 4)"

section \<open>Membership messages\<close>

definition encode_two :: "string \<Rightarrow> string \<Rightarrow> int64 \<Rightarrow> byte list" where
  "encode_two a b inc = encodeStringTo (encodeStringTo [] a) b @ put_u64 inc"

definition encodePingMsg :: "string \<Rightarrow> string \<Rightarrow> int64 \<Rightarrow> byte list" where
  "encodePingMsg from to inc = encode_two from to inc"

definition encodeAckMsg :: "string \<Rightarrow> string \<Rightarrow> int64 \<Rightarrow> byte list" where
  "encodeAckMsg from to inc = encode_two from to inc"

definition encodeConnectMsg :: "string \<Rightarrow> string \<Rightarrow> int64 \<Rightarrow> byte list" where
  "encodeConnectMsg nid addr inc = encode_two nid addr inc"

definition encodeIndirectProbeMsg :: "string \<Rightarrow> string \<Rightarrow> int64 \<Rightarrow> byte list" where
  "encodeIndirectProbeMsg from target inc = encode_two from target inc"

definition encodeLeaveMsg :: "string \<Rightarrow> int64 \<Rightarrow> byte list" where
  "encodeLeaveMsg nid inc = encodeStringTo [] nid @ put_u64 inc"

definition decode_two :: "byte list \<Rightarrow> (string \<times> string \<times> int64) option" where
  "decode_two dat =
     (if length dat < 2 then None
      else (case decodeString dat 0 of (a, o1) \<Rightarrow>
        if o1 = 0 then None
        else (case decodeString dat o1 of (b, o2) \<Rightarrow>
          if o2 = 0 \<or> o2 + 8 > length dat then None
          else Some (a, b, get_u64 (drop o2 dat)))))"

definition decodePingMsg :: "byte list \<Rightarrow> member_msg option" where
  "decodePingMsg dat = map_option (\<lambda>(a, b, inc). PingMsg a b inc) (decode_two dat)"

definition decodeAckMsg :: "byte list \<Rightarrow> member_msg option" where
  "decodeAckMsg dat = map_option (\<lambda>(a, b, inc). AckMsg a b inc) (decode_two dat)"

definition decodeIndirectProbeMsg :: "byte list \<Rightarrow> member_msg option" where
  "decodeIndirectProbeMsg dat = map_option (\<lambda>(a, b, inc). IndirectProbeMsg a b inc) (decode_two dat)"

definition bad_address :: "string \<Rightarrow> bool" where
  "bad_address addr \<longleftrightarrow> length addr < 3 \<or> addr ! 0 = CHR 0x00"

definition decodeConnectMsg :: "byte list \<Rightarrow> member_msg option" where
  "decodeConnectMsg dat =
     (if length dat < 2 then None
      else (case decodeString dat 0 of (nid, o1) \<Rightarrow>
        if o1 = 0 then None
        else if length nid = 0 then None
        else if o1 \<noteq> 2 + length nid then None
        else (case decodeString dat o1 of (addr, o2) \<Rightarrow>
          if o2 = 0 then None
          else if bad_address addr then None
          else if o2 + 8 > length dat then None
          else Some (ConnectMsg nid addr (get_u64 (drop o2 dat))))))"

definition decodeLeaveMsg :: "byte list \<Rightarrow> member_msg option" where
  "decodeLeaveMsg dat =
     (if length dat < 2 then None
      else (case decodeString dat 0 of (nid, o1) \<Rightarrow>
        if o1 = 0 \<or> o1 + 8 > length dat then None
        else Some (LeaveMsg nid (get_u64 (drop o1 dat)))))"

definition encodeNodeInfo :: "NodeInfo \<Rightarrow> byte list" where
  "encodeNodeInfo info =
     encodeStringTo (encodeStringTo [] (NodeID info)) (Address info)
     @ put_le 4 (unat (State info)) @ put_u64 (Incarnation info) @ put_u64 (UnixNano (LastActive info))"

definition decodeNodeInfo :: "byte list \<Rightarrow> nat \<Rightarrow> NodeInfo option \<times> nat" where
  "decodeNodeInfo dat offset =
     (if offset + 2 > length dat then (None, offset)
      else (case decodeString dat offset of (nid, o1) \<Rightarrow>
        if o1 = 0 then (None, o1)
        else (case decodeString dat o1 of (addr, o2) \<Rightarrow>
          if o2 = 0 then (None, o2)
          else if o2 + 4 > length dat then (None, o2)
          else if o2 + 4 + 8 > length dat then (None, o2 + 4)
          else if o2 + 4 + 8 + 8 > length dat then (None, o2 + 4 + 8)
          else (Some \<lparr>NodeID = nid, Address = addr, State = of_nat (get_u32 (drop o2 dat)),
                      Incarnation = get_u64 (drop (o2 + 4) dat),
                      LastActive = time_Unix0 (get_u64 (drop (o2 + 4 + 8) dat)),
                      SuspectSince = zero_time\<rparr>, o2 + 4 + 8 + 8))))"

definition encodeClusterSyncMsg :: "string \<Rightarrow> NodeInfo list \<Rightarrow> byte list" where
  "encodeClusterSyncMsg from members =
     encodeStringTo [] from @ put_le 4 (length members) @ concat (map encodeNodeInfo members)"

definition decode_member :: "byte list \<Rightarrow> nat \<Rightarrow> (NodeInfo \<times> nat) option" where
  "decode_member dat offset =
     (case decodeNodeInfo dat offset of
        (None, _) \<Rightarrow> None
      | (Some info, n) \<Rightarrow>
          if Address info = '''' \<or> bad_address (Address info) then None else Some (info, n))"

fun decode_list :: "(byte list \<Rightarrow> nat \<Rightarrow> ('a \<times> nat) option) \<Rightarrow> nat \<Rightarrow> byte list \<Rightarrow> nat \<Rightarrow> ('a list \<times> nat) option"
where
  "decode_list dec 0 dat offset = Some ([], offset)"
| "decode_list dec (Suc n) dat offset =
     (case dec dat offset of
        None \<Rightarrow> None
      | Some (x, o1) \<Rightarrow>
          (case decode_list dec n dat o1 of None \<Rightarrow> None | Some (xs, o2) \<Rightarrow> Some (x # xs, o2)))"

definition decodeClusterSyncMsg :: "byte list \<Rightarrow> member_msg option" where
  "decodeClusterSyncMsg dat =
     (if length dat < 2 then None
      else (case decodeString dat 0 of (from, o1) \<Rightarrow>
        if o1 = 0 then None
        else if o1 + 4 > length dat then None
        else
          (let memberCount = get_u32 (drop o1 dat) in
           if memberCount > 1000 then None
           else map_option (\<lambda>(ms, _). ClusterSyncMsg from ms)
                  (decode_list decode_member memberCount dat (o1 + 4)))))"

definition EncodeMemberMsg :: "member_msg \<Rightarrow> bytes" where
  "EncodeMemberMsg msg =
     (case msg of
        PingMsg from to inc \<Rightarrow> Some (encodePingMsg from to inc)
      | AckMsg from to inc \<Rightarrow> Some (encodeAckMsg from to inc)
      | ConnectMsg nid addr inc \<Rightarrow> Some (encodeConnectMsg nid addr inc)
      | LeaveMsg nid inc \<Rightarrow> Some (encodeLeaveMsg nid inc)
      | IndirectProbeMsg from target inc \<Rightarrow> Some (encodeIndirectProbeMsg from target inc)
      | ClusterSyncMsg from members \<Rightarrow> Some (encodeClusterSyncMsg from members)
      | IndirectAckMsg from to target inc \<Rightarrow> None)"

definition DecodeMemberMsg :: "byte list \<Rightarrow> nat \<Rightarrow> member_msg option" where
  "DecodeMemberMsg dat msgType =
     (if length dat = 0 then None
      else if msgType = 1 then
        (case decodePingMsg dat of
           Some (PingMsg from to inc) \<Rightarrow>
             if to \<noteq> '''' then Some (PingMsg from to inc)
             else (case decodeAckMsg dat of
                     Some (AckMsg from to inc) \<Rightarrow>
                       if to \<noteq> '''' then Some (AckMsg from to inc) else decodeIndirectProbeMsg dat
                   | _ \<Rightarrow> decodeIndirectProbeMsg dat)
         | _ \<Rightarrow> (case decodeAckMsg dat of
                     Some (AckMsg from to inc) \<Rightarrow>
                       if to \<noteq> '''' then Some (AckMsg from to inc) else decodeIndirectProbeMsg dat
                   | _ \<Rightarrow> decodeIndirectProbeMsg dat))
      else if msgType = 2 then
        (let o1 = snd (decodeString dat 0) in
         if length dat \<ge> 10 \<and> o1 > 0 \<and> o1 + 4 \<le> length dat \<and> get_u32 (drop o1 dat) \<le> 1000
         then decodeClusterSyncMsg dat
         else (case decodeConnectMsg dat of
                 Some (ConnectMsg nid addr inc) \<Rightarrow>
                   if nid \<noteq> '''' \<and> addr \<noteq> ''''
                   then (if bad_address addr then None else Some (ConnectMsg nid addr inc))
                   else decodeClusterSyncMsg dat
               | _ \<Rightarrow> decodeClusterSyncMsg dat))
      else if msgType = 3 then decodeLeaveMsg dat
      else None)"

section \<open>Decoding at an offset\<close>

declare add_2_eq_Suc [simp del] add_2_eq_Suc' [simp del]

lemma drop_past: "drop off dat = a @ rest \<Longrightarrow> drop (off + length a) dat = rest"
  by (metis add.commute append_eq_conv_conj drop_drop)

text \<open>
  The law of a codec: where the buffer from an offset on starts with an encoded value, the decoder
  returns the value and the offset behind it. Then a sequence of encoded values is decoded by the
  counted loop.
\<close>

locale wire_codec =
  fixes enc :: "'a \<Rightarrow> byte list" and dec :: "byte list \<Rightarrow> nat \<Rightarrow> ('a \<times> nat) option" and ok :: "'a \<Rightarrow> bool"
  assumes dec_enc: "ok x \<Longrightarrow> drop off dat = enc x @ rest \<Longrightarrow> dec dat off = Some (x, off + length (enc x))"
begin

lemma decode_list_enc:
  assumes "\<forall>x \<in> set xs. ok x" "drop off dat = concat (map enc xs) @ rest"
  shows "decode_list dec (length xs) dat off = Some (xs, off + length (concat (map enc xs)))"
  using assms
proof (induction xs arbitrary: off)
  case (Cons x xs)
  have d: "drop off dat = enc x @ (concat (map enc xs) @ rest)" using Cons.prems(2) by simp
  have "dec dat off = Some (x, off + length (enc x))" using dec_enc [OF _ d] Cons.prems(1) by simp
  moreover have "decode_list dec (length xs) dat (off + length (enc x))
      = Some (xs, off + length (enc x) + length (concat (map enc xs)))"
    using Cons.prems(1) drop_past [OF d] by (intro Cons.IH) simp_all
  ultimately show ?case by simp
qed simp

end

lemma drop_length: "drop off dat = a @ rest \<Longrightarrow> 0 < length a \<Longrightarrow> length dat = off + length a + length rest"
  using length_drop [of off dat] by (cases "off \<le> length dat") auto

definition enc_string :: "string \<Rightarrow> byte list" where
  "enc_string s = put_le 2 (length s) @ StringToBytes s"

lemma encodeStringTo_enc: "encodeStringTo buf s = buf @ enc_string s"
  by (simp add: encodeStringTo_def enc_string_def)

lemma length_enc_string [simp]: "length (enc_string s) = 2 + length s"
  by (simp add: enc_string_def)

definition short :: "string \<Rightarrow> bool" where
  "short s \<longleftrightarrow> length s < 65536"

lemma decodeString_enc:
  assumes "short s" "drop off dat = enc_string s @ rest"
  shows "decodeString dat off = (s, off + 2 + length s)"
proof -
  have len: "length dat = off + 2 + length s + length rest"
    using drop_length [OF assms(2)] by (simp add: enc_string_def)
  have u: "get_u16 (drop off dat) = length s"
    using assms by (simp add: enc_string_def short_def)
  have "drop (off + 2) dat = StringToBytes s @ rest"
    using drop_past [of off dat "put_le 2 (length s)" "StringToBytes s @ rest"] assms(2)
    by (simp add: enc_string_def)
  then have "take (length s) (drop (off + 2) dat) = StringToBytes s" by simp
  with u len assms(1) show ?thesis
    by (auto simp: decodeString_def Let_def short_def)
qed

definition decodeString_opt :: "byte list \<Rightarrow> nat \<Rightarrow> (string \<times> nat) option" where
  "decodeString_opt dat off = (case decodeString dat off of (s, n) \<Rightarrow> if n = 0 then None else Some (s, n))"

interpretation string_codec: wire_codec enc_string decodeString_opt short
  by standard (simp add: decodeString_opt_def decodeString_enc)

definition info_ok :: "NodeInfo \<Rightarrow> bool" where
  "info_ok info \<longleftrightarrow> short (NodeID info) \<and> short (Address info) \<and> \<not> bad_address (Address info)
     \<and> SuspectSince info = zero_time
     \<and> - 9223372036854775808 \<le> LastActive info \<and> LastActive info < 9223372036854775808"

lemma get_u64_at: "drop off dat = put_u64 v @ rest \<Longrightarrow> get_u64 (drop off dat) = v"
  by simp

lemma decodeNodeInfo_enc:
  assumes "info_ok info" "drop off dat = encodeNodeInfo info @ rest"
  shows "decodeNodeInfo dat off = (Some info, off + length (encodeNodeInfo info))"
proof -
  let ?a = "enc_string (NodeID info)" and ?b = "enc_string (Address info)"
  let ?st = "put_le 4 (unat (State info))" and ?inc = "put_u64 (Incarnation info)"
  let ?la = "put_u64 (UnixNano (LastActive info))"
  have d0: "drop off dat = ?a @ (?b @ ?st @ ?inc @ ?la @ rest)"
    using assms(2) by (simp add: encodeNodeInfo_def encodeStringTo_enc)
  have d1: "drop (off + 2 + length (NodeID info)) dat = ?b @ (?st @ ?inc @ ?la @ rest)"
    using drop_past [OF d0] by (simp add: add.assoc)
  let ?o2 = "off + 2 + length (NodeID info) + 2 + length (Address info)"
  have d2: "drop ?o2 dat = ?st @ (?inc @ ?la @ rest)"
    using drop_past [OF d1] by (simp add: add.assoc)
  have d3: "drop (?o2 + 4) dat = ?inc @ (?la @ rest)" using drop_past [OF d2] by simp
  have d4: "drop (?o2 + 4 + 8) dat = ?la @ rest" using drop_past [OF d3] by simp
  have len: "length dat = ?o2 + 4 + 8 + 8 + length rest"
    using drop_length [OF d0] by (simp add: enc_string_def)
  have st: "unat (State info) < 2 ^ 32" using unsigned_less [of "State info", where ?'a = nat] by simp
  have s: "short (NodeID info)" "short (Address info)" "time_Unix0 (UnixNano (LastActive info)) = LastActive info"
    using assms(1) by (simp_all add: info_ok_def time_Unix0_UnixNano)
  have "get_u32 (drop ?o2 dat) = unat (State info)" unfolding d2 using st by simp
  moreover have "get_u64 (drop (?o2 + 4) dat) = Incarnation info" unfolding d3 by simp
  moreover have "get_u64 (drop (?o2 + 4 + 8) dat) = UnixNano (LastActive info)" unfolding d4 by simp
  ultimately show ?thesis
    using assms(1) len decodeString_enc [OF s(1) d0] decodeString_enc [OF s(2) d1] s(3)
    by (simp add: decodeNodeInfo_def info_ok_def encodeNodeInfo_def encodeStringTo_enc)
qed

interpretation member_codec: wire_codec encodeNodeInfo decode_member info_ok
proof
  fix info off dat rest assume a: "info_ok info" "drop off dat = encodeNodeInfo info @ rest"
  then have "Address info \<noteq> '''' \<and> \<not> bad_address (Address info)" by (auto simp: info_ok_def bad_address_def)
  then show "decode_member dat off = Some (info, off + length (encodeNodeInfo info))"
    using decodeNodeInfo_enc [OF a] by (simp add: decode_member_def)
qed

section \<open>Round trips of the membership messages\<close>

lemma encode_two_eq: "encode_two a b inc = enc_string a @ enc_string b @ put_u64 inc"
  by (simp add: encode_two_def encodeStringTo_enc)

lemma length_encode_two [simp]: "length (encode_two a b inc) = 12 + length a + length b"
  by (simp add: encode_two_eq)

lemma encode_two_not_Nil [simp]: "encode_two a b inc \<noteq> []"
  by (simp flip: length_greater_0_conv)

lemma encodeLeaveMsg_not_Nil [simp]: "encodeLeaveMsg nid inc \<noteq> []"
  by (simp add: encodeLeaveMsg_def encodeStringTo_enc flip: length_greater_0_conv)

lemma decode_two_strings:
  assumes "short a" "short b"
  shows "decodeString (encode_two a b inc) 0 = (a, 2 + length a)"
    and "decodeString (encode_two a b inc) (2 + length a) = (b, 4 + length a + length b)"
    and "get_u64 (drop (4 + length a + length b) (encode_two a b inc)) = inc"
proof -
  have d0: "drop 0 (encode_two a b inc) = enc_string a @ (enc_string b @ put_u64 inc)"
    by (simp add: encode_two_eq)
  have d1: "drop (2 + length a) (encode_two a b inc) = enc_string b @ put_u64 inc"
    using drop_past [OF d0] by simp
  have d2: "drop (4 + length a + length b) (encode_two a b inc) = put_u64 inc @ []"
    using drop_past [OF d1] by (simp add: add.assoc add.left_commute)
  show "decodeString (encode_two a b inc) 0 = (a, 2 + length a)"
    using decodeString_enc [OF assms(1) d0] by simp
  show "decodeString (encode_two a b inc) (2 + length a) = (b, 4 + length a + length b)"
    using decodeString_enc [OF assms(2) d1] by simp
  show "get_u64 (drop (4 + length a + length b) (encode_two a b inc)) = inc"
    unfolding d2 by (rule get_u64_put_u64)
qed

lemma decode_two_enc: "short a \<Longrightarrow> short b \<Longrightarrow> decode_two (encode_two a b inc) = Some (a, b, inc)"
  by (simp add: decode_two_def decode_two_strings)

lemma decodeLeaveMsg_enc: "short nid \<Longrightarrow> decodeLeaveMsg (encodeLeaveMsg nid inc) = Some (LeaveMsg nid inc)"
proof -
  assume s: "short nid"
  have d0: "drop 0 (encodeLeaveMsg nid inc) = enc_string nid @ put_u64 inc"
    by (simp add: encodeLeaveMsg_def encodeStringTo_enc)
  have d1: "drop (2 + length nid) (encodeLeaveMsg nid inc) = put_u64 inc @ []" using drop_past [OF d0] by simp
  have "length (encodeLeaveMsg nid inc) = 10 + length nid" by (simp add: encodeLeaveMsg_def encodeStringTo_enc)
  moreover have "get_u64 (drop (2 + length nid) (encodeLeaveMsg nid inc)) = inc" unfolding d1 by (rule get_u64_put_u64)
  ultimately show ?thesis using decodeString_enc [OF s d0] by (simp add: decodeLeaveMsg_def)
qed

lemma decodeClusterSyncMsg_enc:
  assumes "short from" "length members \<le> 1000" "\<forall>m \<in> set members. info_ok m"
  shows "decodeClusterSyncMsg (encodeClusterSyncMsg from members) = Some (ClusterSyncMsg from members)"
    and "decodeString (encodeClusterSyncMsg from members) 0 = (from, 2 + length from)"
    and "get_u32 (drop (2 + length from) (encodeClusterSyncMsg from members)) = length members"
    and "6 + length from \<le> length (encodeClusterSyncMsg from members)"
    and "members \<noteq> [] \<Longrightarrow> 10 \<le> length (encodeClusterSyncMsg from members)"
proof -
  let ?d = "encodeClusterSyncMsg from members" and ?n = "put_le 4 (length members)"
  have d0: "drop 0 ?d = enc_string from @ (?n @ concat (map encodeNodeInfo members))"
    by (simp add: encodeClusterSyncMsg_def encodeStringTo_enc)
  have d1: "drop (2 + length from) ?d = ?n @ concat (map encodeNodeInfo members)"
    using drop_past [OF d0] by simp
  have d2: "drop (2 + length from + 4) ?d = concat (map encodeNodeInfo members) @ []"
    using drop_past [OF d1] by simp
  show s: "decodeString ?d 0 = (from, 2 + length from)" using decodeString_enc [OF assms(1) d0] by simp
  show u: "get_u32 (drop (2 + length from) ?d) = length members" unfolding d1 using assms(2) by simp
  show l: "6 + length from \<le> length ?d" by (simp add: encodeClusterSyncMsg_def encodeStringTo_enc)
  show "10 \<le> length ?d" if "members \<noteq> []"
    using that by (cases members) (simp_all add: encodeClusterSyncMsg_def encodeStringTo_enc encodeNodeInfo_def)
  show "decodeClusterSyncMsg ?d = Some (ClusterSyncMsg from members)"
    using member_codec.decode_list_enc [OF assms(3) d2] s u l assms(2)
    by (simp add: decodeClusterSyncMsg_def Let_def)
qed

text \<open>
  A connect message is told from a cluster sync by the four bytes after the first string: the
  address's length and first two characters, as a number. A length of at least 3 and a first or
  second character other than NUL put it above 1000.
\<close>

lemma connect_not_sync:
  assumes "short a" "short b" "\<not> bad_address b"
  shows "get_u32 (drop (2 + length a) (encode_two a b inc)) > 1000"
proof -
  obtain c0 c1 cs where b: "b = c0 # c1 # cs"
    using assms(3) by (cases b; cases "tl b") (auto simp: bad_address_def)
  have "c0 \<noteq> CHR 0x00" using assms(3) by (simp add: bad_address_def b)
  then have "(of_char c0 :: nat) \<noteq> 0" by (cases c0) (auto simp: of_char_def split: if_splits)
  then have pos: "1 \<le> unat (byte_of_char c0)"
    using of_char_less_256 [of c0] by (simp add: byte_of_char_def unat_of_nat)
  have "drop (2 + length a) (encode_two a b inc) = enc_string b @ put_u64 inc"
    using drop_past [of 0 "encode_two a b inc" "enc_string a"] by (simp add: encode_two_eq)
  then have "take 4 (drop (2 + length a) (encode_two a b inc))
      = put_le 2 (length b) @ [byte_of_char c0, byte_of_char c1]"
    by (simp add: enc_string_def b StringToBytes_def)
  moreover have "get_le (put_le 2 (length b) @ [x, y]) \<ge> 65536 * unat x" for x y
    by (simp add: numeral_2_eq_2)
  ultimately have "65536 * unat (byte_of_char c0) \<le> get_u32 (drop (2 + length a) (encode_two a b inc))"
    by (simp add: get_u32_def)
  then show ?thesis using pos by linarith
qed

section \<open>Round trip of the sync operations\<close>

text \<open>
  What arrives of an operation: the key and version as sent; every kind but delete as a set; a nil and
  an empty value both as nil; the item's key field is the operation's key.
\<close>

definition wire_item :: "string \<Rightarrow> StoredItem \<Rightarrow> StoredItem" where
  "wire_item key item = \<lparr>Version = Version item, ExpireAt = ExpireAt item,
     Value = (if go_len (Value item) = 0 then None else Value item), Key = key\<rparr>"

definition wire_op :: "string \<Rightarrow> OpType \<Rightarrow> StoredItem \<Rightarrow> SyncOperation" where
  "wire_op key ot item = \<lparr>opKey = key, opType = (if ot = OpDelete then OpDelete else OpSet),
     opItem = Some (wire_item key item)\<rparr>"

definition item_ok :: "StoredItem \<Rightarrow> bool" where
  "item_ok item \<longleftrightarrow> go_len (Value item) < 2 ^ 31
     \<and> (IsZero (ExpireAt item) \<or> 0 < ExpireAt item \<and> ExpireAt item < 9223372036854775808)"

lemma put_le_2_bytes: "[of_nat (n AND 0xFF), of_nat (drop_bit 8 n)] = put_le 2 n"
proof -
  have "n AND 0xFF = n mod 256"
    using take_bit_eq_mask [of 8 n] by (simp add: take_bit_eq_mod mask_eq_exp_minus_1)
  moreover have "(of_nat (n mod 256) :: byte) = of_nat n" by (simp add: word_of_nat_eq_iff take_bit_eq_mod)
  moreover have "put_le 2 n = [of_nat n, of_nat (n div 256)]" by (simp only: numeral_2_eq_2 put_le.simps)
  ultimately show ?thesis by (simp add: drop_bit_eq_div)
qed

lemma encodeOp_eq:
  "encodeOpStreaming key ot item =
     put_le 2 (length key) @ StringToBytes key @ put_u64 (Version item) @ [if ot = OpDelete then 1 else 0]
     @ put_u64 (if IsZero (ExpireAt item) then 0 else UnixNano (ExpireAt item))
     @ put_le 4 (go_len (Value item)) @ go_bytes (Value item)"
  by (cases "Value item") (auto simp: encodeOpStreaming_def Let_def put_le_2_bytes [simplified])

lemma decodeOp_encodeOp:
  assumes "short key" "item_ok item"
  shows "decodeOp (encodeOpStreaming key ot item) = Some (wire_op key ot item)"
proof -
  let ?d = "encodeOpStreaming key ot item" and ?k = "length key" and ?n = "go_len (Value item)"
  let ?e = "if IsZero (ExpireAt item) then 0 else UnixNano (ExpireAt item)"
  let ?t = "[if ot = OpDelete then 1 else 0] :: byte list"
  note eq = encodeOp_eq [of key ot item]
  have d1: "drop 2 ?d = StringToBytes key @ (put_u64 (Version item) @ ?t @ put_u64 ?e @ put_le 4 ?n @ go_bytes (Value item))"
    using drop_past [of 0 ?d "put_le 2 ?k"] eq by simp
  have d2: "drop (2 + ?k) ?d = put_u64 (Version item) @ (?t @ put_u64 ?e @ put_le 4 ?n @ go_bytes (Value item))"
    using drop_past [OF d1] by simp
  have d3: "drop (2 + ?k + 8) ?d = ?t @ (put_u64 ?e @ put_le 4 ?n @ go_bytes (Value item))"
    using drop_past [OF d2] by simp
  have d4: "drop (2 + ?k + 8 + 1) ?d = put_u64 ?e @ (put_le 4 ?n @ go_bytes (Value item))"
    using drop_past [OF d3] by simp
  have d5: "drop (2 + ?k + 8 + 1 + 8) ?d = put_le 4 ?n @ go_bytes (Value item)"
    using drop_past [OF d4] by simp
  have d6: "drop (2 + ?k + 8 + 1 + 8 + 4) ?d = go_bytes (Value item)"
    using drop_past [OF d5] by simp
  have len: "length ?d = 2 + ?k + 8 + 1 + 8 + 4 + ?n" unfolding eq by (simp add: go_len_def)
  have k: "get_u16 ?d = ?k" unfolding eq using assms(1) by (simp add: short_def)
  have v: "get_u64 (drop (2 + ?k) ?d) = Version item" unfolding d2 by simp
  have t: "?d ! (2 + ?k + 8) = (if ot = OpDelete then 1 else 0)"
    using arg_cong [OF d3, of hd] len by (simp add: hd_drop_conv_nth)
  have e: "get_u64 (drop (2 + ?k + 8 + 1) ?d) = ?e" unfolding d4 by simp
  have n: "get_u32 (drop (2 + ?k + 8 + 1 + 8) ?d) = ?n" unfolding d5 using assms(2) by (simp add: item_ok_def)
  have ex: "(if sint ?e > 0 then time_Unix0 ?e else zero_time) = ExpireAt item"
    using assms(2) by (auto simp: item_ok_def IsZero_def UnixNano_def time_Unix0_def sint64_of_int)
  have val: "(if ?n > 0 then FastCloneBytes (Some (take ?n (go_bytes (Value item)))) else None)
      = (if ?n = 0 then None else Value item)"
    by (cases "Value item") simp_all
  have key: "BytesToString (take ?k (drop 2 ?d)) = key" unfolding d1 by simp
  show ?thesis
    unfolding decodeOp_def Let_def k key v t e n d6 ex val
    by (simp add: len wire_op_def wire_item_def OpType_of_def)
qed

text \<open>A framed operation, as \<open>Serialize\<close> writes it.\<close>

definition frame :: "SyncOperation \<Rightarrow> byte list" where
  "frame op = (case opItem op of None \<Rightarrow> []
     | Some item \<Rightarrow> (let b = encodeOpStreaming (opKey op) (opType op) item in put_le 4 (length b) @ b))"

definition op_ok :: "SyncOperation \<Rightarrow> bool" where
  "op_ok op \<longleftrightarrow> short (opKey op) \<and> (\<forall>item. opItem op = Some item \<longrightarrow> item_ok item)"

definition received :: "SyncOperation list \<Rightarrow> SyncOperation option list" where
  "received ops = [Some (wire_op (opKey op) (opType op) item). op \<leftarrow> ops, item \<leftarrow> (case opItem op of None \<Rightarrow> [] | Some it \<Rightarrow> [it])]"

lemma encodeOp_length: "short key \<Longrightarrow> item_ok item \<Longrightarrow> length (encodeOpStreaming key ot item) < 2 ^ 32"
  by (simp add: encodeOp_eq short_def item_ok_def go_len_def)

lemma Deserialize_loop_end: "drop off dat = [] \<Longrightarrow> Deserialize_loop n dat off = []"
  by (cases n) simp_all

lemma Deserialize_loop_ops:
  assumes "\<forall>op \<in> set ops. op_ok op" "drop off dat = Serialize_ops ops" "length ops \<le> n"
  shows "Deserialize_loop n dat off = received ops"
  using assms
proof (induction ops arbitrary: off n)
  case Nil
  then show ?case by (simp add: Deserialize_loop_end received_def)
next
  case (Cons op ops)
  show ?case
  proof (cases "opItem op")
    case None
    then have "Deserialize_loop n dat off = received ops" using Cons.prems by (intro Cons.IH) simp_all
    then show ?thesis using None by (simp add: received_def)
  next
    case (Some item)
    let ?b = "encodeOpStreaming (opKey op) (opType op) item"
    have ok: "short (opKey op)" "item_ok item" using Cons.prems(1) Some by (simp_all add: op_ok_def)
    have d0: "drop off dat = put_le 4 (length ?b) @ (?b @ Serialize_ops ops)"
      using Cons.prems(2) Some by (simp add: Let_def)
    have d1: "drop (off + 4) dat = ?b @ Serialize_ops ops" using drop_past [OF d0] by simp
    have d2: "drop (off + 4 + length ?b) dat = Serialize_ops ops" using drop_past [OF d1] by simp
    have len: "length dat = off + 4 + length ?b + length (Serialize_ops ops)" using drop_length [OF d0] by simp
    have u: "get_u32 (drop off dat) = length ?b" unfolding d0 using encodeOp_length [OF ok] by simp
    obtain m where m: "n = Suc m" using Cons.prems(3) by (cases n) auto
    have "Deserialize_loop m dat (off + 4 + length ?b) = received ops"
      using Cons.prems d2 m by (intro Cons.IH) simp_all
    then show ?thesis
      using Some u len d1 decodeOp_encodeOp [OF ok] by (simp add: m Let_def received_def)
  qed
qed

section \<open>Properties\<close>

lemma Deserialize_Serialize:
  assumes "ops \<noteq> []" "length ops < 2 ^ 32" "\<forall>op \<in> set ops. op_ok op"
  shows "Deserialize (go_bytes (Serialize ops)) = received ops"
proof -
  let ?d = "put_le 4 (length ops) @ Serialize_ops ops"
  have "drop 4 ?d = Serialize_ops ops" by simp
  then have "Deserialize_loop (length ops) ?d 4 = received ops"
    using assms(3) by (intro Deserialize_loop_ops) simp_all
  moreover have "get_u32 ?d = length ops" using assms(2) by simp
  ultimately show ?thesis using assms(1) by (simp add: Deserialize_def Serialize_def)
qed

text \<open>
  C30: sync operations survive the wire. Deserializing what \<open>Serialize\<close> wrote gives back, in order,
  every operation that carries an item, with its key, version, expiration and value. Operations
  without an item are not written, although they are counted: the reader stops at the end of the data.
\<close>

theorem sync_ops_roundtrip:
  assumes "ops \<noteq> []" "length ops < 2 ^ 32" "\<forall>op \<in> set ops. op_ok op"
  shows "Deserialize (go_bytes (Serialize ops)) = received ops"
  using assms by (rule Deserialize_Serialize)

theorem sync_ops_roundtrip_witness:
  "let op = \<lparr>opKey = ''k'', opType = OpSet,
             opItem = Some \<lparr>Version = 7, ExpireAt = zero_time, Value = Some [1, 2], Key = ''k''\<rparr>\<rparr>
   in Deserialize (go_bytes (Serialize [op, \<lparr>opKey = ''d'', opType = OpDelete, opItem = None\<rparr>])) = [Some op]"
proof -
  let ?op = "\<lparr>opKey = ''k'', opType = OpSet,
             opItem = Some \<lparr>Version = 7, ExpireAt = zero_time, Value = Some [1, 2], Key = ''k''\<rparr>\<rparr>"
  let ?ops = "[?op, \<lparr>opKey = ''d'', opType = OpDelete, opItem = None\<rparr>]"
  have "Deserialize (go_bytes (Serialize ?ops)) = received ?ops"
    by (rule sync_ops_roundtrip) (simp_all add: op_ok_def item_ok_def short_def IsZero_def)
  then show ?thesis by (simp add: Let_def received_def wire_op_def wire_item_def)
qed

text \<open>
  C39: membership messages survive the wire. A ping with a target, a connect with a node id, a leave and a cluster sync
  are decoded to the message that was encoded, for node ids and addresses below 64 KB, addresses that are valid
  (at least three characters, not starting with NUL) and at most 1000 members without a suspicion time, which the
  encoding leaves out, and with an activity time that 64 bits hold; a sync without members needs an id of at least four
  characters. In particular the decoder never mistakes such a connect for a cluster sync or the other way round.
\<close>

theorem member_msg_roundtrip:
  assumes "short a" "short b"
  shows "(b \<noteq> '''' \<longrightarrow> DecodeMemberMsg (go_bytes (EncodeMemberMsg (PingMsg a b inc))) 1 = Some (PingMsg a b inc))
    \<and> (a \<noteq> '''' \<and> \<not> bad_address b \<longrightarrow>
         DecodeMemberMsg (go_bytes (EncodeMemberMsg (ConnectMsg a b inc))) 2 = Some (ConnectMsg a b inc))
    \<and> DecodeMemberMsg (go_bytes (EncodeMemberMsg (LeaveMsg a inc))) 3 = Some (LeaveMsg a inc)
    \<and> (length members \<le> 1000 \<and> (members \<noteq> [] \<or> 4 \<le> length a) \<and> (\<forall>m \<in> set members. info_ok m) \<longrightarrow>
         DecodeMemberMsg (go_bytes (EncodeMemberMsg (ClusterSyncMsg a members))) 2 = Some (ClusterSyncMsg a members))"
proof (intro conjI impI)
  assume "b \<noteq> ''''"
  then show "DecodeMemberMsg (go_bytes (EncodeMemberMsg (PingMsg a b inc))) 1 = Some (PingMsg a b inc)"
    using assms by (simp add: EncodeMemberMsg_def DecodeMemberMsg_def encodePingMsg_def decodePingMsg_def
        decode_two_enc)
next
  assume ab: "a \<noteq> '''' \<and> \<not> bad_address b"
  then have "b \<noteq> ''''" by (auto simp: bad_address_def)
  with ab assms show "DecodeMemberMsg (go_bytes (EncodeMemberMsg (ConnectMsg a b inc))) 2 = Some (ConnectMsg a b inc)"
    using connect_not_sync [OF assms, of inc]
    by (simp add: EncodeMemberMsg_def DecodeMemberMsg_def encodeConnectMsg_def decodeConnectMsg_def
        decode_two_strings Let_def)
next
  show "DecodeMemberMsg (go_bytes (EncodeMemberMsg (LeaveMsg a inc))) 3 = Some (LeaveMsg a inc)"
    using decodeLeaveMsg_enc [OF assms(1), of inc]
    by (simp add: EncodeMemberMsg_def DecodeMemberMsg_def)
next
  assume m: "length members \<le> 1000 \<and> (members \<noteq> [] \<or> 4 \<le> length a) \<and> (\<forall>m \<in> set members. info_ok m)"
  then have "10 \<le> length (encodeClusterSyncMsg a members)"
    using decodeClusterSyncMsg_enc(4,5) [OF assms(1), of members] by auto
  with m show "DecodeMemberMsg (go_bytes (EncodeMemberMsg (ClusterSyncMsg a members))) 2 = Some (ClusterSyncMsg a members)"
    using decodeClusterSyncMsg_enc [OF assms(1), of members]
    by (auto simp: EncodeMemberMsg_def DecodeMemberMsg_def Let_def)
qed

theorem member_msg_roundtrip_witness:
  "let m = \<lparr>NodeID = ''n2'', Address = ''10.0.0.2:80'', State = NodeStateAlive, Incarnation = 4,
            LastActive = 1000, SuspectSince = zero_time\<rparr>
   in DecodeMemberMsg (go_bytes (EncodeMemberMsg (ConnectMsg ''n1'' ''10.0.0.1:80'' 3))) 2
        = Some (ConnectMsg ''n1'' ''10.0.0.1:80'' 3)
      \<and> DecodeMemberMsg (go_bytes (EncodeMemberMsg (ClusterSyncMsg ''n1'' [m]))) 2 = Some (ClusterSyncMsg ''n1'' [m])"
proof -
  let ?m = "\<lparr>NodeID = ''n2'', Address = ''10.0.0.2:80'', State = NodeStateAlive, Incarnation = 4,
            LastActive = 1000, SuspectSince = zero_time\<rparr>"
  have "short ''n1''" "short ''10.0.0.1:80''" by (simp_all add: short_def)
  from member_msg_roundtrip [OF this, where members = "[?m]" and inc = 3] show ?thesis
    by (simp add: Let_def bad_address_def info_ok_def short_def)
qed

text \<open>
  Acknowledgements are read as pings. The encodings of a ping, an acknowledgement and an indirect
  probe are the same bytes, and the decoder tries a ping first: whatever the two strings are (the second
  not empty), an encoded \<open>AckMsg\<close> and an encoded \<open>IndirectProbeMsg\<close> arrive as a \<open>PingMsg\<close>.
\<close>

theorem ack_decodes_as_ping:
  assumes "short a" "short b" "b \<noteq> ''''"
  shows "DecodeMemberMsg (go_bytes (EncodeMemberMsg (AckMsg a b inc))) 1 = Some (PingMsg a b inc)
    \<and> DecodeMemberMsg (go_bytes (EncodeMemberMsg (IndirectProbeMsg a b inc))) 1 = Some (PingMsg a b inc)"
  using assms by (simp add: EncodeMemberMsg_def DecodeMemberMsg_def encodeAckMsg_def
      encodeIndirectProbeMsg_def decodePingMsg_def decode_two_enc)

theorem ack_decodes_as_ping_witness:
  "DecodeMemberMsg (go_bytes (EncodeMemberMsg (AckMsg ''n1'' ''n2'' 5))) 1 = Some (PingMsg ''n1'' ''n2'' 5)"
  using ack_decodes_as_ping [of "''n1''" "''n2''" 5] by (simp add: short_def)

end
