(* ===== verification/Member.thy ===== *)
theory Member
  imports Codec Lww
begin

text \<open>
  \<open>internal/cluster/member.go\<close>: the SWIM membership manager of one node.

  \<^item> \<open>memberMgr\<close> keeps the member table (a \<open>sync.Map\<close>, here an association list from node id to
    \<open>NodeInfo\<close>) and the table of indirect probes. Whether \<open>sendFunc\<close> and \<open>onMembershipChange\<close> are
    set are the flags \<open>hasSend\<close> and \<open>hasCallback\<close>. The scheduler is never nil: \<open>newMemberMgr\<close>
    creates it.
  \<^item> An operation returns the new manager and its effects in order: the messages handed to
    \<open>sendFunc\<close>, the calls of \<open>onMembershipChange\<close> with the member list the callback reads, and the
    timers handed to the scheduler. Whether a send succeeds is the environment's: the argument
    \<open>net\<close>.
  \<^item> A ping cycle reads the clock several times; here the readings of one cycle are one argument \<open>now\<close>.
  \<^item> \<open>updateLastActive\<close> writes through the stored pointer; as the table holds the only reference,
    that is an update of the table.

  The properties: an invariant of every reachable manager, incarnations never go back, the ping cycle
  refines a per-node failure detector, silent nodes are declared dead, and membership updates are a
  last-write-wins replica (an instance of \<open>lww_replica\<close>).
\<close>

section \<open>State and effects\<close>

record memberMgr =
  nodeID :: string
  address :: string
  incarnation :: int64
  members :: "(string \<times> NodeInfo) list"
  pingInterval :: duration
  failureTimeout :: duration
  suspectTimeout :: duration
  hasSend :: bool
  hasCallback :: bool
  indirectProbes :: "(string \<times> string) list"

record memberConfig =
  cfgNodeID :: string
  cfgAddress :: string
  cfgPingInterval :: duration
  cfgFailureTimeout :: duration
  cfgSuspectTimeout :: duration
  cfgHasSend :: bool
  cfgHasCallback :: bool

datatype member_effect =
  SendTo string member_msg
| MembershipChange "NodeInfo list"
| Schedule duration string

definition newMemberMgr :: "gotime \<Rightarrow> memberConfig \<Rightarrow> memberMgr" where
  "newMemberMgr now cfg =
     \<lparr>nodeID = cfgNodeID cfg, address = cfgAddress cfg, incarnation = 0,
      members = [(cfgNodeID cfg,
        \<lparr>NodeID = cfgNodeID cfg, Address = cfgAddress cfg, State = NodeStateAlive, Incarnation = 0,
         LastActive = now, SuspectSince = zero_time\<rparr>)],
      pingInterval = (if cfgPingInterval cfg \<le> 0 then 250000000 else cfgPingInterval cfg),
      failureTimeout = (if cfgFailureTimeout cfg \<le> 0 then 12 * time_Second else cfgFailureTimeout cfg),
      suspectTimeout = (if cfgSuspectTimeout cfg \<le> 0 then 8 * time_Second else cfgSuspectTimeout cfg),
      hasSend = cfgHasSend cfg, hasCallback = cfgHasCallback cfg, indirectProbes = []\<rparr>"

definition Start :: "gotime \<Rightarrow> memberMgr \<Rightarrow> memberMgr" where
  "Start now m = m\<lparr>incarnation := UnixNano now\<rparr>"

definition Members :: "memberMgr \<Rightarrow> NodeInfo list" where
  "Members m = map snd (members m)"

definition State_of :: "string \<Rightarrow> memberMgr \<Rightarrow> NodeState" where
  "State_of n m = (case map_of (members m) n of None \<Rightarrow> NodeStateUnknown | Some info \<Rightarrow> State info)"

definition store_member :: "string \<Rightarrow> NodeInfo \<Rightarrow> memberMgr \<Rightarrow> memberMgr" where
  "store_member n info m = m\<lparr>members := AList.update n info (members m)\<rparr>"

definition changed :: "memberMgr \<Rightarrow> member_effect list" where
  "changed m = (if hasCallback m then [MembershipChange (Members m)] else [])"

definition send :: "memberMgr \<Rightarrow> string \<Rightarrow> member_msg \<Rightarrow> member_effect list" where
  "send m addr msg = (if hasSend m then [SendTo addr msg] else [])"

section \<open>Changing one entry\<close>

definition markSuspect :: "string \<Rightarrow> memberMgr \<Rightarrow> memberMgr \<times> member_effect list" where
  "markSuspect n m =
     (case map_of (members m) n of
        None \<Rightarrow> (m, [])
      | Some info \<Rightarrow>
          if State info = NodeStateSuspect then (m, [])
          else
            (let m' = store_member n
                        \<lparr>NodeID = NodeID info, Address = Address info, State = NodeStateSuspect,
                         Incarnation = Incarnation info, LastActive = LastActive info,
                         SuspectSince = zero_time\<rparr> m
             in (m', changed m' @ [Schedule (suspectTimeout m) n])))"

definition markDead :: "string \<Rightarrow> memberMgr \<Rightarrow> memberMgr \<times> member_effect list" where
  "markDead n m =
     (case map_of (members m) n of
        None \<Rightarrow> (m, [])
      | Some info \<Rightarrow>
          if State info = NodeStateDead then (m, [])
          else
            (let m' = store_member n
                        \<lparr>NodeID = NodeID info, Address = Address info, State = NodeStateDead,
                         Incarnation = Incarnation info, LastActive = LastActive info,
                         SuspectSince = zero_time\<rparr> m
             in (m', changed m')))"

text \<open>The function \<open>markSuspect\<close> hands to the scheduler.\<close>

definition suspectExpired :: "gotime \<Rightarrow> string \<Rightarrow> memberMgr \<Rightarrow> memberMgr \<times> member_effect list" where
  "suspectExpired now n m =
     (case map_of (members m) n of
        None \<Rightarrow> (m, [])
      | Some info \<Rightarrow>
          if State info = NodeStateSuspect \<and> now - LastActive info > suspectTimeout m
          then markDead n m else (m, []))"

definition updateLastActive :: "gotime \<Rightarrow> string \<Rightarrow> memberMgr \<Rightarrow> memberMgr" where
  "updateLastActive now n m =
     (if n = '''' then m
      else case map_of (members m) n of
        None \<Rightarrow> m
      | Some info \<Rightarrow>
          if State info \<noteq> NodeStateAlive then m
          else if now - LastActive info < time_Second then m
          else store_member n (info\<lparr>LastActive := now\<rparr>) m)"

definition updateNode ::
  "gotime \<Rightarrow> string \<Rightarrow> string \<Rightarrow> int64 \<Rightarrow> NodeState \<Rightarrow> memberMgr \<Rightarrow> memberMgr \<times> member_effect list" where
  "updateNode now n addr inc st m =
     (if addr = '''' then (m, [])
      else
        (let newInfo = \<lparr>NodeID = n, Address = addr, State = st, Incarnation = inc, LastActive = now,
                        SuspectSince = zero_time\<rparr>;
             m' = store_member n newInfo m
         in case map_of (members m) n of
              None \<Rightarrow> (m', changed m')
            | Some info \<Rightarrow>
                if sint inc < sint (Incarnation info) then (m, [])
                else if State info = st \<and> Address info = addr \<and> Incarnation info = inc
                then (if now - LastActive info > time_Second then m' else m, [])
                else (m', changed m')))"

section \<open>Indirect probes\<close>

text \<open>
  \<open>for _, c := range targetID\<close> decodes UTF-8; a byte that starts no valid sequence yields the
  replacement character U+FFFD and advances by one.
\<close>

definition cont_byte :: "nat \<Rightarrow> bool" where
  "cont_byte b \<longleftrightarrow> 0x80 \<le> b \<and> b \<le> 0xBF"

fun runes_from :: "nat \<Rightarrow> nat list \<Rightarrow> nat list" where
  "runes_from 0 bs = []"
| "runes_from (Suc k) [] = []"
| "runes_from (Suc k) (b # bs) =
     (if b < 0x80 then b # runes_from k bs
      else if 0xC2 \<le> b \<and> b \<le> 0xDF \<and> length bs \<ge> 1 \<and> cont_byte (bs ! 0)
      then ((b - 0xC0) * 64 + (bs ! 0 - 0x80)) # runes_from k (drop 1 bs)
      else if 0xE0 \<le> b \<and> b \<le> 0xEF \<and> length bs \<ge> 2
        \<and> (if b = 0xE0 then 0xA0 else 0x80) \<le> bs ! 0 \<and> bs ! 0 \<le> (if b = 0xED then 0x9F else 0xBF)
        \<and> cont_byte (bs ! 1)
      then ((b - 0xE0) * 4096 + (bs ! 0 - 0x80) * 64 + (bs ! 1 - 0x80)) # runes_from k (drop 2 bs)
      else if 0xF0 \<le> b \<and> b \<le> 0xF4 \<and> length bs \<ge> 3
        \<and> (if b = 0xF0 then 0x90 else 0x80) \<le> bs ! 0 \<and> bs ! 0 \<le> (if b = 0xF4 then 0x8F else 0xBF)
        \<and> cont_byte (bs ! 1) \<and> cont_byte (bs ! 2)
      then ((b - 0xF0) * 262144 + (bs ! 0 - 0x80) * 4096 + (bs ! 1 - 0x80) * 64 + (bs ! 2 - 0x80))
           # runes_from k (drop 3 bs)
      else 0xFFFD # runes_from k bs)"

definition runes :: "string \<Rightarrow> nat list" where
  "runes s = runes_from (length s) (map of_char s)"

text \<open>The hash of \<open>tryIndirectProbe\<close>: a 64-bit \<open>int\<close> that wraps; \<open>-hash\<close> of the least int is itself.\<close>

definition probe_hash :: "string \<Rightarrow> int64" where
  "probe_hash targetID =
     (let hash = fold (\<lambda>c hash. hash * 31 + of_nat c) (runes targetID) 0
      in if sint hash < 0 then - hash else hash)"

definition aliveMembers :: "string \<Rightarrow> memberMgr \<Rightarrow> string list" where
  "aliveMembers targetID m =
     [n. (n, info) \<leftarrow> members m, n \<noteq> nodeID m \<and> n \<noteq> targetID \<and> State info = NodeStateAlive]"

text \<open>\<open>None\<close> is the panic of an index out of range.\<close>

definition tryIndirectProbe :: "string \<Rightarrow> memberMgr \<Rightarrow> member_effect list option" where
  "tryIndirectProbe targetID m =
     (let alive = aliveMembers targetID m in
      if alive = [] then Some []
      else
        (let idx = sint (probe_hash targetID) smod int (length alive) in
         if idx < 0 then None
         else
           (let proxyID = alive ! nat idx in
            Some (if \<not> hasSend m then []
                  else case map_of (members m) proxyID of
                    None \<Rightarrow> []
                  | Some info \<Rightarrow>
                      if Address info \<noteq> ''''
                      then send m (Address info) (IndirectProbeMsg (nodeID m) targetID (incarnation m))
                      else []))))"

section \<open>The ping cycle\<close>

text \<open>
  One visit of \<open>doPing\<close>. \<open>net addr msg\<close> says whether the send succeeds; \<open>None\<close> is a panic.
\<close>

definition ping_node ::
  "(string \<Rightarrow> member_msg \<Rightarrow> bool) \<Rightarrow> gotime \<Rightarrow> string \<Rightarrow> memberMgr \<Rightarrow> (memberMgr \<times> member_effect list) option"
where
  "ping_node net now n m =
     (case map_of (members m) n of
        None \<Rightarrow> Some (m, [])
      | Some info \<Rightarrow>
          if n = nodeID m then Some (m, [])
          else if State info = NodeStateDead then Some (m, [])
          else if now - LastActive info > failureTimeout m
          then Some (if State info = NodeStateSuspect then markDead n m else markSuspect n m)
          else if State info = NodeStateSuspect
          then map_option (\<lambda>es. (m, es)) (tryIndirectProbe n m)
          else if hasSend m
          then (let msg = PingMsg (nodeID m) n (incarnation m)
                in Some (if net (Address info) msg then updateLastActive now n m else m,
                         [SendTo (Address info) msg]))
          else Some (m, []))"

text \<open>
  \<open>doPing\<close>: \<open>Range\<close> visits each key of the table once and reads its value then. A panic ends the
  cycle (the executor recovers it); the flag says that the cycle was completed.
\<close>

fun ping_nodes ::
  "(string \<Rightarrow> member_msg \<Rightarrow> bool) \<Rightarrow> gotime \<Rightarrow> string list \<Rightarrow> memberMgr \<Rightarrow> memberMgr \<times> member_effect list \<times> bool"
where
  "ping_nodes net now [] m = (m, [], True)"
| "ping_nodes net now (n # ns) m =
     (case ping_node net now n m of
        None \<Rightarrow> (m, [], False)
      | Some (m1, es) \<Rightarrow>
          (case ping_nodes net now ns m1 of (m2, es2, ok) \<Rightarrow> (m2, es @ es2, ok)))"

definition doPing ::
  "(string \<Rightarrow> member_msg \<Rightarrow> bool) \<Rightarrow> gotime \<Rightarrow> memberMgr \<Rightarrow> memberMgr \<times> member_effect list \<times> bool" where
  "doPing net now m = ping_nodes net now (map fst (members m)) m"

section \<open>Message handlers\<close>

definition handlePing :: "gotime \<Rightarrow> string \<Rightarrow> int64 \<Rightarrow> memberMgr \<Rightarrow> memberMgr \<times> member_effect list" where
  "handlePing now from inc m =
     (let addr = (case map_of (members m) from of None \<Rightarrow> '''' | Some info \<Rightarrow> Address info);
          (m1, es) = (if addr \<noteq> '''' then updateNode now from addr inc NodeStateAlive m else (m, []))
      in (m1, es @ (if addr \<noteq> '''' then send m1 addr (AckMsg (nodeID m1) from (incarnation m1)) else [])))"

definition handleAck :: "gotime \<Rightarrow> string \<Rightarrow> int64 \<Rightarrow> memberMgr \<Rightarrow> memberMgr \<times> member_effect list" where
  "handleAck now from inc m =
     (let (m1, es) = (case map_of (members m) from of
                        None \<Rightarrow> (m, [])
                      | Some info \<Rightarrow>
                          if Address info \<noteq> '''' then updateNode now from (Address info) inc NodeStateAlive m
                          else (m, []))
      in case map_of (indirectProbes m1) from of
           None \<Rightarrow> (m1, es)
         | Some originalSender \<Rightarrow>
             (let m2 = m1\<lparr>indirectProbes := AList.delete from (indirectProbes m1)\<rparr> in
              (m2, es @ (case map_of (members m2) originalSender of
                           None \<Rightarrow> []
                         | Some info \<Rightarrow>
                             if Address info \<noteq> ''''
                             then send m2 (Address info) (IndirectAckMsg (nodeID m2) originalSender from inc)
                             else []))))"

definition handleConnect :: "gotime \<Rightarrow> string \<Rightarrow> string \<Rightarrow> int64 \<Rightarrow> memberMgr \<Rightarrow> memberMgr \<times> member_effect list" where
  "handleConnect now n addr inc m =
     (if addr = '''' \<or> length addr < 3 then (m, [])
      else
        (let (m1, es) = updateNode now n addr inc NodeStateAlive m
         in (m1, es @ send m1 addr (ClusterSyncMsg (nodeID m1) (Members m1)))))"

definition handleLeave :: "gotime \<Rightarrow> string \<Rightarrow> int64 \<Rightarrow> memberMgr \<Rightarrow> memberMgr \<times> member_effect list" where
  "handleLeave now n inc m = updateNode now n '''' inc NodeStateDead m"

definition handleIndirectProbe ::
  "string \<Rightarrow> string \<Rightarrow> int64 \<Rightarrow> memberMgr \<Rightarrow> memberMgr \<times> member_effect list" where
  "handleIndirectProbe from target inc m =
     (if hasSend m
      then (case map_of (members m) target of
              None \<Rightarrow> (m, [])
            | Some info \<Rightarrow>
                if Address info \<noteq> ''''
                then (m\<lparr>indirectProbes := AList.update target from (indirectProbes m)\<rparr>,
                      [SendTo (Address info) (PingMsg (nodeID m) target inc)])
                else (m, []))
      else (m, []))"

definition handleIndirectAck ::
  "gotime \<Rightarrow> string \<Rightarrow> string \<Rightarrow> int64 \<Rightarrow> memberMgr \<Rightarrow> memberMgr \<times> member_effect list" where
  "handleIndirectAck now to target inc m =
     (if hasSend m
      then
        (let (m1, es) = (case map_of (members m) target of
                           None \<Rightarrow> (m, [])
                         | Some info \<Rightarrow>
                             if Address info \<noteq> ''''
                             then updateNode now target (Address info) inc NodeStateAlive m else (m, []))
         in (m1, es @ (case map_of (members m1) to of
                         None \<Rightarrow> []
                       | Some info \<Rightarrow>
                           if Address info \<noteq> ''''
                           then [SendTo (Address info) (AckMsg target to inc)] else [])))
      else (m, []))"

text \<open>The loop of \<open>handleClusterSync\<close>.\<close>

fun sync_members :: "gotime \<Rightarrow> NodeInfo list \<Rightarrow> memberMgr \<Rightarrow> memberMgr \<times> member_effect list" where
  "sync_members now [] m = (m, [])"
| "sync_members now (mem # mems) m =
     (if NodeID mem \<noteq> nodeID m \<and> \<not> bad_address (Address mem)
      then (case updateNode now (NodeID mem) (Address mem) (Incarnation mem) (State mem) m of
              (m1, es) \<Rightarrow> (case sync_members now mems m1 of (m2, es2) \<Rightarrow> (m2, es @ es2)))
      else sync_members now mems m)"

definition handleClusterSync :: "gotime \<Rightarrow> NodeInfo list \<Rightarrow> memberMgr \<Rightarrow> memberMgr \<times> member_effect list" where
  "handleClusterSync now mems m = sync_members now mems m"

fun HandleMessage :: "gotime \<Rightarrow> member_msg \<Rightarrow> memberMgr \<Rightarrow> memberMgr \<times> member_effect list" where
  "HandleMessage now (PingMsg from to inc) m = handlePing now from inc m"
| "HandleMessage now (AckMsg from to inc) m = handleAck now from inc m"
| "HandleMessage now (ConnectMsg n addr inc) m = handleConnect now n addr inc m"
| "HandleMessage now (LeaveMsg n inc) m = handleLeave now n inc m"
| "HandleMessage now (IndirectProbeMsg from target inc) m = handleIndirectProbe from target inc m"
| "HandleMessage now (IndirectAckMsg from to target inc) m = handleIndirectAck now to target inc m"
| "HandleMessage now (ClusterSyncMsg from mems) m = handleClusterSync now mems m"

section \<open>Joining and leaving\<close>

text \<open>
  \<open>Join\<close>: \<open>ok i\<close> says whether the send to the \<open>i\<close>-th seed succeeds. The result is \<open>Inl\<close> when
  \<open>sendFunc\<close> is missing or when some send failed and none succeeded.
\<close>

datatype join_err = ErrNoSendFunc | ErrAllSeedsFailed

definition Join :: "(nat \<Rightarrow> bool) \<Rightarrow> string list \<Rightarrow> memberMgr \<Rightarrow> member_effect list \<times> (join_err + unit)" where
  "Join ok seed m =
     (if length seed = 0 then ([], Inr ())
      else if \<not> hasSend m then ([], Inl ErrNoSendFunc)
      else
        (let tried = (if address m = '''' \<or> length (address m) < 3 then [] else [0..<length seed]);
             successCount = length (filter ok tried);
             lastErr = (\<exists>i \<in> set tried. \<not> ok i)
         in (map (\<lambda>i. SendTo (seed ! i) (ConnectMsg (nodeID m) (address m) (incarnation m))) tried,
             if successCount = 0 \<and> lastErr then Inl ErrAllSeedsFailed else Inr ())))"

definition Leave :: "memberMgr \<Rightarrow> memberMgr \<times> member_effect list" where
  "Leave m =
     (let (m1, es) = markDead (nodeID m) (m\<lparr>incarnation := incarnation m + 1\<rparr>)
      in (m1, es @ concat [send m1 (Address info) (LeaveMsg (nodeID m1) (incarnation m1)).
               info \<leftarrow> Members m1, NodeID info \<noteq> nodeID m1 \<and> State info = NodeStateAlive]))"

section \<open>Executions\<close>

datatype member_event =
  EvStart gotime
| EvTick "string \<Rightarrow> member_msg \<Rightarrow> bool" gotime
| EvReceive gotime member_msg
| EvTimer gotime string
| EvLeave

fun member_step :: "member_event \<Rightarrow> memberMgr \<Rightarrow> memberMgr \<times> member_effect list" where
  "member_step (EvStart now) m = (Start now m, [])"
| "member_step (EvTick net now) m = (case doPing net now m of (m', es, ok) \<Rightarrow> (m', es))"
| "member_step (EvReceive now msg) m = HandleMessage now msg m"
| "member_step (EvTimer now n) m = suspectExpired now n m"
| "member_step EvLeave m = Leave m"

primrec member_exec :: "member_event list \<Rightarrow> memberMgr \<Rightarrow> memberMgr \<times> member_effect list" where
  "member_exec [] m = (m, [])"
| "member_exec (e # evs) m =
     (case member_step e m of (m1, es) \<Rightarrow> (case member_exec evs m1 of (m2, es2) \<Rightarrow> (m2, es @ es2)))"

section \<open>What every operation keeps\<close>

text \<open>
  Every operation changes the table by elementary updates: an entry changes state or activity time
  (\<open>touch\<close>), an entry is replaced by one that is not older (\<open>put\<close>), or only the fields beside the
  table change (\<open>frame\<close>). \<open>lv\<close> says whether this node may have left.
\<close>

definition self_ok :: "bool \<Rightarrow> NodeState \<Rightarrow> bool" where
  "self_ok lv st \<longleftrightarrow> st = NodeStateAlive \<or> (lv \<and> st = NodeStateDead)"

inductive table_step :: "bool \<Rightarrow> memberMgr \<Rightarrow> memberMgr \<Rightarrow> bool" for lv :: bool where
  touch: "map_of (members m) n = Some old \<Longrightarrow> NodeID info = NodeID old \<Longrightarrow> Address info = Address old
    \<Longrightarrow> Incarnation info = Incarnation old \<Longrightarrow> (n = nodeID m \<Longrightarrow> self_ok lv (State info))
    \<Longrightarrow> table_step lv m (store_member n info m)"
| put: "NodeID info = n \<Longrightarrow> Address info \<noteq> ''''
    \<Longrightarrow> (\<And>old. map_of (members m) n = Some old \<Longrightarrow> sint (Incarnation old) \<le> sint (Incarnation info))
    \<Longrightarrow> (n = nodeID m \<Longrightarrow> self_ok lv (State info)) \<Longrightarrow> table_step lv m (store_member n info m)"
| frame: "table_step lv m (m\<lparr>incarnation := i, indirectProbes := p\<rparr>)"

abbreviation table_steps :: "bool \<Rightarrow> memberMgr \<Rightarrow> memberMgr \<Rightarrow> bool" where
  "table_steps lv \<equiv> (table_step lv)\<^sup>*\<^sup>*"

definition mgr_inv :: "bool \<Rightarrow> memberMgr \<Rightarrow> bool" where
  "mgr_inv lv m \<longleftrightarrow>
     distinct (map fst (members m)) \<and> nodeID m \<in> fst ` set (members m)
     \<and> (\<forall>n info. map_of (members m) n = Some info \<longrightarrow>
          NodeID info = n \<and> (n = nodeID m \<or> Address info \<noteq> '''') \<and> (n = nodeID m \<longrightarrow> self_ok lv (State info)))
     \<and> 0 < pingInterval m \<and> 0 < failureTimeout m \<and> 0 < suspectTimeout m"

definition same_settings :: "memberMgr \<Rightarrow> memberMgr \<Rightarrow> bool" where
  "same_settings m m' \<longleftrightarrow> nodeID m' = nodeID m \<and> address m' = address m \<and> pingInterval m' = pingInterval m
     \<and> failureTimeout m' = failureTimeout m \<and> suspectTimeout m' = suspectTimeout m
     \<and> hasSend m' = hasSend m \<and> hasCallback m' = hasCallback m"

definition not_older :: "memberMgr \<Rightarrow> memberMgr \<Rightarrow> bool" where
  "not_older m m' \<longleftrightarrow> (\<forall>n info. map_of (members m) n = Some info \<longrightarrow>
     (\<exists>info'. map_of (members m') n = Some info' \<and> sint (Incarnation info) \<le> sint (Incarnation info')))"

lemma store_member_simps [simp]:
  "members (store_member n info m) = AList.update n info (members m)"
  "nodeID (store_member n info m) = nodeID m" "address (store_member n info m) = address m"
  "incarnation (store_member n info m) = incarnation m"
  "pingInterval (store_member n info m) = pingInterval m"
  "failureTimeout (store_member n info m) = failureTimeout m"
  "suspectTimeout (store_member n info m) = suspectTimeout m"
  "hasSend (store_member n info m) = hasSend m" "hasCallback (store_member n info m) = hasCallback m"
  "indirectProbes (store_member n info m) = indirectProbes m"
  by (simp_all add: store_member_def)

lemma table_step_settings: "table_step lv m m' \<Longrightarrow> same_settings m m'"
  by (erule table_step.cases) (simp_all add: same_settings_def)

lemma table_step_inv: "table_step lv m m' \<Longrightarrow> mgr_inv lv m \<Longrightarrow> mgr_inv lv m'"
  by (erule table_step.cases) (auto simp: mgr_inv_def)

lemma table_step_not_older: "table_step lv m m' \<Longrightarrow> not_older m m'"
  by (erule table_step.cases) (auto simp: not_older_def)

lemma not_older_trans: "not_older a b \<Longrightarrow> not_older b c \<Longrightarrow> not_older a c"
  unfolding not_older_def by (meson order_trans)

lemma table_steps_keep:
  assumes "table_steps lv m m'"
  shows "same_settings m m' \<and> not_older m m' \<and> (mgr_inv lv m \<longrightarrow> mgr_inv lv m')"
  using assms
proof (induction rule: rtranclp_induct)
  case base
  then show ?case by (simp add: same_settings_def not_older_def)
next
  case (step y z)
  then show ?case
    using table_step_settings [OF step(2)] table_step_inv [OF step(2)]
      not_older_trans [OF _ table_step_not_older [OF step(2)]]
    by (auto simp: same_settings_def)
qed

lemma table_steps_mono:
  assumes "table_steps lv m m'"
  shows "table_steps (lv \<or> lw) m m'"
proof -
  have "table_step (lv \<or> lw) a b" if "table_step lv a b" for a b
    using that by (cases rule: table_step.cases) (auto simp: self_ok_def intro: table_step.intros)
  then show ?thesis using assms by (metis mono_rtranclp)
qed

lemma table_steps_frame: "table_steps lv m (m\<lparr>indirectProbes := p\<rparr>)" "table_steps lv m (m\<lparr>incarnation := i\<rparr>)"
  using table_step.frame [of lv m p "incarnation m"] table_step.frame [of lv m "indirectProbes m" i] by auto

lemma mgr_invD:
  "mgr_inv lv m \<Longrightarrow> map_of (members m) n = Some info \<Longrightarrow> NodeID info = n"
  "mgr_inv lv m \<Longrightarrow> map_of (members m) (nodeID m) = Some info \<Longrightarrow> self_ok lv (State info)"
  "mgr_inv lv m \<Longrightarrow> map_of (members m) n = Some info \<Longrightarrow> n \<noteq> nodeID m \<Longrightarrow> Address info \<noteq> ''''"
  unfolding mgr_inv_def by blast+

lemma node_states [simp]:
  "NodeStateAlive \<noteq> NodeStateSuspect" "NodeStateAlive \<noteq> NodeStateDead" "NodeStateSuspect \<noteq> NodeStateDead"
  "NodeStateSuspect \<noteq> NodeStateAlive" "NodeStateDead \<noteq> NodeStateAlive" "NodeStateDead \<noteq> NodeStateSuspect"
  by (simp_all add: NodeStateAlive_def NodeStateSuspect_def NodeStateDead_def)

section \<open>The operations as table steps\<close>

lemma markSuspect_steps:
  assumes "n \<noteq> nodeID m"
  shows "table_steps lv m (fst (markSuspect n m))"
  using assms by (auto simp: markSuspect_def Let_def split: option.splits intro!: table_step.touch)

lemma markDead_steps:
  assumes "n = nodeID m \<Longrightarrow> lv"
  shows "table_steps lv m (fst (markDead n m))"
  using assms
  by (auto simp: markDead_def Let_def self_ok_def split: option.splits intro!: r_into_rtranclp table_step.touch)

lemma suspectExpired_steps:
  assumes "mgr_inv lv m"
  shows "table_steps lv m (fst (suspectExpired now n m))"
proof (cases "n = nodeID m")
  case True
  then have "suspectExpired now n m = (m, [])"
    using mgr_invD(2) [OF assms] by (auto simp: suspectExpired_def self_ok_def split: option.splits)
  then show ?thesis by simp
next
  case False
  then show ?thesis
    using markDead_steps [of n m lv] by (auto simp: suspectExpired_def split: option.splits)
qed

lemma updateLastActive_steps: "mgr_inv lv m \<Longrightarrow> table_steps lv m (updateLastActive now n m)"
  by (auto simp: updateLastActive_def self_ok_def split: option.splits
      intro!: r_into_rtranclp table_step.touch)

lemma updateNode_steps:
  assumes "n = nodeID m \<Longrightarrow> self_ok lv st"
  shows "table_steps lv m (fst (updateNode now n addr inc st m))"
  using assms
  by (auto simp: updateNode_def Let_def split: option.splits intro!: r_into_rtranclp table_step.put)

lemma updateNode_alive_steps:
  "updateNode now n addr inc NodeStateAlive m = (m', es) \<Longrightarrow> table_steps lv m m'"
  using updateNode_steps [of n m lv NodeStateAlive now addr inc] by (simp add: self_ok_def)

lemma ping_node_steps:
  assumes "mgr_inv lv m" "ping_node net now n m = Some (m', es)"
  shows "table_steps lv m m'"
  using assms(2) markDead_steps [of n m lv] markSuspect_steps [of n m lv] updateLastActive_steps [OF assms(1)]
  by (auto simp: ping_node_def Let_def split: option.splits if_splits)

lemma ping_nodes_steps:
  assumes "mgr_inv lv m" "ping_nodes net now ns m = (m', es, ok)"
  shows "table_steps lv m m'"
  using assms
proof (induction ns arbitrary: m es)
  case (Cons n ns)
  show ?case
  proof (cases "ping_node net now n m")
    case None
    then show ?thesis using Cons.prems by simp
  next
    case (Some r)
    then obtain m1 es1 es2 where r: "ping_node net now n m = Some (m1, es1)" "ping_nodes net now ns m1 = (m', es2, ok)"
      using Cons.prems(2) by (cases r) (auto split: prod.splits)
    have s1: "table_steps lv m m1" using ping_node_steps [OF Cons.prems(1) r(1)] .
    then have "table_steps lv m1 m'" using table_steps_keep Cons.prems(1) Cons.IH [OF _ r(2)] by blast
    with s1 show ?thesis by simp
  qed
qed simp

lemma sync_members_steps: "table_steps lv m (fst (sync_members now mems m))"
proof (induction now mems m rule: sync_members.induct)
  case (2 now mem mems m)
  obtain m1 es where u: "updateNode now (NodeID mem) (Address mem) (Incarnation mem) (State mem) m = (m1, es)"
    by fastforce
  show ?case
  proof (cases "NodeID mem \<noteq> nodeID m \<and> \<not> bad_address (Address mem)")
    case True
    then have "table_steps lv m m1" using updateNode_steps [of "NodeID mem" m lv] u by (metis fst_conv)
    moreover have "table_steps lv m1 (fst (sync_members now mems m1))" using 2(1) True u by simp
    ultimately show ?thesis using True by (auto simp: u split: prod.splits)
  next
    case False
    then show ?thesis using 2(2) by auto
  qed
qed simp

lemma handlePing_steps: "table_steps lv m (fst (handlePing now from inc m))"
  by (auto simp: handlePing_def Let_def split: prod.splits option.splits intro: updateNode_alive_steps)

lemma handleAck_steps: "table_steps lv m (fst (handleAck now from inc m))"
proof -
  define r where "r = (case map_of (members m) from of
      None \<Rightarrow> (m, [])
    | Some info \<Rightarrow> if Address info \<noteq> '''' then updateNode now from (Address info) inc NodeStateAlive m else (m, []))"
  have "table_steps lv m (fst r)"
    by (auto simp: r_def split: option.splits intro: updateNode_alive_steps [OF prod.collapse [symmetric]])
  then show ?thesis
    using table_steps_frame(1) [of lv "fst r"]
    by (auto simp: handleAck_def r_def [symmetric] Let_def split: prod.splits option.splits intro: rtranclp_trans)
qed

lemma HandleMessage_steps: "table_steps lv m (fst (HandleMessage now msg m))"
proof (cases msg)
  case (ConnectMsg n addr inc)
  then show ?thesis
    by (auto simp: handleConnect_def split: prod.splits intro: updateNode_alive_steps)
next
  case (IndirectAckMsg f t target inc)
  then show ?thesis
    by (auto simp: handleIndirectAck_def Let_def split: prod.splits option.splits intro: updateNode_alive_steps)
next
  case (LeaveMsg n inc)
  then show ?thesis by (simp add: handleLeave_def updateNode_def)
next
  case (IndirectProbeMsg f target inc)
  then show ?thesis using table_steps_frame(1) by (auto simp: handleIndirectProbe_def split: option.splits)
qed (simp_all add: handlePing_steps handleAck_steps handleClusterSync_def sync_members_steps)

lemma Leave_steps: "table_steps True m (fst (Leave m))"
proof -
  have "table_steps True (m\<lparr>incarnation := incarnation m + 1\<rparr>) (fst (markDead (nodeID m) (m\<lparr>incarnation := incarnation m + 1\<rparr>)))"
    by (rule markDead_steps) simp
  then show ?thesis
    using table_steps_frame(2) [of True m "incarnation m + 1"] by (auto simp: Leave_def Let_def split: prod.splits)
qed

lemma member_step_steps:
  assumes "mgr_inv lv m"
  shows "table_steps (lv \<or> e = EvLeave) m (fst (member_step e m))"
proof -
  have "table_steps lv m (fst (member_step e m))" if "e \<noteq> EvLeave"
  proof (cases e)
    case (EvTick net now)
    then show ?thesis using ping_nodes_steps [OF assms] by (auto simp: doPing_def split: prod.splits)
  qed (use that in \<open>simp_all add: Start_def table_steps_frame HandleMessage_steps suspectExpired_steps [OF assms]\<close>)
  moreover have "e = EvLeave \<Longrightarrow> table_steps True m (fst (member_step e m))" by (simp add: Leave_steps)
  ultimately show ?thesis using table_steps_mono [of lv] by (cases "e = EvLeave") auto
qed

lemma mgr_inv_mono: "mgr_inv lv m \<Longrightarrow> mgr_inv (lv \<or> lw) m"
  unfolding mgr_inv_def self_ok_def by blast

lemma member_exec_steps:
  assumes "mgr_inv lv m"
  shows "table_steps (lv \<or> EvLeave \<in> set evs) m (fst (member_exec evs m))"
  using assms
proof (induction evs arbitrary: m lv)
  case (Cons e evs)
  let ?m1 = "fst (member_step e m)"
  have s: "table_steps (lv \<or> e = EvLeave) m ?m1" using Cons.prems by (rule member_step_steps)
  have "mgr_inv (lv \<or> e = EvLeave) m" using Cons.prems by (rule mgr_inv_mono)
  then have "mgr_inv (lv \<or> e = EvLeave) ?m1" using table_steps_keep [OF s] by blast
  from Cons.IH [OF this] table_steps_mono [OF s, of "EvLeave \<in> set evs"] show ?case
    by (auto simp: disj_assoc eq_commute [of _ EvLeave] split: prod.splits intro: rtranclp_trans)
qed simp

lemma newMemberMgr_inv: "mgr_inv lv (newMemberMgr now cfg)"
  by (simp add: mgr_inv_def newMemberMgr_def self_ok_def time_Second_def)

section \<open>Safety of executions\<close>

text \<open>
  Whatever a node's membership manager is started with and whatever it ticks, receives and times
  out on afterwards, its table has one entry per node, under the node's own id and with a network
  address (its own entry may lack one); it keeps an entry for the node itself, which is never suspect
  and is dead only if the node left; the timeouts stay positive.
\<close>

theorem member_invariant_reachable:
  "mgr_inv (EvLeave \<in> set evs) (fst (member_exec evs (newMemberMgr now cfg)))"
  using table_steps_keep [OF member_exec_steps [OF newMemberMgr_inv [of False now cfg], of evs]]
    newMemberMgr_inv [of "EvLeave \<in> set evs" now cfg]
  by simp

text \<open>
  Along every execution a known member is never forgotten and its incarnation number (a signed
  64-bit integer) never decreases.
\<close>

theorem member_incarnation_monotone:
  assumes "fst (member_exec evs (newMemberMgr now cfg)) = m"
    and "map_of (members m) n = Some info"
  shows "\<exists>info'. map_of (members (fst (member_exec evs' m))) n = Some info'
           \<and> sint (Incarnation info) \<le> sint (Incarnation info')"
proof -
  have "mgr_inv (EvLeave \<in> set evs) m"
    using table_steps_keep [OF member_exec_steps [OF newMemberMgr_inv [of False now cfg], of evs]]
      newMemberMgr_inv [of "EvLeave \<in> set evs" now cfg] assms(1) by simp
  from table_steps_keep [OF member_exec_steps [OF this, of evs']] assms(2)
  show ?thesis by (simp add: not_older_def)
qed

section \<open>The failure detector\<close>

text \<open>
  The abstract failure detector of one ping cycle: what happens to each entry, independent of the
  others. A silent node goes from any state to suspect and from suspect to dead; a node in time that
  can be sent a ping counts as active, with a resolution of one second.
\<close>

definition detect ::
  "(string \<Rightarrow> member_msg \<Rightarrow> bool) \<Rightarrow> gotime \<Rightarrow> memberMgr \<Rightarrow> string \<Rightarrow> NodeInfo \<Rightarrow> NodeInfo" where
  "detect net now m n info =
     (if n = nodeID m \<or> State info = NodeStateDead then info
      else if now - LastActive info > failureTimeout m
      then info\<lparr>State := (if State info = NodeStateSuspect then NodeStateDead else NodeStateSuspect),
                SuspectSince := zero_time\<rparr>
      else if State info = NodeStateAlive \<and> hasSend m \<and> n \<noteq> '''' \<and> now - LastActive info \<ge> time_Second
              \<and> net (Address info) (PingMsg (nodeID m) n (incarnation m))
      then info\<lparr>LastActive := now\<rparr>
      else info)"

definition same_frame :: "memberMgr \<Rightarrow> memberMgr \<Rightarrow> bool" where
  "same_frame m m' \<longleftrightarrow> same_settings m m' \<and> incarnation m' = incarnation m"

lemma detect_frame: "same_frame m m' \<Longrightarrow> detect net now m' = detect net now m"
  by (intro ext) (simp add: detect_def same_frame_def same_settings_def)

lemma ping_node_detect:
  assumes "ping_node net now n m = Some (m', es)"
  shows "same_frame m m'
    \<and> map_of (members m') = (map_of (members m))(n := map_option (detect net now m n) (map_of (members m) n))
    \<and> map fst (members m') = map fst (members m)"
proof -
  show ?thesis
    using assms
    by (auto simp: ping_node_def Let_def detect_def markDead_def markSuspect_def updateLastActive_def
        same_frame_def same_settings_def map_fst_update fun_upd_idem split: option.splits if_splits)
qed

lemma ping_nodes_detect:
  assumes "distinct ns" "ping_nodes net now ns m = (m', es, True)"
  shows "same_frame m m' \<and> map fst (members m') = map fst (members m)
    \<and> (\<forall>n. map_of (members m') n =
          (if n \<in> set ns then map_option (detect net now m n) (map_of (members m) n) else map_of (members m) n))"
  using assms
proof (induction ns arbitrary: m es)
  case Nil
  then show ?case by (simp add: same_frame_def same_settings_def)
next
  case (Cons k ns)
  then obtain m1 es1 es2 where r: "ping_node net now k m = Some (m1, es1)" "ping_nodes net now ns m1 = (m', es2, True)"
    by (auto split: option.splits prod.splits)
  note one = ping_node_detect [OF r(1)] and rest = Cons.IH [OF _ r(2)]
  have "same_frame m m'" using one rest Cons.prems(1) by (auto simp: same_frame_def same_settings_def)
  moreover have "map_of (members m') n =
      (if n \<in> set (k # ns) then map_option (detect net now m n) (map_of (members m) n) else map_of (members m) n)" for n
    using one rest Cons.prems(1) detect_frame [of m m1 net now] by auto
  ultimately show ?case using one rest Cons.prems(1) by simp
qed

lemma doPing_detect:
  assumes "mgr_inv lv m" "doPing net now m = (m', es, True)"
  shows "same_frame m m'" "map_of (members m') n = map_option (detect net now m n) (map_of (members m) n)"
    "mgr_inv lv m'"
proof -
  have d: "distinct (map fst (members m))" using assms(1) by (simp add: mgr_inv_def)
  note p = ping_nodes_detect [OF d assms(2) [unfolded doPing_def]]
  show "same_frame m m'" using p by blast
  have "n \<notin> fst ` set (members m) \<Longrightarrow> map_of (members m) n = None" by (simp add: map_of_eq_None_iff)
  with p show "map_of (members m') n = map_option (detect net now m n) (map_of (members m) n)"
    by (auto split: if_splits)
  show "mgr_inv lv m'"
    using ping_nodes_steps [OF assms(1) assms(2) [unfolded doPing_def]] table_steps_keep assms(1) by blast
qed

text \<open>Ping cycles at the given times; the flag says that no cycle panicked.\<close>

fun ticks :: "(string \<Rightarrow> member_msg \<Rightarrow> bool) \<Rightarrow> gotime list \<Rightarrow> memberMgr \<Rightarrow> memberMgr \<times> bool" where
  "ticks net [] m = (m, True)"
| "ticks net (t # ts) m =
     (case doPing net t m of (m1, es, ok) \<Rightarrow> (case ticks net ts m1 of (m2, ok2) \<Rightarrow> (m2, ok \<and> ok2)))"

lemma ticks_ConsE:
  assumes "ticks net (t # ts) m = (m', True)"
  obtains m1 es where "doPing net t m = (m1, es, True)" "ticks net ts m1 = (m', True)"
  using assms by (auto split: prod.splits)

lemma ticks_dead:
  assumes "mgr_inv lv m" "map_of (members m) n = Some info" "State info = NodeStateDead" "ticks net ts m = (m', True)"
  shows "map_of (members m') n = Some info"
  using assms
proof (induction ts arbitrary: m)
  case (Cons t ts)
  from Cons.prems(4) obtain m1 es where r: "doPing net t m = (m1, es, True)" "ticks net ts m1 = (m', True)"
    by (rule ticks_ConsE)
  have "map_of (members m1) n = Some info"
    using doPing_detect(2) [OF Cons.prems(1) r(1), of n] Cons.prems(2,3) by (simp add: detect_def)
  from Cons.IH [OF doPing_detect(3) [OF Cons.prems(1) r(1)] this Cons.prems(3) r(2)] show ?case .
qed simp

text \<open>
  C32: A completed ping cycle refines the abstract failure detector: every entry of the table changes
  exactly as \<open>detect\<close> says, whatever the other entries are and in whatever order they are visited.
\<close>

theorem doPing_refines_detector:
  assumes "mgr_inv lv m" "doPing net now m = (m', es, True)"
  shows "map_of (members m') n = map_option (detect net now m n) (map_of (members m) n)"
  using assms by (rule doPing_detect(2))

text \<open>
  C33: Completeness of the failure detector: a member that has been silent for longer than the failure
  timeout is dead after any two or more completed ping cycles.
\<close>

theorem silent_member_declared_dead:
  assumes "mgr_inv lv m" "n \<noteq> nodeID m" "map_of (members m) n = Some info"
    and "\<forall>t \<in> set ts. t - LastActive info > failureTimeout m" "2 \<le> length ts"
    and "ticks net ts m = (m', True)"
  shows "State_of n m' = NodeStateDead"
proof -
  obtain t1 t2 us where ts: "ts = t1 # t2 # us" using assms(5) by (metis Suc_le_length_iff numeral_2_eq_2)
  from assms(6) obtain m1 e1 m2 e2 where r1: "doPing net t1 m = (m1, e1, True)"
    and r2: "doPing net t2 m1 = (m2, e2, True)" and r3: "ticks net us m2 = (m', True)"
    unfolding ts by (metis ticks_ConsE)
  note d1 = doPing_detect [OF assms(1) r1] and d2 = doPing_detect [OF doPing_detect(3) [OF assms(1) r1] r2]
  let ?i1 = "detect net t1 m n info"
  have fr: "nodeID m1 = nodeID m" "failureTimeout m1 = failureTimeout m"
    using d1(1) by (simp_all add: same_frame_def same_settings_def)
  have m1: "map_of (members m1) n = Some ?i1" using d1(2) [of n] assms(3) by simp
  have i1: "LastActive ?i1 = LastActive info" "State ?i1 = NodeStateDead \<or> State ?i1 = NodeStateSuspect"
    using assms(2,4) ts by (auto simp: detect_def)
  have m2: "map_of (members m2) n = Some (detect net t2 m1 n ?i1)" using d2(2) [of n] m1 by simp
  have "State (detect net t2 m1 n ?i1) = NodeStateDead"
    using i1 assms(2,4) ts unfolding detect_def [of net t2] fr by auto
  with ticks_dead [OF d2(3) m2 _ r3] show ?thesis by (simp add: State_of_def)
qed

text \<open>The pace of ping cycles: each comes at most \<open>d\<close> less one second after the one before.\<close>

primrec paced :: "duration \<Rightarrow> gotime \<Rightarrow> gotime list \<Rightarrow> bool" where
  "paced d t0 [] \<longleftrightarrow> True"
| "paced d t0 (t # ts) \<longleftrightarrow> t0 \<le> t \<and> t - t0 + time_Second \<le> d \<and> paced d t ts"

lemma paced_alive:
  assumes "mgr_inv lv m" "n \<noteq> nodeID m" "n \<noteq> ''''" "map_of (members m) n = Some info"
    and "State info = NodeStateAlive" "hasSend m"
    and "net (Address info) (PingMsg (nodeID m) n (incarnation m))"
    and "LastActive info \<le> t0" "t0 - LastActive info < time_Second" "paced (failureTimeout m) t0 ts"
    and "ticks net ts m = (m', True)"
  shows "State_of n m' = NodeStateAlive"
  using assms
proof (induction ts arbitrary: m info t0)
  case Nil
  then show ?case by (simp add: State_of_def)
next
  case (Cons t ts)
  from Cons.prems(11) obtain m1 es where r: "doPing net t m = (m1, es, True)" "ticks net ts m1 = (m', True)"
    by (rule ticks_ConsE)
  note d = doPing_detect [OF Cons.prems(1) r(1)]
  let ?i = "detect net t m n info"
  have m1: "map_of (members m1) n = Some ?i" using d(2) [of n] Cons.prems(4) by simp
  have i: "State ?i = NodeStateAlive" "Address ?i = Address info" "LastActive ?i \<le> t" "t - LastActive ?i < time_Second"
    using Cons.prems by (auto simp: detect_def time_Second_def)
  have fr: "nodeID m1 = nodeID m" "failureTimeout m1 = failureTimeout m" "hasSend m1 = hasSend m"
    "incarnation m1 = incarnation m"
    using d(1) by (simp_all add: same_frame_def same_settings_def)
  from Cons.prems(10) have "paced (failureTimeout m1) t ts" by (simp add: fr)
  with Cons.IH [OF d(3) _ _ m1 i(1) _ _ i(3,4) _ r(2)] Cons.prems i(2) show ?case by (simp add: fr)
qed

text \<open>
  Accuracy of the failure detector, and its limit: a member to which pings can be sent stays alive
  through every sequence of ping cycles that come at the pace of the failure timeout less one second,
  whether or not it ever answers.
\<close>

theorem reachable_member_stays_alive:
  assumes "mgr_inv lv m" "n \<noteq> nodeID m" "n \<noteq> ''''" "map_of (members m) n = Some info"
    and "State info = NodeStateAlive" "hasSend m"
    and "net (Address info) (PingMsg (nodeID m) n (incarnation m))"
    and "paced (failureTimeout m) (LastActive info) ts" "ticks net ts m = (m', True)"
  shows "State_of n m' = NodeStateAlive"
  using paced_alive [OF assms(1-7) _ _ assms(8,9)] by (simp add: time_Second_def)

section \<open>Membership updates are a last-write-wins replica\<close>

text \<open>
  An update \<open>(now, n, addr, inc, st)\<close> of \<open>updateNode\<close>. With an equal incarnation the later call
  overwrites, so two updates of equal incarnation must agree.
\<close>

type_synonym member_update = "gotime \<times> string \<times> string \<times> int64 \<times> NodeState"

definition member_put :: "member_update \<Rightarrow> memberMgr \<Rightarrow> memberMgr option" where
  "member_put op m =
     (case op of (now, n, addr, inc, st) \<Rightarrow>
        if addr \<noteq> '''' \<and>
           (case map_of (members m) n of
              None \<Rightarrow> True
            | Some info \<Rightarrow> Incarnation info = inc \<longrightarrow> Address info = addr \<and> State info = st)
        then Some (fst (updateNode now n addr inc st m)) else None)"

definition member_view :: "memberMgr \<Rightarrow> string \<Rightarrow> (int64 \<times> string \<times> NodeState) option" where
  "member_view m n = map_option (\<lambda>i. (Incarnation i, Address i, State i)) (map_of (members m) n)"

definition update_node :: "member_update \<Rightarrow> string" where
  "update_node op = fst (snd op)"

definition update_view :: "member_update \<Rightarrow> int64 \<times> string \<times> NodeState" where
  "update_view op = (case op of (now, n, addr, inc, st) \<Rightarrow> (inc, addr, st))"

interpretation membership: lww_replica member_put member_view update_node update_view "\<lambda>v. sint (fst v)" "\<lambda>m. True"
proof
  fix m op m' k
  assume "member_put op m = Some m'"
  then show "member_view m' k = (if k = update_node op
      then lww_merge (\<lambda>v. sint (fst v)) (member_view m k) (update_view op) else member_view m k)"
    by (cases op)
      (auto simp: member_put_def member_view_def updateNode_def update_node_def update_view_def
        lww_merge_def Let_def split: option.splits if_splits)
qed simp

text \<open>
  C34: Two managers that hold the same view of a node and receive the same membership updates, in any
  order and any number of times, agree on the node's incarnation, address and state, provided that
  different updates of the node carry different incarnations.
\<close>

theorem membership_converges:
  assumes "member_view m1 n = member_view m2 n"
    and "puts member_put ops1 m1 = Some t1" "puts member_put ops2 m2 = Some t2" "set ops1 = set ops2"
    and "versions_unique (\<lambda>v. sint (fst v)) (member_view m1 n) (writes update_node update_view ops1 n)"
  shows "member_view t1 n = member_view t2 n"
  by (rule membership.convergence [OF TrueI TrueI assms])

section \<open>Leaving\<close>

text \<open>
  A leave message never changes a manager's table and triggers nothing, although
  \<open>handleLeave\<close> means to mark the sender dead: every message that a leaving node sends is a leave
  message, and delivering it to any manager returns the manager as it was.
\<close>

theorem leave_has_no_effect:
  assumes "SendTo addr msg \<in> set (snd (Leave m))"
  shows "HandleMessage now msg other = (other, [])"
proof -
  have no: "SendTo addr msg \<notin> set (snd (markDead n m0))" for n m0
    by (simp add: markDead_def changed_def Let_def split: option.splits)
  have lm: "SendTo addr msg \<in> set (send m1 a (LeaveMsg i j)) \<Longrightarrow> msg = LeaveMsg i j" for m1 a i j
    by (simp add: send_def split: if_splits)
  from assms no [of "nodeID m" "m\<lparr>incarnation := incarnation m + 1\<rparr>"] obtain i j where "msg = LeaveMsg i j"
    by (auto simp: Leave_def Let_def split: prod.splits if_splits dest!: lm)
  then show ?thesis by (simp add: handleLeave_def updateNode_def)
qed

section \<open>A panic of the indirect probe\<close>

text \<open>
  The probe hash negates a negative hash, but the least 64-bit integer is its own negation: for a
  suspect node of this (printable) id the index into the alive members is negative when there are
  three of them, and the probe panics.
\<close>

theorem tryIndirectProbe_panics:
  assumes "length (aliveMembers ''OY[T^]CY_DXRW'' m) = 3"
  shows "tryIndirectProbe ''OY[T^]CY_DXRW'' m = None"
proof -
  have "probe_hash ''OY[T^]CY_DXRW'' = 0x8000000000000000"
  proof -
    have "runes ''OY[T^]CY_DXRW'' = [79, 89, 91, 84, 94, 93, 67, 89, 95, 68, 88, 82, 87]" by code_simp
    then show ?thesis by (simp add: probe_hash_def)
  qed
  then show ?thesis
    using assms by (auto simp: tryIndirectProbe_def Let_def signed_modulo_int_def)
qed

section \<open>Examples\<close>

definition example_info :: "string \<Rightarrow> string \<Rightarrow> NodeState \<Rightarrow> int64 \<Rightarrow> gotime \<Rightarrow> NodeInfo" where
  "example_info n a st inc t =
     \<lparr>NodeID = n, Address = a, State = st, Incarnation = inc, LastActive = t, SuspectSince = zero_time\<rparr>"

definition example_mgr :: "(string \<times> NodeInfo) list \<Rightarrow> memberMgr" where
  "example_mgr others =
     \<lparr>nodeID = ''a'', address = ''h:1'', incarnation = 5,
      members = (''a'', example_info ''a'' ''h:1'' NodeStateAlive 0 0) # others,
      pingInterval = 1000000000, failureTimeout = 3000000000, suspectTimeout = 2000000000,
      hasSend = True, hasCallback = True, indirectProbes = []\<rparr>"

lemmas example_simps = example_mgr_def example_info_def doPing_def ping_node_def detect_def mgr_inv_def
  self_ok_def markDead_def markSuspect_def updateLastActive_def store_member_def changed_def Members_def
  State_of_def time_Second_def Let_def

theorem member_incarnation_monotone_witness:
  "\<exists>info'. map_of (members (fst (member_exec [EvReceive 2 (PingMsg ''b'' ''a'' 9)]
      (fst (member_exec [EvReceive 1 (ConnectMsg ''b'' ''h:2'' 7)]
         (newMemberMgr 0 (\<lparr>cfgNodeID = ''a'', cfgAddress = ''h:1'', cfgPingInterval = 0, cfgFailureTimeout = 0,
            cfgSuspectTimeout = 0, cfgHasSend = True, cfgHasCallback = False\<rparr>))))))) ''b'' = Some info'
     \<and> sint (7 :: int64) \<le> sint (Incarnation info')"
  using member_incarnation_monotone [OF refl, of "[EvReceive 1 (ConnectMsg ''b'' ''h:2'' 7)]" 0
      "\<lparr>cfgNodeID = ''a'', cfgAddress = ''h:1'', cfgPingInterval = 0, cfgFailureTimeout = 0,
        cfgSuspectTimeout = 0, cfgHasSend = True, cfgHasCallback = False\<rparr>" "''b''"
      "example_info ''b'' ''h:2'' NodeStateAlive 7 1" "[EvReceive 2 (PingMsg ''b'' ''a'' 9)]"]
  by (simp add: newMemberMgr_def handleConnect_def updateNode_def store_member_def example_info_def Let_def)

theorem doPing_refines_detector_witness:
  "map_of (members (fst (doPing (\<lambda>_ _. True) 4 (example_mgr [(''b'', example_info ''b'' ''h:2'' NodeStateAlive 1 0)])))) ''b''
     = map_option (detect (\<lambda>_ _. True) 4 (example_mgr [(''b'', example_info ''b'' ''h:2'' NodeStateAlive 1 0)]) ''b'')
         (Some (example_info ''b'' ''h:2'' NodeStateAlive 1 0))"
proof -
  let ?m = "example_mgr [(''b'', example_info ''b'' ''h:2'' NodeStateAlive 1 0)]"
  have "mgr_inv False ?m" by (simp add: example_simps)
  moreover have "doPing (\<lambda>_ _. True) 4 ?m = (?m, [SendTo ''h:2'' (PingMsg ''a'' ''b'' 5)], True)"
    by (simp add: example_simps)
  ultimately show ?thesis
    using doPing_refines_detector [of False ?m "\<lambda>_ _. True" 4 ?m "[SendTo ''h:2'' (PingMsg ''a'' ''b'' 5)]" "''b''"]
    by (simp add: example_mgr_def)
qed

theorem silent_member_declared_dead_witness:
  "State_of ''b'' (fst (ticks (\<lambda>_ _. False) [4000000000, 5000000000]
     (example_mgr [(''b'', example_info ''b'' ''h:2'' NodeStateAlive 1 0)]))) = NodeStateDead"
proof -
  let ?m = "example_mgr [(''b'', example_info ''b'' ''h:2'' NodeStateAlive 1 0)]"
  let ?d = "example_mgr [(''b'', example_info ''b'' ''h:2'' NodeStateDead 1 0)]"
  have inv: "mgr_inv False ?m" by (simp add: example_simps)
  have t: "ticks (\<lambda>_ _. False) [4000000000, 5000000000] ?m = (?d, True)" by (simp add: example_simps)
  show ?thesis unfolding t fst_conv
    by (rule silent_member_declared_dead [where info = "example_info ''b'' ''h:2'' NodeStateAlive 1 0", OF inv _ _ _ _ t]) (simp_all add: example_mgr_def example_info_def)
qed

theorem reachable_member_stays_alive_witness:
  "State_of ''b'' (fst (ticks (\<lambda>_ _. True) [2000000000, 3500000000]
     (example_mgr [(''b'', example_info ''b'' ''h:2'' NodeStateAlive 1 0)]))) = NodeStateAlive"
proof -
  let ?m = "example_mgr [(''b'', example_info ''b'' ''h:2'' NodeStateAlive 1 0)]"
  let ?d = "example_mgr [(''b'', example_info ''b'' ''h:2'' NodeStateAlive 1 3500000000)]"
  have inv: "mgr_inv False ?m" by (simp add: example_simps)
  have t: "ticks (\<lambda>_ _. True) [2000000000, 3500000000] ?m = (?d, True)" by (simp add: example_simps)
  show ?thesis unfolding t fst_conv
    by (rule reachable_member_stays_alive [where info = "example_info ''b'' ''h:2'' NodeStateAlive 1 0", OF inv _ _ _ _ _ _ _ t])
      (simp_all add: example_mgr_def example_info_def time_Second_def)
qed

theorem membership_converges_witness:
  "\<exists>t1 t2. puts member_put [(1, ''b'', ''h:2'', 1, NodeStateAlive), (1, ''b'', ''h:2'', 3, NodeStateDead)] (example_mgr []) = Some t1
     \<and> puts member_put [(1, ''b'', ''h:2'', 3, NodeStateDead), (1, ''b'', ''h:2'', 1, NodeStateAlive)] (example_mgr []) = Some t2
     \<and> member_view t1 ''b'' = member_view t2 ''b''"
proof -
  let ?a = "(1, ''b'', ''h:2'', 1, NodeStateAlive) :: member_update"
  let ?b = "(1, ''b'', ''h:2'', 3, NodeStateDead) :: member_update"
  obtain t1 where t1: "puts member_put [?a, ?b] (example_mgr []) = Some t1"
    by (simp add: member_put_def example_mgr_def updateNode_def store_member_def Let_def)
  obtain t2 where t2: "puts member_put [?b, ?a] (example_mgr []) = Some t2"
    by (simp add: member_put_def example_mgr_def updateNode_def store_member_def Let_def)
  have "versions_unique (\<lambda>v. sint (fst v)) (member_view (example_mgr []) ''b'') (writes update_node update_view [?a, ?b] ''b'')"
    by (simp add: versions_unique_def writes_def update_node_def update_view_def member_view_def example_mgr_def)
  with membership_converges [OF refl t1 t2] have "member_view t1 ''b'' = member_view t2 ''b''" by auto
  with t1 t2 show ?thesis by blast
qed

theorem leave_has_no_effect_witness:
  "SendTo ''h:2'' (LeaveMsg ''a'' 6) \<in> set (snd (Leave (example_mgr [(''b'', example_info ''b'' ''h:2'' NodeStateAlive 1 0)])))
   \<and> HandleMessage 7 (LeaveMsg ''a'' 6) (example_mgr []) = (example_mgr [], [])"
proof -
  have "SendTo ''h:2'' (LeaveMsg ''a'' 6) \<in> set (snd (Leave (example_mgr [(''b'', example_info ''b'' ''h:2'' NodeStateAlive 1 0)])))"
    by (simp add: example_simps Leave_def send_def)
  with leave_has_no_effect show ?thesis by blast
qed

theorem tryIndirectProbe_panics_witness:
  "tryIndirectProbe ''OY[T^]CY_DXRW'' (example_mgr
     [(''OY[T^]CY_DXRW'', example_info ''OY[T^]CY_DXRW'' ''h:2'' NodeStateSuspect 1 0),
      (''b'', example_info ''b'' ''h:2'' NodeStateAlive 1 0), (''c'', example_info ''c'' ''h:3'' NodeStateAlive 1 0),
      (''d'', example_info ''d'' ''h:4'' NodeStateAlive 1 0)]) = None"
  by (rule tryIndirectProbe_panics) (simp add: aliveMembers_def example_mgr_def example_info_def)

end
