(* ===== verification/Tiny_Lfu.thy ===== *)
theory Tiny_Lfu
  imports GridKV_Prelude
begin

text \<open>
  \<open>internal/utils/cache/tinylfu.go\<close>: the count-min sketch that estimates how often a key was
  accessed, and the access recorder around it. The counters, the hash arithmetic and the row
  positions are 64-bit words; \<open>fnv.New64a\<close> is the FNV-1a hash of Go's standard library. A call holds
  the sketch's lock, so it is one step.

  The estimate is never below the number of recorded accesses of the key and never above the number
  of all recorded accesses.
\<close>

unbundle bit_operations_syntax

section \<open>Hashing\<close>

definition fnv64a :: "byte list \<Rightarrow> uint64" where
  "fnv64a bs = fold (\<lambda>b h. (h XOR ucast b) * 1099511628211) bs 14695981039346656037"

definition hash64 :: "uint64 \<Rightarrow> uint64" where
  "hash64 h0 =
     (let h1 = h0 XOR drop_bit 33 h0;
          h2 = h1 * 0xff51afd7ed558ccd;
          h3 = h2 XOR drop_bit 33 h2;
          h4 = h3 * 0xc4ceb9fe1a85ec53
      in h4 XOR drop_bit 33 h4)"

section \<open>The sketch\<close>

record CountMinSketch =
  width :: "32 word"
  depth :: "32 word"
  cms_counts :: "uint64 list list"
  seed :: "32 word"

definition NewCountMinSketch :: "32 word \<Rightarrow> 32 word \<Rightarrow> CountMinSketch" where
  "NewCountMinSketch w d =
     \<lparr>width = w, depth = d, cms_counts = replicate (unat d) (replicate (unat w) 0), seed = 0x12345678\<rparr>"

text \<open>The column of a key in row \<open>i\<close>.\<close>

definition cms_idx :: "CountMinSketch \<Rightarrow> string \<Rightarrow> nat \<Rightarrow> nat" where
  "cms_idx cms key i =
     (let h1 = fnv64a (StringToBytes key);
          h2 = hash64 h1;
          h = h1 + of_nat i * h2 + ucast (seed cms) * of_nat i
      in unat (h mod ucast (width cms)))"

fun estimate_loop :: "CountMinSketch \<Rightarrow> string \<Rightarrow> nat list \<Rightarrow> uint64 \<Rightarrow> uint64" where
  "estimate_loop cms key [] minCount = minCount"
| "estimate_loop cms key (i # is) minCount =
     (let count = cms_counts cms ! i ! cms_idx cms key i
      in estimate_loop cms key is (if i = 0 \<or> count < minCount then count else minCount))"

definition cms_Estimate :: "CountMinSketch \<Rightarrow> string \<Rightarrow> uint64" where
  "cms_Estimate cms key = estimate_loop cms key [0..<unat (depth cms)] 0"

definition bump :: "uint64 \<Rightarrow> uint64" where
  "bump c = (if c < 0xFFFFFFFFFFFFFFFF then c + 1 else c)"

definition cms_Increment :: "string \<Rightarrow> CountMinSketch \<Rightarrow> CountMinSketch" where
  "cms_Increment key cms =
     cms\<lparr>cms_counts := fold (\<lambda>i counts. counts[i := (counts ! i)[cms_idx cms key i := bump (counts ! i ! cms_idx cms key i)]])
        [0..<unat (depth cms)] (cms_counts cms)\<rparr>"

definition cms_Reset :: "CountMinSketch \<Rightarrow> CountMinSketch" where
  "cms_Reset cms = cms\<lparr>cms_counts := map (map (drop_bit 1)) (cms_counts cms)\<rparr>"

section \<open>The recorder\<close>

record TinyLFU =
  filter_cms :: CountMinSketch
  hits :: uint64
  misses :: uint64

definition NewTinyLFU :: TinyLFU where
  "NewTinyLFU = \<lparr>filter_cms = NewCountMinSketch 512 4, hits = 0, misses = 0\<rparr>"

definition RecordAccess :: "string \<Rightarrow> bool \<Rightarrow> TinyLFU \<Rightarrow> TinyLFU" where
  "RecordAccess key hit tf =
     (if hit then tf\<lparr>filter_cms := cms_Increment key (filter_cms tf), hits := hits tf + 1\<rparr>
      else tf\<lparr>misses := misses tf + 1\<rparr>)"

definition lfu_Reset :: "TinyLFU \<Rightarrow> TinyLFU" where
  "lfu_Reset tf = tf\<lparr>filter_cms := cms_Reset (filter_cms tf)\<rparr>"

definition lfu_Estimate :: "TinyLFU \<Rightarrow> string \<Rightarrow> uint64" where
  "lfu_Estimate tf key = cms_Estimate (filter_cms tf) key"

section \<open>Shape\<close>

definition cms_ok :: "CountMinSketch \<Rightarrow> bool" where
  "cms_ok cms \<longleftrightarrow> 0 < width cms \<and> 0 < depth cms \<and> length (cms_counts cms) = unat (depth cms)
     \<and> (\<forall>row \<in> set (cms_counts cms). length row = unat (width cms))"

lemma cms_idx_less: "0 < width cms \<Longrightarrow> cms_idx cms key i < unat (width cms)"
proof -
  assume "0 < width cms"
  then have "0 < unat (width cms)" by (simp add: unat_gt_0 word_neq_0_conv)
  moreover have "unat (ucast (width cms) :: uint64) = unat (width cms)"
    using unsigned_less [of "width cms", where ?'a = nat] by (simp add: unsigned_ucast_eq take_bit_nat_eq_self)
  ultimately show ?thesis
    by (simp add: cms_idx_def Let_def unat_mod)
qed

lemma nth_fold_update:
  assumes "distinct is" "\<forall>i \<in> set is. i < length xs"
  shows "length (fold (\<lambda>i xs. xs[i := f i (xs ! i)]) is xs) = length xs
    \<and> (\<forall>j < length xs. fold (\<lambda>i xs. xs[i := f i (xs ! i)]) is xs ! j = (if j \<in> set is then f j (xs ! j) else xs ! j))"
  using assms
proof (induction "is" arbitrary: xs)
  case (Cons i "is")
  then show ?case using Cons.IH [of "xs[i := f i (xs ! i)]"] by (auto simp: nth_list_update)
qed simp

definition bump_row :: "CountMinSketch \<Rightarrow> string \<Rightarrow> nat \<Rightarrow> uint64 list \<Rightarrow> uint64 list" where
  "bump_row cms key i row = row[cms_idx cms key i := bump (row ! cms_idx cms key i)]"

lemma cms_Increment_eq:
  assumes "cms_ok cms"
  shows "cms_counts (cms_Increment key cms) = map (\<lambda>i. bump_row cms key i (cms_counts cms ! i)) [0..<unat (depth cms)]"
proof -
  let ?n = "unat (depth cms)"
  have n: "length (cms_counts cms) = ?n" using assms by (simp add: cms_ok_def)
  have u: "cms_counts (cms_Increment key cms) = fold (\<lambda>i xs. xs[i := bump_row cms key i (xs ! i)]) [0..<?n] (cms_counts cms)"
    by (simp add: cms_Increment_def bump_row_def)
  show ?thesis
    unfolding u using nth_fold_update [of "[0..<?n]" "cms_counts cms" "bump_row cms key"] n
    by (intro nth_equalityI) auto
qed

lemma cms_Increment_fields [simp]:
  "width (cms_Increment key cms) = width cms" "depth (cms_Increment key cms) = depth cms"
  "seed (cms_Increment key cms) = seed cms"
  by (simp_all add: cms_Increment_def)

lemma cms_idx_cong: "width a = width b \<Longrightarrow> seed a = seed b \<Longrightarrow> cms_idx a key = cms_idx b key"
  by (rule ext) (simp add: cms_idx_def)

lemma cms_Increment_ok: "cms_ok cms \<Longrightarrow> cms_ok (cms_Increment key cms)"
  by (auto simp: cms_ok_def cms_Increment_eq bump_row_def)

section \<open>Bounds of the estimate\<close>

definition cell :: "CountMinSketch \<Rightarrow> string \<Rightarrow> nat \<Rightarrow> uint64" where
  "cell cms key i = cms_counts cms ! i ! cms_idx cms key i"

lemma cell_Increment:
  assumes "cms_ok cms" "i < unat (depth cms)"
  shows "cell (cms_Increment k cms) key i
    = (if cms_idx cms k i = cms_idx cms key i then bump (cell cms key i) else cell cms key i)"
proof -
  have "length (cms_counts cms ! i) = unat (width cms)" using assms by (simp add: cms_ok_def)
  moreover have "cms_idx cms key i < unat (width cms)" using assms(1) by (intro cms_idx_less) (simp add: cms_ok_def)
  moreover have "cms_idx (cms_Increment k cms) key = cms_idx cms key" by (rule cms_idx_cong) simp_all
  ultimately show ?thesis using assms by (simp add: cell_def cms_Increment_eq bump_row_def nth_list_update)
qed

lemma unat_bump: "unat c + 1 < 2 ^ 64 \<Longrightarrow> unat (bump c) = unat c + 1"
proof -
  assume a: "unat c + 1 < 2 ^ 64"
  then have "c < 0xFFFFFFFFFFFFFFFF" by (simp add: word_less_nat_alt)
  moreover have "unat (c + 1) = unat c + 1"
    using a unat_add_lem [of c 1, THEN iffD1] by simp
  ultimately show ?thesis by (simp add: bump_def)
qed

lemma cell_accesses:
  assumes "cms_ok cms" "i < unat (depth cms)" "unat (cell cms key i) + length ks < 2 ^ 64"
  shows "cms_ok (fold cms_Increment ks cms) \<and> depth (fold cms_Increment ks cms) = depth cms
    \<and> unat (cell cms key i) + count_list ks key \<le> unat (cell (fold cms_Increment ks cms) key i)
    \<and> unat (cell (fold cms_Increment ks cms) key i) \<le> unat (cell cms key i) + length ks"
  using assms
proof (induction ks arbitrary: cms)
  case (Cons k ks)
  let ?c = "cms_Increment k cms"
  have c: "unat (cell ?c key i) = unat (cell cms key i) + (if cms_idx cms k i = cms_idx cms key i then 1 else 0)"
    using Cons.prems by (auto simp: cell_Increment unat_bump)
  have "unat (cell ?c key i) + length ks < 2 ^ 64" using c Cons.prems(3) by simp
  from Cons.IH [OF cms_Increment_ok [OF Cons.prems(1)] _ this] Cons.prems(2)
  show ?case using c by (auto split: if_splits)
qed simp

lemma estimate_loop_mem:
  "estimate_loop cms key is m = m \<or> (\<exists>i \<in> set is. estimate_loop cms key is m = cell cms key i)"
  by (induction "is" arbitrary: m) (auto simp: Let_def cell_def [symmetric])

lemma cms_Estimate_mem:
  assumes "0 < depth cms"
  shows "\<exists>i < unat (depth cms). cms_Estimate cms key = cell cms key i"
proof -
  have "0 < unat (depth cms)" using assms by (simp add: unat_gt_0 word_neq_0_conv)
  then have "[0..<unat (depth cms)] = 0 # [1..<unat (depth cms)]" by (simp add: upt_rec)
  then have "cms_Estimate cms key = estimate_loop cms key [1..<unat (depth cms)] (cell cms key 0)"
    by (simp add: cms_Estimate_def cell_def)
  with estimate_loop_mem [of cms key "[1..<unat (depth cms)]" "cell cms key 0"] \<open>0 < unat (depth cms)\<close>
  show ?thesis by auto
qed

lemma cms_new_ok: "0 < w \<Longrightarrow> 0 < d \<Longrightarrow> cms_ok (NewCountMinSketch w d)"
  by (simp add: cms_ok_def NewCountMinSketch_def)

text \<open>
  For every sequence of fewer than \<open>2^64\<close> recorded accesses, the sketch estimates at least the
  number of accesses of the key and at most the number of all accesses.
\<close>

theorem sketch_estimate_bounds:
  assumes "0 < w" "0 < d" "length ks < 2 ^ 64"
  shows "count_list ks key \<le> unat (cms_Estimate (fold cms_Increment ks (NewCountMinSketch w d)) key)
    \<and> unat (cms_Estimate (fold cms_Increment ks (NewCountMinSketch w d)) key) \<le> length ks"
proof -
  let ?c = "NewCountMinSketch w d"
  have ok: "cms_ok ?c" using assms(1,2) by (rule cms_new_ok)
  have z: "cell ?c key i = 0" if "i < unat d" for i
    using that cms_idx_less [of ?c key i] assms(1) by (simp add: cell_def NewCountMinSketch_def)
  have 0: "0 < unat d" using assms(2) by (simp add: unat_gt_0 word_neq_0_conv)
  have acc: "depth (fold cms_Increment ks ?c) = d
      \<and> count_list ks key \<le> unat (cell (fold cms_Increment ks ?c) key i)
      \<and> unat (cell (fold cms_Increment ks ?c) key i) \<le> length ks" if "i < unat d" for i
    using cell_accesses [OF ok, of i key ks] z [OF that] that assms(3) by (simp add: NewCountMinSketch_def)
  from acc [OF 0] have "depth (fold cms_Increment ks ?c) = d" by blast
  with cms_Estimate_mem [of "fold cms_Increment ks ?c" key] assms(2) obtain i where "i < unat d"
    "cms_Estimate (fold cms_Increment ks ?c) key = cell (fold cms_Increment ks ?c) key i" by auto
  with acc show ?thesis by simp
qed

theorem sketch_estimate_bounds_witness:
  "count_list [''a'', ''b'', ''a''] ''a''
     \<le> unat (cms_Estimate (fold cms_Increment [''a'', ''b'', ''a''] (NewCountMinSketch 512 4)) ''a'')"
  using sketch_estimate_bounds [of 512 4 "[''a'', ''b'', ''a'']" "''a''"] by simp

end
