(* ===== verification/Ttl_Cache.thy ===== *)
theory Ttl_Cache
  imports Tiny_Lfu
begin

text \<open>
  \<open>internal/utils/cache/ttl_cache.go\<close>: the sharded TTL cache with an intrusive doubly linked
  recency list per shard and frequency-aware eviction.

  \<^item> Entries are objects with pointers: the store \<open>heap\<close> maps addresses to entries, a nil pointer is
    \<open>None\<close>, and the list operations assign through pointers as the source does. \<open>entryPool\<close> is the
    list of recycled addresses; with an empty pool a fresh address is used. The source's \<open>sync.Pool\<close> is shared by
    all caches and may hand out any recycled entry or a new one; \<open>Set\<close> overwrites every field of the entry it takes,
    so that only the address differs.
  \<^item> A call holds the shard's lock from the lookup to the last write (the read path re-checks the entry
    after changing locks), so it is one step.
  \<^item> xxh3 is third-party code: the argument \<open>H\<close> gives the low and high half of its hash.

  The predicate \<open>links\<close> says that a list of addresses is what the pointers link; the list operations
  refine operations on that list, and the cache refines an ordered association list per shard.
\<close>

section \<open>Entries and shards\<close>

record 'v entry =
  ekey :: string
  evalue :: 'v
  expireAt :: int64
  enext :: "nat option"
  eprev :: "nat option"

type_synonym 'v heap = "nat \<Rightarrow> 'v entry"

record shard =
  items :: "(string \<times> nat) list"
  shead :: "nat option"
  stail :: "nat option"
  maxSize :: nat

record 'v Cache =
  cshards :: "shard list"
  cshardMask :: "32 word"
  closed :: bool
  tinyLFU :: TinyLFU
  heap :: "'v heap"
  entryPool :: "nat list"
  fresh :: nat

section \<open>Linked list operations\<close>

definition addToFront :: "nat \<Rightarrow> 'v heap \<times> shard \<Rightarrow> 'v heap \<times> shard" where
  "addToFront e hs =
     (case hs of (h, s) \<Rightarrow>
        (let h1 = h(e := (h e)\<lparr>enext := shead s, eprev := None\<rparr>);
             h2 = (case shead s of None \<Rightarrow> h1 | Some a \<Rightarrow> h1(a := (h1 a)\<lparr>eprev := Some e\<rparr>));
             s1 = s\<lparr>shead := Some e\<rparr>
         in (h2, case stail s1 of None \<Rightarrow> s1\<lparr>stail := Some e\<rparr> | Some _ \<Rightarrow> s1)))"

definition removeEntry :: "nat \<Rightarrow> 'v heap \<times> shard \<Rightarrow> 'v heap \<times> shard" where
  "removeEntry e hs =
     (case hs of (h, s) \<Rightarrow>
        (let (h1, s1) = (case eprev (h e) of
                           Some p \<Rightarrow> (h(p := (h p)\<lparr>enext := enext (h e)\<rparr>), s)
                         | None \<Rightarrow> (h, s\<lparr>shead := enext (h e)\<rparr>))
         in case enext (h1 e) of
              Some n \<Rightarrow> (h1(n := (h1 n)\<lparr>eprev := eprev (h1 e)\<rparr>), s1)
            | None \<Rightarrow> (h1, s1\<lparr>stail := eprev (h1 e)\<rparr>)))"

definition moveToFront :: "nat \<Rightarrow> 'v heap \<times> shard \<Rightarrow> 'v heap \<times> shard" where
  "moveToFront e hs = (if shead (snd hs) = Some e then hs else addToFront e (removeEntry e hs))"

section \<open>Construction\<close>

definition DefaultShards :: int where "DefaultShards = 256"
definition DefaultSize :: int where "DefaultSize = 10000"

definition isPow2 :: "int \<Rightarrow> bool" where
  "isPow2 n \<longleftrightarrow> n > 0 \<and> (n AND (n - 1)) = 0"

definition nextPow2 :: "int \<Rightarrow> int" where
  "nextPow2 n0 =
     (if n0 \<le> 1 then 1
      else
        (let n = n0 - 1; n = n OR drop_bit 1 n; n = n OR drop_bit 2 n; n = n OR drop_bit 4 n;
             n = n OR drop_bit 8 n; n = n OR drop_bit 16 n; n = n OR drop_bit 32 n
         in n + 1))"

definition cache_New :: "int \<Rightarrow> int \<Rightarrow> 'v entry \<Rightarrow> 'v Cache" where
  "cache_New optShards optSize blank =
     (let sh0 = (if optShards \<le> 0 then DefaultShards else optShards);
          sh = (if \<not> isPow2 sh0 then nextPow2 sh0 else sh0);
          sz = (if optSize \<le> 0 then DefaultSize else optSize);
          shardSize0 = sz div sh;
          shardSize = (if shardSize0 < 1 \<and> sz > 0 then 1 else shardSize0)
      in \<lparr>cshards = replicate (nat sh) \<lparr>items = [], shead = None, stail = None, maxSize = nat shardSize\<rparr>,
          cshardMask = word_of_int (sh - 1), closed = False, tinyLFU = NewTinyLFU,
          heap = (\<lambda>_. blank), entryPool = [], fresh = 0\<rparr>)"

definition cache_getShard :: "(string \<Rightarrow> uint64 \<times> uint64) \<Rightarrow> string \<Rightarrow> 'v Cache \<Rightarrow> nat option" where
  "cache_getShard H key c =
     (if length (cshards c) = 0 then None
      else
        (let (lo, hi) = H key;
             hash = push_bit 1 lo XOR hi;
             idx = (ucast hash :: 32 word) AND cshardMask c
         in if idx \<ge> of_nat (length (cshards c)) then None else Some (unat idx)))"

section \<open>Operations\<close>

text \<open>Writing back the heap and the shard of one critical section.\<close>

definition put_back :: "nat \<Rightarrow> 'v Cache \<Rightarrow> 'v heap \<times> shard \<Rightarrow> 'v Cache" where
  "put_back i c hs = c\<lparr>heap := fst hs, cshards := (cshards c)[i := snd hs]\<rparr>"

text \<open>Taking an entry out of its shard, and returning its object to the pool.\<close>

definition unlink :: "string \<Rightarrow> nat \<Rightarrow> 'v heap \<times> shard \<Rightarrow> 'v heap \<times> shard" where
  "unlink key e hs = removeEntry e (fst hs, (snd hs)\<lparr>items := AList.delete key (items (snd hs))\<rparr>)"

definition entryPool_Put :: "nat \<Rightarrow> 'v Cache \<Rightarrow> 'v Cache" where
  "entryPool_Put e c = c\<lparr>entryPool := e # entryPool c\<rparr>"

definition entryPool_Get :: "'v Cache \<Rightarrow> nat \<times> 'v Cache" where
  "entryPool_Get c =
     (case entryPool c of
        e # es \<Rightarrow> (e, c\<lparr>entryPool := es\<rparr>)
      | [] \<Rightarrow> (fresh c, c\<lparr>fresh := Suc (fresh c)\<rparr>))"

definition cache_Get :: "(string \<Rightarrow> uint64 \<times> uint64) \<Rightarrow> gotime \<Rightarrow> string \<Rightarrow> 'v Cache \<Rightarrow> 'v Cache \<times> 'v option" where
  "cache_Get H now key c =
     (if closed c \<or> key = '''' then (c, None)
      else case cache_getShard H key c of
        None \<Rightarrow> (c, None)
      | Some i \<Rightarrow>
          (let s = cshards c ! i in
           case map_of (items s) key of
             None \<Rightarrow> (c\<lparr>tinyLFU := RecordAccess key False (tinyLFU c)\<rparr>, None)
           | Some e \<Rightarrow>
               if sint (expireAt (heap c e)) > 0 \<and> sint (UnixNano now) > sint (expireAt (heap c e))
               then (entryPool_Put e (put_back i c (unlink key e (heap c, s))), None)
               else
                 (let v = evalue (heap c e);
                      c1 = (if shead s \<noteq> Some e
                            then put_back i c (addToFront e (removeEntry e (heap c, s))) else c)
                  in (c1\<lparr>tinyLFU := RecordAccess key True (tinyLFU c1)\<rparr>, Some v))))"

definition cache_Delete :: "(string \<Rightarrow> uint64 \<times> uint64) \<Rightarrow> string \<Rightarrow> 'v Cache \<Rightarrow> 'v Cache \<times> bool" where
  "cache_Delete H key c =
     (if closed c \<or> key = '''' then (c, False)
      else case cache_getShard H key c of
        None \<Rightarrow> (c, False)
      | Some i \<Rightarrow>
          (case map_of (items (cshards c ! i)) key of
             None \<Rightarrow> (c, False)
           | Some e \<Rightarrow> (put_back i c (unlink key e (heap c, cshards c ! i)), True)))"

definition cache_Del :: "(string \<Rightarrow> uint64 \<times> uint64) \<Rightarrow> string \<Rightarrow> 'v Cache \<Rightarrow> 'v Cache" where
  "cache_Del H key c =
     (if closed c \<or> key = '''' then c
      else case cache_getShard H key c of
        None \<Rightarrow> c
      | Some i \<Rightarrow>
          (case map_of (items (cshards c ! i)) key of
             None \<Rightarrow> c
           | Some e \<Rightarrow> entryPool_Put e (put_back i c (unlink key e (heap c, cshards c ! i)))))"

text \<open>
  The search for a victim from the tail towards the head: the first entry less frequent than the new
  key, or the tail. The number of items bounds the walk; \<open>None\<close> is a walk that does not end.
\<close>

fun find_victim ::
  "nat \<Rightarrow> TinyLFU \<Rightarrow> 'v heap \<Rightarrow> nat option \<Rightarrow> uint64 \<Rightarrow> nat \<Rightarrow> nat option \<Rightarrow> nat option" where
  "find_victim 0 lfu h first newFreq oldest current = None"
| "find_victim (Suc fuel) lfu h first newFreq oldest current =
     (case current of
        None \<Rightarrow> Some oldest
      | Some a \<Rightarrow>
          if lfu_Estimate lfu (ekey (h a)) < newFreq then Some a
          else if eprev (h a) = first then Some oldest
          else find_victim fuel lfu h first newFreq oldest (eprev (h a)))"

definition choose_victim :: "TinyLFU \<Rightarrow> 'v heap \<Rightarrow> shard \<Rightarrow> string \<Rightarrow> nat \<Rightarrow> nat option" where
  "choose_victim lfu h s key oldest =
     (let newFreq = lfu_Estimate lfu key; oldFreq = lfu_Estimate lfu (ekey (h oldest))
      in if oldFreq > newFreq
         then find_victim (Suc (length (items s))) lfu h (shead s) newFreq oldest (Some oldest)
         else Some oldest)"

definition make_room :: "nat \<Rightarrow> string \<Rightarrow> 'v Cache \<Rightarrow> 'v Cache option" where
  "make_room i key c =
     (let s = cshards c ! i in
      if maxSize s > 0 \<and> length (items s) \<ge> maxSize s
      then (case stail s of
              None \<Rightarrow> Some c
            | Some oldest \<Rightarrow>
                map_option (\<lambda>victim. entryPool_Put victim
                    (put_back i c (unlink (ekey (heap c victim)) victim (heap c, s))))
                  (choose_victim (tinyLFU c) (heap c) s key oldest))
      else Some c)"

definition cache_Set ::
  "(string \<Rightarrow> uint64 \<times> uint64) \<Rightarrow> gotime \<Rightarrow> string \<Rightarrow> 'v \<Rightarrow> duration \<Rightarrow> 'v Cache \<Rightarrow> 'v Cache option" where
  "cache_Set H now key v ttl c =
     (if closed c \<or> key = '''' then Some c
      else case cache_getShard H key c of
        None \<Rightarrow> Some c
      | Some i \<Rightarrow>
          (let s = cshards c ! i;
               ex = (if ttl > 0 then UnixNano (now + ttl) else 0)
           in case map_of (items s) key of
                Some e \<Rightarrow>
                  Some (put_back i c (moveToFront e
                    ((heap c)(e := (heap c e)\<lparr>evalue := v, expireAt := ex\<rparr>), s)))
              | None \<Rightarrow>
                  (case make_room i key c of
                     None \<Rightarrow> None
                   | Some c1 \<Rightarrow>
                       (let (e, c2) = entryPool_Get c1;
                            s2 = cshards c2 ! i;
                            h2 = (heap c2)(e := \<lparr>ekey = key, evalue = v, expireAt = ex, enext = None, eprev = None\<rparr>);
                            c3 = put_back i c2 (addToFront e (h2, s2\<lparr>items := AList.update key e (items s2)\<rparr>))
                        in Some (c3\<lparr>tinyLFU := RecordAccess key True (tinyLFU c3)\<rparr>)))))"

definition cache_Clear :: "'v Cache \<Rightarrow> 'v Cache" where
  "cache_Clear c =
     c\<lparr>entryPool := concat (map (\<lambda>s. map snd (items s)) (cshards c)) @ entryPool c,
       cshards := map (\<lambda>s. s\<lparr>items := [], shead := None, stail := None\<rparr>) (cshards c)\<rparr>"

definition cache_Len :: "'v Cache \<Rightarrow> nat" where
  "cache_Len c = sum_list (map (\<lambda>s. length (items s)) (cshards c))"

definition cache_Close :: "'v Cache \<Rightarrow> 'v Cache" where
  "cache_Close c = c\<lparr>closed := True\<rparr>"

section \<open>The list behind the pointers\<close>

definition hd_opt :: "nat list \<Rightarrow> nat option \<Rightarrow> nat option" where
  "hd_opt xs n = (case xs of [] \<Rightarrow> n | x # _ \<Rightarrow> Some x)"

definition last_opt :: "nat option \<Rightarrow> nat list \<Rightarrow> nat option" where
  "last_opt p xs = (if xs = [] then p else Some (last xs))"

primrec links :: "'v heap \<Rightarrow> nat option \<Rightarrow> nat list \<Rightarrow> nat option \<Rightarrow> bool" where
  "links h p [] n \<longleftrightarrow> True"
| "links h p (a # as) n \<longleftrightarrow> eprev (h a) = p \<and> enext (h a) = hd_opt as n \<and> links h (Some a) as n"

definition dll :: "'v heap \<Rightarrow> shard \<Rightarrow> nat list \<Rightarrow> bool" where
  "dll h s xs \<longleftrightarrow> links h None xs None \<and> distinct xs \<and> shead s = hd_opt xs None \<and> stail s = last_opt None xs"

definition payload :: "'v heap \<Rightarrow> nat \<Rightarrow> string \<times> 'v \<times> int64" where
  "payload h a = (ekey (h a), evalue (h a), expireAt (h a))"

lemma hd_opt_simps [simp]: "hd_opt [] n = n" "hd_opt (x # xs) n = Some x"
  "hd_opt (xs @ ys) n = hd_opt xs (hd_opt ys n)"
  by (simp_all add: hd_opt_def split: list.splits)

lemma last_opt_simps [simp]: "last_opt p [] = p" "last_opt p (x # xs) = last_opt (Some x) xs"
  "last_opt p (xs @ ys) = last_opt (last_opt p xs) ys"
  by (simp_all add: last_opt_def)

lemma links_append: "links h p (xs @ ys) n \<longleftrightarrow> links h p xs (hd_opt ys n) \<and> links h (last_opt p xs) ys n"
  by (induction xs arbitrary: p) auto

lemma links_cong: "(\<And>a. a \<in> set xs \<Longrightarrow> enext (h a) = enext (h' a) \<and> eprev (h a) = eprev (h' a)) \<Longrightarrow> links h p xs n = links h' p xs n"
  by (induction xs arbitrary: p) auto

lemma links_upd [simp]: "a \<notin> set xs \<Longrightarrow> links (h(a := e)) p xs n = links h p xs n"
  by (rule links_cong) auto

text \<open>Redirecting the link at either end of a segment.\<close>

lemma links_new_next:
  assumes "links h p (xs @ [a]) n" "distinct (xs @ [a])"
  shows "links (h(a := (h a)\<lparr>enext := n'\<rparr>)) p (xs @ [a]) n'"
  using assms by (auto simp: links_append)

lemma links_new_prev:
  assumes "links h p (a # xs) n" "distinct (a # xs)"
  shows "links (h(a := (h a)\<lparr>eprev := p'\<rparr>)) p' (a # xs) n"
  using assms by auto

lemma hd_opt_Some: "xs \<noteq> [] \<Longrightarrow> hd_opt xs n = Some (hd xs)"
  by (cases xs) auto

lemma payload_upd [simp]:
  "payload (h(a := (h a)\<lparr>enext := x\<rparr>)) = payload h" "payload (h(a := (h a)\<lparr>eprev := y\<rparr>)) = payload h"
  "payload (h(a := (h a)\<lparr>enext := x, eprev := y\<rparr>)) = payload h"
  by (simp_all add: payload_def fun_eq_iff)

lemma addToFront_payload: "payload (fst (addToFront e (h, s))) = payload h"
  using payload_upd(2) [of "h(e := (h e)\<lparr>enext := shead s, eprev := None\<rparr>)" "the (shead s)" "Some e"]
  by (simp add: addToFront_def Let_def split: option.splits del: fun_upd_apply)

lemma removeEntry_payload: "payload (fst (removeEntry e (h, s))) = payload h"
proof -
  let ?r = "case eprev (h e) of Some p \<Rightarrow> (h(p := (h p)\<lparr>enext := enext (h e)\<rparr>), s) | None \<Rightarrow> (h, s\<lparr>shead := enext (h e)\<rparr>)"
  obtain h1 s1 where r: "?r = (h1, s1)" by (cases ?r)
  then have "payload h1 = payload h" by (auto split: option.splits)
  moreover have "payload (fst (removeEntry e (h, s))) = payload h1"
    unfolding removeEntry_def prod.case r Let_def by (simp split: option.splits del: fun_upd_apply)
  ultimately show ?thesis by simp
qed

lemma addToFront_dll:
  assumes "dll h s xs" "e \<notin> set xs" "addToFront e (h, s) = (h', s')"
  shows "dll h' s' (e # xs)" "items s' = items s" "maxSize s' = maxSize s"
    "payload h' = payload h" "\<And>a. a \<notin> set (e # xs) \<Longrightarrow> h' a = h a"
proof -
  show "items s' = items s" "maxSize s' = maxSize s"
    using assms(3) by (auto simp: addToFront_def Let_def split: option.splits)
  show "payload h' = payload h"
    using addToFront_payload [of e h s] assms(3) by simp
  show "h' a = h a" if "a \<notin> set (e # xs)" for a
    using assms(1,3) that by (cases xs) (auto simp: addToFront_def Let_def dll_def)
  show "dll h' s' (e # xs)"
  proof (cases xs)
    case Nil
    then show ?thesis using assms by (auto simp: addToFront_def Let_def dll_def)
  next
    case (Cons b bs)
    then have "stail s \<noteq> None" using assms(1) by (auto simp: dll_def last_opt_def)
    then show ?thesis using assms Cons by (auto simp: addToFront_def Let_def dll_def)
  qed
qed

lemma removeEntry_dll:
  assumes "dll h s (as @ e # bs)" "removeEntry e (h, s) = (h', s')"
  shows "dll h' s' (as @ bs)" "items s' = items s" "maxSize s' = maxSize s"
    "payload h' = payload h" "\<And>a. a \<notin> set (as @ bs) \<Longrightarrow> h' a = h a"
proof -
  have l: "links h None as (Some e)" "eprev (h e) = last_opt None as" "enext (h e) = hd_opt bs None"
      "links h (Some e) bs None" "distinct (as @ e # bs)"
      "shead s = hd_opt (as @ e # bs) None" "stail s = last_opt None (as @ e # bs)"
    using assms(1) by (simp_all add: dll_def links_append)
  show "items s' = items s" "maxSize s' = maxSize s"
    using assms(2) by (auto simp: removeEntry_def Let_def split: option.splits prod.splits)
  show "payload h' = payload h"
    using removeEntry_payload [of e h s] assms(2) by simp
  consider "as = []" "bs = []" | b bs' where "as = []" "bs = b # bs'" | as' p where "as = as' @ [p]" "bs = []"
    | as' p b bs' where "as = as' @ [p]" "bs = b # bs'"
    by (cases as rule: rev_cases; cases bs) auto
  then have "dll h' s' (as @ bs) \<and> (\<forall>a. a \<notin> set (as @ bs) \<longrightarrow> h' a = h a)"
  proof cases
    case 1
    then have "h' = h" "s' = s\<lparr>shead := None, stail := None\<rparr>"
      using assms(2) l(2,3) by (simp_all add: removeEntry_def)
    then show ?thesis using 1 by (simp add: dll_def)
  next
    case 2
    then have "h' = h(b := (h b)\<lparr>eprev := None\<rparr>)" "s' = s\<lparr>shead := Some b\<rparr>"
      using assms(2) l(2,3) by (simp_all add: removeEntry_def)
    then show ?thesis using 2 l by (simp add: dll_def)
  next
    case 3
    then have "h' = h(p := (h p)\<lparr>enext := None\<rparr>)" "s' = s\<lparr>stail := Some p\<rparr>"
      using assms(2) l(2,3,5) by (auto simp: removeEntry_def)
    then show ?thesis using 3 l by (simp add: dll_def links_append)
  next
    case 4
    then have r: "h' = h(p := (h p)\<lparr>enext := Some b\<rparr>, b := (h b)\<lparr>eprev := Some p\<rparr>)" "s' = s"
      using assms(2) l(2,3,5) by (auto simp: removeEntry_def fun_upd_twist)
    have "links h' None (as' @ [p]) (Some b)" "links h' (Some p) (b # bs') None"
      using l(1,4,5) unfolding r 4 by (auto simp: links_append)
    then show ?thesis using l(5-7) unfolding 4 by (simp add: dll_def links_append r)
  qed
  then show "dll h' s' (as @ bs)" "\<And>a. a \<notin> set (as @ bs) \<Longrightarrow> h' a = h a" by blast+
qed

lemma find_victim_mem:
  assumes "links h None ys n" "length ys < fuel"
  shows "\<exists>v \<in> insert oldest (set ys). find_victim fuel lfu h first newFreq oldest (last_opt None ys) = Some v"
  using assms
proof (induction ys arbitrary: fuel n rule: rev_induct)
  case Nil
  then show ?case by (cases fuel) auto
next
  case (snoc a ys)
  then obtain f where f: "fuel = Suc f" "length ys < f" by (cases fuel) auto
  have "links h None ys (Some a)" "eprev (h a) = last_opt None ys" using snoc.prems(1) by (simp_all add: links_append)
  with snoc.IH [of "Some a" f] f show ?case by (auto simp: last_opt_def [of None "_ @ _"])
qed

section \<open>Shards\<close>

text \<open>
  A shard is well formed for the list \<open>xs\<close> of its entries, most recently used first: the pointers
  link \<open>xs\<close>, the map has exactly these entries under their keys, and the size is bounded.
\<close>

definition shard_ok :: "'v heap \<Rightarrow> shard \<Rightarrow> nat list \<Rightarrow> bool" where
  "shard_ok h s xs \<longleftrightarrow> dll h s xs \<and> distinct (map fst (items s))
     \<and> set (items s) = (\<lambda>a. (ekey (h a), a)) ` set xs \<and> (0 < maxSize s \<longrightarrow> length xs \<le> maxSize s)"

lemma payload_eqD:
  "payload h' = payload h \<Longrightarrow> ekey (h' a) = ekey (h a)"
  "payload h' = payload h \<Longrightarrow> evalue (h' a) = evalue (h a)"
  "payload h' = payload h \<Longrightarrow> expireAt (h' a) = expireAt (h a)"
  by (simp_all add: payload_def fun_eq_iff)

lemma shard_ok_map:
  assumes "shard_ok h s xs"
  shows "map_of (items s) k = Some a \<longleftrightarrow> a \<in> set xs \<and> ekey (h a) = k"
  using assms by (auto simp: shard_ok_def)

lemma shard_ok_length:
  assumes "shard_ok h s xs"
  shows "length (items s) = length xs"
proof -
  have d: "distinct (items s)" "distinct xs" using assms by (auto simp: shard_ok_def dll_def distinct_map)
  have "length (items s) = card (set (items s))" using d(1) by (simp add: distinct_card)
  also have "\<dots> = card (set xs)" using assms by (simp add: shard_ok_def card_image inj_on_def)
  finally show ?thesis using d(2) by (simp add: distinct_card)
qed

lemma shard_ok_heap:
  assumes "shard_ok h s xs" "\<And>a. a \<in> set xs \<Longrightarrow> h' a = h a"
  shows "shard_ok h' s xs"
  using assms links_cong [of xs h' h None None] by (simp add: shard_ok_def dll_def cong: image_cong_simp)

lemma unlink_ok:
  assumes "shard_ok h s xs" "map_of (items s) key = Some e" "unlink key e (h, s) = (h', s')"
  shows "shard_ok h' s' (remove1 e xs)" "payload h' = payload h" "\<And>a. a \<notin> set xs \<Longrightarrow> h' a = h a"
    "items s' = AList.delete key (items s)" "maxSize s' = maxSize s" "e \<in> set xs"
proof -
  have e: "e \<in> set xs" "ekey (h e) = key" using shard_ok_map [OF assms(1)] assms(2) by blast+
  then obtain as bs where xs: "xs = as @ e # bs" by (metis split_list)
  have d: "dll h (s\<lparr>items := AList.delete key (items s)\<rparr>) (as @ e # bs)" "distinct xs"
    using assms(1) xs by (simp_all add: shard_ok_def dll_def)
  note r = removeEntry_dll [OF d(1) assms(3) [unfolded unlink_def fst_conv snd_conv]]
  have rm: "remove1 e xs = as @ bs" using d(2) xs by (simp add: remove1_append)
  show "payload h' = payload h" "maxSize s' = maxSize s" "e \<in> set xs" using r e by auto
  show "h' a = h a" if "a \<notin> set xs" for a using r(5) that xs by auto
  show it: "items s' = AList.delete key (items s)" using r(2) by simp
  have ds: "distinct (map fst (items s))" "set (items s) = (\<lambda>a. (ekey (h a), a)) ` set xs"
    using assms(1) by (simp_all add: shard_ok_def)
  have "ekey (h a) \<noteq> key" if "a \<in> set xs" "a \<noteq> e" for a
    using that e ds shard_ok_map [OF assms(1)] by (metis option.inject)
  then have "\<forall>a \<in> set (as @ bs). ekey (h a) \<noteq> key" using d(2) xs by auto
  then have "set (AList.delete key (items s)) = (\<lambda>a. (ekey (h' a), a)) ` set (as @ bs)"
    using ds d(2) e xs payload_eqD(1) [OF r(4)] by (auto simp: AList.delete_eq)
  then show "shard_ok h' s' (remove1 e xs)"
    using r(1,3) assms(1) it unfolding rm by (auto simp: shard_ok_def xs)
qed

lemma addToFront_ok:
  assumes "shard_ok h s xs" "e \<notin> set xs" "map_of (items s) key = None" "ekey (h e) = key"
    and "0 < maxSize s \<longrightarrow> length xs < maxSize s"
    and "addToFront e (h, s\<lparr>items := AList.update key e (items s)\<rparr>) = (h', s')"
  shows "shard_ok h' s' (e # xs)" "payload h' = payload h" "\<And>a. a \<notin> set (e # xs) \<Longrightarrow> h' a = h a"
    "items s' = AList.update key e (items s)" "maxSize s' = maxSize s"
proof -
  have d: "dll h (s\<lparr>items := AList.update key e (items s)\<rparr>) xs" using assms(1) by (simp add: shard_ok_def dll_def)
  note r = addToFront_dll [OF d assms(2,6)]
  show "payload h' = payload h" "maxSize s' = maxSize s" "items s' = AList.update key e (items s)" using r by auto
  show "h' a = h a" if "a \<notin> set (e # xs)" for a using r(5) that by simp
  have "AList.update key e (items s) = items s @ [(key, e)]"
    using assms(3) by (rule update_new)
  then have "set (AList.update key e (items s)) = (\<lambda>a. (ekey (h' a), a)) ` set (e # xs)"
    using assms(1,4) payload_eqD(1) [OF r(4)] by (auto simp: shard_ok_def)
  moreover have "distinct (map fst (AList.update key e (items s)))"
    using assms(1) by (intro distinct_keys_update) (simp add: shard_ok_def)
  ultimately show "shard_ok h' s' (e # xs)"
    using r(1-3) assms(5) by (auto simp: shard_ok_def)
qed

lemma to_front_ok:
  assumes "shard_ok h s xs" "e \<in> set xs" "addToFront e (removeEntry e (h, s)) = (h', s')"
  shows "shard_ok h' s' (e # remove1 e xs)" "payload h' = payload h" "\<And>a. a \<notin> set xs \<Longrightarrow> h' a = h a"
    "items s' = items s" "maxSize s' = maxSize s"
proof -
  obtain as bs where xs: "xs = as @ e # bs" using assms(2) by (metis split_list)
  have d: "dll h s (as @ e # bs)" "distinct xs" using assms(1) xs by (simp_all add: shard_ok_def dll_def)
  obtain h1 s1 where r0: "removeEntry e (h, s) = (h1, s1)" by fastforce
  note r = removeEntry_dll [OF d(1) r0]
  have "e \<notin> set (as @ bs)" using d(2) xs by simp
  note a = addToFront_dll [OF r(1) this assms(3) [unfolded r0]]
  have rm: "remove1 e xs = as @ bs" using d(2) xs by (simp add: remove1_append)
  show pl: "payload h' = payload h" "items s' = items s" "maxSize s' = maxSize s" using r a by auto
  show "h' a = h a" if "a \<notin> set xs" for a using r(5) a(5) that xs by auto
  show "shard_ok h' s' (e # remove1 e xs)"
    using a(1) assms(1) pl payload_eqD(1) [OF pl(1)] unfolding rm by (auto simp: shard_ok_def xs)
qed

section \<open>The whole cache\<close>

text \<open>
  \<open>xss\<close> gives the entry list of each shard. The shards share the heap, so their entries must be
  different objects, and none of them may be in the pool.
\<close>

definition cache_wf :: "(string \<Rightarrow> uint64 \<times> uint64) \<Rightarrow> 'v Cache \<Rightarrow> nat list list \<Rightarrow> bool" where
  "cache_wf H c xss \<longleftrightarrow> length xss = length (cshards c)
     \<and> (\<forall>i < length xss. shard_ok (heap c) (cshards c ! i) (xss ! i)
          \<and> (\<forall>a \<in> set (xss ! i). a < fresh c \<and> a \<notin> set (entryPool c)
               \<and> cache_getShard H (ekey (heap c a)) c = Some i))
     \<and> (\<forall>i < length xss. \<forall>j < length xss. i \<noteq> j \<longrightarrow> set (xss ! i) \<inter> set (xss ! j) = {})
     \<and> distinct (entryPool c) \<and> (\<forall>a \<in> set (entryPool c). a < fresh c)"

definition cache_inv :: "(string \<Rightarrow> uint64 \<times> uint64) \<Rightarrow> 'v Cache \<Rightarrow> bool" where
  "cache_inv H c \<longleftrightarrow> (\<exists>xss. cache_wf H c xss)"

text \<open>What the cache holds for a key: the value and its expiration.\<close>

definition cview :: "(string \<Rightarrow> uint64 \<times> uint64) \<Rightarrow> 'v Cache \<Rightarrow> string \<Rightarrow> ('v \<times> int64) option" where
  "cview H c key = (case cache_getShard H key c of None \<Rightarrow> None
     | Some i \<Rightarrow> map_option (\<lambda>e. snd (payload (heap c) e)) (map_of (items (cshards c ! i)) key))"

lemma cache_getShard_cong:
  "length (cshards c') = length (cshards c) \<Longrightarrow> cshardMask c' = cshardMask c
   \<Longrightarrow> cache_getShard H key c' = cache_getShard H key c"
  by (simp add: cache_getShard_def)

lemma cache_getShard_less: "cache_getShard H key c = Some i \<Longrightarrow> i < length (cshards c)"
  by (auto simp: cache_getShard_def Let_def word_le_nat_alt not_le unat_of_nat split: prod.splits if_splits
      intro: less_le_trans [OF _ mod_less_eq_dividend])

lemma cache_wfD:
  assumes "cache_wf H c xss"
  shows "length xss = length (cshards c)"
    and "i < length xss \<Longrightarrow> shard_ok (heap c) (cshards c ! i) (xss ! i)"
    and "i < length xss \<Longrightarrow> a \<in> set (xss ! i) \<Longrightarrow> a < fresh c \<and> a \<notin> set (entryPool c)"
    and "i < length xss \<Longrightarrow> a \<in> set (xss ! i) \<Longrightarrow> cache_getShard H (ekey (heap c a)) c = Some i"
    and "i < length xss \<Longrightarrow> j < length xss \<Longrightarrow> j \<noteq> i \<Longrightarrow> a \<in> set (xss ! j) \<Longrightarrow> a \<notin> set (xss ! i)"
    and "distinct (entryPool c)" and "a \<in> set (entryPool c) \<Longrightarrow> a < fresh c"
  using assms unfolding cache_wf_def by blast+

text \<open>One critical section: shard \<open>i\<close> goes from \<open>xss ! i\<close> to \<open>ys\<close>.\<close>

lemma cache_wf_step:
  assumes "cache_wf H c xss" "i < length xss" "shard_ok (heap c') s' ys"
    and c': "cshards c' = (cshards c)[i := s']" "cshardMask c' = cshardMask c"
    and fr: "\<And>a. a \<notin> set (xss ! i) \<union> set ys \<Longrightarrow> heap c' a = heap c a"
    and ys: "\<And>a. a \<in> set ys \<Longrightarrow> a < fresh c' \<and> a \<notin> set (entryPool c') \<and> cache_getShard H (ekey (heap c' a)) c = Some i"
    and others: "\<And>j a. j < length xss \<Longrightarrow> j \<noteq> i \<Longrightarrow> a \<in> set (xss ! j) \<Longrightarrow> a \<notin> set ys \<and> a < fresh c' \<and> a \<notin> set (entryPool c')"
    and pool: "distinct (entryPool c')" "\<And>a. a \<in> set (entryPool c') \<Longrightarrow> a < fresh c'"
  shows "cache_wf H c' (xss[i := ys])"
proof -
  have len: "length xss = length (cshards c)" using assms(1) by (simp add: cache_wf_def)
  have g: "cache_getShard H k c' = cache_getShard H k c" for k using c' by (intro cache_getShard_cong) simp_all
  have same: "heap c' a = heap c a" if "j < length xss" "j \<noteq> i" "a \<in> set (xss ! j)" for j a
    using cache_wfD(5) [OF assms(1,2) that] others [OF that] by (intro fr) simp
  have "shard_ok (heap c') (cshards c ! j) (xss ! j)
      \<and> (\<forall>a \<in> set (xss ! j). a < fresh c' \<and> a \<notin> set (entryPool c') \<and> cache_getShard H (ekey (heap c' a)) c' = Some j)"
    if "j < length xss" "j \<noteq> i" for j
    using cache_wfD(2,4) [OF assms(1) that(1)] same [OF that] others [OF that] g
    by (auto intro: shard_ok_heap)
  then show ?thesis
    using assms(1-3) c' ys others pool g len
    by (auto simp: cache_wf_def nth_list_update)
qed

lemma cview_step:
  assumes wf: "cache_wf H c xss" "i < length xss"
    and c': "cshards c' = (cshards c)[i := s']" "cshardMask c' = cshardMask c"
    and pay: "\<And>a. a \<notin> {e} \<Longrightarrow> payload (heap c') a = payload (heap c) a"
    and e: "\<And>j. j < length xss \<Longrightarrow> j \<noteq> i \<Longrightarrow> e \<notin> set (xss ! j)"
    and key: "cache_getShard H k c = Some j" "j \<noteq> i"
  shows "cview H c' k = cview H c k"
proof -
  have len: "length xss = length (cshards c)" using wf(1) by (simp add: cache_wf_def)
  have j: "j < length xss" using cache_getShard_less [OF key(1)] len by simp
  have g: "cache_getShard H k c' = Some j" using c' key(1) cache_getShard_cong [of c' c H k] by simp
  have "payload (heap c') a = payload (heap c) a" if "map_of (items (cshards c ! j)) k = Some a" for a
  proof -
    have "shard_ok (heap c) (cshards c ! j) (xss ! j)" using wf(1) j by (simp add: cache_wf_def)
    then have "a \<in> set (xss ! j)" using shard_ok_map that by blast
    then have "a \<noteq> e" using e [OF j key(2)] by blast
    then show ?thesis using pay by simp
  qed
  then show ?thesis
    using g key c' by (cases "map_of (items (cshards c ! j)) k") (auto simp: cview_def)
qed

definition sizes :: "'v Cache \<Rightarrow> nat list" where
  "sizes c = map maxSize (cshards c)"

lemma put_back_simps [simp]:
  "cshards (put_back i c hs) = (cshards c)[i := snd hs]" "heap (put_back i c hs) = fst hs"
  "cshardMask (put_back i c hs) = cshardMask c" "entryPool (put_back i c hs) = entryPool c"
  "fresh (put_back i c hs) = fresh c" "closed (put_back i c hs) = closed c" "tinyLFU (put_back i c hs) = tinyLFU c"
  by (simp_all add: put_back_def)

lemma pool_Put_simps [simp]:
  "cshards (entryPool_Put e c) = cshards c" "heap (entryPool_Put e c) = heap c" "cshardMask (entryPool_Put e c) = cshardMask c"
  "entryPool (entryPool_Put e c) = e # entryPool c" "fresh (entryPool_Put e c) = fresh c" "closed (entryPool_Put e c) = closed c"
  "tinyLFU (entryPool_Put e c) = tinyLFU c"
  by (simp_all add: entryPool_Put_def)

lemma cview_fields:
  "cshards c' = cshards c \<Longrightarrow> cshardMask c' = cshardMask c \<Longrightarrow> heap c' = heap c \<Longrightarrow> cview H c' = cview H c"
  by (rule ext) (simp add: cview_def cache_getShard_cong [of c' c] split: option.split)

lemma cache_wf_lfu [simp]: "cache_wf H (c\<lparr>tinyLFU := t\<rparr>) xss = cache_wf H c xss"
  by (simp add: cache_wf_def cache_getShard_def)

lemma sizes_update: "i < length (cshards c) \<Longrightarrow> maxSize s' = maxSize (cshards c ! i) \<Longrightarrow>
    map maxSize ((cshards c)[i := s']) = sizes c"
  by (simp add: sizes_def map_update list_update_same_conv)

lemma unlink_cache:
  assumes "cache_wf H c xss" "cache_getShard H key c = Some i" "map_of (items (cshards c ! i)) key = Some e"
    and c1: "c1 = put_back i c (unlink key e (heap c, cshards c ! i))"
  shows "cache_wf H c1 (xss[i := remove1 e (xss ! i)])" "cache_wf H (entryPool_Put e c1) (xss[i := remove1 e (xss ! i)])"
    "cview H c1 = (cview H c)(key := None)" "cview H (entryPool_Put e c1) = (cview H c)(key := None)"
    "sizes c1 = sizes c" "length (remove1 e (xss ! i)) < length (xss ! i)"
    "items (cshards c1 ! i) = AList.delete key (items (cshards c ! i))"
proof -
  have i: "i < length xss" "i < length (cshards c)" using cache_getShard_less [OF assms(2)] cache_wfD(1) [OF assms(1)] by simp_all
  obtain h' s' where u: "unlink key e (heap c, cshards c ! i) = (h', s')" by fastforce
  note U = unlink_ok [OF cache_wfD(2) [OF assms(1) i(1)] assms(3) u]
  have d: "distinct (xss ! i)" using cache_wfD(2) [OF assms(1) i(1)] by (simp add: shard_ok_def dll_def)
  have c: "cshards c1 = (cshards c)[i := s']" "heap c1 = h'" "cshardMask c1 = cshardMask c"
    "entryPool c1 = entryPool c" "fresh c1 = fresh c" using c1 u by simp_all
  have fr: "h' a = heap c a" if "a \<notin> set (xss ! i) \<union> set (remove1 e (xss ! i))" for a using U(3) that by simp
  have home: "a < fresh c \<and> a \<notin> set (entryPool c) \<and> a \<noteq> e \<and> cache_getShard H (ekey (h' a)) c = Some i"
    if "a \<in> set (remove1 e (xss ! i))" for a
    using cache_wfD(3,4) [OF assms(1) i(1)] that d payload_eqD(1) [OF U(2)] by auto
  have oth: "a \<notin> set (xss ! i) \<and> a \<notin> set (remove1 e (xss ! i)) \<and> a < fresh c \<and> a \<notin> set (entryPool c) \<and> a \<noteq> e"
    if "j < length xss" "j \<noteq> i" "a \<in> set (xss ! j)" for j a
    using cache_wfD(3) [OF assms(1) that(1,3)] cache_wfD(5) [OF assms(1) i(1) that] U(6)
    by (auto dest: notin_set_remove1)
  show w: "cache_wf H c1 (xss[i := remove1 e (xss ! i)])"
  proof (rule cache_wf_step [OF assms(1) i(1), where s' = s'])
    show "heap c1 a = heap c a" if "a \<notin> set (xss ! i) \<union> set (remove1 e (xss ! i))" for a using fr [OF that] c by simp
    show "a < fresh c1 \<and> a \<notin> set (entryPool c1) \<and> cache_getShard H (ekey (heap c1 a)) c = Some i"
      if "a \<in> set (remove1 e (xss ! i))" for a using home [OF that] c by simp
    show "a \<notin> set (remove1 e (xss ! i)) \<and> a < fresh c1 \<and> a \<notin> set (entryPool c1)"
      if "j < length xss" "j \<noteq> i" "a \<in> set (xss ! j)" for j a using oth [OF that] c by simp
  qed (use U(1) c cache_wfD(6,7) [OF assms(1)] in simp_all)
  show "cache_wf H (entryPool_Put e c1) (xss[i := remove1 e (xss ! i)])"
  proof (rule cache_wf_step [OF assms(1) i(1), where s' = s'])
    show "heap (entryPool_Put e c1) a = heap c a" if "a \<notin> set (xss ! i) \<union> set (remove1 e (xss ! i))" for a
      using fr [OF that] c by simp
    show "a < fresh (entryPool_Put e c1) \<and> a \<notin> set (entryPool (entryPool_Put e c1)) \<and> cache_getShard H (ekey (heap (entryPool_Put e c1) a)) c = Some i"
      if "a \<in> set (remove1 e (xss ! i))" for a using home [OF that] c by simp
    show "a \<notin> set (remove1 e (xss ! i)) \<and> a < fresh (entryPool_Put e c1) \<and> a \<notin> set (entryPool (entryPool_Put e c1))"
      if "j < length xss" "j \<noteq> i" "a \<in> set (xss ! j)" for j a using oth [OF that] c by simp
  qed (use U(1) c cache_wfD(6,7) [OF assms(1)] cache_wfD(3) [OF assms(1) i(1) U(6)] in auto)
  show cv: "cview H c1 = (cview H c)(key := None)"
  proof
    fix k
    have g: "cache_getShard H k c1 = cache_getShard H k c" using c by (intro cache_getShard_cong) simp_all
    show "cview H c1 k = ((cview H c)(key := None)) k"
    proof (cases "cache_getShard H k c")
      case (Some j)
      show ?thesis
      proof (cases "j = i")
        case True
        then show ?thesis
          using g Some assms(2) i(2) U(2,4) c by (auto simp: cview_def)
      next
        case False
        with cview_step [OF assms(1) i(1) c(1,3), of e k j] U(2) c(2) oth Some assms(2) show ?thesis by auto
      qed
    qed (use g assms(2) in \<open>auto simp: cview_def\<close>)
  qed
  then show "cview H (entryPool_Put e c1) = (cview H c)(key := None)" by (subst cview_fields) simp_all
  show "sizes c1 = sizes c" using sizes_update [OF i(2), of s'] U(5) c(1) by (simp add: sizes_def)
  show "length (remove1 e (xss ! i)) < length (xss ! i)" using U(6) by (metis diff_less length_pos_if_in_set length_remove1 zero_less_one)
  show "items (cshards c1 ! i) = AList.delete key (items (cshards c ! i))" using c U(4) i(2) by simp
qed

text \<open>Moving an entry to the front, after an assignment to its payload.\<close>

lemma to_front_cache:
  assumes "cache_wf H c xss" "cache_getShard H key c = Some i" "map_of (items (cshards c ! i)) key = Some e"
    and c1: "c1 = put_back i c (moveToFront e ((heap c)(e := (heap c e)\<lparr>evalue := v, expireAt := ex\<rparr>), cshards c ! i))"
  shows "\<exists>ys. cache_wf H c1 (xss[i := ys])" "cview H c1 = (cview H c)(key \<mapsto> (v, ex))" "sizes c1 = sizes c"
proof -
  have i: "i < length xss" "i < length (cshards c)" using cache_getShard_less [OF assms(2)] cache_wfD(1) [OF assms(1)] by simp_all
  let ?h = "(heap c)(e := (heap c e)\<lparr>evalue := v, expireAt := ex\<rparr>)" and ?s = "cshards c ! i"
  have e: "e \<in> set (xss ! i)" "ekey (heap c e) = key"
    using shard_ok_map [OF cache_wfD(2) [OF assms(1) i(1)]] assms(3) by blast+
  have ok: "shard_ok ?h ?s (xss ! i)"
  proof -
    have "links ?h None (xss ! i) None = links (heap c) None (xss ! i) None" by (rule links_cong) simp
    moreover have "(\<lambda>a. (ekey (?h a), a)) = (\<lambda>a. (ekey (heap c a), a))" by (rule ext) simp
    ultimately show ?thesis using cache_wfD(2) [OF assms(1) i(1)] by (auto simp only: shard_ok_def dll_def)
  qed
  obtain h' s' where m: "moveToFront e (?h, ?s) = (h', s')" by fastforce
  have "\<exists>ys. shard_ok h' s' ys \<and> set ys = set (xss ! i) \<and> payload h' = payload ?h
      \<and> (\<forall>a. a \<notin> set (xss ! i) \<longrightarrow> h' a = ?h a) \<and> items s' = items ?s \<and> maxSize s' = maxSize ?s"
  proof (cases "shead ?s = Some e")
    case True
    then show ?thesis using m ok by (intro exI [of _ "xss ! i"]) (simp add: moveToFront_def)
  next
    case False
    then have "addToFront e (removeEntry e (?h, ?s)) = (h', s')" using m by (simp add: moveToFront_def)
    note F = to_front_ok [OF ok e(1) this]
    have "set (e # remove1 e (xss ! i)) = set (xss ! i)"
      using e(1) ok by (auto simp: shard_ok_def dll_def)
    then show ?thesis using F by (intro exI [of _ "e # remove1 e (xss ! i)"]) auto
  qed
  then obtain ys where ys: "shard_ok h' s' ys" "set ys = set (xss ! i)" "payload h' = payload ?h"
    "\<And>a. a \<notin> set (xss ! i) \<Longrightarrow> h' a = ?h a" "items s' = items ?s" "maxSize s' = maxSize ?s" by blast
  have c: "cshards c1 = (cshards c)[i := s']" "heap c1 = h'" "cshardMask c1 = cshardMask c"
    "entryPool c1 = entryPool c" "fresh c1 = fresh c" using c1 m by simp_all
  have k: "ekey (h' a) = ekey (heap c a)" for a using payload_eqD(1) [OF ys(3), of a] by auto
  have "cache_wf H c1 (xss[i := ys])"
  proof (rule cache_wf_step [OF assms(1) i(1), where s' = s'])
    show "shard_ok (heap c1) s' ys" using ys(1) c by simp
    show "heap c1 a = heap c a" if "a \<notin> set (xss ! i) \<union> set ys" for a
      using ys(4) [of a] that c e(1) by auto
    show "a < fresh c1 \<and> a \<notin> set (entryPool c1) \<and> cache_getShard H (ekey (heap c1 a)) c = Some i" if "a \<in> set ys" for a
      using that cache_wfD(3,4) [OF assms(1) i(1), of a] c k ys(2) by simp
    show "a \<notin> set ys \<and> a < fresh c1 \<and> a \<notin> set (entryPool c1)" if "j < length xss" "j \<noteq> i" "a \<in> set (xss ! j)" for j a
      using cache_wfD(3) [OF assms(1) that(1,3)] cache_wfD(5) [OF assms(1) i(1) that] ys(2) c by simp
  qed (use c cache_wfD(6,7) [OF assms(1)] in auto)
  then show "\<exists>ys. cache_wf H c1 (xss[i := ys])" by blast
  show "sizes c1 = sizes c" using sizes_update [OF i(2), of s'] ys(6) c(1) by (simp add: sizes_def)
  show "cview H c1 = (cview H c)(key \<mapsto> (v, ex))"
  proof
    fix k
    have g: "cache_getShard H k c1 = cache_getShard H k c" using c by (intro cache_getShard_cong) simp_all
    have p: "payload h' a = (if a = e then (key, v, ex) else payload (heap c) a)" for a
      using ys(3) e by (simp add: payload_def fun_eq_iff)
    show "cview H c1 k = ((cview H c)(key \<mapsto> (v, ex))) k"
    proof (cases "cache_getShard H k c")
      case (Some j)
      show ?thesis
      proof (cases "j = i")
        case True
        have c1v: "cview H c1 k = map_option (\<lambda>a. snd (payload h' a)) (map_of (items ?s) k)"
          using g Some True i(2) ys(5) c by (simp add: cview_def)
        have cv: "cview H c k = map_option (\<lambda>a. snd (payload (heap c) a)) (map_of (items ?s) k)"
          using Some True by (simp add: cview_def)
        have "a \<noteq> e" if "map_of (items ?s) k = Some a" "k \<noteq> key" for a
          using that e(2) shard_ok_map [OF cache_wfD(2) [OF assms(1) i(1)], of k a] by auto
        then show ?thesis
          unfolding c1v fun_upd_apply cv using assms(3) p by (cases "k = key"; cases "map_of (items ?s) k") auto
      next
        case False
        have "e \<notin> set (xss ! l)" if "l < length xss" "l \<noteq> i" for l using cache_wfD(5) [OF assms(1) that(1) i(1)] that(2) e(1) by metis
        with cview_step [OF assms(1) i(1) c(1,3), of e k j] p c(2) False Some assms(2) show ?thesis by auto
      qed
    qed (use g assms(2) in \<open>auto simp: cview_def\<close>)
  qed
qed

text \<open>Inserting an entry for a key the shard does not have.\<close>

lemma pool_Get_fresh:
  assumes "cache_wf H c xss" "entryPool_Get c = (e, c2)"
  shows "cache_wf H c2 xss" "cview H c2 = cview H c" "sizes c2 = sizes c" "closed c2 = closed c"
    "cshards c2 = cshards c" "cshardMask c2 = cshardMask c" "tinyLFU c2 = tinyLFU c"
    "e < fresh c2" "e \<notin> set (entryPool c2)" "\<And>i. i < length xss \<Longrightarrow> e \<notin> set (xss ! i)"
proof -
  have f: "cshards c2 = cshards c" "cshardMask c2 = cshardMask c" "heap c2 = heap c" "closed c2 = closed c" "tinyLFU c2 = tinyLFU c"
    using assms(2) by (auto simp: entryPool_Get_def split: list.splits)
  then show "cshards c2 = cshards c" "cshardMask c2 = cshardMask c" "closed c2 = closed c" "tinyLFU c2 = tinyLFU c"
    "cview H c2 = cview H c" "sizes c2 = sizes c"
    by (auto simp: sizes_def intro: cview_fields)
  have g: "cache_getShard H k c2 = cache_getShard H k c" for k using f by (intro cache_getShard_cong) simp_all
  have x: "e < fresh c2 \<and> e \<notin> set (entryPool c2) \<and> fresh c \<le> fresh c2 \<and> set (entryPool c2) \<subseteq> set (entryPool c)
      \<and> distinct (entryPool c2)"
    using assms cache_wfD(6,7) [OF assms(1)] by (auto simp: entryPool_Get_def split: list.splits)
  then show "e < fresh c2" "e \<notin> set (entryPool c2)" by blast+
  show "e \<notin> set (xss ! i)" if "i < length xss" for i
    using assms(2) cache_wfD(3) [OF assms(1) that, of e] by (auto simp: entryPool_Get_def split: list.splits)
  have "\<forall>i < length xss. \<forall>a \<in> set (xss ! i). a < fresh c2 \<and> a \<notin> set (entryPool c2)"
    using cache_wfD(3) [OF assms(1)] x by (meson less_le_trans subsetD)
  moreover have "\<forall>a \<in> set (entryPool c2). a < fresh c2"
    using cache_wfD(7) [OF assms(1)] x by (meson less_le_trans subsetD)
  ultimately show "cache_wf H c2 xss"
    unfolding cache_wf_def f g using assms(1) x by (simp add: cache_wf_def)
qed

lemma insert_cache:
  assumes "cache_wf H c xss" "cache_getShard H key c = Some i" "map_of (items (cshards c ! i)) key = None"
    and room: "0 < maxSize (cshards c ! i) \<longrightarrow> length (xss ! i) < maxSize (cshards c ! i)"
    and e: "e < fresh c" "e \<notin> set (entryPool c)" "\<And>j. j < length xss \<Longrightarrow> e \<notin> set (xss ! j)"
    and c1: "c1 = put_back i c (addToFront e
        ((heap c)(e := \<lparr>ekey = key, evalue = v, expireAt = ex, enext = None, eprev = None\<rparr>),
         (cshards c ! i)\<lparr>items := AList.update key e (items (cshards c ! i))\<rparr>))"
  shows "cache_wf H c1 (xss[i := e # xss ! i])" "cview H c1 = (cview H c)(key \<mapsto> (v, ex))" "sizes c1 = sizes c"
proof -
  have i: "i < length xss" "i < length (cshards c)" using cache_getShard_less [OF assms(2)] cache_wfD(1) [OF assms(1)] by simp_all
  let ?h = "(heap c)(e := \<lparr>ekey = key, evalue = v, expireAt = ex, enext = None, eprev = None\<rparr>)" and ?s = "cshards c ! i"
  have ne: "e \<notin> set (xss ! i)" using e(3) i(1) by blast
  have ok: "shard_ok ?h ?s (xss ! i)"
    using cache_wfD(2) [OF assms(1) i(1)] ne by (elim shard_ok_heap) auto
  obtain h' s' where a: "addToFront e (?h, ?s\<lparr>items := AList.update key e (items ?s)\<rparr>) = (h', s')" by fastforce
  note A = addToFront_ok [OF ok ne assms(3) _ room a]
  have c: "cshards c1 = (cshards c)[i := s']" "heap c1 = h'" "cshardMask c1 = cshardMask c"
    "entryPool c1 = entryPool c" "fresh c1 = fresh c" using c1 a by simp_all
  have p: "payload h' a = (if a = e then (key, v, ex) else payload (heap c) a)" for a
    using A(2) by (simp add: payload_def fun_eq_iff)
  have k: "ekey (h' a) = (if a = e then key else ekey (heap c a))" for a
    using p [of a] by (simp add: payload_def split: if_splits)
  show "cache_wf H c1 (xss[i := e # xss ! i])"
  proof (rule cache_wf_step [OF assms(1) i(1), where s' = s'])
    show "shard_ok (heap c1) s' (e # xss ! i)" using A(1) c by simp
    show "heap c1 a = heap c a" if "a \<notin> set (xss ! i) \<union> set (e # xss ! i)" for a
      using A(3) [of a] that c by simp
    show "a < fresh c1 \<and> a \<notin> set (entryPool c1) \<and> cache_getShard H (ekey (heap c1 a)) c = Some i"
      if "a \<in> set (e # xss ! i)" for a
      using that e(1,2) assms(2) cache_wfD(3,4) [OF assms(1) i(1)] c k by (cases "a = e") simp_all
    show "a \<notin> set (e # xss ! i) \<and> a < fresh c1 \<and> a \<notin> set (entryPool c1)"
      if "j < length xss" "j \<noteq> i" "a \<in> set (xss ! j)" for j a
      using cache_wfD(3) [OF assms(1) that(1,3)] cache_wfD(5) [OF assms(1) i(1) that] e(3) [OF that(1)] that(3) c by auto
  qed (use c cache_wfD(6,7) [OF assms(1)] in auto)
  show "sizes c1 = sizes c" using sizes_update [OF i(2), of s'] A(5) c(1) by (simp add: sizes_def)
  show "cview H c1 = (cview H c)(key \<mapsto> (v, ex))"
  proof
    fix k
    have g: "cache_getShard H k c1 = cache_getShard H k c" using c by (intro cache_getShard_cong) simp_all
    show "cview H c1 k = ((cview H c)(key \<mapsto> (v, ex))) k"
    proof (cases "cache_getShard H k c")
      case (Some j)
      show ?thesis
      proof (cases "j = i")
        case True
        have c1v: "cview H c1 k = map_option (\<lambda>a. snd (payload h' a)) (if k = key then Some e else map_of (items ?s) k)"
          using g Some True i(2) A(4) c by (simp add: cview_def)
        have cv: "cview H c k = map_option (\<lambda>a. snd (payload (heap c) a)) (map_of (items ?s) k)"
          using Some True by (simp add: cview_def)
        have "a \<noteq> e" if "map_of (items ?s) k = Some a" for a
          using that ne shard_ok_map [OF cache_wfD(2) [OF assms(1) i(1)], of k a] by auto
        then show ?thesis
          unfolding c1v fun_upd_apply cv using p by (cases "k = key"; cases "map_of (items ?s) k") auto
      next
        case False
        with cview_step [OF assms(1) i(1) c(1,3), of e k j] p c(2) e(3) Some assms(2) show ?thesis by auto
      qed
    qed (use g assms(2) in \<open>auto simp: cview_def\<close>)
  qed
qed

section \<open>The operations refine updates of the view\<close>

lemma choose_victim_mem:
  assumes "shard_ok h s xs" "stail s = Some oldest"
  shows "\<exists>v \<in> set xs. choose_victim lfu h s key oldest = Some v"
proof -
  have l: "links h None xs None" "last_opt None xs = Some oldest" using assms by (simp_all add: shard_ok_def dll_def)
  then have "oldest \<in> set xs" by (auto simp: last_opt_def split: if_splits)
  then show ?thesis
    using find_victim_mem [OF l(1), of "Suc (length (items s))" oldest lfu "shead s" "lfu_Estimate lfu key"]
      shard_ok_length [OF assms(1)] l(2) by (auto simp: choose_victim_def Let_def insert_absorb)
qed

definition evict :: "string option \<Rightarrow> (string \<Rightarrow> 'a option) \<Rightarrow> string \<Rightarrow> 'a option" where
  "evict ev m = (case ev of None \<Rightarrow> m | Some k \<Rightarrow> m(k := None))"

definition full :: "(string \<Rightarrow> uint64 \<times> uint64) \<Rightarrow> string \<Rightarrow> 'v Cache \<Rightarrow> bool" where
  "full H key c \<longleftrightarrow> (\<exists>i. cache_getShard H key c = Some i \<and> 0 < maxSize (cshards c ! i)
     \<and> maxSize (cshards c ! i) \<le> length (items (cshards c ! i)))"

lemma make_room_ok:
  assumes "cache_wf H c xss" "cache_getShard H key c = Some i" "map_of (items (cshards c ! i)) key = None"
  shows "\<exists>c1 xss1 ev. make_room i key c = Some c1 \<and> cache_wf H c1 xss1 \<and> cview H c1 = evict ev (cview H c)
    \<and> (ev \<noteq> None \<longrightarrow> full H key c) \<and> sizes c1 = sizes c \<and> closed c1 = closed c \<and> cshardMask c1 = cshardMask c
    \<and> length (cshards c1) = length (cshards c) \<and> map_of (items (cshards c1 ! i)) key = None
    \<and> (0 < maxSize (cshards c1 ! i) \<longrightarrow> length (xss1 ! i) < maxSize (cshards c1 ! i))"
proof -
  let ?s = "cshards c ! i"
  have i: "i < length xss" "i < length (cshards c)" using cache_getShard_less [OF assms(2)] cache_wfD(1) [OF assms(1)] by simp_all
  have ok: "shard_ok (heap c) ?s (xss ! i)" using cache_wfD(2) [OF assms(1) i(1)] .
  note len = shard_ok_length [OF ok]
  show ?thesis
  proof (cases "0 < maxSize ?s \<and> maxSize ?s \<le> length (items ?s)")
    case False
    then have "make_room i key c = Some c" by (auto simp: make_room_def Let_def)
    then show ?thesis
      using assms False len by (intro exI [of _ c] exI [of _ xss] exI [of _ None]) (auto simp: evict_def)
  next
    case True
    then have "xss ! i \<noteq> []" using len by auto
    then obtain old where old: "stail ?s = Some old" using ok by (auto simp: shard_ok_def dll_def last_opt_def)
    obtain v where v: "v \<in> set (xss ! i)" "choose_victim (tinyLFU c) (heap c) ?s key old = Some v"
      using choose_victim_mem [OF ok old] by blast
    let ?k = "ekey (heap c v)" and ?c0 = "put_back i c (unlink (ekey (heap c v)) v (heap c, ?s))"
    have kv: "map_of (items ?s) ?k = Some v" "cache_getShard H ?k c = Some i"
      using shard_ok_map [OF ok, of ?k v] v(1) cache_wfD(4) [OF assms(1) i(1) v(1)] by simp_all
    note U = unlink_cache [OF assms(1) kv(2,1) refl]
    have mk: "make_room i key c = Some (entryPool_Put v ?c0)"
      using True old v(2) by (simp add: make_room_def Let_def)
    have sz: "maxSize (cshards ?c0 ! i) = maxSize ?s"
      using arg_cong [OF U(5), of "\<lambda>l. l ! i"] i(2) by (simp add: sizes_def)
    have "length (xss ! i) \<le> maxSize ?s" using ok True by (simp add: shard_ok_def)
    then have "length (xss[i := remove1 v (xss ! i)] ! i) < maxSize (cshards ?c0 ! i)"
      using U(6) i(1) sz by simp
    moreover have "map_of (items (cshards ?c0 ! i)) key = None"
      using U(7) assms(3) by simp
    moreover have "full H key c" using True assms(2) by (auto simp: full_def)
    ultimately show ?thesis
      using mk U(2,4,5)
      by (intro exI [of _ "entryPool_Put v ?c0"] exI [of _ "xss[i := remove1 v (xss ! i)]"] exI [of _ "Some ?k"])
        (simp add: evict_def sizes_def)
  qed
qed

definition expiry :: "gotime \<Rightarrow> duration \<Rightarrow> int64" where
  "expiry now ttl = (if ttl > 0 then UnixNano (now + ttl) else 0)"

lemma cache_Set_ok:
  assumes "cache_inv H c"
  shows "\<exists>c' ev. cache_Set H now key v ttl c = Some c' \<and> cache_inv H c' \<and> sizes c' = sizes c \<and> closed c' = closed c
    \<and> (ev \<noteq> None \<longrightarrow> full H key c \<and> cview H c key = None)
    \<and> cview H c' = (if closed c \<or> key = '''' \<or> cache_getShard H key c = None then cview H c
        else (evict ev (cview H c))(key \<mapsto> (v, expiry now ttl)))"
proof -
  obtain xss where wf: "cache_wf H c xss" using assms by (auto simp: cache_inv_def)
  show ?thesis
  proof (cases "closed c \<or> key = '''' \<or> cache_getShard H key c = None")
    case True
    then have "cache_Set H now key v ttl c = Some c" by (auto simp: cache_Set_def)
    then show ?thesis using assms True by (intro exI [of _ c] exI [of _ None]) simp
  next
    case False
    then obtain i where i: "cache_getShard H key c = Some i" by auto
    show ?thesis
    proof (cases "map_of (items (cshards c ! i)) key")
      case (Some e)
      let ?c1 = "put_back i c (moveToFront e ((heap c)(e := (heap c e)\<lparr>evalue := v, expireAt := expiry now ttl\<rparr>), cshards c ! i))"
      have "cache_Set H now key v ttl c = Some ?c1"
        using False i Some by (simp add: cache_Set_def Let_def expiry_def)
      then show ?thesis
        using to_front_cache [OF wf i Some refl, where v = v and ex = "expiry now ttl"] False
        by (intro exI [of _ ?c1] exI [of _ None]) (auto simp: cache_inv_def evict_def)
    next
      case None
      obtain c1 xss1 ev where r: "make_room i key c = Some c1" "cache_wf H c1 xss1" "cview H c1 = evict ev (cview H c)"
        "ev \<noteq> None \<longrightarrow> full H key c" "sizes c1 = sizes c" "closed c1 = closed c" "cshardMask c1 = cshardMask c"
        "length (cshards c1) = length (cshards c)" "map_of (items (cshards c1 ! i)) key = None"
        "0 < maxSize (cshards c1 ! i) \<longrightarrow> length (xss1 ! i) < maxSize (cshards c1 ! i)"
        using make_room_ok [OF wf i None] by metis
      obtain e c2 where p: "entryPool_Get c1 = (e, c2)" by fastforce
      note P = pool_Get_fresh [OF r(2) p]
      let ?c3 = "put_back i c2 (addToFront e
        ((heap c2)(e := \<lparr>ekey = key, evalue = v, expireAt = expiry now ttl, enext = None, eprev = None\<rparr>),
         (cshards c2 ! i)\<lparr>items := AList.update key e (items (cshards c2 ! i))\<rparr>))"
      have g: "cache_getShard H key c2 = Some i" using i r(7,8) P(5,6) cache_getShard_cong [of c2 c H key] by simp
      note I = insert_cache [OF P(1) g _ _ P(8-10) refl, where v = v and ex = "expiry now ttl"]
      have s: "cache_Set H now key v ttl c = Some (?c3\<lparr>tinyLFU := RecordAccess key True (tinyLFU ?c3)\<rparr>)"
        using False i None r(1) p by (simp add: cache_Set_def Let_def expiry_def)
      have "cview H c key = None" using i None by (simp add: cview_def)
      moreover have "cview H (?c3\<lparr>tinyLFU := RecordAccess key True (tinyLFU ?c3)\<rparr>) = cview H ?c3" by (rule cview_fields) simp_all
      ultimately show ?thesis
        using s I r(3-6,9,10) P(2-5) False
        by (intro exI [of _ "?c3\<lparr>tinyLFU := RecordAccess key True (tinyLFU ?c3)\<rparr>"] exI [of _ ev])
          (auto simp: cache_inv_def sizes_def)
    qed
  qed
qed

definition live :: "gotime \<Rightarrow> 'v \<times> int64 \<Rightarrow> bool" where
  "live now p \<longleftrightarrow> \<not> (sint (snd p) > 0 \<and> sint (UnixNano now) > sint (snd p))"

lemma cache_Get_ok:
  assumes "cache_inv H c" "cache_Get H now key c = (c', r)"
  shows "cache_inv H c' \<and> sizes c' = sizes c \<and> closed c' = closed c
    \<and> (if closed c \<or> key = '''' then r = None \<and> cview H c' = cview H c
       else case cview H c key of
         None \<Rightarrow> r = None \<and> cview H c' = cview H c
       | Some p \<Rightarrow> if live now p then r = Some (fst p) \<and> cview H c' = cview H c
                   else r = None \<and> cview H c' = (cview H c)(key := None))"
proof -
  obtain xss where wf: "cache_wf H c xss" using assms by (auto simp: cache_inv_def)
  show ?thesis
  proof (cases "closed c \<or> key = ''''")
    case True
    then show ?thesis using assms by (auto simp: cache_Get_def)
  next
    case open_: False
    show ?thesis
    proof (cases "cache_getShard H key c")
      case None
      then show ?thesis using assms open_ by (auto simp: cache_Get_def cview_def)
    next
      case (Some i)
      show ?thesis
      proof (cases "map_of (items (cshards c ! i)) key")
        case None
        then have "c' = c\<lparr>tinyLFU := RecordAccess key False (tinyLFU c)\<rparr>" "r = None"
          using assms(2) open_ Some by (auto simp: cache_Get_def)
        moreover have "cview H (c\<lparr>tinyLFU := RecordAccess key False (tinyLFU c)\<rparr>) = cview H c" by (rule cview_fields) simp_all
        ultimately show ?thesis using assms(1) open_ Some None by (auto simp: cache_inv_def cview_def sizes_def)
      next
        case e: (Some e)
        let ?p = "(evalue (heap c e), expireAt (heap c e))"
        have cv: "cview H c key = Some ?p" using Some e by (simp add: cview_def payload_def)
        show ?thesis
        proof (cases "live now ?p")
          case False
          then have "c' = entryPool_Put e (put_back i c (unlink key e (heap c, cshards c ! i)))" "r = None"
            using assms(2) open_ Some e by (auto simp: cache_Get_def live_def)
          then show ?thesis
            using unlink_cache [OF wf Some e refl] False cv open_ by (auto simp: cache_inv_def sizes_def)
        next
          case True
          let ?h = "(heap c)(e := (heap c e)\<lparr>evalue := fst ?p, expireAt := snd ?p\<rparr>)"
          let ?c1 = "put_back i c (moveToFront e (?h, cshards c ! i))"
          have h: "?h = heap c" by simp
          have i: "i < length (cshards c)" using cache_getShard_less [OF Some] .
          have "(if shead (cshards c ! i) \<noteq> Some e
              then put_back i c (addToFront e (removeEntry e (heap c, cshards c ! i))) else c) = ?c1"
            unfolding h by (simp add: moveToFront_def put_back_def)
          then have r: "c' = ?c1\<lparr>tinyLFU := RecordAccess key True (tinyLFU ?c1)\<rparr>" "r = Some (fst ?p)"
            using assms(2) open_ Some e True by (auto simp: cache_Get_def live_def Let_def)
          have "cview H (?c1\<lparr>tinyLFU := RecordAccess key True (tinyLFU ?c1)\<rparr>) = cview H ?c1" by (rule cview_fields) simp_all
          also have "\<dots> = cview H c"
            using to_front_cache(2) [OF wf Some e refl, where v = "fst ?p" and ex = "snd ?p"] cv by (simp add: fun_upd_idem)
          finally have "cview H c' = cview H c" using r(1) by simp
          moreover have "cache_inv H c'" "sizes c' = sizes c" "closed c' = closed c"
            using to_front_cache(1,3) [OF wf Some e refl, where v = "fst ?p" and ex = "snd ?p"] r(1) by (auto simp: cache_inv_def sizes_def)
          ultimately show ?thesis using cv True r(2) open_ by simp
        qed
      qed
    qed
  qed
qed

lemma cache_Delete_ok:
  assumes "cache_inv H c" "cache_Delete H key c = (c', b)"
  shows "cache_inv H c' \<and> sizes c' = sizes c \<and> closed c' = closed c
    \<and> cview H c' = (if closed c \<or> key = '''' then cview H c else (cview H c)(key := None))
    \<and> (b \<longleftrightarrow> \<not> closed c \<and> key \<noteq> '''' \<and> cview H c key \<noteq> None)"
proof -
  obtain xss where wf: "cache_wf H c xss" using assms by (auto simp: cache_inv_def)
  have "cview H c key = None \<Longrightarrow> (cview H c)(key := None) = cview H c" by (simp add: fun_upd_idem)
  then show ?thesis
    using assms unlink_cache(1,3,5) [OF wf _ _ refl, of key]
    by (auto simp: cache_Delete_def cview_def cache_inv_def split: option.splits if_splits)
qed

lemma cache_Del_ok:
  assumes "cache_inv H c"
  shows "cache_inv H (cache_Del H key c) \<and> sizes (cache_Del H key c) = sizes c
    \<and> cview H (cache_Del H key c) = (if closed c \<or> key = '''' then cview H c else (cview H c)(key := None))"
proof -
  obtain xss where wf: "cache_wf H c xss" using assms by (auto simp: cache_inv_def)
  have "cview H c key = None \<Longrightarrow> (cview H c)(key := None) = cview H c" by (simp add: fun_upd_idem)
  then show ?thesis
    using assms unlink_cache(2,4,5) [OF wf _ _ refl, of key]
    by (auto simp: cache_Del_def cview_def cache_inv_def sizes_def split: option.splits)
qed

lemma distinct_concat_nth:
  assumes "\<forall>i < length yss. distinct (yss ! i)"
    and "\<forall>i < length yss. \<forall>j < length yss. i \<noteq> j \<longrightarrow> set (yss ! i) \<inter> set (yss ! j) = {}"
  shows "distinct (concat yss)"
  using assms
proof (induction yss)
  case (Cons y yss)
  have "set y \<inter> set z = {}" if "z \<in> set yss" for z
    using that Cons.prems(2) [rule_format, of 0] by (fastforce simp: in_set_conv_nth)
  moreover have "distinct (concat yss)"
  proof (rule Cons.IH; intro allI impI)
    show "distinct (yss ! i)" if "i < length yss" for i using Cons.prems(1) [rule_format, of "Suc i"] that by simp
    show "set (yss ! i) \<inter> set (yss ! j) = {}" if "i < length yss" "j < length yss" "i \<noteq> j" for i j
      using Cons.prems(2) [rule_format, of "Suc i" "Suc j"] that by simp
  qed
  moreover have "distinct y" using Cons.prems(1) by fastforce
  ultimately show ?case by auto
qed simp

lemma cache_Clear_ok:
  assumes "cache_inv H c"
  shows "cache_inv H (cache_Clear c) \<and> sizes (cache_Clear c) = sizes c \<and> closed (cache_Clear c) = closed c
    \<and> cview H (cache_Clear c) = Map.empty"
proof -
  obtain xss where wf: "cache_wf H c xss" using assms by (auto simp: cache_inv_def)
  let ?yss = "map (\<lambda>s. map snd (items s)) (cshards c)"
  have len: "length xss = length (cshards c)" using cache_wfD(1) [OF wf] .
  have ys: "set (?yss ! i) = set (xss ! i) \<and> distinct (?yss ! i)" if "i < length (cshards c)" for i
  proof -
    have ok: "shard_ok (heap c) (cshards c ! i) (xss ! i)" using cache_wfD(2) [OF wf] that len by simp
    then have st: "set (map snd (items (cshards c ! i))) = set (xss ! i)" by (auto simp: shard_ok_def image_image)
    moreover have "distinct (map snd (items (cshards c ! i)))"
      using st shard_ok_length [OF ok] ok by (intro card_distinct) (simp add: shard_ok_def dll_def distinct_card)
    ultimately show ?thesis using that by simp
  qed
  have "distinct (concat ?yss)"
  proof (rule distinct_concat_nth; intro allI impI)
    fix i assume "i < length ?yss"
    then show "distinct (?yss ! i)" using ys [of i] by (simp only: length_map)
  next
    fix i j assume ij: "i < length ?yss" "j < length ?yss" "i \<noteq> j"
    then have "set (?yss ! i) = set (xss ! i)" "set (?yss ! j) = set (xss ! j)" using ys by (simp_all only: length_map)
    moreover have "set (xss ! i) \<inter> set (xss ! j) = {}"
      using cache_wfD(5) [OF wf, of i j] ij len by auto
    ultimately show "set (?yss ! i) \<inter> set (?yss ! j) = {}" by simp
  qed
  moreover have mem: "\<exists>i < length xss. a \<in> set (xss ! i)" if "a \<in> set (concat ?yss)" for a
  proof -
    obtain y where "y \<in> set ?yss" "a \<in> set y" using \<open>a \<in> set (concat ?yss)\<close> by (auto simp only: set_concat)
    then obtain i where i: "i < length ?yss" "a \<in> set (?yss ! i)" by (auto simp only: in_set_conv_nth)
    then have "set (?yss ! i) = set (xss ! i)" using ys by (simp only: length_map)
    then show ?thesis using i len by auto
  qed
  ultimately have "distinct (entryPool (cache_Clear c)) \<and> (\<forall>a \<in> set (entryPool (cache_Clear c)). a < fresh c)"
    using cache_wfD(3,6,7) [OF wf] by (auto simp: cache_Clear_def)
  then have "cache_wf H (cache_Clear c) (replicate (length (cshards c)) [])"
    by (simp add: cache_wf_def shard_ok_def dll_def cache_Clear_def)
  moreover have "cview H (cache_Clear c) k = None" for k
    using cache_getShard_less [of H k "cache_Clear c"] by (auto simp: cview_def cache_Clear_def split: option.splits)
  ultimately show ?thesis by (auto simp: cache_inv_def sizes_def cache_Clear_def o_def)
qed

lemma cache_New_ok: "cache_inv H (cache_New a b blank)"
proof -
  have "cache_wf H (cache_New a b blank) (replicate (length (cshards (cache_New a b blank))) [])"
    by (simp add: cache_wf_def shard_ok_def dll_def cache_New_def Let_def)
  then show ?thesis by (auto simp: cache_inv_def)
qed

section \<open>Runs\<close>

datatype 'v cache_call =
  CGet gotime string
| CSet gotime string 'v duration
| CDelete string
| CDel string
| CClear
| CClose

fun cache_step :: "(string \<Rightarrow> uint64 \<times> uint64) \<Rightarrow> 'v cache_call \<Rightarrow> 'v Cache \<Rightarrow> 'v Cache option" where
  "cache_step H (CGet now key) c = Some (fst (cache_Get H now key c))"
| "cache_step H (CSet now key v ttl) c = cache_Set H now key v ttl c"
| "cache_step H (CDelete key) c = Some (fst (cache_Delete H key c))"
| "cache_step H (CDel key) c = Some (cache_Del H key c)"
| "cache_step H CClear c = Some (cache_Clear c)"
| "cache_step H CClose c = Some (cache_Close c)"

primrec cache_run :: "(string \<Rightarrow> uint64 \<times> uint64) \<Rightarrow> 'v cache_call list \<Rightarrow> 'v Cache \<Rightarrow> 'v Cache option" where
  "cache_run H [] c = Some c"
| "cache_run H (call # calls) c = (case cache_step H call c of None \<Rightarrow> None | Some c1 \<Rightarrow> cache_run H calls c1)"

lemma cache_step_ok:
  assumes "cache_inv H c"
  shows "\<exists>c'. cache_step H call c = Some c' \<and> cache_inv H c' \<and> sizes c' = sizes c"
proof (cases call)
  case (CGet now key)
  then show ?thesis using cache_Get_ok [OF assms, of now key] by (cases "cache_Get H now key c") auto
next
  case (CSet now key v ttl)
  then show ?thesis using cache_Set_ok [OF assms, of now key v ttl] by auto
next
  case (CDelete key)
  then show ?thesis using cache_Delete_ok [OF assms, of key] by (cases "cache_Delete H key c") auto
next
  case (CDel key)
  then show ?thesis using cache_Del_ok [OF assms, of key] by auto
next
  case CClear
  then show ?thesis using cache_Clear_ok [OF assms] by auto
next
  case CClose
  then show ?thesis
    using assms by (auto simp: cache_inv_def cache_wf_def cache_Close_def sizes_def cache_getShard_def)
qed

lemma cache_run_ok:
  assumes "cache_inv H c"
  shows "\<exists>c'. cache_run H calls c = Some c' \<and> cache_inv H c' \<and> sizes c' = sizes c"
  using assms
proof (induction calls arbitrary: c)
  case (Cons call calls)
  then obtain c1 where "cache_step H call c = Some c1" "cache_inv H c1" "sizes c1 = sizes c"
    using cache_step_ok by blast
  with Cons.IH [of c1] show ?case by auto
qed simp

lemma cache_Len_le:
  assumes "cache_inv H c" "\<forall>m \<in> set (sizes c). 0 < m"
  shows "cache_Len c \<le> sum_list (sizes c)"
proof -
  obtain xss where wf: "cache_wf H c xss" using assms by (auto simp: cache_inv_def)
  have "length (items s) \<le> maxSize s" if s: "s \<in> set (cshards c)" for s
  proof -
    obtain i where i: "i < length xss" "s = cshards c ! i" using s cache_wfD(1) [OF wf] by (auto simp: in_set_conv_nth)
    have "0 < maxSize s" using assms(2) s by (simp add: sizes_def)
    moreover have "shard_ok (heap c) s (xss ! i)" using cache_wfD(2) [OF wf i(1)] i(2) by simp
    ultimately show ?thesis using shard_ok_length [of "heap c" s "xss ! i"] by (simp add: shard_ok_def)
  qed
  then show ?thesis unfolding cache_Len_def sizes_def by (intro sum_list_mono) simp
qed

lemma cache_New_sizes:
  "\<forall>m \<in> set (sizes (cache_New a b blank)). 0 < m"
  "isPow2 a \<Longrightarrow> a \<le> b \<Longrightarrow> sum_list (sizes (cache_New a b blank)) \<le> nat b"
proof -
  show "\<forall>m \<in> set (sizes (cache_New a b blank)). 0 < m"
    by (auto simp: cache_New_def sizes_def Let_def DefaultSize_def)
  assume a: "isPow2 a" "a \<le> b"
  then have ab: "0 < a" "0 < b" "1 \<le> b div a"
    using zdiv_mono1 [of a b a] by (auto simp: isPow2_def)
  then have "sum_list (sizes (cache_New a b blank)) = nat a * nat (b div a)"
    using a(1) by (simp add: cache_New_def sizes_def Let_def sum_list_replicate)
  also have "\<dots> = nat (a * (b div a))" using ab by (simp add: nat_mult_distrib)
  also have "\<dots> \<le> nat b" using ab by (intro nat_mono) (simp add: minus_mod_eq_mult_div [symmetric])
  finally show "sum_list (sizes (cache_New a b blank)) \<le> nat b" .
qed

text \<open>
  C35: Every sequence of calls on a new cache returns, keeps the linked lists, the maps and the object
  pool of all shards consistent, and never holds more entries than the shard sizes add up to; with a
  power of two of shards not above the configured size, never more than the configured size.
\<close>

theorem cache_bounded_and_consistent:
  "\<exists>c. cache_run H calls (cache_New nShards cap blank) = Some c \<and> cache_inv H c
     \<and> cache_Len c \<le> sum_list (sizes (cache_New nShards cap blank))
     \<and> (isPow2 nShards \<and> nShards \<le> cap \<longrightarrow> cache_Len c \<le> nat cap)"
proof -
  let ?n = "cache_New nShards cap blank"
  obtain c where c: "cache_run H calls ?n = Some c" "cache_inv H c" "sizes c = sizes ?n"
    using cache_run_ok [OF cache_New_ok] by blast
  have "cache_Len c \<le> sum_list (sizes ?n)" using cache_Len_le [OF c(2)] c(3) cache_New_sizes(1) by metis
  with c cache_New_sizes(2) [of nShards cap blank] show ?thesis by (meson order_trans)
qed

text \<open>
  C38: \<open>Set\<close> refines an update of the key-value view: on a consistent open cache it always returns, the
  key maps to the new value and its expiration, and every other key keeps what it had, except at
  most one key that is evicted, and that only when the key is new and its shard is full.
\<close>

theorem cache_Set_refines:
  assumes "cache_inv H c" "\<not> closed c" "key \<noteq> ''''" "cache_getShard H key c \<noteq> None"
  shows "\<exists>c' ev. cache_Set H now key v ttl c = Some c' \<and> cache_inv H c'
    \<and> cview H c' = (evict ev (cview H c))(key \<mapsto> (v, expiry now ttl))
    \<and> (ev \<noteq> None \<longrightarrow> full H key c \<and> cview H c key = None)"
  using cache_Set_ok [OF assms(1), of now key v ttl] assms(2-4) by auto

text \<open>
  A value that was set is read back until it expires: a \<open>Get\<close> after the \<open>Set\<close> returns it if its
  time to live is unlimited or has not passed, and nothing otherwise.
\<close>

theorem cache_Set_Get:
  assumes "cache_inv H c" "\<not> closed c" "key \<noteq> ''''" "cache_getShard H key c \<noteq> None"
    and "cache_Set H now key v ttl c = Some c'"
  shows "snd (cache_Get H now' key c') = (if live now' (v, expiry now ttl) then Some v else None)"
proof -
  have s: "cache_inv H c'" "closed c' = closed c" "cview H c' key = Some (v, expiry now ttl)"
    using cache_Set_ok [OF assms(1), of now key v ttl] assms(2-5) by auto
  obtain c2 r where g: "cache_Get H now' key c' = (c2, r)" by fastforce
  show ?thesis using cache_Get_ok [OF s(1) g] assms(2,3) s g by (auto split: if_splits)
qed

definition example_cache :: "nat Cache" where
  "example_cache = cache_New 1 2 \<lparr>ekey = '''', evalue = 0, expireAt = 0, enext = None, eprev = None\<rparr>"

lemma example_cache_facts:
  "cache_inv (\<lambda>_. (0, 0)) example_cache" "\<not> closed example_cache"
  "cache_getShard (\<lambda>_. (0, 0)) key example_cache \<noteq> None"
  by (simp_all add: example_cache_def cache_New_ok) (simp_all add: cache_New_def Let_def cache_getShard_def isPow2_def)

theorem cache_bounded_and_consistent_witness:
  "\<exists>c. cache_run (\<lambda>_. (0, 0)) [CSet 0 ''a'' (1 :: nat) 0, CSet 0 ''b'' 2 0, CSet 0 ''c'' 3 0, CGet 1 ''a'']
       (cache_New 1 2 \<lparr>ekey = '''', evalue = 0, expireAt = 0, enext = None, eprev = None\<rparr>) = Some c
     \<and> cache_Len c \<le> 2"
  using cache_bounded_and_consistent [of "\<lambda>_. (0, 0)" "[CSet 0 ''a'' (1 :: nat) 0, CSet 0 ''b'' 2 0, CSet 0 ''c'' 3 0, CGet 1 ''a'']" 1 2
      "\<lparr>ekey = '''', evalue = 0, expireAt = 0, enext = None, eprev = None\<rparr>"]
  by (auto simp: isPow2_def)

theorem cache_Set_refines_witness:
  "\<exists>c' ev. cache_Set (\<lambda>_. (0, 0)) 5 ''a'' 7 0 example_cache = Some c'
     \<and> cview (\<lambda>_. (0, 0)) c' = (evict ev (cview (\<lambda>_. (0, 0)) example_cache))(''a'' \<mapsto> (7, expiry 5 0))"
  using cache_Set_refines [OF example_cache_facts(1,2) _ example_cache_facts(3), of "''a''" 5 7 0] by auto

theorem cache_Set_Get_witness:
  "\<exists>c'. cache_Set (\<lambda>_. (0, 0)) 5 ''a'' 7 0 example_cache = Some c'
     \<and> snd (cache_Get (\<lambda>_. (0, 0)) 9 ''a'' c') = Some 7"
proof -
  obtain c' where c': "cache_Set (\<lambda>_. (0, 0)) 5 ''a'' 7 0 example_cache = Some c'"
    using cache_Set_ok [OF example_cache_facts(1), of 5 "''a''" 7 0] by auto
  with cache_Set_Get [OF example_cache_facts(1,2) _ example_cache_facts(3) c', of 9] show ?thesis
    by (simp add: live_def expiry_def)
qed

end
