(* ===== verification/Lifecycle.thy ===== *)
theory Lifecycle
  imports GridKV_Prelude
begin

text \<open>
  \<open>internal/utils/lifecycle/lifecycle.go\<close>: registration of components with dependencies, the
  depth-first resolution of a start order, and the start and stop of all components.

  A component is its name. The recursion of \<open>visit\<close> carries fuel; \<open>resolveOrder\<close> gives it one more
  than the number of components, and \<open>resolveOrder_spec\<close> shows that it never runs out. The map
  \<open>temp\<close> of names on the recursion stack is the argument \<open>path\<close>: \<open>visit\<close> adds its name before and
  deletes it after visiting the dependencies.
\<close>

section \<open>The manager\<close>

record LifecycleManager =
  components :: "string list"
  dependencies :: "(string \<times> string list) list"
  started :: bool

datatype lifecycle_err =
  ErrComponentNotFound string string
| ErrCircularDependency string
| ErrStartTimeout
| ErrAlreadyStarted
| ErrComponent string
| OutOfFuel

definition lifecycle_New :: LifecycleManager where
  "lifecycle_New = \<lparr>components = [], dependencies = [], started = False\<rparr>"

definition Register :: "string \<Rightarrow> string list \<Rightarrow> LifecycleManager \<Rightarrow> LifecycleManager" where
  "Register c deps lm =
     (let lm1 = lm\<lparr>components := components lm @ [c]\<rparr>
      in if length deps > 0 then lm1\<lparr>dependencies := AList.update c deps (dependencies lm1)\<rparr> else lm1)"

definition findComponent :: "LifecycleManager \<Rightarrow> string \<Rightarrow> string option" where
  "findComponent lm name = List.find (\<lambda>c. c = name) (components lm)"

definition deps_of :: "LifecycleManager \<Rightarrow> string \<Rightarrow> string list" where
  "deps_of lm name = (case map_of (dependencies lm) name of None \<Rightarrow> [] | Some ds \<Rightarrow> ds)"

type_synonym visit_state = "string list \<times> string list"

fun visit :: "LifecycleManager \<Rightarrow> nat \<Rightarrow> string list \<Rightarrow> string \<Rightarrow> visit_state \<Rightarrow> lifecycle_err + visit_state"
  and visit_deps :: "LifecycleManager \<Rightarrow> nat \<Rightarrow> string list \<Rightarrow> string \<Rightarrow> string list \<Rightarrow> visit_state
      \<Rightarrow> lifecycle_err + visit_state" where
  "visit lm 0 path name st = Inl OutOfFuel"
| "visit lm (Suc fuel) path name st =
     (case st of (visited, result) \<Rightarrow>
        if name \<in> set path then Inl (ErrCircularDependency name)
        else if name \<in> set visited then Inr (visited, result)
        else case visit_deps lm fuel (name # path) name (deps_of lm name) (visited, result) of
               Inl e \<Rightarrow> Inl e
             | Inr (visited', result') \<Rightarrow> Inr (name # visited', result' @ [name]))"
| "visit_deps lm fuel path name [] st = Inr st"
| "visit_deps lm fuel path name (dep # ds) st =
     (if findComponent lm dep = None then Inl (ErrComponentNotFound name dep)
      else case visit lm fuel path dep st of
             Inl e \<Rightarrow> Inl e
           | Inr st' \<Rightarrow> visit_deps lm fuel path name ds st')"

fun visit_all :: "LifecycleManager \<Rightarrow> string list \<Rightarrow> visit_state \<Rightarrow> lifecycle_err + visit_state" where
  "visit_all lm [] st = Inr st"
| "visit_all lm (c # cs) st =
     (case visit lm (Suc (length (components lm))) [] c st of
        Inl e \<Rightarrow> Inl e
      | Inr st' \<Rightarrow> visit_all lm cs st')"

definition resolveOrder :: "LifecycleManager \<Rightarrow> lifecycle_err + string list" where
  "resolveOrder lm = map_sum id snd (visit_all lm (components lm) ([], []))"

text \<open>
  \<open>StartWithTimeout\<close> starts every component of the order in a goroutine of its own. \<open>finish\<close> lists the
  components in the order in which their \<open>Start\<close> returned, \<open>fails\<close> says which of them failed, and
  \<open>late\<close> that the timeout came first.
\<close>

definition StartWithTimeout ::
  "string list \<Rightarrow> (string \<Rightarrow> bool) \<Rightarrow> bool \<Rightarrow> LifecycleManager \<Rightarrow> LifecycleManager \<times> (lifecycle_err + unit)" where
  "StartWithTimeout finish fails late lm =
     (if started lm then (lm, Inl ErrAlreadyStarted)
      else case resolveOrder lm of
        Inl e \<Rightarrow> (lm, Inl e)
      | Inr order \<Rightarrow>
          if late then (lm, Inl ErrStartTimeout)
          else (case List.find fails (filter (\<lambda>c. c \<in> set order \<and> findComponent lm c \<noteq> None) finish) of
                  Some c \<Rightarrow> (lm, Inl (ErrComponent c))
                | None \<Rightarrow> (lm\<lparr>started := True\<rparr>, Inr ())))"

text \<open>\<open>CloseWithTimeout\<close>: the components it closes, in order, and its result.\<close>

definition CloseWithTimeout ::
  "(string \<Rightarrow> bool) \<Rightarrow> LifecycleManager \<Rightarrow> string list \<times> (lifecycle_err + unit)" where
  "CloseWithTimeout fails lm =
     (if \<not> started lm then ([], Inr ())
      else case resolveOrder lm of
        Inl e \<Rightarrow> ([], Inl e)
      | Inr order \<Rightarrow>
          (let closing = filter (\<lambda>n. findComponent lm n \<noteq> None) (rev order)
           in (closing, case List.find fails closing of Some c \<Rightarrow> Inl (ErrComponent c) | None \<Rightarrow> Inr ())))"

section \<open>The order is topological\<close>

definition topo :: "LifecycleManager \<Rightarrow> string list \<Rightarrow> bool" where
  "topo lm res \<longleftrightarrow> distinct res \<and> (\<forall>pre n post. res = pre @ n # post \<longrightarrow> set (deps_of lm n) \<subseteq> set pre)"

definition visit_post :: "LifecycleManager \<Rightarrow> string list \<Rightarrow> visit_state \<Rightarrow> visit_state \<Rightarrow> bool" where
  "visit_post lm path st st' \<longleftrightarrow>
     topo lm (snd st') \<and> set (fst st') = set (snd st') \<and> set (snd st) \<subseteq> set (snd st')
     \<and> set (snd st') \<inter> set path = {} \<and> set (snd st') \<subseteq> set (snd st) \<union> set (components lm)"

definition visit_pre :: "LifecycleManager \<Rightarrow> string list \<Rightarrow> visit_state \<Rightarrow> bool" where
  "visit_pre lm path st \<longleftrightarrow> topo lm (snd st) \<and> set (fst st) = set (snd st) \<and> set (snd st) \<inter> set path = {}"

lemma findComponent_None: "findComponent lm n = None \<longleftrightarrow> n \<notin> set (components lm)"
  by (auto simp: findComponent_def find_None_iff)

lemma topo_snoc:
  assumes "topo lm res" "n \<notin> set res" "set (deps_of lm n) \<subseteq> set res"
  shows "topo lm (res @ [n])"
  unfolding topo_def
proof (intro conjI allI impI)
  show "distinct (res @ [n])" using assms by (simp add: topo_def)
  fix pre m post
  assume "res @ [n] = pre @ m # post"
  then show "set (deps_of lm m) \<subseteq> set pre"
    using assms by (cases post rule: rev_cases) (auto simp: topo_def)
qed

lemma visit_correct:
  "visit lm fuel path name st = Inr st' \<Longrightarrow> visit_pre lm path st \<Longrightarrow> name \<in> set (components lm)
     \<Longrightarrow> visit_post lm path st st' \<and> name \<in> set (snd st')"
  "visit_deps lm fuel path name ds st = Inr st' \<Longrightarrow> visit_pre lm path st
     \<Longrightarrow> visit_post lm path st st' \<and> set ds \<subseteq> set (snd st')"
proof (induction lm fuel path name st and lm fuel path name ds st arbitrary: st' and st' rule: visit_visit_deps.induct)
  case (2 lm fuel path name st)
  obtain vis res where st: "st = (vis, res)" by fastforce
  show ?case
  proof (cases "name \<in> set vis")
    case True
    then show ?thesis using 2 st by (auto simp: visit_post_def visit_pre_def split: if_splits)
  next
    case False
    then obtain vis' res' where d: "visit_deps lm fuel (name # path) name (deps_of lm name) (vis, res) = Inr (vis', res')"
      and st': "st' = (name # vis', res' @ [name])" and np: "name \<notin> set path"
      using 2(2) st by (auto split: if_splits sum.splits)
    have "visit_pre lm (name # path) (vis, res)" using 2(3) st False by (auto simp: visit_pre_def)
    then have p: "visit_post lm (name # path) (vis, res) (vis', res') \<and> set (deps_of lm name) \<subseteq> set res'"
      using 2(1) [OF st [symmetric] np False d] by simp
    then have "topo lm (res' @ [name])" by (intro topo_snoc) (auto simp: visit_post_def)
    then show ?thesis using p st st' 2(4) np by (auto simp: visit_post_def)
  qed
next
  case (4 lm fuel path name dep ds st)
  then obtain st1 where v: "visit lm fuel path dep st = Inr st1" "visit_deps lm fuel path name ds st1 = Inr st'"
    and f: "findComponent lm dep \<noteq> None" by (auto split: if_splits sum.splits)
  then have p1: "visit_post lm path st st1 \<and> dep \<in> set (snd st1)"
    using 4(1,4) by (simp add: findComponent_None)
  then have "visit_pre lm path st1" by (auto simp: visit_post_def visit_pre_def)
  then have "visit_post lm path st1 st' \<and> set ds \<subseteq> set (snd st')" using 4(2) [OF f v(1) v(2)] by simp
  then show ?case using p1 by (auto simp: visit_post_def)
qed (auto simp: visit_post_def visit_pre_def)

section \<open>Errors and fuel\<close>

definition dep :: "LifecycleManager \<Rightarrow> (string \<times> string) set" where
  "dep lm = {(n, d). d \<in> set (deps_of lm n)}"

definition err_ok :: "LifecycleManager \<Rightarrow> lifecycle_err \<Rightarrow> bool" where
  "err_ok lm e \<longleftrightarrow> (\<exists>n. e = ErrCircularDependency n \<and> (n, n) \<in> (dep lm)\<^sup>+)
     \<or> (\<exists>n d. e = ErrComponentNotFound n d \<and> (n, d) \<in> dep lm \<and> n \<in> set (components lm) \<and> d \<notin> set (components lm))"

definition stack_ok :: "LifecycleManager \<Rightarrow> nat \<Rightarrow> string list \<Rightarrow> bool" where
  "stack_ok lm fuel path \<longleftrightarrow> distinct path \<and> set path \<subseteq> set (components lm) \<and> length (components lm) < fuel + length path"

lemma stack_ok_fuel: "stack_ok lm fuel path \<Longrightarrow> 0 < fuel"
proof -
  assume s: "stack_ok lm fuel path"
  then have "length path = card (set path)" by (simp add: stack_ok_def distinct_card)
  also have "\<dots> \<le> length (components lm)"
    using s by (meson card_length card_mono finite_set le_trans stack_ok_def)
  finally show ?thesis using s by (simp add: stack_ok_def)
qed

lemma visit_errors:
  "visit lm fuel path name st = Inl e \<Longrightarrow> stack_ok lm fuel path \<Longrightarrow> name \<in> set (components lm)
     \<Longrightarrow> \<forall>p \<in> set path. (p, name) \<in> (dep lm)\<^sup>+ \<Longrightarrow> err_ok lm e"
  "visit_deps lm fuel path name ds st = Inl e \<Longrightarrow> stack_ok lm fuel path \<Longrightarrow> name \<in> set (components lm)
     \<Longrightarrow> \<forall>p \<in> set path. p = name \<or> (p, name) \<in> (dep lm)\<^sup>+ \<Longrightarrow> set ds \<subseteq> set (deps_of lm name) \<Longrightarrow> err_ok lm e"
proof (induction lm fuel path name st and lm fuel path name ds st arbitrary: e and e rule: visit_visit_deps.induct)
  case (1 lm path name st)
  then show ?case using stack_ok_fuel by auto
next
  case (2 lm fuel path name st)
  obtain vis res where st: "st = (vis, res)" by fastforce
  show ?case
  proof (cases "name \<in> set path")
    case True
    then have "e = ErrCircularDependency name" "(name, name) \<in> (dep lm)\<^sup>+" using 2(2,5) st by auto
    then show ?thesis by (auto simp: err_ok_def)
  next
    case False
    then have v: "name \<notin> set vis" "visit_deps lm fuel (name # path) name (deps_of lm name) (vis, res) = Inl e"
      using 2(2) st by (auto split: if_splits sum.splits)
    have "stack_ok lm fuel (name # path)" using 2(3,4) False by (simp add: stack_ok_def)
    then show ?thesis using 2(1) [OF st [symmetric] False v(1) v(2)] 2(4,5) by simp
  qed
next
  case (4 lm fuel path name d ds st)
  have nd: "(name, d) \<in> dep lm" using 4(7) by (simp add: dep_def)
  show ?case
  proof (cases "findComponent lm d = None")
    case True
    then have "e = ErrComponentNotFound name d" using 4(3) by simp
    then show ?thesis using True nd 4(5) by (auto simp: err_ok_def findComponent_None)
  next
    case False
    have "\<forall>p \<in> set path. (p, d) \<in> (dep lm)\<^sup>+" using 4(6) nd by (auto intro: trancl_into_trancl)
    then have "err_ok lm e" if "visit lm fuel path d st = Inl e"
      using 4(1) [OF False that 4(4)] False by (simp add: findComponent_None)
    moreover have "err_ok lm e" if "visit lm fuel path d st = Inr st1" for st1
      using 4(2) [OF False that] 4(3-7) False that by simp
    ultimately show ?thesis by (cases "visit lm fuel path d st") (use 4(3) False in auto)
  qed
qed simp

lemma visit_all_ok:
  assumes "set cs \<subseteq> set (components lm)" "visit_pre lm [] st"
  shows "case visit_all lm cs st of
      Inl e \<Rightarrow> err_ok lm e
    | Inr st' \<Rightarrow> visit_post lm [] st st' \<and> set cs \<subseteq> set (snd st')"
  using assms
proof (induction cs arbitrary: st)
  case Nil
  then show ?case by (auto simp: visit_post_def visit_pre_def)
next
  case (Cons c cs)
  show ?case
  proof (cases "visit lm (Suc (length (components lm))) [] c st")
    case (Inl e)
    then show ?thesis using visit_errors(1) [OF Inl] Cons.prems(1) by (simp add: stack_ok_def)
  next
    case (Inr st1)
    then have p: "visit_post lm [] st st1 \<and> c \<in> set (snd st1)" using visit_correct(1) [OF Inr Cons.prems(2)] Cons.prems(1) by simp
    then have "visit_pre lm [] st1" by (simp add: visit_post_def visit_pre_def)
    from Cons.IH [OF _ this] Cons.prems(1) show ?thesis
      using p Inr by (auto simp: visit_post_def split: sum.splits)
  qed
qed

lemma resolveOrder_cases:
  "case resolveOrder lm of
     Inl e \<Rightarrow> err_ok lm e
   | Inr order \<Rightarrow> topo lm order \<and> set order = set (components lm)"
proof -
  have "visit_pre lm [] ([], [])" by (simp add: visit_pre_def topo_def)
  from visit_all_ok [OF order_refl this]
  show ?thesis by (auto simp: resolveOrder_def visit_post_def split: sum.splits)
qed

text \<open>
  C37: Resolving the start order always ends with a right answer: either each registered name occurs
  once and after all its dependencies, or the error names a real cycle or a dependency that is not
  registered. So an acyclic registration whose dependencies are all registered is always resolved.
\<close>

theorem resolveOrder_spec:
  "(case resolveOrder lm of
      Inl e \<Rightarrow> err_ok lm e
    | Inr order \<Rightarrow> distinct order \<and> set order = set (components lm)
        \<and> (\<forall>pre n post. order = pre @ n # post \<longrightarrow> set (deps_of lm n) \<subseteq> set pre))
   \<and> (acyclic (dep lm) \<and> (\<forall>n \<in> set (components lm). set (deps_of lm n) \<subseteq> set (components lm))
      \<longrightarrow> (\<exists>order. resolveOrder lm = Inr order))"
  using resolveOrder_cases [of lm]
  by (cases "resolveOrder lm") (auto simp: topo_def err_ok_def acyclic_def dep_def)

text \<open>
  Closing a started manager whose order resolves closes every registered component exactly once,
  and each before the components it depends on.
\<close>

theorem CloseWithTimeout_reverse:
  assumes "started lm" "resolveOrder lm = Inr order" "CloseWithTimeout fails lm = (closing, r)"
  shows "distinct closing \<and> set closing = set (components lm)
    \<and> (\<forall>pre n post. closing = pre @ n # post \<longrightarrow> set (deps_of lm n) \<subseteq> set post)"
proof -
  have t: "topo lm order" "set order = set (components lm)" using resolveOrder_cases [of lm] assms(2) by auto
  have "filter (\<lambda>n. findComponent lm n \<noteq> None) (rev order) = rev order"
    using t(2) by (intro filter_True) (simp add: findComponent_None)
  then have c: "closing = rev order" using assms by (simp add: CloseWithTimeout_def Let_def)
  have "set (deps_of lm n) \<subseteq> set post" if "closing = pre @ n # post" for pre n post
  proof -
    have "order = rev post @ n # rev pre" using that c by (metis append.assoc append_Cons append_Nil rev.simps(2) rev_append rev_rev_ident)
    then show ?thesis using t(1) unfolding topo_def by (metis set_rev)
  qed
  then show ?thesis using t c by (auto simp: topo_def)
qed

definition example_lm :: LifecycleManager where
  "example_lm = (Register ''c'' [''a'', ''b''] (Register ''b'' [''a''] (Register ''a'' [] lifecycle_New)))\<lparr>started := True\<rparr>"

lemma example_lm_order: "resolveOrder example_lm = Inr [''a'', ''b'', ''c'']"
  by (simp add: example_lm_def Register_def lifecycle_New_def resolveOrder_def deps_of_def findComponent_def)

theorem resolveOrder_spec_witness:
  "\<exists>order. resolveOrder example_lm = Inr order \<and> set order = {''a'', ''b'', ''c''}"
  using resolveOrder_spec [of example_lm] example_lm_order
  by (simp add: example_lm_def Register_def lifecycle_New_def)

theorem CloseWithTimeout_reverse_witness:
  "distinct (fst (CloseWithTimeout (\<lambda>_. False) example_lm)) \<and> set (fst (CloseWithTimeout (\<lambda>_. False) example_lm)) = {''a'', ''b'', ''c''}"
  using CloseWithTimeout_reverse [OF _ example_lm_order, of "\<lambda>_. False" "fst (CloseWithTimeout (\<lambda>_. False) example_lm)" "snd (CloseWithTimeout (\<lambda>_. False) example_lm)"]
  by (auto simp: example_lm_def Register_def lifecycle_New_def)

end
