(* ===== verification/Net_Message.thy ===== *)
theory Net_Message
  imports Compress
begin

text \<open>
  \<open>internal/network/message.go\<close>, the message codec of \<open>internal/network/interface.go\<close> and
  \<open>internal/network/backpressure.go\<close>: framing of messages, routing to handlers, and the permit counter.

  A message that is not worth compressing is sent in a buffer of the compression bound's size. What
  stands behind the payload there (zeros, bytes of an earlier message of the pooled buffer, the rest of
  the attempted block) is the argument \<open>junk\<close>; the decoder reads only the announced length.
\<close>

unbundle bit_operations_syntax

section \<open>Messages\<close>

type_synonym MessageType = byte

definition MessageTypeUnknown :: MessageType where "MessageTypeUnknown = 0"
definition MessageTypeRequest :: MessageType where "MessageTypeRequest = 1"
definition MessageTypeResponse :: MessageType where "MessageTypeResponse = 2"
definition MessageTypeOneWay :: MessageType where "MessageTypeOneWay = 3"
definition MessageTypeHeartbeat :: MessageType where "MessageTypeHeartbeat = 4"
definition MessageTypeError :: MessageType where "MessageTypeError = 5"
definition MessageTypePing :: MessageType where "MessageTypePing = 10"
definition MessageTypeConnect :: MessageType where "MessageTypeConnect = 11"
definition MessageTypeLeave :: MessageType where "MessageTypeLeave = 12"
definition MessageTypeGossipPush :: MessageType where "MessageTypeGossipPush = 20"
definition MessageTypeGossipPull :: MessageType where "MessageTypeGossipPull = 21"
definition MessageTypeGossipResponse :: MessageType where "MessageTypeGossipResponse = 22"
definition MessageTypeReadRequest :: MessageType where "MessageTypeReadRequest = 30"
definition MessageTypeReadResponse :: MessageType where "MessageTypeReadResponse = 31"
definition MessageTypeSyncOperation :: MessageType where "MessageTypeSyncOperation = 40"

record Message =
  mType :: MessageType
  mID :: uint64
  mData :: bytes
  mTimestamp :: int64
  mCompressed :: bool

datatype net_err = ErrInvalidMessage | ErrNetDecompress | ErrHandlerNotFound | ErrHandler | ErrBackpressure
  | ErrConnClosed | ErrConnTimeout | ErrConnRefused | ErrPoolExhausted | ErrPoolClosed | ErrMessageTooLarge | ErrContext

section \<open>Framing\<close>

definition msgFlagCompressed :: byte where
  "msgFlagCompressed = 1"

definition networkCompressThreshold :: nat where
  "networkCompressThreshold = 256"

definition CompressBound :: "lz4 \<Rightarrow> nat \<Rightarrow> nat" where
  "CompressBound z sz = CompressBlockBound z sz"

definition msg_header :: "Message \<Rightarrow> byte \<Rightarrow> nat \<Rightarrow> byte list" where
  "msg_header msg flags len =
     [mType msg, flags] @ put_be 8 (unat (mID msg)) @ put_be 8 (unat (mTimestamp msg)) @ put_be 4 len"

definition encodeMessage :: "lz4 \<Rightarrow> (nat \<Rightarrow> byte) \<Rightarrow> Message \<Rightarrow> byte list" where
  "encodeMessage z junk msg =
     (let payload = mData msg; len = go_len payload in
      if \<not> mCompressed msg \<and> len > networkCompressThreshold
      then
        (let boundSize = CompressBound z len;
             (compressed, n, ok) = CompressTo z payload boundSize (int networkCompressThreshold)
         in if ok \<and> n < len * 90 div 100
            then msg_header msg msgFlagCompressed n @ go_bytes compressed
            else msg_header msg 0 len @ take boundSize (go_bytes payload) @ map junk [len..<boundSize])
      else
        msg_header msg (if mCompressed msg then msgFlagCompressed else 0) len @ go_bytes payload)"

definition decodeMessage :: "lz4 \<Rightarrow> byte list \<Rightarrow> net_err + Message" where
  "decodeMessage z dat =
     (if length dat < 22 then Inl ErrInvalidMessage
      else
        (let len = get_be (take 4 (drop 18 dat)) in
         if 22 + len > length dat then Inl ErrInvalidMessage
         else
           (let flags = dat ! 1;
                isCompressed = (flags AND msgFlagCompressed \<noteq> 0);
                body = take len (drop 22 dat);
                payload = (if isCompressed then map_option fst (DecompressTo z (Some body) 0 (int len * 4))
                           else Some (Some body))
            in case payload of
                 None \<Rightarrow> Inl ErrNetDecompress
               | Some p \<Rightarrow>
                   Inr \<lparr>mType = dat ! 0, mID = of_nat (get_be (take 8 (drop 2 dat))), mData = p,
                        mTimestamp = of_nat (get_be (take 8 (drop 10 dat))), mCompressed = isCompressed\<rparr>)))"

section \<open>Routing\<close>

text \<open>A handler gets the remote address and the payload; \<open>Inl\<close> is its error.\<close>

type_synonym 's handler = "string \<Rightarrow> bytes \<Rightarrow> 's \<Rightarrow> 's \<times> (net_err + bytes)"

record 's simpleRouter =
  handlers :: "(MessageType \<times> 's handler) list"

definition NewRouter :: "'s simpleRouter" where
  "NewRouter = \<lparr>handlers = []\<rparr>"

definition RegisterHandler :: "MessageType \<Rightarrow> 's handler \<Rightarrow> 's simpleRouter \<Rightarrow> 's simpleRouter" where
  "RegisterHandler t h r = r\<lparr>handlers := AList.update t h (handlers r)\<rparr>"

definition UnregisterHandler :: "MessageType \<Rightarrow> 's simpleRouter \<Rightarrow> 's simpleRouter" where
  "UnregisterHandler t r = r\<lparr>handlers := AList.delete t (handlers r)\<rparr>"

definition Route ::
  "'s simpleRouter \<Rightarrow> gotime \<Rightarrow> string \<Rightarrow> Message \<Rightarrow> 's \<Rightarrow> 's \<times> (net_err + Message option)" where
  "Route r now remoteAddr msg s =
     (if mType msg = MessageTypeResponse \<or> mType msg = MessageTypeReadResponse
         \<or> mType msg = MessageTypeGossipResponse
      then (s, Inl ErrHandlerNotFound)
      else case map_of (handlers r) (mType msg) of
        None \<Rightarrow> (s, Inl ErrHandlerNotFound)
      | Some h \<Rightarrow>
          (case h remoteAddr (mData msg) s of
             (s', Inl e) \<Rightarrow> (s', Inl e)
           | (s', Inr resp) \<Rightarrow>
               (let reply = (\<lambda>t. \<lparr>mType = t, mID = mID msg, mData = resp, mTimestamp = UnixNano now,
                                  mCompressed = False\<rparr>) in
                if mType msg = MessageTypeOneWay \<or> mType msg = MessageTypeHeartbeat then (s', Inr None)
                else if mType msg = MessageTypeRequest then (s', Inr (Some (reply MessageTypeResponse)))
                else if mType msg = MessageTypeReadRequest
                then (s', Inr (Some (reply MessageTypeReadResponse)))
                else if resp \<noteq> go_nil then (s', Inr (Some (reply MessageTypeResponse)))
                else (s', Inr None))))"

section \<open>Backpressure\<close>

datatype BackpressureStrategy = StrategyReject | StrategyBlock | StrategyDrop

record BackpressureConfig =
  Threshold :: int
  MaxCapacity :: int
  Strategy :: BackpressureStrategy

definition DefaultBackpressureConfig :: BackpressureConfig where
  "DefaultBackpressureConfig = \<lparr>Threshold = 5000, MaxCapacity = 20000, Strategy = StrategyBlock\<rparr>"

text \<open>The channel of permits is the number of permits in it; its capacity is \<open>MaxCapacity\<close>.\<close>

record simpleBackpressure =
  bcfg :: BackpressureConfig
  permits :: nat
  rejected :: uint64

text \<open>\<open>None\<close>: \<open>make\<close> panics for a negative capacity.\<close>

definition NewBackpressure :: "BackpressureConfig \<Rightarrow> simpleBackpressure option" where
  "NewBackpressure cfg =
     (let cfg' = (if MaxCapacity cfg = 0 then cfg\<lparr>MaxCapacity := Threshold cfg\<rparr> else cfg) in
      if MaxCapacity cfg' < 0 then None else Some \<lparr>bcfg = cfg', permits = 0, rejected = 0\<rparr>)"

definition Allow :: "simpleBackpressure \<Rightarrow> bool" where
  "Allow b \<longleftrightarrow> int (permits b) < Threshold (bcfg b)"

text \<open>A send to the channel of permits; \<open>None\<close> blocks.\<close>

definition put_permit :: "simpleBackpressure \<Rightarrow> simpleBackpressure option" where
  "put_permit b = (if int (permits b) < MaxCapacity (bcfg b) then Some (b\<lparr>permits := permits b + 1\<rparr>) else None)"

definition Release :: "simpleBackpressure \<Rightarrow> simpleBackpressure" where
  "Release b = b\<lparr>permits := permits b - 1\<rparr>"

definition Acquire :: "simpleBackpressure \<Rightarrow> (simpleBackpressure \<times> (net_err + unit)) option" where
  "Acquire b =
     (case Strategy (bcfg b) of
        StrategyReject \<Rightarrow>
          if \<not> Allow b then Some (b\<lparr>rejected := rejected b + 1\<rparr>, Inl ErrBackpressure)
          else map_option (\<lambda>b'. (b', Inr ())) (put_permit b)
      | StrategyDrop \<Rightarrow>
          (case put_permit b of
             Some b' \<Rightarrow> Some (b', Inr ())
           | None \<Rightarrow> map_option (\<lambda>b'. (b', Inr ())) (put_permit (Release b)))
      | StrategyBlock \<Rightarrow> map_option (\<lambda>b'. (b', Inr ())) (put_permit b))"

record BackpressureStats =
  Queued :: nat
  Capacity :: int
  Blocked :: bool
  Rejected :: uint64

definition Backpressure_Stats :: "simpleBackpressure \<Rightarrow> BackpressureStats" where
  "Backpressure_Stats b =
     \<lparr>Queued = permits b, Capacity = MaxCapacity (bcfg b),
      Blocked = (int (permits b) \<ge> Threshold (bcfg b)), Rejected = rejected b\<rparr>"

definition ShouldReject :: "simpleBackpressure \<Rightarrow> bool" where
  "ShouldReject b \<longleftrightarrow> \<not> Allow b"

definition RecordRequest :: "simpleBackpressure \<Rightarrow> simpleBackpressure" where
  "RecordRequest b = (if Allow b then (case put_permit b of Some b' \<Rightarrow> b' | None \<Rightarrow> b) else b)"

definition RecordResponse :: "simpleBackpressure \<Rightarrow> simpleBackpressure" where
  "RecordResponse b = Release b"

definition RecordError :: "simpleBackpressure \<Rightarrow> simpleBackpressure" where
  "RecordError b = Release b"

section \<open>The network facade\<close>

text \<open>
  \<open>client address data\<close> is the answer of the client component to a send or a request. \<open>None\<close> is a call that
  blocks in \<open>Acquire\<close>.
\<close>

definition network_Send ::
  "(string \<Rightarrow> byte list \<Rightarrow> net_err + unit) \<Rightarrow> string \<Rightarrow> byte list \<Rightarrow> simpleBackpressure
   \<Rightarrow> (simpleBackpressure \<times> (net_err + unit)) option" where
  "network_Send client addr dat b =
     (if \<not> Allow b then Some (b, Inl ErrBackpressure)
      else case Acquire b of
        None \<Rightarrow> None
      | Some (b1, Inl e) \<Rightarrow> Some (b1, Inl e)
      | Some (b1, Inr _) \<Rightarrow> Some (Release b1, client addr dat))"

definition SendMessage ::
  "lz4 \<Rightarrow> (nat \<Rightarrow> byte) \<Rightarrow> (string \<Rightarrow> byte list \<Rightarrow> net_err + unit) \<Rightarrow> string \<Rightarrow> Message \<Rightarrow> simpleBackpressure
   \<Rightarrow> (simpleBackpressure \<times> (net_err + unit)) option" where
  "SendMessage z junk client addr msg b = network_Send client addr (encodeMessage z junk msg) b"

definition RequestMessage ::
  "lz4 \<Rightarrow> (nat \<Rightarrow> byte) \<Rightarrow> (string \<Rightarrow> byte list \<Rightarrow> net_err + byte list) \<Rightarrow> string \<Rightarrow> Message \<Rightarrow> net_err + Message" where
  "RequestMessage z junk client addr request =
     (case client addr (encodeMessage z junk request) of
        Inl e \<Rightarrow> Inl e
      | Inr respData \<Rightarrow> decodeMessage z respData)"

definition Request ::
  "lz4 \<Rightarrow> (nat \<Rightarrow> byte) \<Rightarrow> (string \<Rightarrow> byte list \<Rightarrow> net_err + byte list) \<Rightarrow> gotime \<Rightarrow> string \<Rightarrow> bytes \<Rightarrow> net_err + bytes" where
  "Request z junk client now addr request =
     (case RequestMessage z junk client addr
        \<lparr>mType = MessageTypeRequest, mID = UnixNano now, mData = request, mTimestamp = UnixNano now, mCompressed = False\<rparr> of
        Inl e \<Rightarrow> Inl e
      | Inr respMsg \<Rightarrow> Inr (mData respMsg))"

text \<open>The function \<open>Start\<close> hands to the server: it gets the bytes of a message and returns those of the response.\<close>

definition server_handler ::
  "lz4 \<Rightarrow> (nat \<Rightarrow> byte) \<Rightarrow> 's simpleRouter \<Rightarrow> gotime \<Rightarrow> string \<Rightarrow> byte list \<Rightarrow> 's \<Rightarrow> 's \<times> (net_err + bytes)" where
  "server_handler z junk router now remoteAddr dat s =
     (if length dat < 22 then (s, Inr go_nil)
      else case decodeMessage z dat of
        Inl _ \<Rightarrow> (s, Inr go_nil)
      | Inr msg \<Rightarrow>
          (case Route router now remoteAddr msg s of
             (s', Inl e) \<Rightarrow> (s', Inl e)
           | (s', Inr None) \<Rightarrow> (s', Inr go_nil)
           | (s', Inr (Some resp)) \<Rightarrow> (s', Inr (Some (encodeMessage z junk resp)))))"

text \<open>
  A sequence of calls on one controller, \<open>True\<close> an \<open>Acquire\<close> and \<open>False\<close> a \<open>Release\<close>, with the number of
  permits granted; \<open>None\<close> when a call blocks.
\<close>

fun bp_run :: "bool list \<Rightarrow> simpleBackpressure \<Rightarrow> (simpleBackpressure \<times> nat) option" where
  "bp_run [] b = Some (b, 0)"
| "bp_run (op # ops) b =
     (if op
      then (case Acquire b of
              None \<Rightarrow> None
            | Some (b', r) \<Rightarrow>
                map_option (apsnd (\<lambda>n. case r of Inl _ \<Rightarrow> n | Inr _ \<Rightarrow> n + 1)) (bp_run ops b'))
      else bp_run ops (Release b))"

section \<open>Lemmas on the frame\<close>

lemma length_msg_header [simp]: "length (msg_header msg fl len) = 22"
  by (simp add: msg_header_def)

lemma msg_header_fields:
  "(msg_header msg fl len @ xs) ! 0 = mType msg"
  "(msg_header msg fl len @ xs) ! 1 = fl"
  "take 8 (drop 2 (msg_header msg fl len @ xs)) = put_be 8 (unat (mID msg))"
  "take 8 (drop 10 (msg_header msg fl len @ xs)) = put_be 8 (unat (mTimestamp msg))"
  "take 4 (drop 18 (msg_header msg fl len @ xs)) = put_be 4 len"
  "drop 22 (msg_header msg fl len @ xs) = xs"
  by (simp_all add: msg_header_def nth_append)

lemma unat_put_be [simp]: "word_of_nat (get_be (put_be 8 (unat (w :: uint64)))) = w"
proof -
  have "unat w < 256 ^ 8" using unsigned_less [of w] by (simp add: word_less_nat_alt)
  then show ?thesis by simp
qed

text \<open>Decoding of a frame: the fields of the header, the payload through the decompressor.\<close>

lemma decodeMessage_frame:
  assumes "len \<le> length xs" "len < 256 ^ 4"
  shows "decodeMessage z (msg_header msg fl len @ xs) =
     (case (if fl AND msgFlagCompressed \<noteq> 0
            then map_option fst (DecompressTo z (Some (take len xs)) 0 (int len * 4))
            else Some (Some (take len xs))) of
        None \<Rightarrow> Inl ErrNetDecompress
      | Some p \<Rightarrow> Inr (msg\<lparr>mData := p, mCompressed := fl AND msgFlagCompressed \<noteq> 0\<rparr>))"
proof -
  have len: "get_be (put_be 4 len) = len" using assms(2) by simp
  show ?thesis
    using assms(1) unfolding decodeMessage_def Let_def msg_header_fields len
    by (simp split: option.split)
qed

text \<open>
  What is sent: the block when compression is tried and saves a tenth, the payload itself otherwise.
\<close>

definition sent_block :: "lz4 \<Rightarrow> Message \<Rightarrow> byte list option" where
  "sent_block z msg =
     (if mCompressed msg \<or> go_len (mData msg) \<le> networkCompressThreshold then None
      else case CompressBlock z (go_bytes (mData msg)) (CompressBlockBound z (go_len (mData msg))) of
        None \<Rightarrow> None
      | Some blk \<Rightarrow>
          if blk \<noteq> [] \<and> length blk < go_len (mData msg) * 90 div 100 then Some blk else None)"

lemma encodeMessage_block:
  assumes "sent_block z msg = Some blk"
  shows "encodeMessage z junk msg = msg_header msg msgFlagCompressed (length blk) @ blk"
  using assms
  by (auto simp: sent_block_def encodeMessage_def CompressTo_def CompressBound_def Let_def
      networkCompressThreshold_def split: option.splits if_splits)

lemma encodeMessage_plain:
  assumes "sent_block z msg = None" "\<not> mCompressed msg" "\<And>n. n \<le> CompressBlockBound z n"
  obtains tail where
    "encodeMessage z junk msg = msg_header msg 0 (go_len (mData msg)) @ go_bytes (mData msg) @ tail"
proof (cases "go_len (mData msg) > networkCompressThreshold")
  case True
  let ?b = "CompressBlockBound z (go_len (mData msg))"
  have "take ?b (go_bytes (mData msg)) = go_bytes (mData msg)"
    using assms(3) [of "go_len (mData msg)"] by (simp add: go_len_def)
  with True assms(1,2) that [of "map junk [go_len (mData msg)..<?b]"] show thesis
    by (auto simp: sent_block_def encodeMessage_def CompressTo_def CompressBound_def Let_def
        split: option.splits if_splits)
next
  case False
  with assms(2) that [of "[]"] show thesis by (simp add: encodeMessage_def Let_def)
qed

text \<open>
  Documented behaviour of \<open>UncompressBlock\<close> that decides the retry with a larger buffer: a buffer
  shorter than the original is an error (\<open>ErrInvalidSourceShortBuffer\<close>).
\<close>

definition lz4_rejects_short :: "lz4 \<Rightarrow> bool" where
  "lz4_rejects_short z \<longleftrightarrow>
     (\<forall>src n out m. CompressBlock z src n = Some out \<longrightarrow> m < length src \<longrightarrow> UncompressBlock z out m = None)"

lemma rle_lz4_rejects_short: "lz4_rejects_short rle_lz4"
proof -
  have "rle_uncompress out m = None" if "rle_compress src n = Some out" "m < length src" for src n out m
  proof (cases src)
    case (Cons b bs)
    with that(1) have r: "length src < 256 ^ 4" "out = b # put_le 4 (length src)"
      by (auto simp: rle_compress_def split: if_splits)
    have "get_le (put_le 4 (length src)) = length src" using r(1) by simp
    with that(2) show ?thesis by (simp add: rle_uncompress_def r(2))
  qed (use that in simp)
  then show ?thesis by (auto simp: lz4_rejects_short_def rle_lz4_def)
qed

text \<open>The larger of the two buffers the decoder tries for a block of length \<open>n\<close>.\<close>

definition decode_capacity :: "nat \<Rightarrow> nat" where
  "decode_capacity n = min (4 * min (4 * n) (64 * 1024 * 1024) + 64) maxAlloc"

lemma normEstimate_quad: "blk \<noteq> [] \<Longrightarrow> normEstimate (Some blk) (int (length blk) * 4) = min (4 * length blk) (64 * 1024 * 1024)"
  by (auto simp: normEstimate_def Let_def go_len_def)

lemma DecompressTo_sent:
  assumes z: "lz4_decodes z" "lz4_rejects_short z" and blk: "CompressBlock z src n = Some blk" "blk \<noteq> []"
  shows "DecompressTo z (Some blk) 0 (int (length blk) * 4) =
     (if length src \<le> decode_capacity (length blk) then Some (Some src, length src) else None)"
proof -
  let ?e = "min (4 * length blk) (64 * 1024 * 1024)"
  have u: "UncompressBlock z blk m = (if length src \<le> m then Some src else None)" for m
    using z blk by (auto simp: lz4_decodes_def lz4_rejects_short_def)
  have cap: "GetDecompress (?e * 4) = decode_capacity (length blk)"
    by (simp add: GetDecompress_min decode_capacity_def mult.commute)
  have le: "GetDecompress ?e \<le> decode_capacity (length blk)"
    unfolding GetDecompress_min decode_capacity_def by (intro min.mono add_right_mono) simp_all
  have pos: "\<not> ?e \<le> 0" using blk(2) by simp
  show ?thesis
    unfolding DecompressTo_def normEstimate_quad [OF blk(2)] Let_def go_bytes_simps u cap
    using le pos by auto
qed

lemma sent_block_SomeD:
  assumes "sent_block z msg = Some blk"
  shows "CompressBlock z (go_bytes (mData msg)) (CompressBlockBound z (go_len (mData msg))) = Some blk"
    "blk \<noteq> []" "length blk < go_len (mData msg)" "\<not> mCompressed msg"
  using assms by (auto simp: sent_block_def split: if_splits option.splits)

lemma rle_sent_block:
  assumes "256 < n" "n < 256 ^ 4" "mData msg = Some (replicate n b)" "\<not> mCompressed msg"
  shows "sent_block rle_lz4 msg = Some (b # put_le 4 n)"
proof -
  obtain k where k: "n = Suc k" using assms(1) by (cases n) auto
  have "rle_compress (replicate n b) m = Some (b # put_le 4 n)" for m
    using assms(2) by (simp add: rle_compress_def k)
  moreover have "5 < n * 90 div 100" using assms(1) by linarith
  ultimately show ?thesis
    using assms by (simp add: sent_block_def rle_lz4_def networkCompressThreshold_def)
qed

lemma Acquire_Reject:
  "Strategy (bcfg b) = StrategyReject \<Longrightarrow> Threshold (bcfg b) \<le> MaxCapacity (bcfg b) \<Longrightarrow>
   Acquire b = (if Allow b then Some (b\<lparr>permits := permits b + 1\<rparr>, Inr ())
                else Some (b\<lparr>rejected := rejected b + 1\<rparr>, Inl ErrBackpressure))"
  by (simp add: Acquire_def put_permit_def Allow_def)

lemma Acquire_Drop:
  "Strategy (bcfg b) = StrategyDrop \<Longrightarrow> 0 < MaxCapacity (bcfg b) \<Longrightarrow> int (permits b) \<le> MaxCapacity (bcfg b) \<Longrightarrow>
   Acquire b = Some (b\<lparr>permits := min (permits b + 1) (nat (MaxCapacity (bcfg b)))\<rparr>, Inr ())"
  by (auto simp: Acquire_def put_permit_def Release_def min_def)

lemma Acquire_Block:
  "Strategy (bcfg b) = StrategyBlock \<Longrightarrow>
   Acquire b = (if int (permits b) < MaxCapacity (bcfg b) then Some (b\<lparr>permits := permits b + 1\<rparr>, Inr ()) else None)"
  by (simp add: Acquire_def put_permit_def)

lemma decode_sent:
  assumes z: "lz4_decodes z" "lz4_rejects_short z" and bound: "\<And>n. n \<le> CompressBlockBound z n"
    and msg: "\<not> mCompressed msg" "go_len (mData msg) < 256 ^ 4"
    and fits: "\<And>blk. sent_block z msg = Some blk \<Longrightarrow> go_len (mData msg) \<le> decode_capacity (length blk)"
  shows "decodeMessage z (encodeMessage z junk msg) =
     Inr (msg\<lparr>mData := Some (go_bytes (mData msg)), mCompressed := sent_block z msg \<noteq> None\<rparr>)"
proof (cases "sent_block z msg")
  case None
  obtain tail where e: "encodeMessage z junk msg
      = msg_header msg 0 (go_len (mData msg)) @ go_bytes (mData msg) @ tail"
    using encodeMessage_plain [OF None msg(1) bound] .
  have "take (go_len (mData msg)) (go_bytes (mData msg) @ tail) = go_bytes (mData msg)"
    by (simp add: go_len_def)
  with msg None show ?thesis by (simp add: e decodeMessage_frame go_len_def)
next
  case (Some blk)
  note b = sent_block_SomeD [OF Some]
  have "DecompressTo z (Some blk) 0 (int (length blk) * 4) = Some (mData msg', go_len (mData msg))"
    if "mData msg' = Some (go_bytes (mData msg))" for msg' :: Message
    using DecompressTo_sent [OF z b(1,2)] fits [OF Some] that by (simp add: go_len_def)
  from this [of "msg\<lparr>mData := Some (go_bytes (mData msg))\<rparr>"] msg(2) b(3) show ?thesis
    by (simp add: encodeMessage_block [OF Some] decodeMessage_frame Some msgFlagCompressed_def)
qed

section \<open>Properties\<close>

text \<open>
  C40: a message that was not marked as compressed is decoded to the same type, identifier, timestamp and
  payload, whatever stands behind the payload in the buffer, as long as the payload fits the larger
  buffer the decoder tries (16 times the block plus 64 bytes, at most 8 MB). The decoded message is marked
  as compressed iff the sender compressed it.
\<close>

theorem decode_encodeMessage:
  assumes z: "lz4_decodes z" "lz4_rejects_short z" and bound: "\<And>n. n \<le> CompressBlockBound z n"
    and msg: "\<not> mCompressed msg" "go_len (mData msg) < 256 ^ 4"
    and fits: "\<And>blk. sent_block z msg = Some blk \<Longrightarrow> go_len (mData msg) \<le> decode_capacity (length blk)"
  shows "decodeMessage z (encodeMessage z junk msg) =
     Inr (msg\<lparr>mData := Some (go_bytes (mData msg)), mCompressed := sent_block z msg \<noteq> None\<rparr>)"
  using assms by (rule decode_sent)

theorem decode_encodeMessage_witness:
  "decodeMessage rle_lz4 (encodeMessage rle_lz4 (\<lambda>_. 7)
       \<lparr>mType = 20, mID = 9, mData = Some [1, 2, 3], mTimestamp = 5, mCompressed = False\<rparr>) =
     Inr \<lparr>mType = 20, mID = 9, mData = Some [1, 2, 3], mTimestamp = 5, mCompressed = False\<rparr>"
  using decode_encodeMessage [OF rle_lz4_decodes rle_lz4_rejects_short, of
      "\<lparr>mType = 20, mID = 9, mData = Some [1, 2, 3], mTimestamp = 5, mCompressed = False\<rparr>" "\<lambda>_. 7"]
  by (simp add: sent_block_def networkCompressThreshold_def rle_lz4_def)

text \<open>
  A payload that compresses better than the decoder's larger buffer allows is sent, and the receiver
  cannot decode the message.
\<close>

theorem dense_message_undecodable:
  assumes "lz4_decodes z" "lz4_rejects_short z" "go_len (mData msg) < 256 ^ 4"
    "sent_block z msg = Some blk" "decode_capacity (length blk) < go_len (mData msg)"
  shows "decodeMessage z (encodeMessage z junk msg) = Inl ErrNetDecompress"
proof -
  note b = sent_block_SomeD [OF assms(4)]
  have "DecompressTo z (Some blk) 0 (int (length blk) * 4) = None"
    using DecompressTo_sent [OF assms(1,2) b(1,2)] assms(5) by (simp add: go_len_def)
  with assms(3) b(3) show ?thesis
    by (simp add: encodeMessage_block [OF assms(4)] decodeMessage_frame msgFlagCompressed_def)
qed

theorem dense_message_undecodable_witness:
  "decodeMessage rle_lz4 (encodeMessage rle_lz4 (\<lambda>_. 0)
       \<lparr>mType = 20, mID = 9, mData = Some (replicate 300 0), mTimestamp = 5, mCompressed = False\<rparr>) =
     Inl ErrNetDecompress"
proof (rule dense_message_undecodable [OF rle_lz4_decodes rle_lz4_rejects_short _ rle_sent_block])
  show "decode_capacity (length ((0 :: byte) # put_le 4 300)) < go_len (mData
      \<lparr>mType = 20, mID = 9, mData = Some (replicate 300 0), mTimestamp = 5, mCompressed = False\<rparr>)"
    by (simp add: decode_capacity_def maxAlloc_def)
qed simp_all

text \<open>
  A controller under \<open>StrategyReject\<close> whose threshold is within its capacity never blocks: it grants
  a permit exactly below the threshold and counts every refusal. So along any sequence of acquisitions
  and releases the permits stay within the threshold, and refusals are the calls that were not granted.
\<close>

theorem reject_never_blocks:
  assumes "Strategy (bcfg b) = StrategyReject" "Threshold (bcfg b) \<le> MaxCapacity (bcfg b)"
    "int (permits b) \<le> Threshold (bcfg b)"
  shows "\<exists>b' granted. bp_run ops b = Some (b', granted) \<and> bcfg b' = bcfg b
    \<and> int (permits b') \<le> Threshold (bcfg b)
    \<and> rejected b' = rejected b + of_nat (count_list ops True - granted)
    \<and> granted \<le> count_list ops True"
  using assms
proof (induction ops arbitrary: b)
  case (Cons op ops)
  show ?case
  proof (cases op)
    case True
    show ?thesis
    proof (cases "Allow b")
      case a: True
      let ?b = "b\<lparr>permits := permits b + 1\<rparr>"
      obtain b' g where "bp_run ops ?b = Some (b', g)" "bcfg b' = bcfg b"
        "int (permits b') \<le> Threshold (bcfg b)" "g \<le> count_list ops True"
        "rejected b' = rejected b + of_nat (count_list ops True - g)"
        using Cons.IH [of ?b] Cons.prems a by (auto simp: Allow_def)
      with True a Cons.prems show ?thesis by (simp add: Acquire_Reject)
    next
      case a: False
      let ?b = "b\<lparr>rejected := rejected b + 1\<rparr>"
      obtain b' g where "bp_run ops ?b = Some (b', g)" "bcfg b' = bcfg b"
        "int (permits b') \<le> Threshold (bcfg b)" "g \<le> count_list ops True"
        "rejected b' = rejected b + 1 + of_nat (count_list ops True - g)"
        using Cons.IH [of ?b] Cons.prems by auto
      with True a Cons.prems show ?thesis by (simp add: Acquire_Reject Suc_diff_le)
    qed
  next
    case False
    with Cons.IH [of "Release b"] Cons.prems show ?thesis by (simp add: Release_def)
  qed
qed simp

theorem reject_never_blocks_witness:
  "\<exists>b' granted. bp_run [True, True, False, True]
       \<lparr>bcfg = \<lparr>Threshold = 1, MaxCapacity = 2, Strategy = StrategyReject\<rparr>, permits = 0, rejected = 0\<rparr> = Some (b', granted)
     \<and> int (permits b') \<le> 1"
  using reject_never_blocks [of
      "\<lparr>bcfg = \<lparr>Threshold = 1, MaxCapacity = 2, Strategy = StrategyReject\<rparr>, permits = 0, rejected = 0\<rparr>"
      "[True, True, False, True]"]
  by auto

end
