(* ===== verification/Conn_Pool.thy ===== *)
theory Conn_Pool
  imports Net_Message
begin

text \<open>
  \<open>internal/network/pool.go\<close>: the connection pool.

  \<^item> A connection is a number. What a connection does (its remote address, sends, receives, its health) is the record
    \<open>net_ops\<close> over a network state \<open>'n\<close>: the sockets are not code of the repository.
  \<^item> The critical sections of \<open>Get\<close> are separate definitions (\<open>pool_take\<close>, \<open>activateConn\<close>, \<open>dial_done\<close>), since the
    lock is released between them; \<open>pool_Get\<close> composes them. A waiter is a number; what other goroutines do to the
    pool while \<open>Get\<close> waits, and how the wait ends, is an argument.
  \<^item> The moving averages and the adaptive size are floating point and left out.
\<close>

section \<open>State\<close>

type_synonym conn = nat

record 'n net_ops =
  t_dial :: "string \<Rightarrow> 'n \<Rightarrow> 'n \<times> (net_err + conn)"
  t_send :: "conn \<Rightarrow> byte list \<Rightarrow> 'n \<Rightarrow> 'n \<times> (net_err + unit)"
  t_recv :: "conn \<Rightarrow> 'n \<Rightarrow> 'n \<times> (net_err + byte list)"
  t_close :: "conn \<Rightarrow> 'n \<Rightarrow> 'n"
  t_addr :: "conn \<Rightarrow> string"
  t_healthy :: "conn \<Rightarrow> 'n \<Rightarrow> bool"

record idleConn =
  ic_conn :: conn
  idleSince :: gotime

record addrPool =
  idle :: "idleConn list"
  active :: int
  waiters :: "nat list"

record poolShard =
  pools :: "(string \<times> addrPool) list"
  shardActive :: "conn list"

record PoolStats =
  Total :: int
  Active :: int
  Idle :: int
  Waiters :: int
  Created :: int
  Closed :: int
  Errors :: int

record PoolConfig =
  MaxIdle :: int
  MaxActive :: int
  IdleTimeout :: duration
  WaitTimeout :: duration

record connPool =
  pcfg :: PoolConfig
  pshards :: "poolShard list"
  pstats :: PoolStats
  pclosed :: bool
  requestCount :: nat

definition DefaultPoolConfig :: PoolConfig where
  "DefaultPoolConfig =
     \<lparr>MaxIdle = 2048, MaxActive = 30000, IdleTimeout = 30 * time_Second, WaitTimeout = 5 * time_Second\<rparr>"

definition poolShards :: nat where
  "poolShards = 256"

definition NewConnPool :: "PoolConfig \<Rightarrow> connPool" where
  "NewConnPool cfg =
     \<lparr>pcfg = cfg, pshards = replicate poolShards \<lparr>pools = [], shardActive = []\<rparr>,
      pstats = \<lparr>Total = 0, Active = 0, Idle = 0, Waiters = 0, Created = 0, Closed = 0, Errors = 0\<rparr>,
      pclosed = False, requestCount = 0\<rparr>"

section \<open>Shards and address pools\<close>

definition shard_hash :: "string \<Rightarrow> 32 word" where
  "shard_hash address = fold (\<lambda>c hash. hash * 31 + ucast (byte_of_char c)) address 0"

definition pool_shard :: "string \<Rightarrow> nat" where
  "pool_shard address = unat (shard_hash address mod of_nat poolShards)"

definition find_ap :: "string \<Rightarrow> connPool \<Rightarrow> addrPool option" where
  "find_ap addr p = map_of (pools (pshards p ! pool_shard addr)) addr"

text \<open>The pool of an address, a new one when there is none.\<close>

definition get_ap :: "string \<Rightarrow> connPool \<Rightarrow> addrPool" where
  "get_ap addr p = (case find_ap addr p of None \<Rightarrow> \<lparr>idle = [], active = 0, waiters = []\<rparr> | Some ap \<Rightarrow> ap)"

definition put_ap :: "string \<Rightarrow> addrPool \<Rightarrow> connPool \<Rightarrow> connPool" where
  "put_ap addr ap p =
     (let i = pool_shard addr; s = pshards p ! i
      in p\<lparr>pshards := (pshards p)[i := s\<lparr>pools := AList.update addr ap (pools s)\<rparr>]\<rparr>)"

definition mark_active :: "string \<Rightarrow> conn \<Rightarrow> connPool \<Rightarrow> connPool" where
  "mark_active addr c p =
     (let i = pool_shard addr; s = pshards p ! i
      in p\<lparr>pshards := (pshards p)[i := s\<lparr>shardActive := List.insert c (shardActive s)\<rparr>]\<rparr>)"

definition unmark_active :: "string \<Rightarrow> conn \<Rightarrow> connPool \<Rightarrow> connPool" where
  "unmark_active addr c p =
     (let i = pool_shard addr; s = pshards p ! i
      in p\<lparr>pshards := (pshards p)[i := s\<lparr>shardActive := removeAll c (shardActive s)\<rparr>]\<rparr>)"

definition count_stats :: "(PoolStats \<Rightarrow> PoolStats) \<Rightarrow> connPool \<Rightarrow> connPool" where
  "count_stats f p = p\<lparr>pstats := f (pstats p)\<rparr>"

definition count_request :: "connPool \<Rightarrow> connPool" where
  "count_request p = p\<lparr>requestCount := requestCount p + 1\<rparr>"

section \<open>Taking a connection\<close>

datatype take_result = TookIdle conn | MustWait | Exhausted | MayDial

text \<open>The first critical section of \<open>Get\<close>: the last idle connection, a place to wait, or permission to dial.\<close>

definition pool_take :: "nat \<Rightarrow> string \<Rightarrow> connPool \<Rightarrow> connPool \<times> take_result" where
  "pool_take w addr p =
     (let ap = get_ap addr p in
      if idle ap \<noteq> []
      then (put_ap addr (ap\<lparr>idle := butlast (idle ap)\<rparr>) p, TookIdle (ic_conn (last (idle ap))))
      else if MaxActive (pcfg p) > 0 \<and> active ap \<ge> MaxActive (pcfg p)
      then (if WaitTimeout (pcfg p) > 0
            then (count_stats (\<lambda>s. s\<lparr>Waiters := Waiters s + 1\<rparr>) (put_ap addr (ap\<lparr>waiters := waiters ap @ [w]\<rparr>) p), MustWait)
            else (put_ap addr ap p, Exhausted))
      else (count_stats (\<lambda>s. s\<lparr>Active := Active s + 1, Created := Created s + 1\<rparr>)
              (put_ap addr (ap\<lparr>active := active ap + 1\<rparr>) p), MayDial))"

definition activateConn :: "string \<Rightarrow> conn \<Rightarrow> connPool \<Rightarrow> connPool" where
  "activateConn addr c p =
     (let ap = get_ap addr p
      in mark_active addr c (count_stats (\<lambda>s. s\<lparr>Active := Active s + 1, Idle := Idle s - 1\<rparr>)
           (put_ap addr (ap\<lparr>active := active ap + 1\<rparr>) p)))"

definition dial_done :: "string \<Rightarrow> net_err + conn \<Rightarrow> connPool \<Rightarrow> connPool" where
  "dial_done addr res p =
     (case res of
        Inl _ \<Rightarrow>
          (let ap = get_ap addr p
           in count_stats (\<lambda>s. s\<lparr>Active := Active s - 1, Errors := Errors s + 1\<rparr>)
                (put_ap addr (ap\<lparr>active := active ap - 1\<rparr>) p))
      | Inr c \<Rightarrow> mark_active addr c (count_stats (\<lambda>s. s\<lparr>Total := Total s + 1\<rparr>) p))"

text \<open>How long \<open>Get\<close> waits; \<open>ctx\<close> is the time until the deadline of the context, if it has one.\<close>

definition wait_timeout :: "PoolConfig \<Rightarrow> nat \<Rightarrow> duration option \<Rightarrow> duration" where
  "wait_timeout cfg waitersCount ctx =
     (let t = WaitTimeout cfg;
          t1 = (if waitersCount > 100 then t * 2 else if waitersCount > 50 then t * 3 sdiv 2 else t)
      in case ctx of None \<Rightarrow> t1 | Some c \<Rightarrow> if c < t1 then c else t1)"

datatype wait_result = Woken | WaitTimedOut | WaitCancelled

definition removeWaiter :: "nat \<Rightarrow> string \<Rightarrow> connPool \<Rightarrow> connPool" where
  "removeWaiter w addr p = (let ap = get_ap addr p in put_ap addr (ap\<lparr>waiters := remove1 w (waiters ap)\<rparr>) p)"

definition wait_over :: "connPool \<Rightarrow> connPool" where
  "wait_over p = count_stats (\<lambda>s. s\<lparr>Waiters := Waiters s - 1\<rparr>) p"

text \<open>
  \<open>Get\<close>; each element of \<open>waits\<close> is one wait: the effect of the other goroutines on the pool and how the wait ends.
  The result is \<open>None\<close> while the last wait has not ended.
\<close>

fun pool_Get ::
  "'n net_ops \<Rightarrow> (connPool \<Rightarrow> connPool \<times> wait_result) list \<Rightarrow> nat \<Rightarrow> string \<Rightarrow> connPool \<Rightarrow> 'n
   \<Rightarrow> (connPool \<times> 'n \<times> (net_err + conn)) option" where
  "pool_Get T waits w addr p n =
     (if pclosed p then Some (p, n, Inl ErrPoolClosed)
      else
        (case pool_take w addr (count_request p) of
           (p1, TookIdle c) \<Rightarrow> Some (activateConn addr c p1, n, Inr c)
         | (p1, Exhausted) \<Rightarrow> Some (p1, n, Inl ErrPoolExhausted)
         | (p1, MayDial) \<Rightarrow> (case t_dial T addr n of (n1, res) \<Rightarrow> Some (dial_done addr res p1, n1, res))
         | (p1, MustWait) \<Rightarrow>
             (case waits of
                [] \<Rightarrow> None
              | others # waits' \<Rightarrow>
                  (case others p1 of
                     (p2, Woken) \<Rightarrow> pool_Get T waits' w addr (wait_over p2) n
                   | (p2, WaitTimedOut) \<Rightarrow> Some (removeWaiter w addr (wait_over p2), n, Inl ErrPoolExhausted)
                   | (p2, WaitCancelled) \<Rightarrow> Some (removeWaiter w addr (wait_over p2), n, Inl ErrContext)))))"

section \<open>Returning a connection\<close>

text \<open>The health check of a TCP connection: a result is cached for 30 seconds.\<close>

record tcpHealth =
  lastHealthCheck :: int
  healthCheckCached :: bool

definition isConnectionHealthy :: "int \<Rightarrow> bool \<Rightarrow> bool \<Rightarrow> tcpHealth \<Rightarrow> tcpHealth \<times> bool" where
  "isConnectionHealthy nowSec hasAddr deadlineOk h =
     (if nowSec - lastHealthCheck h < 30 then (h, healthCheckCached h)
      else (let ok = (hasAddr \<and> deadlineOk) in (\<lparr>lastHealthCheck = nowSec, healthCheckCached = ok\<rparr>, ok)))"

text \<open>\<open>Put\<close> returns the waiters it signals.\<close>

definition pool_Put ::
  "'n net_ops \<Rightarrow> gotime \<Rightarrow> conn \<Rightarrow> connPool \<Rightarrow> 'n \<Rightarrow> connPool \<times> 'n \<times> nat list" where
  "pool_Put T now c p n =
     (if pclosed p then (p, t_close T c n, [])
      else
        (let addr = t_addr T c;
             p1 = unmark_active addr c p;
             ap = (get_ap addr p1)\<lparr>active := active (get_ap addr p1) - 1\<rparr>;
             gone = (\<lambda>s. s\<lparr>Active := Active s - 1, Closed := Closed s + 1, Total := Total s - 1\<rparr>)
         in if MaxIdle (pcfg p) > 0 \<and> int (length (idle ap)) < MaxIdle (pcfg p)
            then (if \<not> t_healthy T c n then (count_stats gone (put_ap addr ap p1), t_close T c n, [])
                  else
                    (let batchSize = min 10 (length (waiters ap))
                     in (count_stats (\<lambda>s. s\<lparr>Active := Active s - 1, Idle := Idle s + 1, Waiters := Waiters s - int batchSize\<rparr>)
                           (put_ap addr (ap\<lparr>idle := idle ap @ [\<lparr>ic_conn = c, idleSince = now\<rparr>],
                                            waiters := drop batchSize (waiters ap)\<rparr>) p1),
                         n, take batchSize (waiters ap))))
            else (count_stats gone (put_ap addr ap p1), t_close T c n, [])))"

definition pool_Remove :: "'n net_ops \<Rightarrow> conn \<Rightarrow> connPool \<Rightarrow> 'n \<Rightarrow> connPool \<times> 'n" where
  "pool_Remove T c p n =
     (let addr = t_addr T c;
          p1 = unmark_active addr c p
      in case find_ap addr p1 of
           None \<Rightarrow> (p1, t_close T c n)
         | Some ap \<Rightarrow>
             (let (ap', f) =
                    (if active ap > 0
                     then (ap\<lparr>active := active ap - 1\<rparr>, \<lambda>s. s\<lparr>Active := Active s - 1\<rparr>)
                     else if c \<in> ic_conn ` set (idle ap)
                     then (ap\<lparr>idle := takeWhile (\<lambda>ic. ic_conn ic \<noteq> c) (idle ap) @ tl (dropWhile (\<lambda>ic. ic_conn ic \<noteq> c) (idle ap))\<rparr>,
                           \<lambda>s. s\<lparr>Idle := Idle s - 1\<rparr>)
                     else (ap, id))
              in (count_stats (\<lambda>s. (f s)\<lparr>Total := Total s - 1, Closed := Closed s + 1\<rparr>) (put_ap addr ap' p1), t_close T c n)))"

section \<open>Cleaning and closing\<close>

definition is_stale :: "PoolConfig \<Rightarrow> gotime \<Rightarrow> idleConn \<Rightarrow> bool" where
  "is_stale cfg now ic \<longleftrightarrow> IdleTimeout cfg > 0 \<and> now - idleSince ic > IdleTimeout cfg"

text \<open>One address pool: how many waiters are signalled.\<close>

definition cleanup_batch :: "PoolConfig \<Rightarrow> addrPool \<Rightarrow> nat" where
  "cleanup_batch cfg ap =
     (if length (waiters ap) > 0 \<and> active ap < MaxActive cfg
      then min 10 (min (length (waiters ap)) (nat (MaxActive cfg - active ap)))
      else 0)"

definition cleanup_ap :: "'n net_ops \<Rightarrow> gotime \<Rightarrow> string \<Rightarrow> connPool \<Rightarrow> 'n \<Rightarrow> connPool \<times> 'n \<times> nat list" where
  "cleanup_ap T now addr p n =
     (let ap = get_ap addr p;
          old = filter (is_stale (pcfg p) now) (idle ap);
          batchSize = cleanup_batch (pcfg p) ap
      in (count_stats (\<lambda>s. s\<lparr>Idle := Idle s - int (length old), Total := Total s - int (length old),
                             Closed := Closed s + int (length old), Waiters := Waiters s - int batchSize\<rparr>)
            (put_ap addr (ap\<lparr>idle := filter (\<lambda>ic. \<not> is_stale (pcfg p) now ic) (idle ap),
                             waiters := drop batchSize (waiters ap)\<rparr>) p),
          fold (\<lambda>ic. t_close T (ic_conn ic)) old n, take batchSize (waiters ap)))"

definition cleanupIdleConns :: "'n net_ops \<Rightarrow> gotime \<Rightarrow> connPool \<Rightarrow> 'n \<Rightarrow> connPool \<times> 'n \<times> nat list" where
  "cleanupIdleConns T now p n =
     fold (\<lambda>addr (p, n, woken). case cleanup_ap T now addr p n of (p', n', more_woken) \<Rightarrow> (p', n', woken @ more_woken))
       (concat (map (\<lambda>s. map fst (pools s)) (pshards p))) (p, n, [])"

definition all_conns :: "poolShard \<Rightarrow> conn list" where
  "all_conns s = concat (map (\<lambda>(_, ap). map ic_conn (idle ap)) (pools s)) @ shardActive s"

definition pool_Close :: "'n net_ops \<Rightarrow> connPool \<Rightarrow> 'n \<Rightarrow> connPool \<times> 'n" where
  "pool_Close T p n =
     (if pclosed p then (p, n)
      else (p\<lparr>pclosed := True, pshards := map (\<lambda>_. \<lparr>pools = [], shardActive = []\<rparr>) (pshards p),
              pstats := \<lparr>Total = 0, Active = 0, Idle = 0, Waiters = 0, Created = 0, Closed = 0, Errors = 0\<rparr>\<rparr>,
            fold (t_close T) (concat (map all_conns (pshards p))) n))"

section \<open>Executions\<close>

text \<open>
  One call on the pool, with the critical sections of \<open>Get\<close> run without interruption. A \<open>Get\<close> that has to wait
  leaves its waiter behind; the end of the wait is an event of its own.
\<close>

datatype pool_event =
  PGet nat string
| PPut gotime conn
| PRemove conn
| PCleanup gotime
| PWoken
| PWaitFailed nat string

fun pool_step :: "'n net_ops \<Rightarrow> pool_event \<Rightarrow> connPool \<times> 'n \<Rightarrow> connPool \<times> 'n" where
  "pool_step T (PGet w addr) (p, n) =
     (case pool_Get T [] w addr p n of
        Some (p', n', _) \<Rightarrow> (p', n')
      | None \<Rightarrow> (fst (pool_take w addr (count_request p)), n))"
| "pool_step T (PPut now c) (p, n) = (case pool_Put T now c p n of (p', n', _) \<Rightarrow> (p', n'))"
| "pool_step T (PRemove c) (p, n) = pool_Remove T c p n"
| "pool_step T (PCleanup now) (p, n) = (case cleanupIdleConns T now p n of (p', n', _) \<Rightarrow> (p', n'))"
| "pool_step T PWoken (p, n) = (wait_over p, n)"
| "pool_step T (PWaitFailed w addr) (p, n) = (removeWaiter w addr (wait_over p), n)"

definition in_use :: "'n net_ops \<Rightarrow> string \<Rightarrow> connPool \<Rightarrow> conn list" where
  "in_use T addr p = filter (\<lambda>c. t_addr T c = addr) (shardActive (pshards p ! pool_shard addr))"

definition known :: "'n net_ops \<Rightarrow> string \<Rightarrow> connPool \<Rightarrow> conn list" where
  "known T addr p = map ic_conn (idle (get_ap addr p)) @ in_use T addr p"

text \<open>
  What the pool relies on: a dialled connection is new and reports the address it was dialled with, as a TCP
  connection to an IP address and port does, and a client returns only connections it holds.
\<close>

fun well_used :: "'n net_ops \<Rightarrow> pool_event \<Rightarrow> connPool \<times> 'n \<Rightarrow> bool" where
  "well_used T (PGet w addr) (p, n) \<longleftrightarrow>
     (case snd (t_dial T addr n) of Inl _ \<Rightarrow> True | Inr c \<Rightarrow> t_addr T c = addr \<and> c \<notin> set (known T addr p))"
| "well_used T (PPut now c) (p, n) \<longleftrightarrow> c \<in> set (in_use T (t_addr T c) p)"
| "well_used T (PRemove c) (p, n) \<longleftrightarrow> c \<in> set (in_use T (t_addr T c) p)"
| "well_used T _ (p, n) \<longleftrightarrow> True"

inductive pool_reach :: "'n net_ops \<Rightarrow> PoolConfig \<Rightarrow> connPool \<times> 'n \<Rightarrow> bool" for T cfg where
  pool_new: "pool_reach T cfg (NewConnPool cfg, n)"
| pool_call: "pool_reach T cfg s \<Longrightarrow> well_used T e s \<Longrightarrow> pool_reach T cfg (pool_step T e s)"

section \<open>Field lemmas\<close>

declare pool_Get.simps [simp del]

lemma list_update_at: "xs[i := v] ! j = (if i = j \<and> i < length xs then v else xs ! j)"
  by (cases "i < length xs") (auto simp: nth_list_update list_update_beyond)

lemma pool_shard_less: "pool_shard addr < poolShards"
proof -
  have "unat (shard_hash addr mod 256) < 256" by (simp add: unat_mod)
  then show ?thesis by (simp add: pool_shard_def poolShards_def)
qed

definition pool_wf :: "connPool \<Rightarrow> bool" where
  "pool_wf p \<longleftrightarrow> length (pshards p) = poolShards"

lemma pool_wf_simps [simp]:
  "pool_wf (put_ap a ap p) = pool_wf p" "pool_wf (mark_active a c p) = pool_wf p" "pool_wf (unmark_active a c p) = pool_wf p"
  "pool_wf (count_stats f p) = pool_wf p" "pool_wf (count_request p) = pool_wf p"
  by (simp_all add: pool_wf_def count_request_def put_ap_def mark_active_def unmark_active_def count_stats_def Let_def)

lemma pcfg_simps [simp]:
  "pcfg (put_ap a ap p) = pcfg p" "pcfg (mark_active a c p) = pcfg p" "pcfg (unmark_active a c p) = pcfg p"
  "pcfg (count_stats f p) = pcfg p" "pcfg (count_request p) = pcfg p" "pclosed (put_ap a ap p) = pclosed p" "pclosed (mark_active a c p) = pclosed p"
  "pclosed (unmark_active a c p) = pclosed p" "pclosed (count_stats f p) = pclosed p"
  by (simp_all add: count_request_def put_ap_def mark_active_def unmark_active_def count_stats_def Let_def)

lemma pstats_simps [simp]:
  "pstats (put_ap a ap p) = pstats p" "pstats (mark_active a c p) = pstats p" "pstats (unmark_active a c p) = pstats p"
  "pstats (count_stats f p) = f (pstats p)" "pstats (count_request p) = pstats p"
  by (simp_all add: count_request_def put_ap_def mark_active_def unmark_active_def count_stats_def Let_def)

lemma find_ap_simps [simp]:
  "pool_wf p \<Longrightarrow> find_ap addr (put_ap a ap p) = (if addr = a then Some ap else find_ap addr p)"
  "find_ap addr (mark_active a c p) = find_ap addr p"
  "find_ap addr (unmark_active a c p) = find_ap addr p"
  "find_ap addr (count_stats f p) = find_ap addr p"
  "find_ap addr (count_request p) = find_ap addr p"
  using pool_shard_less [of a]
  by (simp_all add: pool_wf_def find_ap_def count_request_def put_ap_def mark_active_def unmark_active_def count_stats_def Let_def list_update_at)

lemma get_ap_simps [simp]:
  "pool_wf p \<Longrightarrow> get_ap addr (put_ap a ap p) = (if addr = a then ap else get_ap addr p)"
  "get_ap addr (mark_active a c p) = get_ap addr p"
  "get_ap addr (unmark_active a c p) = get_ap addr p"
  "get_ap addr (count_stats f p) = get_ap addr p"
  "get_ap addr (count_request p) = get_ap addr p"
  by (simp_all add: get_ap_def)

lemma in_use_simps [simp]:
  "in_use T addr (put_ap a ap p) = in_use T addr p"
  "in_use T addr (count_stats f p) = in_use T addr p"
  "in_use T addr (count_request p) = in_use T addr p"
  by (auto simp: in_use_def count_request_def put_ap_def count_stats_def Let_def list_update_at) 

lemma filter_insert: "filter P (List.insert c xs) = (if P c \<and> c \<notin> set xs then c # filter P xs else filter P xs)"
  by (simp add: List.insert_def)

lemma filter_removeAll: "filter P (removeAll c xs) = (if P c then removeAll c (filter P xs) else filter P xs)"
  by (induction xs) auto

lemma shardActive_mark:
  "pool_wf p \<Longrightarrow> shardActive (pshards (mark_active a c p) ! pool_shard addr) =
    (if pool_shard addr = pool_shard a then List.insert c (shardActive (pshards p ! pool_shard a))
     else shardActive (pshards p ! pool_shard addr))"
  "pool_wf p \<Longrightarrow> shardActive (pshards (unmark_active a c p) ! pool_shard addr) =
    (if pool_shard addr = pool_shard a then removeAll c (shardActive (pshards p ! pool_shard a))
     else shardActive (pshards p ! pool_shard addr))"
  using pool_shard_less [of a]
  by (simp_all add: pool_wf_def mark_active_def unmark_active_def Let_def list_update_at)

lemma in_use_mark:
  assumes "pool_wf p" "a = t_addr T c"
  shows "in_use T addr (mark_active a c p) = (if addr = a \<and> c \<notin> set (in_use T a p) then c # in_use T a p else in_use T addr p)"
  using assms(2) by (cases "addr = a") (simp_all add: in_use_def shardActive_mark [OF assms(1)] filter_insert)

lemma in_use_unmark:
  assumes "pool_wf p" "a = t_addr T c"
  shows "in_use T addr (unmark_active a c p) = (if addr = a then removeAll c (in_use T a p) else in_use T addr p)"
  using assms(2) by (cases "addr = a") (simp_all add: in_use_def shardActive_mark [OF assms(1)] filter_removeAll)

section \<open>The pool invariant\<close>

definition ap_inv :: "'n net_ops \<Rightarrow> PoolConfig \<Rightarrow> string \<Rightarrow> addrPool \<Rightarrow> conn list \<Rightarrow> bool" where
  "ap_inv T cfg addr ap used \<longleftrightarrow>
     active ap = int (length used) \<and> distinct (map ic_conn (idle ap) @ used)
     \<and> (\<forall>ic \<in> set (idle ap). t_addr T (ic_conn ic) = addr)
     \<and> (0 < MaxActive cfg \<longrightarrow> active ap + int (length (idle ap)) \<le> MaxActive cfg)"

definition pool_inv :: "'n net_ops \<Rightarrow> PoolConfig \<Rightarrow> connPool \<Rightarrow> bool" where
  "pool_inv T cfg p \<longleftrightarrow> pcfg p = cfg \<and> pool_wf p \<and> (\<forall>addr. ap_inv T (pcfg p) addr (get_ap addr p) (in_use T addr p))
     \<and> Total (pstats p) = Active (pstats p) + Idle (pstats p)"

lemma pool_invD:
  assumes "pool_inv T cfg p"
  shows "pool_wf p" "ap_inv T (pcfg p) addr (get_ap addr p) (in_use T addr p)"
    "Total (pstats p) = Active (pstats p) + Idle (pstats p)" "pcfg p = cfg"
  using assms unfolding pool_inv_def by blast+

text \<open>A call changes the pool of one address.\<close>

lemma pool_inv_at:
  assumes "pool_inv T cfg p" "pool_wf p'" "pcfg p' = pcfg p"
    and "\<And>b. b \<noteq> addr \<Longrightarrow> get_ap b p' = get_ap b p \<and> in_use T b p' = in_use T b p"
    and "ap_inv T (pcfg p) addr (get_ap addr p') (in_use T addr p')"
    and "Total (pstats p') = Active (pstats p') + Idle (pstats p')"
  shows "pool_inv T cfg p'"
  unfolding pool_inv_def
proof (intro conjI allI assms(2,6))
  show "pcfg p' = cfg" using assms(1,3) by (simp add: pool_inv_def)
  fix b
  show "ap_inv T (pcfg p') b (get_ap b p') (in_use T b p')"
    using assms(4) [of b] assms(3,5) pool_invD(2) [OF assms(1), of b] by (cases "b = addr") simp_all
qed

lemma pool_inv_new: "pool_inv T cfg (NewConnPool cfg)"
proof -
  have "get_ap addr (NewConnPool cfg) = \<lparr>idle = [], active = 0, waiters = []\<rparr>" "in_use T addr (NewConnPool cfg) = []" for addr
    using pool_shard_less [of addr] by (simp_all add: get_ap_def find_ap_def in_use_def NewConnPool_def)
  then show ?thesis by (simp add: pool_inv_def ap_inv_def pool_wf_def) (simp add: NewConnPool_def)
qed

lemma ap_inv_cong: "idle a = idle b \<Longrightarrow> active a = active b \<Longrightarrow> ap_inv T cfg addr a used = ap_inv T cfg addr b used"
  by (simp add: ap_inv_def)

lemma ap_inv_waiters [simp]: "ap_inv T cfg addr (ap\<lparr>waiters := ws\<rparr>) used = ap_inv T cfg addr ap used"
  by (simp add: ap_inv_def)

lemma ap_inv_take:
  assumes "ap_inv T cfg addr ap used" "idle ap \<noteq> []"
  shows "ap_inv T cfg addr (ap\<lparr>idle := butlast (idle ap), active := active ap + 1\<rparr>) (ic_conn (last (idle ap)) # used)"
    and "ic_conn (last (idle ap)) \<notin> set used" "t_addr T (ic_conn (last (idle ap))) = addr"
proof -
  obtain xs x where i: "idle ap = xs @ [x]" using assms(2) by (cases "idle ap" rule: rev_cases) auto
  show "ap_inv T cfg addr (ap\<lparr>idle := butlast (idle ap), active := active ap + 1\<rparr>) (ic_conn (last (idle ap)) # used)"
    "ic_conn (last (idle ap)) \<notin> set used" "t_addr T (ic_conn (last (idle ap))) = addr"
    using assms(1) by (auto simp: ap_inv_def i)
qed

lemma pool_take_wait:
  assumes "pool_inv T cfg p" "pool_take w addr p = (p', r)" "r = MustWait \<or> r = Exhausted"
  shows "pool_inv T cfg p'"
proof (rule pool_inv_at [OF assms(1), where addr = addr])
  note inv = pool_invD [OF assms(1)]
  note defs = pool_take_def Let_def
  show "pool_wf p'" "pcfg p' = pcfg p" "Total (pstats p') = Active (pstats p') + Idle (pstats p')"
    using assms(2,3) inv(1,3) by (auto simp: defs split: if_splits)
  show "get_ap b p' = get_ap b p \<and> in_use T b p' = in_use T b p" if "b \<noteq> addr" for b
    using assms(2,3) inv(1) that by (auto simp: defs split: if_splits)
  have "idle (get_ap addr p') = idle (get_ap addr p) \<and> active (get_ap addr p') = active (get_ap addr p)
      \<and> in_use T addr p' = in_use T addr p"
    using assms(2,3) inv(1) by (auto simp: defs split: if_splits)
  then show "ap_inv T (pcfg p) addr (get_ap addr p') (in_use T addr p')"
    using inv(2) [of addr] by (metis ap_inv_cong)
qed

lemma pool_take_idle:
  assumes "pool_inv T cfg p" "pool_take w addr p = (p', TookIdle c)"
  shows "pool_inv T cfg (activateConn addr c p')"
proof -
  note inv = pool_invD [OF assms(1)]
  let ?ap = "get_ap addr p"
  have i: "idle ?ap \<noteq> []" and c: "c = ic_conn (last (idle ?ap))"
    and p': "p' = put_ap addr (?ap\<lparr>idle := butlast (idle ?ap)\<rparr>) p"
    using assms(2) by (auto simp: pool_take_def Let_def split: if_splits)
  note t = ap_inv_take [OF inv(2) i, folded c]
  show ?thesis
  proof (rule pool_inv_at [OF assms(1), where addr = addr])
    show "pool_wf (activateConn addr c p')" "pcfg (activateConn addr c p') = pcfg p"
      "Total (pstats (activateConn addr c p')) = Active (pstats (activateConn addr c p')) + Idle (pstats (activateConn addr c p'))"
      using inv(1,3) by (simp_all add: activateConn_def p' Let_def)
    show "get_ap b (activateConn addr c p') = get_ap b p \<and> in_use T b (activateConn addr c p') = in_use T b p"
      if "b \<noteq> addr" for b
      using inv(1) that t(3) by (simp add: activateConn_def p' Let_def in_use_mark)
    have g: "get_ap addr (activateConn addr c p') = ?ap\<lparr>idle := butlast (idle ?ap), active := active ?ap + 1\<rparr>"
      using inv(1) by (simp add: activateConn_def p' Let_def)
    have u: "in_use T addr (activateConn addr c p') = c # in_use T addr p"
      using inv(1) t(2,3) by (simp add: activateConn_def p' Let_def in_use_mark)
    show "ap_inv T (pcfg p) addr (get_ap addr (activateConn addr c p')) (in_use T addr (activateConn addr c p'))"
      unfolding g u by (rule t(1))
  qed
qed

lemma pool_take_dial:
  assumes "pool_inv T cfg p" "pool_take w addr p = (p', MayDial)"
    and "\<And>c. res = Inr c \<Longrightarrow> t_addr T c = addr \<and> c \<notin> set (known T addr p)"
  shows "pool_inv T cfg (dial_done addr res p')"
proof -
  note inv = pool_invD [OF assms(1)]
  let ?ap = "get_ap addr p" and ?q = "dial_done addr res p'"
  have i: "idle ?ap = []" and lim: "0 < MaxActive (pcfg p) \<Longrightarrow> active ?ap < MaxActive (pcfg p)"
    and p': "p' = count_stats (\<lambda>s. s\<lparr>Active := Active s + 1, Created := Created s + 1\<rparr>) (put_ap addr (?ap\<lparr>active := active ?ap + 1\<rparr>) p)"
    using assms(2) by (auto simp: pool_take_def Let_def split: if_splits)
  show ?thesis
  proof (cases res)
    case (Inl e)
    show ?thesis
      by (rule pool_inv_at [OF assms(1), where addr = addr])
        (use inv in \<open>simp_all add: dial_done_def Inl p' Let_def\<close>)
  next
    case (Inr c)
    note c = assms(3) [OF Inr]
    have u: "in_use T b ?q = (if b = addr then c # in_use T addr p else in_use T b p)" for b
      using inv(1) c by (auto simp: dial_done_def Inr p' in_use_mark known_def)
    have g: "get_ap b ?q = (if b = addr then ?ap\<lparr>active := active ?ap + 1\<rparr> else get_ap b p)" for b
      using inv(1) by (simp add: dial_done_def Inr p')
    show ?thesis
    proof (rule pool_inv_at [OF assms(1), where addr = addr])
      show "ap_inv T (pcfg p) addr (get_ap addr ?q) (in_use T addr ?q)"
        using inv(2) [of addr] i lim c by (auto simp: u g ap_inv_def known_def)
    qed (use inv in \<open>simp_all add: u g\<close>, simp_all add: dial_done_def Inr p')
  qed
qed

lemma pool_inv_count: "pool_inv T cfg (count_request p) = pool_inv T cfg p"
  by (simp add: pool_inv_def)

lemma PGet_inv:
  assumes "pool_inv T cfg p" "well_used T (PGet w addr) (p, n)"
  shows "pool_inv T cfg (fst (pool_step T (PGet w addr) (p, n)))"
proof -
  let ?p = "count_request p"
  obtain p1 r where t: "pool_take w addr ?p = (p1, r)" by fastforce
  obtain n1 res where d: "t_dial T addr n = (n1, res)" by fastforce
  have inv: "pool_inv T cfg ?p" using assms(1) by (simp add: pool_inv_count)
  have w: "res = Inr c \<Longrightarrow> t_addr T c = addr \<and> c \<notin> set (known T addr ?p)" for c
    using assms(2) by (simp add: d known_def)
  show ?thesis
    using pool_take_wait [OF inv t] pool_take_idle [OF inv, of w addr p1] pool_take_dial [OF inv, of w addr p1 res] w assms(1)
    by (cases r) (auto simp: pool_Get.simps t d)
qed

lemma ap_inv_return:
  assumes "ap_inv T cfg addr ap used" "c \<in> set used" "t_addr T c = addr"
  shows "ap_inv T cfg addr (ap\<lparr>active := active ap - 1\<rparr>) (removeAll c used)"
    and "ap_inv T cfg addr (ap\<lparr>active := active ap - 1, idle := idle ap @ [\<lparr>ic_conn = c, idleSince = now\<rparr>], waiters := ws\<rparr>)
      (removeAll c used)"
proof -
  have "distinct used" using assms(1) by (simp add: ap_inv_def)
  then have "length (removeAll c used) = length used - 1" "0 < length used"
    using assms(2) length_pos_if_in_set by (auto simp: distinct_remove1_removeAll [symmetric] length_remove1)
  then have "int (length (removeAll c used)) = int (length used) - 1" by linarith
  then show "ap_inv T cfg addr (ap\<lparr>active := active ap - 1\<rparr>) (removeAll c used)"
    "ap_inv T cfg addr (ap\<lparr>active := active ap - 1, idle := idle ap @ [\<lparr>ic_conn = c, idleSince = now\<rparr>], waiters := ws\<rparr>)
      (removeAll c used)"
    using assms by (auto simp: ap_inv_def distinct_removeAll)
qed

lemma PPut_inv:
  assumes "pool_inv T cfg p" "c \<in> set (in_use T (t_addr T c) p)"
  shows "pool_inv T cfg (fst (pool_Put T now c p n))"
proof (cases "pclosed p")
  case True
  then show ?thesis using assms(1) by (simp add: pool_Put_def)
next
  case False
  note inv = pool_invD [OF assms(1)]
  let ?a = "t_addr T c" and ?q = "fst (pool_Put T now c p n)"
  let ?ap = "get_ap ?a p"
  have u: "in_use T b ?q = (if b = ?a then removeAll c (in_use T ?a p) else in_use T b p)" for b
    using inv(1) False by (simp add: pool_Put_def Let_def in_use_unmark)
  have o: "b \<noteq> ?a \<Longrightarrow> get_ap b ?q = get_ap b p" for b
    using inv(1) False by (simp add: pool_Put_def Let_def)
  have g: "get_ap ?a ?q = ?ap\<lparr>active := active ?ap - 1\<rparr>
    \<or> (\<exists>ws. get_ap ?a ?q = ?ap\<lparr>active := active ?ap - 1, idle := idle ?ap @ [\<lparr>ic_conn = c, idleSince = now\<rparr>], waiters := ws\<rparr>)"
    using inv(1) False by (auto simp: pool_Put_def Let_def)
  show ?thesis
  proof (rule pool_inv_at [OF assms(1), where addr = ?a])
    show "pool_wf ?q" "pcfg ?q = pcfg p" "Total (pstats ?q) = Active (pstats ?q) + Idle (pstats ?q)"
      using inv(1,3) False by (simp_all add: pool_Put_def Let_def)
    show "ap_inv T (pcfg p) ?a (get_ap ?a ?q) (in_use T ?a ?q)"
      using g ap_inv_return [OF inv(2) assms(2) refl] by (auto simp: u)
  qed (simp add: u o)
qed

lemma PRemove_inv:
  assumes "pool_inv T cfg p" "c \<in> set (in_use T (t_addr T c) p)"
  shows "pool_inv T cfg (fst (pool_Remove T c p n))"
proof -
  note inv = pool_invD [OF assms(1)]
  let ?a = "t_addr T c" and ?q = "fst (pool_Remove T c p n)"
  let ?ap = "get_ap ?a p"
  have "0 < active ?ap" using inv(2) [of ?a] length_pos_if_in_set [OF assms(2)] by (simp add: ap_inv_def)
  moreover have f: "find_ap ?a p = Some ?ap" using calculation by (auto simp: get_ap_def split: option.splits)
  ultimately have q: "?q = count_stats (\<lambda>s. s\<lparr>Active := Active s - 1, Total := Total s - 1, Closed := Closed s + 1\<rparr>)
      (put_ap ?a (?ap\<lparr>active := active ?ap - 1\<rparr>) (unmark_active ?a c p))"
    by (simp add: pool_Remove_def Let_def)
  show ?thesis
  proof (rule pool_inv_at [OF assms(1), where addr = ?a])
    show "ap_inv T (pcfg p) ?a (get_ap ?a ?q) (in_use T ?a ?q)"
      using ap_inv_return(1) [OF inv(2) assms(2) refl] inv(1) by (simp add: q in_use_unmark)
  qed (use inv in \<open>simp_all add: q in_use_unmark\<close>)
qed

lemma ap_inv_filter:
  assumes "ap_inv T cfg addr ap used"
  shows "ap_inv T cfg addr (ap\<lparr>idle := filter P (idle ap), waiters := ws\<rparr>) used"
proof -
  have "distinct (map ic_conn (filter P (idle ap)))" using assms by (auto simp: ap_inv_def distinct_map inj_on_def)
  then show ?thesis
    using assms length_filter_le [of P "idle ap"] by (auto simp: ap_inv_def simp del: length_filter_le)
qed

lemma cleanup_ap_inv:
  assumes "pool_inv T cfg p"
  shows "pool_inv T cfg (fst (cleanup_ap T now addr p n))"
proof (rule pool_inv_at [OF assms, where addr = addr])
  note inv = pool_invD [OF assms]
  show "ap_inv T (pcfg p) addr (get_ap addr (fst (cleanup_ap T now addr p n))) (in_use T addr (fst (cleanup_ap T now addr p n)))"
    using inv(1) ap_inv_filter [OF inv(2)] by (simp add: cleanup_ap_def Let_def)
qed (use pool_invD [OF assms] in \<open>simp_all add: cleanup_ap_def Let_def\<close>)

lemma cleanup_inv:
  assumes "pool_inv T cfg p"
  shows "pool_inv T cfg (fst (cleanupIdleConns T now p n))"
proof -
  have "pool_inv T cfg (fst (fold (\<lambda>addr (p, n, woken). case cleanup_ap T now addr p n of (p', n', more_woken) \<Rightarrow> (p', n', woken @ more_woken))
      as (p, n, ws)))" if "pool_inv T cfg p" for as p n ws
    using that
  proof (induction as arbitrary: p n ws)
    case (Cons a as)
    obtain p' n' ws' where c: "cleanup_ap T now a p n = (p', n', ws')" by (cases "cleanup_ap T now a p n")
    then have "pool_inv T cfg p'" using cleanup_ap_inv [OF Cons.prems, of now a n] by simp
    then show ?case using Cons.IH by (simp add: c)
  qed simp
  then show ?thesis using assms by (simp add: cleanupIdleConns_def)
qed

lemma wait_inv:
  assumes "pool_inv T cfg p"
  shows "pool_inv T cfg (wait_over p)" "pool_inv T cfg (removeWaiter w addr (wait_over p))"
proof -
  show o: "pool_inv T cfg (wait_over p)" using assms by (auto simp: pool_inv_def wait_over_def)
  show "pool_inv T cfg (removeWaiter w addr (wait_over p))"
  proof (rule pool_inv_at [OF o, where addr = addr])
    show "ap_inv T (pcfg (wait_over p)) addr (get_ap addr (removeWaiter w addr (wait_over p)))
        (in_use T addr (removeWaiter w addr (wait_over p)))"
      using pool_invD(1,2) [OF o] by (simp add: removeWaiter_def Let_def)
  qed (use pool_invD [OF o] in \<open>simp_all add: removeWaiter_def Let_def\<close>)
qed

lemma pool_step_inv:
  assumes "pool_inv T cfg p" "well_used T e (p, n)"
  shows "pool_inv T cfg (fst (pool_step T e (p, n)))"
proof (cases e)
  case (PPut now c)
  then show ?thesis using assms(2) PPut_inv [OF assms(1), of c now n] by (auto split: prod.split)
next
  case (PCleanup now)
  then show ?thesis using cleanup_inv [OF assms(1), of now n] by (auto split: prod.split)
qed (use assms PGet_inv PRemove_inv wait_inv in auto)

section \<open>Properties\<close>

text \<open>
  C15: the limit of the pool in sequential use with literal addresses. Along every sequence of calls in which \<open>Get\<close> is
  not interrupted, a dialled connection is new and reports as its remote address the one it was dialled with, and
  clients return what they hold, the connections of an address, in use and idle together, never exceed a positive
  \<open>MaxActive\<close>, the counter of the address is the number of its connections in use, and the totals agree. The address
  condition holds for an IP address with a port and fails for a host name (\<open>hostname_exhausts_pool\<close> below), and
  interleaved calls can exceed the limit (\<open>idle_race_exceeds_limit\<close> below).
\<close>

theorem pool_respects_limit:
  assumes "pool_reach T cfg (p, n)" "0 < MaxActive cfg"
  shows "active (get_ap addr p) = int (length (in_use T addr p))
    \<and> active (get_ap addr p) + int (length (idle (get_ap addr p))) \<le> MaxActive cfg
    \<and> Total (pstats p) = Active (pstats p) + Idle (pstats p)"
proof -
  have "pool_inv T cfg (fst s)" if "pool_reach T cfg s" for s
    using that
  proof induction
    case (pool_call s e)
    then show ?case using pool_step_inv by (cases s) auto
  qed (simp add: pool_inv_new)
  from this [OF assms(1)] have i: "pool_inv T cfg p" by simp
  show ?thesis using pool_invD(2) [OF i, of addr] pool_invD(3,4) [OF i] assms(2) by (auto simp: ap_inv_def)
qed

definition example_pool_cfg :: PoolConfig where
  "example_pool_cfg = \<lparr>MaxIdle = 1, MaxActive = 1, IdleTimeout = 0, WaitTimeout = 0\<rparr>"

text \<open>A network that numbers the connections it dials and names them all \<open>addr\<close>.\<close>

definition example_net :: "string \<Rightarrow> nat net_ops" where
  "example_net addr = \<lparr>t_dial = (\<lambda>_ n. (n + 1, Inr n)), t_send = (\<lambda>_ _ n. (n, Inr ())), t_recv = (\<lambda>_ n. (n, Inl ErrConnTimeout)),
     t_close = (\<lambda>_ n. n), t_addr = (\<lambda>_. addr), t_healthy = (\<lambda>_ _. True)\<rparr>"

lemma known_new: "known T addr (NewConnPool cfg) = []"
  using pool_shard_less [of addr] by (simp add: known_def in_use_def get_ap_def find_ap_def NewConnPool_def)

theorem pool_respects_limit_witness:
  "active (get_ap ''a:1'' (fst (pool_step (example_net ''a:1'') (PGet 0 ''a:1'') (NewConnPool example_pool_cfg, 0)))) = 1
   \<and> active (get_ap ''a:1'' (fst (pool_step (example_net ''a:1'') (PGet 0 ''a:1'') (NewConnPool example_pool_cfg, 0))))
     + int (length (idle (get_ap ''a:1'' (fst (pool_step (example_net ''a:1'') (PGet 0 ''a:1'') (NewConnPool example_pool_cfg, 0))))))
     \<le> MaxActive example_pool_cfg"
proof -
  let ?T = "example_net ''a:1''" and ?s = "pool_step (example_net ''a:1'') (PGet 0 ''a:1'') (NewConnPool example_pool_cfg, 0)"
  have "pool_reach ?T example_pool_cfg ?s"
    by (intro pool_call pool_new) (simp add: known_new example_net_def)
  then have "pool_reach ?T example_pool_cfg (fst ?s, snd ?s)" by simp
  from pool_respects_limit [OF this, of "''a:1''"]
  have "active (get_ap ''a:1'' (fst ?s)) + int (length (idle (get_ap ''a:1'' (fst ?s)))) \<le> MaxActive example_pool_cfg"
    by (simp add: example_pool_cfg_def)
  moreover have "active (get_ap ''a:1'' (fst ?s)) = 1" by code_simp
  ultimately show ?thesis by blast
qed

text \<open>
  The limit does not hold for concurrent calls. \<open>Get\<close> releases the lock between taking an idle connection and
  counting it as active, so a second \<open>Get\<close> for the address in between may dial although the limit is reached.
\<close>

theorem idle_race_exceeds_limit:
  assumes "pool_wf p" "idle (get_ap addr p) = [ic]" "active (get_ap addr p) = MaxActive (pcfg p) - 1" "0 < MaxActive (pcfg p)"
  shows "\<exists>p1 p2. pool_take w addr p = (p1, TookIdle (ic_conn ic)) \<and> pool_take w' addr p1 = (p2, MayDial)
    \<and> active (get_ap addr (activateConn addr (ic_conn ic) p2)) = MaxActive (pcfg p) + 1"
  using assms by (simp add: pool_take_def activateConn_def Let_def)

text \<open>A call of \<open>Get\<close> followed by the return of its connection.\<close>

definition pool_round :: "'n net_ops \<Rightarrow> gotime \<Rightarrow> string \<Rightarrow> connPool \<times> 'n \<Rightarrow> connPool \<times> 'n" where
  "pool_round T now addr s =
     (case pool_Get T [] 0 addr (fst s) (snd s) of
        Some (p, n, Inr c) \<Rightarrow> (case pool_Put T now c p n of (p', n', _) \<Rightarrow> (p', n'))
      | Some (p, n, Inl _) \<Rightarrow> (p, n)
      | None \<Rightarrow> s)"

text \<open>What a round leaves behind at the address it was called with, when connections report another address.\<close>

definition leaked :: "string \<Rightarrow> PoolConfig \<Rightarrow> int \<Rightarrow> connPool \<Rightarrow> bool" where
  "leaked host cfg k p \<longleftrightarrow> pool_wf p \<and> pcfg p = cfg \<and> \<not> pclosed p \<and> idle (get_ap host p) = [] \<and> active (get_ap host p) = k"

lemma pool_Get_dial:
  assumes "\<not> pclosed p" "idle (get_ap addr p) = []" "MaxActive (pcfg p) \<le> 0 \<or> active (get_ap addr p) < MaxActive (pcfg p)"
    and "t_dial T addr n = (n1, res)"
  shows "pool_Get T waits w addr p n = Some (dial_done addr res (fst (pool_take w addr (count_request p))), n1, res)"
  using assms by (auto simp: pool_Get.simps pool_take_def Let_def)

lemma leaked_round:
  assumes "\<And>n. \<exists>n' c. t_dial T host n = (n', Inr c) \<and> t_addr T c \<noteq> host"
    and "leaked host cfg k p" "k < MaxActive cfg"
  shows "leaked host cfg (k + 1) (fst (pool_round T now host (p, n)))"
proof -
  obtain n' c where d: "t_dial T host n = (n', Inr c)" "t_addr T c \<noteq> host" using assms(1) by blast
  have l: "pool_wf p" "pcfg p = cfg" "\<not> pclosed p" "idle (get_ap host p) = []" "active (get_ap host p) = k"
    using assms(2) by (simp_all add: leaked_def)
  let ?p = "dial_done host (Inr c) (fst (pool_take 0 host (count_request p)))"
  have g: "pool_Get T [] 0 host p n = Some (?p, n', Inr c)"
    using l assms(3) d(1) by (intro pool_Get_dial) simp_all
  have "leaked host cfg (k + 1) ?p"
    using l assms(3) by (simp add: leaked_def pool_take_def dial_done_def Let_def) (simp add: count_request_def)
  then have "leaked host cfg (k + 1) (fst (pool_Put T now c ?p n'))"
    using d(2) by (simp add: leaked_def pool_Put_def Let_def)
  then show ?thesis by (auto simp: pool_round_def g split: prod.splits)
qed

text \<open>
  An address given as a host name leaks its connections. When a dialled connection reports an address that differs
  from the one it was dialled with, as the resolved address does from a host name, \<open>Put\<close> returns it to another pool.
  After as many rounds of \<open>Get\<close> and \<open>Put\<close> as the limit allows, with every connection returned, the pool gives out no
  connection for the host any more.
\<close>

theorem hostname_exhausts_pool:
  assumes "\<And>n. \<exists>n' c. t_dial T host n = (n', Inr c) \<and> t_addr T c \<noteq> host" "0 < MaxActive cfg"
  shows "snd (pool_take w host (fst ((pool_round T now host ^^ nat (MaxActive cfg)) (NewConnPool cfg, n)))) \<in> {MustWait, Exhausted}"
proof -
  have "leaked host cfg (int k) (fst ((pool_round T now host ^^ k) (NewConnPool cfg, n)))" if "k \<le> nat (MaxActive cfg)" for k
    using that
  proof (induction k)
    case 0
    show ?case using pool_shard_less [of host]
      by (simp add: leaked_def get_ap_def find_ap_def pool_wf_def) (simp add: NewConnPool_def)
  next
    case (Suc k)
    let ?s = "(pool_round T now host ^^ k) (NewConnPool cfg, n)"
    have "leaked host cfg (int k) (fst ?s)" using Suc by simp
    from leaked_round [OF assms(1) this, of now "snd ?s"] Suc.prems show ?case by (simp add: add.commute)
  qed
  from this [of "nat (MaxActive cfg)"] assms(2)
  have "idle (get_ap host (fst ((pool_round T now host ^^ nat (MaxActive cfg)) (NewConnPool cfg, n)))) = []"
    "active (get_ap host (fst ((pool_round T now host ^^ nat (MaxActive cfg)) (NewConnPool cfg, n)))) = MaxActive cfg"
    "pcfg (fst ((pool_round T now host ^^ nat (MaxActive cfg)) (NewConnPool cfg, n))) = cfg"
    by (simp_all add: leaked_def)
  then show ?thesis using assms(2) by (simp add: pool_take_def Let_def)
qed

theorem hostname_exhausts_pool_witness:
  "snd (pool_take 7 ''db:1'' (fst ((pool_round (example_net ''10.0.0.9:1'') 5 ''db:1'' ^^ 1) (NewConnPool example_pool_cfg, 0))))
   \<in> {MustWait, Exhausted}"
  using hostname_exhausts_pool [of "example_net ''10.0.0.9:1''" "''db:1''" example_pool_cfg 7 5 0]
  by (simp add: example_net_def example_pool_cfg_def)

theorem idle_race_exceeds_limit_witness:
  "\<exists>p1 p2. pool_take 1 ''a:1'' (put_ap ''a:1'' \<lparr>idle = [\<lparr>ic_conn = 3, idleSince = 0\<rparr>], active = 0, waiters = []\<rparr> (NewConnPool example_pool_cfg))
       = (p1, TookIdle 3)
     \<and> pool_take 2 ''a:1'' p1 = (p2, MayDial) \<and> active (get_ap ''a:1'' (activateConn ''a:1'' 3 p2)) = 2"
proof -
  have "pool_wf (NewConnPool example_pool_cfg)" by (simp add: pool_wf_def NewConnPool_def)
  then show ?thesis
    using idle_race_exceeds_limit [of "put_ap ''a:1'' \<lparr>idle = [\<lparr>ic_conn = 3, idleSince = 0\<rparr>], active = 0, waiters = []\<rparr>
        (NewConnPool example_pool_cfg)" "''a:1''" "\<lparr>ic_conn = 3, idleSince = 0\<rparr>" 1 2]
    by (simp add: NewConnPool_def example_pool_cfg_def)
qed

end
