(* ===== verification/Client.thy ===== *)
theory Client
  imports Conn_Pool
begin

text \<open>
  \<open>internal/network/client.go\<close>, and the length-prefixed stream of \<open>transport.go\<close> with the receive loop of
  \<open>server.go\<close>.

  \<^item> The client runs over the connection pool and a network \<open>net_ops\<close>; \<open>waits\<close> are the waits of its calls of
    \<open>Get\<close>, one list per attempt, as in \<open>pool_Get\<close>. Deadlines of the context appear as errors of the network.
  \<^item> A TCP connection is the list of bytes that have arrived and are unread. A \<open>Receive\<close> whose deadline passes has
    consumed what had arrived by then: \<open>binary.Read\<close> and \<open>io.ReadFull\<close> drop a partial read.
\<close>

section \<open>Send\<close>

definition isConnectionRefused :: "net_err \<Rightarrow> bool" where
  "isConnectionRefused e \<longleftrightarrow> e = ErrConnRefused"

datatype send_outcome = GetFailed net_err | Sent | SendFailed

text \<open>One pass of the loop of \<open>SendWithTimeout\<close>, up to the decision whether to go on.\<close>

definition send_once ::
  "'n net_ops \<Rightarrow> (connPool \<Rightarrow> connPool \<times> wait_result) list \<Rightarrow> nat \<Rightarrow> gotime \<Rightarrow> string \<Rightarrow> byte list \<Rightarrow> connPool \<Rightarrow> 'n
   \<Rightarrow> (connPool \<times> 'n \<times> send_outcome) option" where
  "send_once T waits w now addr dat p n =
     (case pool_Get T waits w addr p n of
        None \<Rightarrow> None
      | Some (p1, n1, Inl e) \<Rightarrow> Some (p1, n1, GetFailed e)
      | Some (p1, n1, Inr c) \<Rightarrow>
          (case t_send T c dat n1 of
             (n2, Inr _) \<Rightarrow> (case pool_Put T now c p1 n2 of (p2, n3, _) \<Rightarrow> Some (p2, n3, Sent))
           | (n2, Inl _) \<Rightarrow> (case pool_Remove T c p1 n2 of (p2, n3) \<Rightarrow> Some (p2, n3, SendFailed))))"

text \<open>
  The variable \<open>err\<close> that is returned after a failed send is the one of \<open>Get\<close>, which is nil there; the error of
  \<open>Send\<close> is a variable of the \<open>if\<close>.
\<close>

definition SendWithTimeout ::
  "'n net_ops \<Rightarrow> (nat \<Rightarrow> (connPool \<Rightarrow> connPool \<times> wait_result) list) \<Rightarrow> nat \<Rightarrow> gotime \<Rightarrow> string \<Rightarrow> byte list \<Rightarrow> connPool \<Rightarrow> 'n
   \<Rightarrow> (connPool \<times> 'n \<times> (net_err + unit)) option" where
  "SendWithTimeout T waits w now addr dat p n =
     (let last_try = (\<lambda>p n. case send_once T (waits 1) w now addr dat p n of
             None \<Rightarrow> None
           | Some (p1, n1, GetFailed e) \<Rightarrow> Some (p1, n1, Inl e)
           | Some (p1, n1, Sent) \<Rightarrow> Some (p1, n1, Inr ())
           | Some (p1, n1, SendFailed) \<Rightarrow> Some (p1, n1, Inr ()))
      in case send_once T (waits 0) w now addr dat p n of
           None \<Rightarrow> None
         | Some (p1, n1, GetFailed e) \<Rightarrow> if isConnectionRefused e then Some (p1, n1, Inl e) else last_try p1 n1
         | Some (p1, n1, Sent) \<Rightarrow> Some (p1, n1, Inr ())
         | Some (p1, n1, SendFailed) \<Rightarrow> last_try p1 n1)"

section \<open>Request\<close>

datatype request_outcome = RequestDone "net_err + byte list" | RequestRetry net_err

definition request_once ::
  "'n net_ops \<Rightarrow> (connPool \<Rightarrow> connPool \<times> wait_result) list \<Rightarrow> nat \<Rightarrow> gotime \<Rightarrow> string \<Rightarrow> byte list \<Rightarrow> connPool \<Rightarrow> 'n
   \<Rightarrow> (connPool \<times> 'n \<times> request_outcome) option" where
  "request_once T waits w now addr request p n =
     (case pool_Get T waits w addr p n of
        None \<Rightarrow> None
      | Some (p1, n1, Inl e) \<Rightarrow> Some (p1, n1, RequestDone (Inl e))
      | Some (p1, n1, Inr c) \<Rightarrow>
          (case t_send T c request n1 of
             (n2, Inl e) \<Rightarrow> (case pool_Remove T c p1 n2 of (p2, n3) \<Rightarrow> Some (p2, n3, RequestRetry e))
           | (n2, Inr _) \<Rightarrow>
               (case t_recv T c n2 of (n3, res) \<Rightarrow>
                  (case pool_Put T now c p1 n3 of (p2, n4, _) \<Rightarrow>
                     Some (p2, n4, case res of Inl e \<Rightarrow> RequestRetry e | Inr resp \<Rightarrow> RequestDone (Inr resp))))))"

definition client_Request ::
  "'n net_ops \<Rightarrow> (nat \<Rightarrow> (connPool \<Rightarrow> connPool \<times> wait_result) list) \<Rightarrow> nat \<Rightarrow> gotime \<Rightarrow> string \<Rightarrow> byte list \<Rightarrow> connPool \<Rightarrow> 'n
   \<Rightarrow> (connPool \<times> 'n \<times> (net_err + byte list)) option" where
  "client_Request T waits w now addr request p n =
     (case request_once T (waits 0) w now addr request p n of
        None \<Rightarrow> None
      | Some (p1, n1, RequestDone r) \<Rightarrow> Some (p1, n1, r)
      | Some (p1, n1, RequestRetry _) \<Rightarrow>
          (case request_once T (waits 1) w now addr request p1 n1 of
             None \<Rightarrow> None
           | Some (p2, n2, RequestDone r) \<Rightarrow> Some (p2, n2, r)
           | Some (p2, n2, RequestRetry e) \<Rightarrow> Some (p2, n2, Inl e)))"

section \<open>Broadcast\<close>

text \<open>
  The sends of a broadcast one after the other, with the errors in the order in which they occur. Above five addresses
  the sends run concurrently; \<open>addresses\<close> is then in the order in which they take place.
\<close>

fun send_all ::
  "'n net_ops \<Rightarrow> (nat \<Rightarrow> (connPool \<Rightarrow> connPool \<times> wait_result) list) \<Rightarrow> nat \<Rightarrow> gotime \<Rightarrow> string list \<Rightarrow> byte list \<Rightarrow> connPool \<Rightarrow> 'n
   \<Rightarrow> (connPool \<times> 'n \<times> net_err list) option" where
  "send_all T waits w now [] dat p n = Some (p, n, [])"
| "send_all T waits w now (a # as) dat p n =
     (case SendWithTimeout T waits w now a dat p n of
        None \<Rightarrow> None
      | Some (p1, n1, r) \<Rightarrow>
          map_option (\<lambda>(p2, n2, es). (p2, n2, (case r of Inl e \<Rightarrow> [e] | Inr _ \<Rightarrow> []) @ es)) (send_all T waits w now as dat p1 n1))"

definition Broadcast ::
  "'n net_ops \<Rightarrow> (nat \<Rightarrow> (connPool \<Rightarrow> connPool \<times> wait_result) list) \<Rightarrow> nat \<Rightarrow> gotime \<Rightarrow> string list \<Rightarrow> byte list \<Rightarrow> connPool \<Rightarrow> 'n
   \<Rightarrow> (connPool \<times> 'n \<times> (net_err + unit)) option" where
  "Broadcast T waits w now addresses dat p n =
     map_option (\<lambda>(p1, n1, es). (p1, n1, case es of [] \<Rightarrow> Inr () | e # _ \<Rightarrow> Inl e)) (send_all T waits w now addresses dat p n)"

section \<open>The byte stream\<close>

record TransportConfig =
  MaxMessageSize :: int

definition stream_frame :: "byte list \<Rightarrow> byte list" where
  "stream_frame dat = put_be 4 (length dat mod 2 ^ 32) @ dat"

text \<open>
  \<open>Send\<close> of a connection: the three branches write the same bytes. \<open>taken\<close> is how many bytes the socket takes before
  an error, all of them when it is at least the length of the frame.
\<close>

definition tcp_Send :: "TransportConfig \<Rightarrow> nat \<Rightarrow> byte list \<Rightarrow> byte list \<Rightarrow> byte list \<times> (net_err + unit)" where
  "tcp_Send cfg taken dat stream =
     (if int (length dat) > MaxMessageSize cfg then (stream, Inl ErrMessageTooLarge)
      else (stream @ take taken (stream_frame dat),
            if taken < length (stream_frame dat) then Inl ErrConnClosed else Inr ()))"

text \<open>\<open>Receive\<close>: \<open>avail\<close> has arrived by the deadline; the first component is what stays unread.\<close>

definition tcp_Receive :: "TransportConfig \<Rightarrow> byte list \<Rightarrow> byte list \<times> (net_err + byte list)" where
  "tcp_Receive cfg avail =
     (if length avail < 4 then ([], Inl ErrConnTimeout)
      else
        (let size = get_be (take 4 avail) in
         if int size > MaxMessageSize cfg then (drop 4 avail, Inl ErrMessageTooLarge)
         else if length (drop 4 avail) < size then ([], Inl ErrConnTimeout)
         else (drop (4 + size) avail, Inr (take size (drop 4 avail)))))"

text \<open>
  The loop of \<open>handleConn\<close>: each element of \<open>chunks\<close> is what arrives until the deadline of one \<open>Receive\<close>. A response
  goes out when \<open>sent\<close> says so. The result is the state, the responses, and whether the connection is still open.
\<close>

definition maxHandlerErrors :: nat where
  "maxHandlerErrors = 10"

fun handleConn ::
  "TransportConfig \<Rightarrow> (byte list \<Rightarrow> bool) \<Rightarrow> (byte list \<Rightarrow> 's \<Rightarrow> 's \<times> (net_err + bytes)) \<Rightarrow> nat \<Rightarrow> byte list list \<Rightarrow> byte list \<Rightarrow> 's
   \<Rightarrow> 's \<times> byte list list \<times> bool" where
  "handleConn cfg sent h errs [] unread s = (s, [], True)"
| "handleConn cfg sent h errs (chunk # chunks) unread s =
     (case tcp_Receive cfg (unread @ chunk) of
        (rest, Inl e) \<Rightarrow> if e = ErrConnTimeout then handleConn cfg sent h 0 chunks rest s else (s, [], False)
      | (rest, Inr dat) \<Rightarrow>
          if length dat > 64 * 1024 * 1024 then (s, [], False)
          else
            (case h dat s of
               (s1, Inl e) \<Rightarrow>
                 if errs + 1 \<ge> maxHandlerErrors then (s1, [], False) else handleConn cfg sent h (errs + 1) chunks rest s1
             | (s1, Inr None) \<Rightarrow> handleConn cfg sent h 0 chunks rest s1
             | (s1, Inr (Some resp)) \<Rightarrow>
                 if \<not> sent resp then (s1, [], False)
                 else (case handleConn cfg sent h 0 chunks rest s1 of (s2, resps, open) \<Rightarrow> (s2, resp # resps, open))))"

section \<open>Streams of frames\<close>

lemma tcp_Receive_frame:
  assumes "int (length m) \<le> MaxMessageSize cfg" "length m < 2 ^ 32"
  shows "tcp_Receive cfg (stream_frame m @ rest) = (rest, Inr m)"
proof -
  have "get_be (put_be 4 (length m)) = length m" using assms(2) by (intro get_be_put_be) simp
  then show ?thesis using assms by (simp add: tcp_Receive_def stream_frame_def Let_def)
qed

text \<open>The specification of a connection: every message is handled in order, its response is sent in order.\<close>

fun serve_all :: "(byte list \<Rightarrow> 's \<Rightarrow> 's \<times> (net_err + bytes)) \<Rightarrow> byte list list \<Rightarrow> 's \<Rightarrow> 's \<times> byte list list" where
  "serve_all h [] s = (s, [])"
| "serve_all h (m # ms) s =
     (case h m s of (s1, r) \<Rightarrow>
        (case serve_all h ms s1 of (s2, resps) \<Rightarrow> (s2, (case r of Inr (Some resp) \<Rightarrow> [resp] | _ \<Rightarrow> []) @ resps)))"

text \<open>
  Chunks that are in time for messages: the bytes that have arrived by each \<open>Receive\<close>, with what is unread before it,
  hold the next frame in full.
\<close>

fun in_time :: "byte list list \<Rightarrow> byte list \<Rightarrow> byte list list \<Rightarrow> bool" where
  "in_time [] unread chunks \<longleftrightarrow> chunks = []"
| "in_time (m # ms) unread [] \<longleftrightarrow> False"
| "in_time (m # ms) unread (c # cs) \<longleftrightarrow> (\<exists>rest. unread @ c = stream_frame m @ rest \<and> in_time ms rest cs)"

lemma handleConn_serves:
  assumes "in_time ms unread chunks" "\<forall>m \<in> set ms. int (length m) \<le> MaxMessageSize cfg"
    and "MaxMessageSize cfg \<le> 64 * 1024 * 1024" "\<And>m s. m \<in> set ms \<Longrightarrow> \<exists>r. snd (h m s) = Inr r"
  shows "handleConn cfg (\<lambda>_. True) h e chunks unread s = (fst (serve_all h ms s), snd (serve_all h ms s), True)"
  using assms(1,2,4)
proof (induction ms unread chunks arbitrary: e s rule: in_time.induct)
  case (3 m ms unread c cs)
  obtain rest where r: "unread @ c = stream_frame m @ rest" "in_time ms rest cs" using 3(2) by auto
  obtain s1 resp where h: "h m s = (s1, Inr resp)" using 3(4) [of m s] by (cases "h m s") auto
  have len: "int (length m) \<le> MaxMessageSize cfg" "length m \<le> 64 * 1024 * 1024" using 3(3) assms(3) by auto
  have "tcp_Receive cfg (unread @ c) = (rest, Inr m)" unfolding r(1) using len by (intro tcp_Receive_frame) auto
  moreover have "handleConn cfg (\<lambda>_. True) h 0 cs rest s1 = (fst (serve_all h ms s1), snd (serve_all h ms s1), True)"
    using 3(1) [OF r(2)] 3(3,4) by simp
  ultimately show ?case using h len(2) by (cases resp) (auto split: prod.split)
qed simp_all

section \<open>Properties\<close>

text \<open>
  C14: a connection serves its messages in order. When every frame has arrived by the deadline of the \<open>Receive\<close> that
  reads it, the handler returns no error and the responses can be sent, the server handles the messages one by one and sends their responses in
  the same order, however the frames are cut into chunks.
\<close>

theorem connection_in_order:
  assumes "in_time ms [] chunks" "\<forall>m \<in> set ms. int (length m) \<le> MaxMessageSize cfg"
    and "MaxMessageSize cfg \<le> 64 * 1024 * 1024" "\<And>m s. m \<in> set ms \<Longrightarrow> \<exists>r. snd (h m s) = Inr r"
  shows "handleConn cfg (\<lambda>_. True) h 0 chunks [] s = (fst (serve_all h ms s), snd (serve_all h ms s), True)"
  using assms by (rule handleConn_serves)

theorem connection_in_order_witness:
  "handleConn \<lparr>MaxMessageSize = 100\<rparr> (\<lambda>_. True) (\<lambda>m n. (n + 1, Inr (Some (m @ [of_nat n])))) 0
     [stream_frame [5, 6] @ take 3 (stream_frame [7]), drop 3 (stream_frame [7])] [] (0 :: nat)
   = (2, [[5, 6, 0], [7, 1]], True)"
proof -
  have "in_time [[5, 6], [7]] [] [stream_frame [5, 6] @ take 3 (stream_frame [7]), drop 3 (stream_frame [7])]"
    by (auto simp: append_take_drop_id)
  from connection_in_order [OF this, of "\<lparr>MaxMessageSize = 100\<rparr>" "\<lambda>m n. (n + 1, Inr (Some (m @ [of_nat n])))" "0 :: nat"]
  show ?thesis by simp
qed

text \<open>
  A slow frame breaks the stream. When the deadline of a \<open>Receive\<close> of the server passes in the middle of a frame,
  the connection stays open and goes on as if the bytes that had arrived had never been sent: the rest of the frame is
  read as the start of the next one.
\<close>

theorem slow_frame_desyncs:
  assumes "0 < k" "k < length (stream_frame m)" "length m < 2 ^ 32" "int (length m) \<le> MaxMessageSize cfg"
  shows "handleConn cfg sent h e (take k (stream_frame m) # drop k (stream_frame m) # chunks) [] s =
    handleConn cfg sent h 0 (drop k (stream_frame m) # chunks) [] s"
proof -
  have "tcp_Receive cfg (take k (stream_frame m)) = ([], Inl ErrConnTimeout)"
  proof (cases "k < 4")
    case True
    then show ?thesis using assms(2) by (simp add: tcp_Receive_def)
  next
    case False
    have "get_be (put_be 4 (length m)) = length m" using assms(3) by (intro get_be_put_be) simp
    with False assms(2-4) show ?thesis by (simp add: tcp_Receive_def stream_frame_def Let_def)
  qed
  then show ?thesis by simp
qed

lemma put_le_4: "put_le 4 v = [of_nat v, of_nat (v div 256), of_nat (v div 256 div 256), of_nat (v div 256 div 256 div 256)]"
proof -
  have four: "(4 :: nat) = Suc (Suc (Suc (Suc 0)))" by simp
  show ?thesis unfolding four put_le.simps ..
qed

theorem slow_frame_desyncs_witness:
  "handleConn \<lparr>MaxMessageSize = 100\<rparr> (\<lambda>_. True) (\<lambda>m n. (n + 1, Inr (Some m))) 0
     [take 4 (stream_frame [0, 0, 0, 1, 9]), drop 4 (stream_frame [0, 0, 0, 1, 9])] [] (0 :: nat) = (1, [[9]], True)"
proof -
  let ?m = "[0, 0, 0, 1, 9] :: byte list"
  have f: "length (stream_frame ?m) = 9" "drop 4 (stream_frame ?m) = stream_frame [9]"
    by (simp_all add: stream_frame_def put_be_def put_le_4)
  have "tcp_Receive \<lparr>MaxMessageSize = 100\<rparr> (stream_frame [9]) = ([], Inr [9])"
    using tcp_Receive_frame [of "[9]" "\<lparr>MaxMessageSize = 100\<rparr>" "[]"] by simp
  then show ?thesis
    using slow_frame_desyncs [of 4 ?m "\<lparr>MaxMessageSize = 100\<rparr>" "\<lambda>_. True" "\<lambda>m n. (n + 1, Inr (Some m))" 0 "[]" "0 :: nat"] f
    by simp
qed

text \<open>
  A failed send is reported as sent. When both attempts get a connection and both sends fail, \<open>SendWithTimeout\<close>
  returns no error.
\<close>

theorem failed_send_reports_success:
  assumes "pool_Get T (waits 0) w addr p n = Some (p1, n1, Inr c1)" "t_send T c1 dat n1 = (n2, Inl e1)"
    and "pool_Remove T c1 p1 n2 = (p2, n3)"
    and "pool_Get T (waits 1) w addr p2 n3 = Some (p3, n4, Inr c2)" "t_send T c2 dat n4 = (n5, Inl e2)"
  shows "SendWithTimeout T waits w now addr dat p n = Some (fst (pool_Remove T c2 p3 n5), snd (pool_Remove T c2 p3 n5), Inr ())"
  using assms by (simp add: SendWithTimeout_def send_once_def split: prod.split)

lemma pool_after_dial:
  assumes "pool_wf p" "\<not> pclosed p" "idle (get_ap addr p) = []" "MaxActive (pcfg p) \<le> 0 \<or> active (get_ap addr p) < MaxActive (pcfg p)"
  shows "get_ap addr (dial_done addr (Inr c) (fst (pool_take w addr (count_request p)))) = (get_ap addr p)\<lparr>active := active (get_ap addr p) + 1\<rparr>"
    and "pool_wf (dial_done addr (Inr c) (fst (pool_take w addr (count_request p))))"
    and "pcfg (dial_done addr (Inr c) (fst (pool_take w addr (count_request p)))) = pcfg p"
    and "\<not> pclosed (dial_done addr (Inr c) (fst (pool_take w addr (count_request p))))"
    and "find_ap addr (dial_done addr (Inr c) (fst (pool_take w addr (count_request p))))
      = Some ((get_ap addr p)\<lparr>active := active (get_ap addr p) + 1\<rparr>)"
  using assms by (auto simp: dial_done_def pool_take_def Let_def) (simp_all add: count_request_def)

definition broken_net :: "nat net_ops" where
  "broken_net = (example_net ''a:1'')\<lparr>t_send := \<lambda>_ _ n. (n, Inl ErrConnClosed)\<rparr>"

theorem failed_send_reports_success_witness:
  "\<exists>p. SendWithTimeout broken_net (\<lambda>_. []) 0 5 ''a:1'' [1, 2] (NewConnPool example_pool_cfg) 0 = Some (p, 2, Inr ())"
proof -
  let ?a = "''a:1''" and ?p = "NewConnPool example_pool_cfg"
  have p: "pool_wf ?p" "\<not> pclosed ?p" "get_ap ?a ?p = \<lparr>idle = [], active = 0, waiters = []\<rparr>" "MaxActive (pcfg ?p) = 1"
    using pool_shard_less [of ?a]
    by (simp_all add: pool_wf_def get_ap_def find_ap_def NewConnPool_def example_pool_cfg_def)
  define p1 where "p1 = dial_done ?a (Inr 0) (fst (pool_take 0 ?a (count_request ?p)))"
  have g1: "pool_Get broken_net [] 0 ?a ?p 0 = Some (p1, 1, Inr 0)"
    unfolding p1_def using p by (intro pool_Get_dial) (simp_all add: broken_net_def example_net_def)
  note d = pool_after_dial [of ?p ?a 0 0, folded p1_def, simplified p, simplified]
  define p2 where "p2 = fst (pool_Remove broken_net 0 p1 1)"
  have r: "pool_Remove broken_net 0 p1 1 = (p2, 1)" "\<not> pclosed p2" "idle (get_ap ?a p2) = []"
    "active (get_ap ?a p2) = 0" "MaxActive (pcfg p2) = 1"
    using d p(4) by (simp_all add: p2_def pool_Remove_def broken_net_def example_net_def Let_def)
  have g2: "pool_Get broken_net [] 0 ?a p2 1 = Some (dial_done ?a (Inr 1) (fst (pool_take 0 ?a (count_request p2))), 2, Inr 1)"
    using r by (intro pool_Get_dial) (simp_all add: broken_net_def example_net_def)
  have s: "t_send broken_net c [1, 2] n = (n, Inl ErrConnClosed)" for c n by (simp add: broken_net_def)
  have "snd (pool_Remove broken_net 1 q 2) = 2" for q
    by (auto simp: pool_Remove_def broken_net_def example_net_def Let_def split: option.split)
  then show ?thesis
    using failed_send_reports_success [where waits = "\<lambda>_. []", OF g1 s r(1) g2 s, of 5] by auto
qed

section \<open>Requests over one connection\<close>

text \<open>
  A peer that answers every request in order: \<open>inflight c\<close> are the responses on their way on connection \<open>c\<close>, and
  \<open>late\<close> says for each \<open>Receive\<close> whether its deadline passes before the next response is there.
\<close>

record fifo_net =
  nextConn :: nat
  inflight :: "conn \<Rightarrow> byte list list"
  late :: "bool list"

definition fifo_ops :: "(byte list \<Rightarrow> byte list) \<Rightarrow> string \<Rightarrow> fifo_net net_ops" where
  "fifo_ops serve addr =
     \<lparr>t_dial = (\<lambda>_ n. (n\<lparr>nextConn := nextConn n + 1\<rparr>, Inr (nextConn n))),
      t_send = (\<lambda>c dat n. (n\<lparr>inflight := (inflight n)(c := inflight n c @ [serve dat])\<rparr>, Inr ())),
      t_recv = (\<lambda>c n. case (late n, inflight n c) of
          (True # ls, _) \<Rightarrow> (n\<lparr>late := ls\<rparr>, Inl ErrConnTimeout)
        | (ls, []) \<Rightarrow> (n\<lparr>late := tl ls\<rparr>, Inl ErrConnTimeout)
        | (ls, r # rs) \<Rightarrow> (n\<lparr>late := tl ls, inflight := (inflight n)(c := rs)\<rparr>, Inr r)),
      t_close = (\<lambda>_ n. n), t_addr = (\<lambda>_. addr), t_healthy = (\<lambda>_ _. True)\<rparr>"

text \<open>Requests of one client, one after the other; the list ends at a request that does not return.\<close>

fun requests :: "'n net_ops \<Rightarrow> gotime \<Rightarrow> string \<Rightarrow> byte list list \<Rightarrow> connPool \<Rightarrow> 'n \<Rightarrow> (net_err + byte list) list" where
  "requests T now addr [] p n = []"
| "requests T now addr (r # rs) p n =
     (case client_Request T (\<lambda>_. []) 0 now addr r p n of
        None \<Rightarrow> []
      | Some (p1, n1, res) \<Rightarrow> res # requests T now addr rs p1 n1)"

text \<open>One idle connection with unread responses on it.\<close>

definition one_idle :: "PoolConfig \<Rightarrow> string \<Rightarrow> conn \<Rightarrow> connPool \<Rightarrow> bool" where
  "one_idle cfg addr c p \<longleftrightarrow> pool_wf p \<and> pcfg p = cfg \<and> \<not> pclosed p \<and> (\<exists>t. idle (get_ap addr p) = [\<lparr>ic_conn = c, idleSince = t\<rparr>])"

lemma fifo_put:
  assumes "pool_wf p" "pcfg p = cfg" "\<not> pclosed p" "idle (get_ap addr p) = []" "0 < MaxIdle cfg"
  shows "\<exists>p' ws. pool_Put (fifo_ops serve addr) now c p n = (p', n, ws) \<and> one_idle cfg addr c p'"
  using assms by (simp add: pool_Put_def Let_def one_idle_def fifo_ops_def)

lemma fifo_ops_simps:
  "t_dial (fifo_ops serve addr) a n = (n\<lparr>nextConn := nextConn n + 1\<rparr>, Inr (nextConn n))"
  "t_send (fifo_ops serve addr) c dat n = (n\<lparr>inflight := (inflight n)(c := inflight n c @ [serve dat])\<rparr>, Inr ())"
  "late n = [] \<Longrightarrow> inflight n c = r # rs \<Longrightarrow> t_recv (fifo_ops serve addr) c n = (n\<lparr>inflight := (inflight n)(c := rs)\<rparr>, Inr r)"
  "late n = True # ls \<Longrightarrow> t_recv (fifo_ops serve addr) c n = (n\<lparr>late := ls\<rparr>, Inl ErrConnTimeout)"
  by (simp_all add: fifo_ops_def)

lemma request_idle:
  assumes "one_idle cfg addr c p" "0 < MaxIdle cfg" "inflight n c = q # qs" "late n = []"
  shows "\<exists>p'. request_once (fifo_ops serve addr) [] w now addr r p n
      = Some (p', n\<lparr>inflight := (inflight n)(c := qs @ [serve r])\<rparr>, RequestDone (Inr q)) \<and> one_idle cfg addr c p'"
proof -
  let ?T = "fifo_ops serve addr"
  obtain t where i: "pool_wf p" "pcfg p = cfg" "\<not> pclosed p" "idle (get_ap addr p) = [\<lparr>ic_conn = c, idleSince = t\<rparr>]"
    using assms(1) by (auto simp: one_idle_def)
  let ?p1 = "activateConn addr c (put_ap addr ((get_ap addr p)\<lparr>idle := []\<rparr>) (count_request p))"
  have g: "pool_Get ?T [] w addr p n = Some (?p1, n, Inr c)"
    using i by (simp add: pool_Get.simps pool_take_def Let_def)
  have p1: "pool_wf ?p1" "pcfg ?p1 = cfg" "\<not> pclosed ?p1" "idle (get_ap addr ?p1) = []"
    using i by (simp_all add: activateConn_def Let_def) (simp add: count_request_def)
  let ?n = "n\<lparr>inflight := (inflight n)(c := qs @ [serve r])\<rparr>"
  obtain p' ws where u: "pool_Put ?T now c ?p1 ?n = (p', ?n, ws)" "one_idle cfg addr c p'"
    using fifo_put [OF p1 assms(2)] by blast
  have "request_once ?T [] w now addr r p n = Some (p', ?n, RequestDone (Inr q))"
    using assms(3,4) u(1) by (simp add: request_once_def g fifo_ops_simps)
  with u(2) show ?thesis by blast
qed

lemma requests_shifted:
  assumes "one_idle cfg addr c p" "0 < MaxIdle cfg" "inflight n c = [q]" "late n = []"
  shows "requests (fifo_ops serve addr) now addr rs p n = map Inr (butlast (q # map serve rs))"
  using assms
proof (induction rs arbitrary: p n q)
  case (Cons r rs)
  obtain p' where s: "request_once (fifo_ops serve addr) [] 0 now addr r p n
      = Some (p', n\<lparr>inflight := (inflight n)(c := [serve r])\<rparr>, RequestDone (Inr q))" and o: "one_idle cfg addr c p'"
    using request_idle [OF Cons.prems] by force
  from Cons.IH [OF o Cons.prems(2), of "n\<lparr>inflight := (inflight n)(c := [serve r])\<rparr>" "serve r"] Cons.prems(4)
  show ?case by (simp add: client_Request_def s)
qed simp

lemma request_late:
  assumes "pool_wf p" "pcfg p = cfg" "\<not> pclosed p" "get_ap addr p = \<lparr>idle = [], active = 0, waiters = []\<rparr>"
    and "0 < MaxIdle cfg" "late n = [True]" "inflight n (nextConn n) = []"
  shows "\<exists>p' n'. request_once (fifo_ops serve addr) [] w now addr r p n = Some (p', n', RequestRetry ErrConnTimeout)
    \<and> one_idle cfg addr (nextConn n) p' \<and> inflight n' (nextConn n) = [serve r] \<and> late n' = []"
proof -
  let ?T = "fifo_ops serve addr" and ?c = "nextConn n"
  let ?p1 = "dial_done addr (Inr ?c) (fst (pool_take w addr (count_request p)))"
  have lim: "MaxActive (pcfg p) \<le> 0 \<or> active (get_ap addr p) < MaxActive (pcfg p)" using assms(4) by auto
  have i: "idle (get_ap addr p) = []" using assms(4) by simp
  have g: "pool_Get ?T [] w addr p n = Some (?p1, n\<lparr>nextConn := ?c + 1\<rparr>, Inr ?c)"
    by (rule pool_Get_dial [OF assms(3) i lim]) (simp add: fifo_ops_simps)
  note d = pool_after_dial [OF assms(1,3) i lim, of ?c w]
  have p1: "pool_wf ?p1" "pcfg ?p1 = cfg" "\<not> pclosed ?p1" "idle (get_ap addr ?p1) = []"
    using d assms(2) i by simp_all
  let ?n = "n\<lparr>nextConn := ?c + 1, inflight := (inflight n)(?c := [serve r]), late := []\<rparr>"
  obtain p' ws where u: "pool_Put ?T now ?c ?p1 ?n = (p', ?n, ws)" "one_idle cfg addr ?c p'"
    using fifo_put [OF p1 assms(5)] by blast
  have "request_once ?T [] w now addr r p n = Some (p', ?n, RequestRetry ErrConnTimeout)"
    using assms(6,7) u(1) by (simp add: request_once_def g fifo_ops_simps)
  with u(2) show ?thesis by auto
qed

text \<open>
  One late response shifts all later ones. When the first \<open>Receive\<close> of a request passes its deadline, the
  connection goes back to the pool with the response still on its way. The retry and every later request to the
  address take that connection, and each request returns the response to the request before it.
\<close>

theorem late_response_shifts:
  assumes "0 < MaxIdle cfg" "late n = [True]" "inflight n (nextConn n) = []"
  shows "requests (fifo_ops serve addr) now addr (r # rs) (NewConnPool cfg) n = map Inr (serve r # butlast (serve r # map serve rs))"
proof -
  let ?p = "NewConnPool cfg" and ?T = "fifo_ops serve addr"
  have p: "pool_wf ?p" "pcfg ?p = cfg" "\<not> pclosed ?p" "get_ap addr ?p = \<lparr>idle = [], active = 0, waiters = []\<rparr>"
    using pool_shard_less [of addr] by (simp_all add: pool_wf_def get_ap_def find_ap_def NewConnPool_def)
  obtain p1 n1 where 1: "request_once ?T [] 0 now addr r ?p n = Some (p1, n1, RequestRetry ErrConnTimeout)"
    "one_idle cfg addr (nextConn n) p1" "inflight n1 (nextConn n) = [serve r]" "late n1 = []"
    using request_late [OF p assms] by blast
  obtain p2 where 2: "request_once ?T [] 0 now addr r p1 n1
      = Some (p2, n1\<lparr>inflight := (inflight n1)(nextConn n := [serve r])\<rparr>, RequestDone (Inr (serve r)))"
    "one_idle cfg addr (nextConn n) p2"
    using request_idle [OF 1(2) assms(1) 1(3,4)] by force
  from requests_shifted [OF 2(2) assms(1), of "n1\<lparr>inflight := (inflight n1)(nextConn n := [serve r])\<rparr>" "serve r"] 1(4)
  show ?thesis by (simp add: client_Request_def 1(1) 2(1))
qed

theorem late_response_shifts_witness:
  "requests (fifo_ops rev ''a:1'') 5 ''a:1'' [[1, 2], [3, 4], [5, 6]] (NewConnPool DefaultPoolConfig)
     \<lparr>nextConn = 0, inflight = (\<lambda>_. []), late = [True]\<rparr> = [Inr [2, 1], Inr [2, 1], Inr [4, 3]]"
  using late_response_shifts [of DefaultPoolConfig "\<lparr>nextConn = 0, inflight = (\<lambda>_. []), late = [True]\<rparr>" rev "''a:1''" 5 "[1, 2]" "[[3, 4], [5, 6]]"]
  by (simp add: DefaultPoolConfig_def)

end
