(* ===== verification/Gossip.thy ===== *)
theory Gossip
  imports Mem_Storage_Spec Hash_Ring Member
begin

text \<open>
  \<open>internal/cluster/gossip.go\<close>: epidemic propagation of sync operations.

  \<^item> The record \<open>gossip\<close> holds the objects the component shares with the rest of the node (store, ring,
    member manager) by value; the records of the other components extend it, so all of them work on
    the same store, ring and members. The node's constructor sets every dependency, so their nil
    checks always pass.
  \<^item> A function handed to the executor runs later: an operation returns the tasks, and a task is a
    definition of its own on the state it then finds. The executor refuses a task when its queue is
    full; \<open>accept\<close> says which tasks it takes.
  \<^item> \<open>now\<close> is the clock reading of a call; \<open>E\<close> and \<open>hi\<close> are the third-party compression and hash.

  \<open>applyOps\<close> refines the last-write-wins merge of the operations the node is a replica of, and a push
  through the wire format gives the receiver exactly that merge.
\<close>

section \<open>State\<close>

record gossip =
  g_nodeID :: string
  g_store :: MemStorage
  g_ring :: hashRing
  g_replicaCount :: int
  g_interval :: duration
  g_member :: memberMgr

definition newGossip :: "string \<Rightarrow> MemStorage \<Rightarrow> hashRing \<Rightarrow> int \<Rightarrow> duration \<Rightarrow> memberMgr \<Rightarrow> gossip" where
  "newGossip nid st ring rc interval m =
     \<lparr>g_nodeID = nid, g_store = st, g_ring = ring, g_replicaCount = (if rc \<le> 0 then 3 else rc),
      g_interval = (if interval \<le> 0 then 100000000 else interval), g_member = m\<rparr>"

section \<open>The loop interval\<close>

text \<open>
  One tick of \<open>gossipLoop\<close>: the ticker interval and the failure count after an executor refusal or
  success, given the interval at the start of the loop.
\<close>

definition gossip_tick :: "duration \<Rightarrow> bool \<Rightarrow> nat \<times> duration \<Rightarrow> nat \<times> duration" where
  "gossip_tick originalInterval ok st =
     (case st of (failures, interval) \<Rightarrow>
        if \<not> ok
        then (let f = failures + 1 in
              if f \<ge> 3 \<and> interval > 50000000
              then (f, let i = interval sdiv 2 in if i < 50000000 then 50000000 else i)
              else (f, interval))
        else if interval < originalInterval
        then (0, let i = (interval * 5) sdiv 4 in if i > originalInterval then originalInterval else i)
        else (0, interval))"

section \<open>Periodic pull\<close>

definition alive_others :: "string \<Rightarrow> NodeInfo list \<Rightarrow> string list" where
  "alive_others self ms =
     map NodeID (filter (\<lambda>m. NodeID m \<noteq> self \<and> State m = NodeStateAlive) ms)"

function bit_count :: "nat \<Rightarrow> nat \<Rightarrow> nat" where
  "bit_count fanOut n = (if n > 0 then bit_count (fanOut + 1) (drop_bit 1 n) else fanOut)"
  by auto

termination
  by (relation "measure snd") (auto simp: drop_bit_eq_div)

declare bit_count.simps [simp del]

definition fan_out :: "nat \<Rightarrow> nat" where
  "fan_out len =
     (if len > 1 then (let f = bit_count 0 len in if f > len then len else f) else 1)"

definition swap :: "nat \<Rightarrow> nat \<Rightarrow> 'a list \<Rightarrow> 'a list" where
  "swap i j xs = xs[i := xs ! j, j := xs ! i]"

definition shuffle :: "'a list \<Rightarrow> 'a list" where
  "shuffle selected = fold (\<lambda>i xs. swap i ((i * 7) mod (i + 1)) xs) (rev [1..<length selected]) selected"

fun submit :: "('t \<Rightarrow> bool) \<Rightarrow> 't list \<Rightarrow> 't list" where
  "submit accept [] = []"
| "submit accept (t # ts) = (if accept t then t # submit accept ts else [])"

text \<open>\<open>doGossip\<close>: the addresses handed to the executor for a \<open>Pull\<close>; the first refusal ends the cycle.\<close>

definition doGossip :: "(string \<Rightarrow> bool) \<Rightarrow> 'a gossip_scheme \<Rightarrow> string list" where
  "doGossip accept g =
     (let ms = Members (g_member g) in
      if length ms = 0 then []
      else
        (let alive = alive_others (g_nodeID g) ms in
         if length alive = 0 then []
         else
           (let selected = shuffle (take (fan_out (length alive)) alive);
                info = map_of (rev (map (\<lambda>m. (NodeID m, m)) ms));
                addrs = map (\<lambda>m. Address m)
                  (filter (\<lambda>m. Address m \<noteq> '''' \<and> State m = NodeStateAlive)
                     (List.map_filter info selected))
            in submit accept addrs)))"

section \<open>Push\<close>

definition alive_at :: "memberMgr \<Rightarrow> string \<Rightarrow> bool" where
  "alive_at m target \<longleftrightarrow> list_ex (\<lambda>i. Address i = target \<and> State i = NodeStateAlive) (Members m)"

text \<open>\<open>Push\<close>: the tasks \<open>pushToTarget target data 15\<close> the executor takes.\<close>

definition Push ::
  "(string \<Rightarrow> bool) \<Rightarrow> SyncOperation list \<Rightarrow> string list \<Rightarrow> 'a gossip_scheme \<Rightarrow> (string \<times> bytes) list" where
  "Push accept ops targets g =
     (if length ops = 0 \<or> length targets = 0 then []
      else
        (let dat = Serialize ops
         in map (\<lambda>target. (target, dat))
              (filter (\<lambda>target. alive_at (g_member g) target \<and> accept target) targets)))"

datatype send_result = SendOk | SendRefused | SendFailed | SendTimeout

definition pushPrefix :: "byte list" where
  "pushPrefix = StringToBytes ''PUSH:''"

definition push_message :: "bytes \<Rightarrow> byte list" where
  "push_message dat = pushPrefix @ go_bytes dat"

text \<open>
  \<open>pushToTarget\<close>: attempt \<open>i\<close> finds the target alive or not (\<open>alive i\<close>) and its send ends with
  \<open>net i\<close>. The result lists the sends and says whether the last one was acknowledged.
\<close>

fun push_attempts ::
  "(nat \<Rightarrow> bool) \<Rightarrow> (nat \<Rightarrow> send_result) \<Rightarrow> nat \<Rightarrow> nat \<Rightarrow> string \<Rightarrow> byte list \<Rightarrow> (string \<times> byte list) list \<times> bool"
where
  "push_attempts alive net 0 i target msg = ([], False)"
| "push_attempts alive net (Suc n) i target msg =
     (if \<not> alive i then ([], False)
      else case net i of
        SendOk \<Rightarrow> ([(target, msg)], True)
      | SendRefused \<Rightarrow>
          if i = 0 then ([(target, msg)], False)
          else (case push_attempts alive net n (i + 1) target msg of (es, ok) \<Rightarrow> ((target, msg) # es, ok))
      | _ \<Rightarrow> (case push_attempts alive net n (i + 1) target msg of (es, ok) \<Rightarrow> ((target, msg) # es, ok)))"

definition pushToTarget ::
  "(nat \<Rightarrow> bool) \<Rightarrow> (nat \<Rightarrow> send_result) \<Rightarrow> string \<Rightarrow> bytes \<Rightarrow> nat \<Rightarrow> (string \<times> byte list) list \<times> bool" where
  "pushToTarget alive net target dat maxRetries = push_attempts alive net maxRetries 0 target (push_message dat)"

section \<open>Pull\<close>

text \<open>\<open>Pull\<close>: the store without its drained sync buffers, and the request that is sent, if any.\<close>

definition Pull ::
  "env \<Rightarrow> gotime \<Rightarrow> string \<Rightarrow> 'a gossip_scheme \<Rightarrow> 'a gossip_scheme \<times> (string \<times> byte list) list" where
  "Pull E now target g =
     (case GetSyncBuffer E now (g_store g) of (s, localOps) \<Rightarrow>
        (g\<lparr>g_store := s\<rparr>,
         if length localOps = 0 then []
         else [(target, StringToBytes (''PULL:'' @ g_nodeID g @ '':'') @ go_bytes (Serialize localOps))]))"

section \<open>Applying operations\<close>

definition is_replica :: "(string \<Rightarrow> uint64) \<Rightarrow> 'a gossip_scheme \<Rightarrow> string \<Rightarrow> bool" where
  "is_replica hi g key \<longleftrightarrow> list_ex (\<lambda>target. target = g_nodeID g) (ring_GetN hi (g_ring g) key (g_replicaCount g))"

definition getReplica ::
  "(string \<Rightarrow> uint64) \<Rightarrow> 'a gossip_scheme \<Rightarrow> string \<Rightarrow> (string \<times> bool) list \<Rightarrow> bool \<times> (string \<times> bool) list" where
  "getReplica hi g key keyReplicaCache =
     (case map_of keyReplicaCache key of
        Some cached \<Rightarrow> (cached, keyReplicaCache)
      | None \<Rightarrow> (let b = is_replica hi g key in (b, AList.update key b keyReplicaCache)))"

text \<open>One operation of a key the node replicates: the version check, then the write.\<close>

definition apply_one ::
  "env \<Rightarrow> gotime \<Rightarrow> string \<Rightarrow> StoredItem \<Rightarrow> MemStorage \<Rightarrow> MemStorage \<times> (storage_err + unit)" where
  "apply_one E now key item s =
     (case GetNoCopy E now key s of (s1, r) \<Rightarrow>
        if (case r of Inl _ \<Rightarrow> False | Inr existing \<Rightarrow> sint (Version existing) \<ge> sint (Version item))
        then (s1, Inr ())
        else Set E key (Some item) s1)"

fun apply_loop ::
  "env \<Rightarrow> (string \<Rightarrow> uint64) \<Rightarrow> gotime \<Rightarrow> SyncOperation option list \<Rightarrow> (string \<times> bool) list
   \<Rightarrow> 'a gossip_scheme \<Rightarrow> 'a gossip_scheme \<times> (storage_err + unit)" where
  "apply_loop E hi now [] c g = (g, Inr ())"
| "apply_loop E hi now (op_ptr # ops) c g =
     (case op_ptr of
        None \<Rightarrow> apply_loop E hi now ops c g
      | Some op \<Rightarrow>
          (case opItem op of
             None \<Rightarrow> apply_loop E hi now ops c g
           | Some item \<Rightarrow>
               (case getReplica hi g (opKey op) c of (isReplica, c1) \<Rightarrow>
                  if \<not> isReplica then apply_loop E hi now ops c1 g
                  else (case apply_one E now (opKey op) item (g_store g) of
                          (s, Inl e) \<Rightarrow> (g\<lparr>g_store := s\<rparr>, Inl e)
                        | (s, Inr _) \<Rightarrow> apply_loop E hi now ops c1 (g\<lparr>g_store := s\<rparr>)))))"

definition applyOps ::
  "env \<Rightarrow> (string \<Rightarrow> uint64) \<Rightarrow> gotime \<Rightarrow> SyncOperation option list
   \<Rightarrow> 'a gossip_scheme \<Rightarrow> 'a gossip_scheme \<times> (storage_err + unit)" where
  "applyOps E hi now ops g = (if length ops = 0 then (g, Inr ()) else apply_loop E hi now ops [] g)"

section \<open>Messages\<close>

fun colon_index :: "byte list \<Rightarrow> nat" where
  "colon_index [] = 0"
| "colon_index (b # bs) = (if b \<noteq> byte_of_char (CHR '':'') then Suc (colon_index bs) else 0)"

text \<open>\<open>HandleMessage\<close>: the new state, the error, and the node ids for which a pull response is handed to the
  executor.\<close>

definition gossip_HandleMessage ::
  "env \<Rightarrow> (string \<Rightarrow> uint64) \<Rightarrow> gotime \<Rightarrow> (string \<Rightarrow> bool) \<Rightarrow> byte list
   \<Rightarrow> 'a gossip_scheme \<Rightarrow> 'a gossip_scheme \<times> (storage_err + unit) \<times> string list" where
  "gossip_HandleMessage E hi now accept dat g =
     (if length dat < 5 then (g, Inr (), [])
      else
        (let isPush = take 5 dat = StringToBytes ''PUSH:'';
             isPull = take 5 dat = StringToBytes ''PULL:'';
             payload = drop 5 dat
         in if \<not> isPush \<and> \<not> isPull then (g, Inr (), [])
            else if isPush
            then (case applyOps E hi now (Deserialize payload) g of (g', r) \<Rightarrow> (g', r, []))
            else
              (let idx = colon_index payload;
                   g1 = (if idx < length payload
                         then (let remoteOps = Deserialize (drop (idx + 1) payload)
                               in if length remoteOps > 0 then fst (applyOps E hi now remoteOps g) else g)
                         else g);
                   targetNodeID = BytesToString (take idx payload)
               in (g1, Inr (), if accept targetNodeID then [targetNodeID] else []))))"

text \<open>The task of the pull handler: answer with the local operations.\<close>

definition pull_response ::
  "env \<Rightarrow> gotime \<Rightarrow> string \<Rightarrow> 'a gossip_scheme \<Rightarrow> 'a gossip_scheme \<times> (string \<times> byte list) list" where
  "pull_response E now targetNodeID g =
     (case GetSyncBuffer E now (g_store g) of (s, localOps) \<Rightarrow>
        (g\<lparr>g_store := s\<rparr>,
         if length localOps = 0 then []
         else
           (let targetAddr = (case List.find (\<lambda>m. NodeID m = targetNodeID) (Members (g_member g)) of
                                None \<Rightarrow> '''' | Some m \<Rightarrow> Address m)
            in if targetAddr = '''' then [] else [(targetAddr, push_message (Serialize localOps))])))"

section \<open>Reading before writing\<close>

text \<open>An entry that \<open>GetNoCopy\<close> does not treat as expired.\<close>

definition unexpired :: "gotime \<Rightarrow> item_view \<Rightarrow> bool" where
  "unexpired now v \<longleftrightarrow> IsZero (fst (snd v)) \<or> sint (UnixNano now) \<le> sint (UnixNano (fst (snd v)))"

definition live_store :: "env \<Rightarrow> gotime \<Rightarrow> MemStorage \<Rightarrow> bool" where
  "live_store E now s \<longleftrightarrow> (\<forall>k v. view E s k = Some v \<longrightarrow> unexpired now v)"

lemma live_storeD: "live_store E now s \<Longrightarrow> view E s k = Some v \<Longrightarrow> unexpired now v"
  unfolding live_store_def by blast

lemma lookup_cong:
  assumes "same_config s s'" "\<And>i. load s' i k = load s i k"
  shows "lookup E s' k = lookup E s k"
  using getShard_same_config [OF assms(1)] assms(2) by (simp add: lookup_def split: option.split)

lemma load_stats [simp]:
  "load (s\<lparr>getCount := c\<rparr>) j k = load s j k" "load (s\<lparr>hitCount := c\<rparr>) j k = load s j k"
  "load (s\<lparr>missCount := c\<rparr>) j k = load s j k"
  by (simp_all add: load_def)

lemma GetNoCopy_frame:
  assumes "GetNoCopy E now key s = (s', r)"
    and "\<And>ci. lookup E s key = Some ci \<Longrightarrow> IsZero (cExpireAt ci) \<or> sint (UnixNano now) \<le> sint (UnixNano (cExpireAt ci))"
  shows "load s' j k = load s j k" "totalBytes s' = totalBytes s"
    "\<And>it. r = Inr it \<Longrightarrow> \<exists>ci. lookup E s key = Some ci \<and> Version it = cVersion ci"
proof -
  have g: "getShard E (s\<lparr>getCount := c\<rparr>) key = getShard E s key" for c by (simp add: getShard_def)
  have t: "totalBytes (touchLRU i key s0) = totalBytes s0" for i s0 by (simp add: touchLRU_def upd_shard_def)
  show "load s' j k = load s j k" "totalBytes s' = totalBytes s"
    "\<And>it. r = Inr it \<Longrightarrow> \<exists>ci. lookup E s key = Some ci \<and> Version it = cVersion ci"
    using assms
    by (auto simp: GetNoCopy_def get_with_def Let_def g t lookup_def split: if_splits option.splits)
qed

lemma GetNoCopy_live:
  assumes "storage_inv E s" "GetNoCopy E now key s = (s', r)" "live_store E now s"
  shows "storage_inv E s'" "same_config s s'" "view E s' = view E s" "totalBytes s' = totalBytes s"
    "\<And>it. r = Inr it \<Longrightarrow> \<exists>v. view E s key = Some v \<and> Version it = fst v"
proof -
  have ex: "IsZero (cExpireAt ci) \<or> sint (UnixNano now) \<le> sint (UnixNano (cExpireAt ci))"
    if "lookup E s key = Some ci" for ci
    using assms(3) that by (auto simp: live_store_def view_def unexpired_def)
  note f = GetNoCopy_frame [OF assms(2) ex]
  show c: "storage_inv E s'" "same_config s s'"
    using get_with_inv [OF assms(1)] assms(2) by (simp_all add: GetNoCopy_def)
  have "lookup E s' k = lookup E s k" for k by (intro lookup_cong [OF c(2)] f(1))
  then show "view E s' = view E s" by (intro ext) (simp add: view_def)
  show "totalBytes s' = totalBytes s" by (rule f(2))
  show "\<exists>v. view E s key = Some v \<and> Version it = fst v" if "r = Inr it" for it
    using f(3) [OF _ that] by (auto simp: view_def)
qed

section \<open>Applying operations is a last-write-wins replica\<close>

text \<open>An operation that is applied without eviction and not expired.\<close>

definition apply_put :: "env \<Rightarrow> gotime \<Rightarrow> string \<times> StoredItem \<Rightarrow> MemStorage \<Rightarrow> MemStorage option" where
  "apply_put E now op s =
     (case op of (key, item) \<Rightarrow>
        if key \<noteq> '''' \<and> asyncEviction s \<and> go_len (Value item) \<le> maxAlloc \<and> unexpired now (item_view item)
           \<and> totalBytes s + calculateItemSize key (Value item) \<le> maxMemoryMB s * 1024 * 1024
        then Some (fst (apply_one E now key item s)) else None)"

lemma apply_put_step:
  assumes "storage_inv E s" "lz4_decodes (lz E)" "live_store E now s" "apply_put E now (key, item) s = Some s'"
  shows "apply_one E now key item s = (s', Inr ()) \<and> storage_inv E s' \<and> same_config s s'
    \<and> totalBytes s' \<le> totalBytes s + calculateItemSize key (Value item)
    \<and> (\<forall>k. view E s' k = (if k = key then lww_merge view_version (view E s k) (item_view item) else view E s k))"
proof -
  have g: "key \<noteq> ''''" "asyncEviction s" "go_len (Value item) \<le> maxAlloc"
    "totalBytes s + calculateItemSize key (Value item) \<le> maxMemoryMB s * 1024 * 1024"
    and s': "s' = fst (apply_one E now key item s)"
    using assms(4) by (auto simp: apply_put_def split: if_splits)
  obtain s1 r where r: "GetNoCopy E now key s = (s1, r)" by (cases "GetNoCopy E now key s")
  note l = GetNoCopy_live [OF assms(1) r assms(3)]
  show ?thesis
  proof (cases "case r of Inl _ \<Rightarrow> False | Inr existing \<Rightarrow> sint (Version existing) \<ge> sint (Version item)")
    case True
    then have a: "apply_one E now key item s = (s1, Inr ())" by (simp add: apply_one_def r)
    from True obtain it where it: "r = Inr it" "sint (Version it) \<ge> sint (Version item)" by (cases r) auto
    obtain v where "view E s key = Some v" "Version it = fst v" using l(5) [OF it(1)] by blast
    with it(2) have "lww_merge view_version (view E s key) (item_view item) = view E s key"
      by (simp add: lww_merge_def view_version_def item_view_def)
    moreover have "0 \<le> calculateItemSize key (Value item)" by (simp add: calculateItemSize_def)
    ultimately show ?thesis using a s' l(1-4) by simp
  next
    case False
    have c: "asyncEviction s1" "maxMemoryMB s1 = maxMemoryMB s" using l(2) g(2) by (simp_all add: same_config_def)
    obtain s2 where s2: "storage_put E (key, item) s1 = Some s2" "storage_inv E s2" "same_config s1 s2"
      "totalBytes s2 \<le> totalBytes s1 + calculateItemSize key (Value item)"
      by (rule storage_put_fits [OF l(1) g(1) c(1) g(3)]) (use g(4) c(2) l(4) in simp_all)
    have "Set E key (Some item) s1 = (s2, Inr ())" by (rule storage_put_Set [OF l(1) s2(1)])
    then have a: "apply_one E now key item s = (s2, Inr ())" using False by (simp add: apply_one_def r)
    have "view E s2 k = (if k = key then lww_merge view_version (view E s k) (item_view item) else view E s k)" for k
      using storage_put_view [OF _ s2(1), of k] l(1,3) assms(2) by simp
    with a s' s2 l(4) same_config_trans [OF l(2) s2(3)] show ?thesis by simp
  qed
qed

definition replica_ok :: "env \<Rightarrow> gotime \<Rightarrow> MemStorage \<Rightarrow> bool" where
  "replica_ok E now s \<longleftrightarrow> storage_inv E s \<and> lz4_decodes (lz E) \<and> live_store E now s"

lemma apply_put_view:
  assumes "replica_ok E now s" "apply_put E now op s = Some s'"
  shows "view E s' k = (if k = fst op then lww_merge view_version (view E s k) (item_view (snd op)) else view E s k)"
  using apply_put_step [of E s now "fst op" "snd op" s'] assms by (simp add: replica_ok_def)

lemma apply_put_ok:
  assumes "replica_ok E now s" "apply_put E now op s = Some s'"
  shows "replica_ok E now s'"
proof -
  have u: "unexpired now (item_view (snd op))" using assms(2) by (auto simp: apply_put_def split: if_splits prod.splits)
  have l: "live_store E now s" using assms(1) by (simp add: replica_ok_def)
  have "unexpired now v" if "view E s' k = Some v" for k v
    using that u live_storeD [OF l, of k] unfolding apply_put_view [OF assms]
    by (cases "view E s k") (simp_all add: lww_merge_def split: if_splits)
  moreover have "storage_inv E s'"
    using apply_put_step [of E s now "fst op" "snd op" s'] assms by (simp add: replica_ok_def)
  ultimately show ?thesis using assms(1) unfolding replica_ok_def live_store_def by blast
qed

interpretation gossip_replica: lww_replica "apply_put E now" "view E" fst "\<lambda>op. item_view (snd op)"
  view_version "replica_ok E now" for E now
  by unfold_locales (rule apply_put_ok apply_put_view, assumption+)+

section \<open>A batch of operations\<close>

text \<open>The operations of a batch that the node replicates, in order.\<close>

definition op_items :: "SyncOperation option \<Rightarrow> (string \<times> StoredItem) list" where
  "op_items p = (case p of None \<Rightarrow> [] | Some op \<Rightarrow> (case opItem op of None \<Rightarrow> [] | Some it \<Rightarrow> [(opKey op, it)]))"

definition relevant ::
  "(string \<Rightarrow> uint64) \<Rightarrow> 'a gossip_scheme \<Rightarrow> SyncOperation option list \<Rightarrow> (string \<times> StoredItem) list" where
  "relevant hi g ops = filter (\<lambda>(k, _). is_replica hi g k) (concat (map op_items ops))"

definition cache_ok :: "(string \<Rightarrow> uint64) \<Rightarrow> 'a gossip_scheme \<Rightarrow> (string \<times> bool) list \<Rightarrow> bool" where
  "cache_ok hi g c \<longleftrightarrow> (\<forall>k b. map_of c k = Some b \<longrightarrow> b = is_replica hi g k)"

lemma is_replica_store [simp]: "is_replica hi (g\<lparr>g_store := s\<rparr>) = is_replica hi g"
  by (intro ext) (simp add: is_replica_def)

lemma cache_ok_store [simp]: "cache_ok hi (g\<lparr>g_store := s\<rparr>) c = cache_ok hi g c"
  by (simp add: cache_ok_def)

text \<open>The memo table changes nothing: a lookup through it is the ring lookup.\<close>

lemma getReplica_memo:
  assumes "cache_ok hi g c"
  obtains c' where "getReplica hi g k c = (is_replica hi g k, c')" "cache_ok hi g c'"
proof (cases "map_of c k")
  case None
  then show thesis
    using assms
    by (intro that [of "AList.update k (is_replica hi g k) c"]) (auto simp: getReplica_def Let_def cache_ok_def update_conv')
next
  case (Some b)
  then show thesis using assms by (intro that [of c]) (auto simp: getReplica_def cache_ok_def)
qed

lemma apply_loop_puts:
  assumes "replica_ok E now (g_store g)" "cache_ok hi g c"
    and "puts (apply_put E now) (relevant hi g ops) (g_store g) = Some t"
  shows "apply_loop E hi now ops c g = (g\<lparr>g_store := t\<rparr>, Inr ())"
  using assms
proof (induction ops arbitrary: g c)
  case (Cons p ops)
  show ?case
  proof (cases "op_items p")
    case Nil
    then have "apply_loop E hi now (p # ops) c g = apply_loop E hi now ops c g"
      by (auto simp: op_items_def split: option.splits)
    with Nil Cons.IH [OF Cons.prems(1,2)] Cons.prems(3) show ?thesis by (simp add: relevant_def)
  next
    case (Cons ki rest)
    then obtain op item where p: "p = Some op" "opItem op = Some item" "ki = (opKey op, item)" "rest = []"
      by (auto simp: op_items_def split: option.splits)
    obtain c' where c': "getReplica hi g (opKey op) c = (is_replica hi g (opKey op), c')" "cache_ok hi g c'"
      by (rule getReplica_memo [OF Cons.prems(2)])
    show ?thesis
    proof (cases "is_replica hi g (opKey op)")
      case False
      with Cons.IH [OF Cons.prems(1) c'(2)] Cons.prems(3) p c'(1) Cons show ?thesis
        by (simp add: relevant_def)
    next
      case True
      then have rel: "relevant hi g (p # ops) = (opKey op, item) # relevant hi g ops"
        using Cons p by (simp add: relevant_def)
      then obtain s1 where s1: "apply_put E now (opKey op, item) (g_store g) = Some s1"
        "puts (apply_put E now) (relevant hi g ops) s1 = Some t"
        using Cons.prems(3) by (auto split: option.splits)
      have "apply_one E now (opKey op) item (g_store g) = (s1, Inr ())"
        using apply_put_step [OF _ _ _ s1(1)] Cons.prems(1) by (simp add: replica_ok_def)
      moreover have "apply_loop E hi now ops c' (g\<lparr>g_store := s1\<rparr>) = (g\<lparr>g_store := t\<rparr>, Inr ())"
        using Cons.IH [of "g\<lparr>g_store := s1\<rparr>" c'] apply_put_ok [OF Cons.prems(1) s1(1)] c'(2) s1(2)
        by (simp add: relevant_def)
      ultimately show ?thesis using p c'(1) True by simp
    qed
  qed
qed (simp add: relevant_def)

lemma applyOps_puts:
  assumes "replica_ok E now (g_store g)" "puts (apply_put E now) (relevant hi g ops) (g_store g) = Some t"
  shows "applyOps E hi now ops g = (g\<lparr>g_store := t\<rparr>, Inr ())"
  using apply_loop_puts [OF assms(1) _ assms(2), of "[]"] assms(2)
  by (auto simp: applyOps_def cache_ok_def relevant_def)

section \<open>Room for a batch\<close>

definition items_ok :: "gotime \<Rightarrow> (string \<times> StoredItem) list \<Rightarrow> bool" where
  "items_ok now ops \<longleftrightarrow>
     (\<forall>(key, item) \<in> set ops. key \<noteq> '''' \<and> go_len (Value item) \<le> maxAlloc \<and> unexpired now (item_view item))"

definition items_size :: "(string \<times> StoredItem) list \<Rightarrow> int" where
  "items_size ops = sum_list (map (\<lambda>(key, item). calculateItemSize key (Value item)) ops)"

definition has_room :: "MemStorage \<Rightarrow> (string \<times> StoredItem) list \<Rightarrow> bool" where
  "has_room s ops \<longleftrightarrow> asyncEviction s \<and> totalBytes s + items_size ops \<le> maxMemoryMB s * 1024 * 1024"

lemma items_size_nonneg: "0 \<le> items_size ops"
  unfolding items_size_def by (rule sum_list_nonneg) (auto simp: calculateItemSize_def)

lemma items_size_filter: "items_size (filter P ops) \<le> items_size ops"
proof (induction ops)
  case (Cons op ops)
  obtain key item where op: "op = (key, item)" by (cases op)
  with Cons show ?case by (simp add: items_size_def add_increasing)
qed (simp add: items_size_def)

lemma apply_puts_fit:
  assumes "replica_ok E now s" "items_ok now ops" "has_room s (ops @ rest)"
  shows "\<exists>t. puts (apply_put E now) ops s = Some t \<and> replica_ok E now t \<and> has_room t rest"
  using assms
proof (induction ops arbitrary: s)
  case (Cons op ops)
  obtain key item where op: "op = (key, item)" by (cases op)
  have nn: "0 \<le> items_size (ops @ rest)" by (rule items_size_nonneg)
  have room: "asyncEviction s"
    "totalBytes s + calculateItemSize key (Value item) + items_size (ops @ rest) \<le> maxMemoryMB s * 1024 * 1024"
    using Cons.prems(3) by (simp_all add: has_room_def items_size_def op)
  obtain s1 where s1: "apply_put E now (key, item) s = Some s1"
    using Cons.prems(2) room nn by (auto simp: apply_put_def items_ok_def op)
  have st: "same_config s s1" "totalBytes s1 \<le> totalBytes s + calculateItemSize key (Value item)"
    using apply_put_step [OF _ _ _ s1] Cons.prems(1) by (simp_all add: replica_ok_def)
  have "has_room s1 (ops @ rest)" using room st by (simp add: has_room_def same_config_def)
  moreover have "items_ok now ops" using Cons.prems(2) by (simp add: items_ok_def)
  ultimately obtain t where "puts (apply_put E now) ops s1 = Some t" "replica_ok E now t" "has_room t rest"
    using Cons.IH [OF apply_put_ok [OF Cons.prems(1) s1]] by blast
  then show ?case using s1 by (simp add: op)
qed simp

section \<open>Delivery of pushes\<close>

lemma HandleMessage_push:
  "gossip_HandleMessage E hi now accept (push_message dat) g =
     (case applyOps E hi now (Deserialize (go_bytes dat)) g of (g', r) \<Rightarrow> (g', r, []))"
proof -
  have l: "length pushPrefix = 5" by (simp add: pushPrefix_def)
  then have "take 5 (push_message dat) = StringToBytes ''PUSH:''" "drop 5 (push_message dat) = go_bytes dat"
    "\<not> length (push_message dat) < 5"
    by (simp_all add: push_message_def pushPrefix_def)
  then show ?thesis by (simp only: gossip_HandleMessage_def Let_def if_True if_False not_True_eq_False simp_thms)
qed

text \<open>
  The items a batch carries to its receivers, and what a batch needs to travel: it is not empty, fits the
  wire format, and has no item that is over 8 MB, expired or without a key.
\<close>

definition sent_items :: "SyncOperation list \<Rightarrow> (string \<times> StoredItem) list" where
  "sent_items ops = concat (map op_items (received ops))"

definition batch_ok :: "gotime \<Rightarrow> SyncOperation list \<Rightarrow> bool" where
  "batch_ok now ops \<longleftrightarrow> ops \<noteq> [] \<and> length ops < 2 ^ 32 \<and> (\<forall>op \<in> set ops. op_ok op) \<and> items_ok now (sent_items ops)"

lemma relevant_received: "relevant hi g (received ops) = filter (\<lambda>(k, _). is_replica hi g k) (sent_items ops)"
  by (simp add: relevant_def sent_items_def)

lemma items_ok_filter: "items_ok now ops \<Longrightarrow> items_ok now (filter P ops)"
  by (auto simp: items_ok_def)

lemma items_size_append [simp]: "items_size (xs @ ys) = items_size xs + items_size ys"
  by (simp add: items_size_def)

lemma puts_append: "puts put (xs @ ys) s = (case puts put xs s of None \<Rightarrow> None | Some t \<Rightarrow> puts put ys t)"
  by (induction xs arbitrary: s) (auto split: option.splits)

lemma HandleMessage_batch:
  assumes "replica_ok E now (g_store g)" "batch_ok now ops" "has_room (g_store g) (sent_items ops @ rest)"
  shows "\<exists>t. gossip_HandleMessage E hi now accept (push_message (Serialize ops)) g = (g\<lparr>g_store := t\<rparr>, Inr (), [])
    \<and> puts (apply_put E now) (filter (\<lambda>(k, _). is_replica hi g k) (sent_items ops)) (g_store g) = Some t
    \<and> replica_ok E now t \<and> has_room t rest"
proof -
  let ?rel = "filter (\<lambda>(k, _). is_replica hi g k) (sent_items ops)"
  have "has_room (g_store g) (?rel @ rest)"
    using assms(3) items_size_filter [of "\<lambda>(k, _). is_replica hi g k" "sent_items ops"] by (simp add: has_room_def)
  moreover have "items_ok now ?rel" using assms(2) items_ok_filter by (simp add: batch_ok_def)
  ultimately obtain t where t: "puts (apply_put E now) ?rel (g_store g) = Some t" "replica_ok E now t" "has_room t rest"
    using apply_puts_fit [OF assms(1)] by blast
  have "Deserialize (go_bytes (Serialize ops)) = received ops"
    using assms(2) by (intro Deserialize_Serialize) (simp_all add: batch_ok_def)
  then show ?thesis
    using applyOps_puts [OF assms(1), of hi "received ops" t] t by (simp add: HandleMessage_push relevant_received)
qed

text \<open>A sequence of pushed batches at one receiver.\<close>

definition deliver ::
  "env \<Rightarrow> (string \<Rightarrow> uint64) \<Rightarrow> gotime \<Rightarrow> SyncOperation list list \<Rightarrow> 'a gossip_scheme \<Rightarrow> 'a gossip_scheme" where
  "deliver E hi now batches g =
     fold (\<lambda>ops g. fst (gossip_HandleMessage E hi now (\<lambda>_. True) (push_message (Serialize ops)) g)) batches g"

definition sent_all :: "SyncOperation list list \<Rightarrow> (string \<times> StoredItem) list" where
  "sent_all batches = concat (map sent_items batches)"

lemma deliver_puts:
  assumes "replica_ok E now (g_store g)" "\<forall>ops \<in> set batches. batch_ok now ops"
    and "has_room (g_store g) (sent_all batches)"
  shows "\<exists>t. deliver E hi now batches g = g\<lparr>g_store := t\<rparr>
    \<and> puts (apply_put E now) (filter (\<lambda>(k, _). is_replica hi g k) (sent_all batches)) (g_store g) = Some t"
  using assms
proof (induction batches arbitrary: g)
  case (Cons ops batches)
  have b: "batch_ok now ops" using Cons.prems(2) by simp
  have "has_room (g_store g) (sent_items ops @ sent_all batches)" using Cons.prems(3) by (simp add: sent_all_def)
  from HandleMessage_batch [OF Cons.prems(1) b this] obtain t where
    t: "gossip_HandleMessage E hi now (\<lambda>_. True) (push_message (Serialize ops)) g = (g\<lparr>g_store := t\<rparr>, Inr (), [])"
    "puts (apply_put E now) (filter (\<lambda>(k, _). is_replica hi g k) (sent_items ops)) (g_store g) = Some t"
    "replica_ok E now t" "has_room t (sent_all batches)"
    by blast
  obtain u where "deliver E hi now batches (g\<lparr>g_store := t\<rparr>) = g\<lparr>g_store := u\<rparr>"
    "puts (apply_put E now) (filter (\<lambda>(k, _). is_replica hi g k) (sent_all batches)) t = Some u"
    using Cons.IH [of "g\<lparr>g_store := t\<rparr>"] t(3,4) Cons.prems(2) by auto
  with t(1,2) show ?case by (simp add: deliver_def sent_all_def puts_append)
qed (simp add: deliver_def sent_all_def)

lemma writes_relevant:
  "P k \<Longrightarrow> writes fst f (filter (\<lambda>(k, _). P k) ops) k = writes fst f ops k"
  unfolding writes_def filter_filter by (rule arg_cong [where f = "map f"]) (rule filter_cong, auto)

text \<open>
  The refinement of delivery: the receiver's view of a key it replicates is the last-write-wins merge of
  everything sent for the key; its view of other keys does not change.
\<close>

lemma deliver_view:
  assumes "replica_ok E now (g_store g)" "\<forall>ops \<in> set batches. batch_ok now ops"
    and "has_room (g_store g) (sent_all batches)"
  shows "view E (g_store (deliver E hi now batches g)) k =
    (if is_replica hi g k
     then fold (\<lambda>v old. lww_merge view_version old v)
            (writes fst (\<lambda>op. item_view (snd op)) (sent_all batches) k) (view E (g_store g) k)
     else view E (g_store g) k)"
proof -
  let ?rel = "filter (\<lambda>(k, _). is_replica hi g k) (sent_all batches)"
  obtain t where t: "deliver E hi now batches g = g\<lparr>g_store := t\<rparr>"
    "puts (apply_put E now) ?rel (g_store g) = Some t"
    using deliver_puts [OF assms] by blast
  have v: "view E t k = fold (\<lambda>v old. lww_merge view_version old v)
      (writes fst (\<lambda>op. item_view (snd op)) ?rel k) (view E (g_store g) k)"
    using gossip_replica.puts_view [OF assms(1) t(2)] by blast
  show ?thesis
  proof (cases "is_replica hi g k")
    case False
    then have "writes fst (\<lambda>op. item_view (snd op)) ?rel k = []" by (auto simp: writes_def filter_empty_conv)
    with False v t(1) show ?thesis by simp
  qed (use v t(1) in \<open>simp add: writes_relevant\<close>)
qed

lemma deliver_convergence:
  assumes "replica_ok E now1 (g_store g1)" "replica_ok E now2 (g_store g2)"
    and "\<forall>ops \<in> set b1. batch_ok now1 ops" "\<forall>ops \<in> set b2. batch_ok now2 ops"
    and "has_room (g_store g1) (sent_all b1)" "has_room (g_store g2) (sent_all b2)"
    and "is_replica hi g1 k" "is_replica hi g2 k" "view E (g_store g1) k = view E (g_store g2) k"
    and "set (sent_all b1) = set (sent_all b2)"
    and "versions_unique view_version (view E (g_store g1) k) (writes fst (\<lambda>op. item_view (snd op)) (sent_all b1) k)"
  shows "view E (g_store (deliver E hi now1 b1 g1)) k = view E (g_store (deliver E hi now2 b2 g2)) k"
proof -
  let ?w = "\<lambda>b. writes fst (\<lambda>op. item_view (snd op)) (sent_all b) k"
  have w: "set (?w b1) = set (?w b2)" using assms(10) by (simp add: writes_def)
  have "fold (\<lambda>v old. lww_merge view_version old v) (?w b1) (view E (g_store g1) k)
      = fold (\<lambda>v old. lww_merge view_version old v) (?w b2) (view E (g_store g1) k)"
    by (rule fold_merge_set) (use w assms(11) in simp_all)
  then show ?thesis
    using deliver_view [OF assms(1,3,5), of hi k] deliver_view [OF assms(2,4,6), of hi k] assms(7-9) by simp
qed

section \<open>Properties\<close>

definition example_gossip :: gossip where
  "example_gossip = newGossip ''a'' example_store (fst (ring_Update (\<lambda>_. 0) 1 [''a''] (newHashRing 1))) 3 0 (example_mgr [])"

lemma example_gossip_simps [simp]: "g_store example_gossip = example_store" "g_nodeID example_gossip = ''a''"
  by (simp_all add: example_gossip_def newGossip_def)

lemma example_gossip_replica: "is_replica (\<lambda>_. 0) example_gossip k"
proof -
  have r: "data (g_ring example_gossip) = Some \<lparr>nodes = [\<lparr>hash = 0, nodeID = ''a''\<rparr>]\<rparr>"
    "g_replicaCount example_gossip = 3"
    by (simp_all add: example_gossip_def newGossip_def ring_Update_def newHashRing_def build_ring_def)
  have "sort_Search 0 (Suc 0) f = (if f 0 then 0 else 1)" for f
    by (simp add: sort_Search.simps [of 0 "Suc 0"] sort_Search.simps [of 0 0] sort_Search.simps [of 1 1] Let_def
        sort_Search.simps [of "Suc 0" "Suc 0"])
  then have "ring_GetN (\<lambda>_. 0) (g_ring example_gossip) k 3 = [''a'']"
    by (simp add: ring_GetN_def r findNode_def GetN_loop.simps [of _ _ _ 0] GetN_loop.simps [of _ _ _ "Suc 0"])
  then show ?thesis by (simp add: is_replica_def r)
qed

lemma example_replica_ok: "replica_ok example_env now example_store"
  by (simp add: replica_ok_def example_store_inv live_store_def)

definition example_op :: "int64 \<Rightarrow> SyncOperation" where
  "example_op v = \<lparr>opKey = ''k'', opType = OpSet, opItem = Some (example_item v)\<rparr>"

lemma example_sent: "sent_items (map example_op vs) = map (\<lambda>v. (''k'', example_item v)) vs"
  by (induction vs) (simp_all add: sent_items_def received_def op_items_def example_op_def wire_op_def
      wire_item_def example_item_def)

lemma example_batch_ok: "vs \<noteq> [] \<Longrightarrow> length vs < 2 ^ 32 \<Longrightarrow> batch_ok now (map example_op vs)"
  by (auto simp: batch_ok_def example_sent items_ok_def example_op_def op_ok_def item_ok_def short_def
      IsZero_def maxAlloc_def unexpired_def item_view_def example_item_def)

lemma example_room: "length vs \<le> 1000 \<Longrightarrow> has_room example_store (map (\<lambda>v. (''k'', example_item v)) vs)"
  by (simp add: has_room_def items_size_def o_def sum_list_triv)

text \<open>
  C6: gossip converges. Two replicas of a key that agree on it receive pushes of sync operations as the
  wire carries them: the same operations, in any order, in any batches, any number of times. If equal
  versions of the key carry equal items and nothing is evicted or expires meanwhile, the replicas agree on
  the key afterwards.
\<close>

theorem gossip_converges:
  assumes "replica_ok E now1 (g_store g1)" "replica_ok E now2 (g_store g2)"
    and "\<forall>ops \<in> set b1. batch_ok now1 ops" "\<forall>ops \<in> set b2. batch_ok now2 ops"
    and "has_room (g_store g1) (sent_all b1)" "has_room (g_store g2) (sent_all b2)"
    and "is_replica hi g1 k" "is_replica hi g2 k" "view E (g_store g1) k = view E (g_store g2) k"
    and "set (sent_all b1) = set (sent_all b2)"
    and "versions_unique view_version (view E (g_store g1) k) (writes fst (\<lambda>op. item_view (snd op)) (sent_all b1) k)"
  shows "view E (g_store (deliver E hi now1 b1 g1)) k = view E (g_store (deliver E hi now2 b2 g2)) k"
  using assms by (rule deliver_convergence)

theorem gossip_converges_witness:
  "view example_env (g_store (deliver example_env (\<lambda>_. 0) 1 [[example_op 5], [example_op 3]] example_gossip)) ''k''
   = view example_env (g_store (deliver example_env (\<lambda>_. 0) 2 [[example_op 3, example_op 5]] example_gossip)) ''k''"
proof -
  have s: "sent_all [[example_op 5], [example_op 3]] = map (\<lambda>v. (''k'', example_item v)) [5, 3]"
    "sent_all [[example_op 3, example_op 5]] = map (\<lambda>v. (''k'', example_item v)) [3, 5]"
    using example_sent [of "[5]"] example_sent [of "[3]"] example_sent [of "[3, 5]"] by (simp_all add: sent_all_def)
  have u: "versions_unique view_version (view example_env (g_store example_gossip) ''k'')
      (writes fst (\<lambda>op. item_view (snd op)) (sent_all [[example_op 5], [example_op 3]]) ''k'')"
    unfolding s by (simp add: versions_unique_def writes_def view_version_def item_view_def inj_on_def)
  show ?thesis
    by (rule gossip_converges [OF _ _ _ _ _ _ _ _ _ _ u])
      (use example_batch_ok [of "[5]"] example_batch_ok [of "[3]"] example_batch_ok [of "[3, 5]"]
        example_room [of "[5, 3]"] example_room [of "[3, 5]"] in
        \<open>auto simp: s example_replica_ok example_gossip_replica\<close>)
qed

end
