(* ===== verification/Writer.thy ===== *)
theory Writer
  imports Gossip Hlc Ttl_Cache
begin

text \<open>
  \<open>internal/cluster/writer.go\<close>: versioned writes, the queue of operations for other replicas, and the
  batched flush that pushes them through gossip.

  \<^item> The record \<open>writer\<close> extends \<open>gossip\<close>: the writer's \<open>gossip\<close> field, and the store, ring and members
    it shares with it, are the base record.
  \<^item> The executor takes or refuses a function; a call that may hand it functions has the two answers as
    arguments. What it takes runs later: \<open>run_flush\<close> and \<open>run_retry\<close>.
  \<^item> The hash of the cache is the pair of the two halves of \<open>xxh3.HashString128\<close>, of which the store uses
    the low and the ring the high half.
  \<^item> The iteration order of a Go map is open: \<open>order\<close> gives it where the code stops an iteration early; the
    maps of a flush are visited in insertion order.
\<close>

section \<open>State\<close>

record writer = gossip +
  w_hlc :: HLC
  w_cache :: "StoredItem Cache"
  batchThreshold :: int
  batchWindow :: duration
  batchCount :: int
  flushPending :: bool
  lastVersions :: "(string \<times> int64) list"
  pendingOps :: "SyncOperation list"

datatype writer_err = ErrNoReplicas string | ErrStoreLocal string storage_err

datatype writer_effect = RunFlush | RunRetry | ResetTimer

definition newWriter :: "gossip \<Rightarrow> HLC \<Rightarrow> StoredItem Cache \<Rightarrow> int \<Rightarrow> duration \<Rightarrow> writer" where
  "newWriter g h c threshold window =
     gossip.extend g
       \<lparr>w_hlc = h, w_cache = c, batchThreshold = (if threshold \<le> 0 then 200 else threshold),
        batchWindow = (if window \<le> 0 then 10000000 else window), batchCount = 0, flushPending = False,
        lastVersions = [], pendingOps = []\<rparr>"

definition hash128 :: "env \<Rightarrow> (string \<Rightarrow> uint64) \<Rightarrow> string \<Rightarrow> uint64 \<times> uint64" where
  "hash128 E hi key = (hash_Lo E key, hi key)"

definition isLocalReplica :: "'a writer_scheme \<Rightarrow> string list \<Rightarrow> bool" where
  "isLocalReplica w targets \<longleftrightarrow> list_ex (\<lambda>target. target = g_nodeID w) targets"

section \<open>Triggering a flush\<close>

definition flushAsync :: "bool \<times> bool \<Rightarrow> writer_effect list" where
  "flushAsync ex = (if fst ex then [RunFlush] else if snd ex then [RunRetry] else [])"

definition triggerBatch :: "bool \<times> bool \<Rightarrow> 'a writer_scheme \<Rightarrow> 'a writer_scheme \<times> writer_effect list" where
  "triggerBatch ex w =
     (let w1 = w\<lparr>batchCount := batchCount w + 1\<rparr> in
      if batchCount w1 \<ge> batchThreshold w1
      then (if \<not> flushPending w1 then (w1\<lparr>flushPending := True\<rparr>, flushAsync ex) else (w1, []))
      else if int (length (pendingOps w1)) > batchThreshold w1 * 10 \<and> \<not> flushPending w1
      then (w1\<lparr>flushPending := True\<rparr>, flushAsync ex)
      else (w1, [ResetTimer]))"

section \<open>Writes\<close>

definition queue_op :: "string \<Rightarrow> OpType \<Rightarrow> StoredItem \<Rightarrow> SyncOperation" where
  "queue_op key ot item = \<lparr>opKey = key, opType = ot, opItem = DeepCopy (Some item)\<rparr>"

definition storeOrQueue ::
  "env \<Rightarrow> (string \<Rightarrow> uint64) \<Rightarrow> bool \<times> bool \<Rightarrow> string \<Rightarrow> StoredItem \<Rightarrow> OpType \<Rightarrow> 'a writer_scheme
   \<Rightarrow> 'a writer_scheme \<times> writer_effect list \<times> (writer_err + unit)" where
  "storeOrQueue E hi ex key item ot w =
     (let targets = ring_GetN hi (g_ring w) key (g_replicaCount w) in
      if length targets = 0 then (w, [], Inl (ErrNoReplicas key))
      else case Set E key (Some item) (g_store w) of
        (s, Inl e) \<Rightarrow> (w\<lparr>g_store := s\<rparr>, [], Inl (ErrStoreLocal key e))
      | (s, Inr _) \<Rightarrow>
          (let w1 = w\<lparr>g_store := s, pendingOps := pendingOps w
                 @ map (\<lambda>_. queue_op key ot item) (filter (\<lambda>target. target \<noteq> g_nodeID w) targets)\<rparr>
           in case triggerBatch ex w1 of (w2, es) \<Rightarrow>
                (w2\<lparr>w_cache := fst (cache_Delete (hash128 E hi) key (w_cache w2))\<rparr>, es, Inr ())))"

definition maxVersions :: nat where
  "maxVersions = 10000"

definition trim_versions :: "(string list \<Rightarrow> string list) \<Rightarrow> (string \<times> int64) list \<Rightarrow> (string \<times> int64) list" where
  "trim_versions order lv =
     (if length lv > maxVersions
      then (let toRemove = length lv - maxVersions + maxVersions div 5
            in fold AList.delete (take toRemove (order (map fst lv))) lv)
      else lv)"

text \<open>The version of the next \<open>Set\<close> of a key: the clock's, or one above the last.\<close>

definition next_version :: "gotime \<Rightarrow> string \<Rightarrow> 'a writer_scheme \<Rightarrow> HLC \<times> int64" where
  "next_version now key w =
     (let (h, hlcStr) = HLC_Now (UnixNano now) (w_hlc w);
          ver = hlcToInt64 now hlcStr
      in (h, case map_of (lastVersions w) key of
               None \<Rightarrow> ver
             | Some lastVersion \<Rightarrow> if sint ver \<le> sint lastVersion then lastVersion + 1 else ver))"

definition writer_Set ::
  "env \<Rightarrow> (string \<Rightarrow> uint64) \<Rightarrow> gotime \<Rightarrow> (string list \<Rightarrow> string list) \<Rightarrow> (nat \<Rightarrow> bool \<times> bool) \<Rightarrow> string \<Rightarrow> StoredItem
   \<Rightarrow> 'a writer_scheme \<Rightarrow> 'a writer_scheme \<times> writer_effect list \<times> (writer_err + unit)" where
  "writer_Set E hi now order ex key item w =
     (let (h, ver) = next_version now key w;
          w1 = w\<lparr>w_hlc := h, lastVersions := trim_versions order (AList.update key ver (lastVersions w))\<rparr>;
          newItem = \<lparr>Version = ver, ExpireAt = ExpireAt item, Value = Value item, Key = key\<rparr>
      in case storeOrQueue E hi (ex 0) key newItem OpSet w1 of
           (w2, es, Inl e) \<Rightarrow> (w2, es, Inl e)
         | (w2, es, Inr _) \<Rightarrow> (case triggerBatch (ex 1) w2 of (w3, es') \<Rightarrow> (w3, es @ es', Inr ())))"

definition batch_item ::
  "env \<Rightarrow> (string \<Rightarrow> uint64) \<Rightarrow> int64 \<Rightarrow> string \<times> StoredItem \<Rightarrow> 'a writer_scheme \<Rightarrow> 'a writer_scheme" where
  "batch_item E hi ver kv w =
     (case kv of (key, item) \<Rightarrow>
        (let newItem = \<lparr>Version = ver, ExpireAt = ExpireAt item, Value = Value item, Key = key\<rparr>;
             targets = ring_GetN hi (g_ring w) key (g_replicaCount w)
         in if length targets = 0 then w
            else if isLocalReplica w targets
            then w\<lparr>g_store := fst (Set E key (Some newItem) (g_store w)),
                   w_cache := fst (cache_Delete (hash128 E hi) key (w_cache w))\<rparr>
            else w\<lparr>pendingOps := pendingOps w @ [queue_op key OpSet newItem]\<rparr>))"

definition writer_BatchSet ::
  "env \<Rightarrow> (string \<Rightarrow> uint64) \<Rightarrow> gotime \<Rightarrow> bool \<times> bool \<Rightarrow> (string \<times> StoredItem) list
   \<Rightarrow> 'a writer_scheme \<Rightarrow> 'a writer_scheme \<times> writer_effect list" where
  "writer_BatchSet E hi now ex kvs w =
     (if length kvs = 0 then (w, [])
      else
        (let (h, hlcStr) = HLC_Now (UnixNano now) (w_hlc w);
             ver = hlcToInt64 now hlcStr
         in triggerBatch ex (fold (batch_item E hi ver) kvs (w\<lparr>w_hlc := h\<rparr>))))"

text \<open>Whether a write of the batch panics, and with it the call.\<close>

definition item_panics :: "env \<Rightarrow> (string \<Rightarrow> uint64) \<Rightarrow> int64 \<Rightarrow> string \<times> StoredItem \<Rightarrow> 'a writer_scheme \<Rightarrow> bool" where
  "item_panics E hi ver kv w =
     (case kv of (key, item) \<Rightarrow>
        isLocalReplica w (ring_GetN hi (g_ring w) key (g_replicaCount w))
        \<and> snd (Set E key (Some \<lparr>Version = ver, ExpireAt = ExpireAt item, Value = Value item, Key = key\<rparr>) (g_store w))
            = Inl ErrPanic)"

fun batch_panics :: "env \<Rightarrow> (string \<Rightarrow> uint64) \<Rightarrow> int64 \<Rightarrow> (string \<times> StoredItem) list \<Rightarrow> 'a writer_scheme \<Rightarrow> bool" where
  "batch_panics E hi ver [] w = False"
| "batch_panics E hi ver (kv # kvs) w = (item_panics E hi ver kv w \<or> batch_panics E hi ver kvs (batch_item E hi ver kv w))"

definition BatchSet_panics :: "env \<Rightarrow> (string \<Rightarrow> uint64) \<Rightarrow> gotime \<Rightarrow> (string \<times> StoredItem) list \<Rightarrow> 'a writer_scheme \<Rightarrow> bool" where
  "BatchSet_panics E hi now kvs w =
     (let (h, hlcStr) = HLC_Now (UnixNano now) (w_hlc w)
      in batch_panics E hi (hlcToInt64 now hlcStr) kvs (w\<lparr>w_hlc := h\<rparr>))"

text \<open>The version of a tombstone: above the given one, and positive.\<close>

definition delete_version :: "int64 \<Rightarrow> int64 \<Rightarrow> int64" where
  "delete_version hlcVersion ver =
     (let v1 = (if sint hlcVersion \<le> sint ver then ver + 1 else hlcVersion)
      in if sint v1 \<le> 0 then 1 else v1)"

definition writer_Delete ::
  "env \<Rightarrow> (string \<Rightarrow> uint64) \<Rightarrow> gotime \<Rightarrow> (nat \<Rightarrow> bool \<times> bool) \<Rightarrow> string \<Rightarrow> int64
   \<Rightarrow> 'a writer_scheme \<Rightarrow> 'a writer_scheme \<times> writer_effect list \<times> (writer_err + unit)" where
  "writer_Delete E hi now ex key ver w =
     (let (h, hlcStr) = HLC_Now (UnixNano now) (w_hlc w);
          tombstone = \<lparr>Version = delete_version (hlcToInt64 now hlcStr) ver, ExpireAt = zero_time,
                       Value = go_nil, Key = key\<rparr>
      in case storeOrQueue E hi (ex 0) key tombstone OpDelete (w\<lparr>w_hlc := h\<rparr>) of
           (w2, es, Inl e) \<Rightarrow> (w2, es, Inl e)
         | (w2, es, Inr _) \<Rightarrow> (case triggerBatch (ex 1) w2 of (w3, es') \<Rightarrow> (w3, es @ es', Inr ())))"

section \<open>The flush\<close>

text \<open>The targets of a key, with the table of targets found so far (empty results are not kept).\<close>

definition cached_targets ::
  "(string \<Rightarrow> uint64) \<Rightarrow> 'a writer_scheme \<Rightarrow> string \<Rightarrow> (string \<times> string list) list
   \<Rightarrow> string list \<times> (string \<times> string list) list" where
  "cached_targets hi w key c =
     (case map_of c key of
        Some targets \<Rightarrow> (targets, c)
      | None \<Rightarrow>
          (let targets = ring_GetN hi (g_ring w) key (g_replicaCount w)
           in (targets, if length targets > 0 then AList.update key targets c else c)))"

type_synonym target_ops = "(string \<times> SyncOperation list) list"

definition add_op :: "SyncOperation \<Rightarrow> string \<Rightarrow> target_ops \<Rightarrow> target_ops" where
  "add_op op target m = AList.update target ((case map_of m target of None \<Rightarrow> [] | Some ops \<Rightarrow> ops) @ [op]) m"

fun group_ops ::
  "(string \<Rightarrow> uint64) \<Rightarrow> 'a writer_scheme \<Rightarrow> SyncOperation list \<Rightarrow> (string \<times> string list) list \<Rightarrow> target_ops \<Rightarrow> target_ops"
where
  "group_ops hi w [] c m = m"
| "group_ops hi w (op # ops) c m =
     (if opKey op = '''' then group_ops hi w ops c m
      else case cached_targets hi w (opKey op) c of (targets, c1) \<Rightarrow>
        group_ops hi w ops c1 (fold (add_op op) (filter (\<lambda>t. t \<noteq> g_nodeID w) targets) m))"

definition nodeIDToAddr :: "memberMgr \<Rightarrow> string \<Rightarrow> string" where
  "nodeIDToAddr m nid =
     (case map_of (rev (map (\<lambda>i. (NodeID i, Address i)) (Members m))) nid of None \<Rightarrow> '''' | Some a \<Rightarrow> a)"

definition recent_pending :: "'a writer_scheme \<Rightarrow> SyncOperation list" where
  "recent_pending w =
     (let maxPendingOps = batchThreshold w * 200
      in if int (length (pendingOps w)) > maxPendingOps
         then drop (nat (int (length (pendingOps w)) - maxPendingOps)) (pendingOps w)
         else pendingOps w)"

text \<open>\<open>flushInternal\<close>: the new state and the pushes the executor took.\<close>

definition flushInternal ::
  "env \<Rightarrow> (string \<Rightarrow> uint64) \<Rightarrow> gotime \<Rightarrow> (string \<Rightarrow> bool) \<Rightarrow> 'a writer_scheme \<Rightarrow> 'a writer_scheme \<times> (string \<times> bytes) list" where
  "flushInternal E hi now accept w =
     (case GetSyncBuffer E now (g_store w) of (s, drained) \<Rightarrow>
        (let ops = drained @ recent_pending w;
             w1 = w\<lparr>g_store := s, pendingOps := [], batchCount := 0\<rparr>
         in if length ops = 0 then (w1, [])
            else
              (w1, concat (map (\<lambda>(target, targetOps).
                      if length targetOps = 0 \<or> nodeIDToAddr (g_member w) target = '''' then []
                      else Push accept targetOps [nodeIDToAddr (g_member w) target] w)
                    (group_ops hi w ops [] [])))))"

text \<open>The functions handed to the executor, a tick of the flush timer, and the flush of \<open>Stop\<close>.\<close>

definition run_flush ::
  "env \<Rightarrow> (string \<Rightarrow> uint64) \<Rightarrow> gotime \<Rightarrow> (string \<Rightarrow> bool) \<Rightarrow> 'a writer_scheme
   \<Rightarrow> 'a writer_scheme \<times> (string \<times> bytes) list \<times> writer_effect list" where
  "run_flush E hi now accept w =
     (case flushInternal E hi now accept w of (w1, tasks) \<Rightarrow> (w1\<lparr>flushPending := False\<rparr>, tasks, [ResetTimer]))"

definition run_retry :: "bool \<times> bool \<Rightarrow> 'a writer_scheme \<Rightarrow> 'a writer_scheme \<times> writer_effect list" where
  "run_retry ex w = (if flushPending w then triggerBatch ex (w\<lparr>flushPending := False\<rparr>) else (w, []))"

definition timer_tick :: "bool \<times> bool \<Rightarrow> 'a writer_scheme \<Rightarrow> 'a writer_scheme \<times> writer_effect list" where
  "timer_tick ex w =
     (if \<not> flushPending w then (w\<lparr>flushPending := True\<rparr>, flushAsync ex) else (w, [ResetTimer]))"

section \<open>Grouping by target\<close>

definition other_targets :: "(string \<Rightarrow> uint64) \<Rightarrow> 'a writer_scheme \<Rightarrow> string \<Rightarrow> string list" where
  "other_targets hi w key = filter (\<lambda>t. t \<noteq> g_nodeID w) (ring_GetN hi (g_ring w) key (g_replicaCount w))"

text \<open>The operations a target gets: those with a key it replicates, in order.\<close>

definition ops_for :: "(string \<Rightarrow> uint64) \<Rightarrow> 'a writer_scheme \<Rightarrow> string \<Rightarrow> SyncOperation list \<Rightarrow> SyncOperation list" where
  "ops_for hi w t ops = filter (\<lambda>op. opKey op \<noteq> '''' \<and> t \<in> set (other_targets hi w (opKey op))) ops"

definition memo_ok :: "(string \<Rightarrow> uint64) \<Rightarrow> 'a writer_scheme \<Rightarrow> (string \<times> string list) list \<Rightarrow> bool" where
  "memo_ok hi w c \<longleftrightarrow> (\<forall>k ts. map_of c k = Some ts \<longrightarrow> ts = ring_GetN hi (g_ring w) k (g_replicaCount w))"

definition ops_at :: "target_ops \<Rightarrow> string \<Rightarrow> SyncOperation list" where
  "ops_at m t = (case map_of m t of None \<Rightarrow> [] | Some ops \<Rightarrow> ops)"

lemma cached_targets_memo:
  assumes "memo_ok hi w c"
  obtains c' where "cached_targets hi w k c = (ring_GetN hi (g_ring w) k (g_replicaCount w), c')" "memo_ok hi w c'"
proof (cases "map_of c k")
  case None
  let ?ts = "ring_GetN hi (g_ring w) k (g_replicaCount w)"
  show thesis
    by (rule that [of "if length ?ts > 0 then AList.update k ?ts c else c"])
      (use None assms in \<open>auto simp: cached_targets_def Let_def memo_ok_def update_conv'\<close>)
next
  case (Some ts)
  then show thesis using assms by (intro that [of c]) (auto simp: cached_targets_def memo_ok_def)
qed

lemma ops_at_add: "ops_at (add_op op t m) t' = (if t' = t then ops_at m t @ [op] else ops_at m t')"
  by (simp add: ops_at_def add_op_def update_conv')

lemma ops_at_adds:
  "distinct ts \<Longrightarrow> ops_at (fold (add_op op) ts m) t = ops_at m t @ (if t \<in> set ts then [op] else [])"
  by (induction ts arbitrary: m) (auto simp: ops_at_add)

text \<open>The grouping loop, memo table included, gives every target exactly its operations.\<close>

lemma ops_at_group:
  assumes "memo_ok hi w c" "ring_inv (g_ring w)"
  shows "ops_at (group_ops hi w ops c m) t = ops_at m t @ ops_for hi w t ops"
  using assms(1)
proof (induction ops arbitrary: c m)
  case (Cons op ops)
  obtain c' where c': "cached_targets hi w (opKey op) c
      = (ring_GetN hi (g_ring w) (opKey op) (g_replicaCount w), c')" "memo_ok hi w c'"
    by (rule cached_targets_memo [OF Cons.prems])
  have "distinct (other_targets hi w (opKey op))"
    using placement.place_distinct [OF placement_ring [OF assms(2)]] by (simp add: other_targets_def)
  then show ?case
    using Cons.IH [OF Cons.prems] Cons.IH [OF c'(2)]
    by (auto simp: c'(1) ops_for_def ops_at_adds simp flip: other_targets_def)
qed (simp add: ops_for_def)

lemma distinct_add_ops: "distinct (map fst m) \<Longrightarrow> distinct (map fst (fold (add_op op) ts m))"
  by (induction ts arbitrary: m) (simp_all add: add_op_def distinct_update)

lemma distinct_group: "distinct (map fst m) \<Longrightarrow> distinct (map fst (group_ops hi w ops c m))"
  by (induction ops arbitrary: c m) (auto simp: distinct_add_ops split: prod.split)

section \<open>What a flush pushes\<close>

definition flush_ops :: "env \<Rightarrow> gotime \<Rightarrow> 'a writer_scheme \<Rightarrow> SyncOperation list" where
  "flush_ops E now w = snd (GetSyncBuffer E now (g_store w)) @ recent_pending w"

lemma flushInternal_push:
  assumes "ring_inv (g_ring w)" "ops_for hi w t (flush_ops E now w) \<noteq> []"
    and "nodeIDToAddr (g_member w) t = addr" "addr \<noteq> ''''" "alive_at (g_member w) addr" "accept addr"
  shows "(addr, Serialize (ops_for hi w t (flush_ops E now w))) \<in> set (snd (flushInternal E hi now accept w))"
proof -
  let ?ops = "flush_ops E now w" and ?g = "group_ops hi w (flush_ops E now w) [] []"
  have at: "ops_at ?g t = ops_for hi w t ?ops"
    using ops_at_group [of hi w "[]" ?ops "[]" t] assms(1) by (simp add: memo_ok_def ops_at_def)
  then obtain tops where "map_of ?g t = Some tops" "tops = ops_for hi w t ?ops"
    using assms(2) by (auto simp: ops_at_def split: option.splits)
  then have mem: "(t, ops_for hi w t ?ops) \<in> set ?g" by (auto dest: map_of_SomeD)
  have "?ops \<noteq> []" using assms(2) by (auto simp: ops_for_def)
  then have "snd (flushInternal E hi now accept w) = concat (map (\<lambda>(target, targetOps).
      if length targetOps = 0 \<or> nodeIDToAddr (g_member w) target = '''' then []
      else Push accept targetOps [nodeIDToAddr (g_member w) target] w) ?g)"
    by (simp add: flushInternal_def flush_ops_def Let_def split: prod.splits)
  moreover have "(addr, Serialize (ops_for hi w t ?ops)) \<in> set (Push accept (ops_for hi w t ?ops) [addr] w)"
    using assms(2,5,6) by (simp add: Push_def Let_def)
  ultimately show ?thesis using mem assms(2-4) by (fastforce simp: set_concat)
qed

text \<open>Conversely, a flush pushes to a node only operations the node replicates.\<close>

lemma flushInternal_pushed:
  assumes "ring_inv (g_ring w)" "(addr, dat) \<in> set (snd (flushInternal E hi now accept w))"
  shows "\<exists>t. nodeIDToAddr (g_member w) t = addr \<and> addr \<noteq> '''' \<and> dat = Serialize (ops_for hi w t (flush_ops E now w))
    \<and> alive_at (g_member w) addr"
proof -
  let ?ops = "flush_ops E now w" and ?g = "group_ops hi w (flush_ops E now w) [] []"
  obtain t tops where t: "(t, tops) \<in> set ?g" "nodeIDToAddr (g_member w) t \<noteq> ''''"
    "(addr, dat) \<in> set (Push accept tops [nodeIDToAddr (g_member w) t] w)"
    using assms(2) by (auto simp: flushInternal_def flush_ops_def Let_def split: prod.splits if_splits)
  have "map_of ?g t = Some tops" using t(1) distinct_group [of "[]" hi w ?ops "[]"] by simp
  then have "tops = ops_for hi w t ?ops"
    using ops_at_group [of hi w "[]" ?ops "[]" t] assms(1) by (simp add: memo_ok_def ops_at_def)
  with t(2,3) show ?thesis by (auto simp: Push_def Let_def split: if_splits)
qed

section \<open>What a write does\<close>

lemma triggerBatch_frame:
  assumes "triggerBatch ex w = (w', es)"
  shows "g_store w' = g_store w" "g_ring w' = g_ring w" "g_member w' = g_member w" "g_nodeID w' = g_nodeID w"
    "g_replicaCount w' = g_replicaCount w" "pendingOps w' = pendingOps w" "batchThreshold w' = batchThreshold w"
    "lastVersions w' = lastVersions w" "w_hlc w' = w_hlc w" "w_cache w' = w_cache w"
  using assms by (auto simp: triggerBatch_def Let_def split: if_splits)

lemma storeOrQueue_ok:
  assumes "storeOrQueue E hi ex key item ot w = (w', es, Inr ())"
  shows "Set E key (Some item) (g_store w) = (g_store w', Inr ())"
    "pendingOps w' = pendingOps w @ map (\<lambda>_. queue_op key ot item) (other_targets hi w key)"
    "g_ring w' = g_ring w" "g_member w' = g_member w" "g_nodeID w' = g_nodeID w"
    "g_replicaCount w' = g_replicaCount w" "batchThreshold w' = batchThreshold w"
    "lastVersions w' = lastVersions w" "w_hlc w' = w_hlc w"
    "w_cache w' = fst (cache_Delete (hash128 E hi) key (w_cache w))"
proof -
  obtain s w2 where st: "Set E key (Some item) (g_store w) = (s, Inr ())"
    and t: "triggerBatch ex (w\<lparr>g_store := s, pendingOps := pendingOps w
        @ map (\<lambda>_. queue_op key ot item) (other_targets hi w key)\<rparr>) = (w2, es)"
    and w': "w' = w2\<lparr>w_cache := fst (cache_Delete (hash128 E hi) key (w_cache w2))\<rparr>"
    using assms by (auto simp: storeOrQueue_def Let_def other_targets_def split: if_splits prod.splits sum.splits)
  show "Set E key (Some item) (g_store w) = (g_store w', Inr ())"
    "pendingOps w' = pendingOps w @ map (\<lambda>_. queue_op key ot item) (other_targets hi w key)"
    "g_ring w' = g_ring w" "g_member w' = g_member w" "g_nodeID w' = g_nodeID w"
    "g_replicaCount w' = g_replicaCount w" "batchThreshold w' = batchThreshold w"
    "lastVersions w' = lastVersions w" "w_hlc w' = w_hlc w"
    "w_cache w' = fst (cache_Delete (hash128 E hi) key (w_cache w))"
    using triggerBatch_frame [OF t] by (simp_all add: st w')
qed

text \<open>The item a \<open>Set\<close> writes.\<close>

definition set_item :: "gotime \<Rightarrow> string \<Rightarrow> StoredItem \<Rightarrow> 'a writer_scheme \<Rightarrow> StoredItem" where
  "set_item now key item w =
     \<lparr>Version = snd (next_version now key w), ExpireAt = ExpireAt item, Value = Value item, Key = key\<rparr>"

lemma writer_Set_ok:
  assumes "writer_Set E hi now order ex key item w = (w', es, Inr ())"
  shows "Set E key (Some (set_item now key item w)) (g_store w) = (g_store w', Inr ())"
    "pendingOps w' = pendingOps w @ map (\<lambda>_. queue_op key OpSet (set_item now key item w)) (other_targets hi w key)"
    "g_ring w' = g_ring w" "g_member w' = g_member w" "g_nodeID w' = g_nodeID w"
    "g_replicaCount w' = g_replicaCount w" "batchThreshold w' = batchThreshold w"
    "w_cache w' = fst (cache_Delete (hash128 E hi) key (w_cache w))"
    "lastVersions w' = trim_versions order (AList.update key (snd (next_version now key w)) (lastVersions w))"
    "w_hlc w' = fst (next_version now key w)"
proof -
  obtain h v where nv: "next_version now key w = (h, v)" by fastforce
  let ?w1 = "w\<lparr>w_hlc := h, lastVersions := trim_versions order (AList.update key v (lastVersions w))\<rparr>"
  have it: "\<lparr>Version = v, ExpireAt = ExpireAt item, Value = Value item, Key = key\<rparr> = set_item now key item w"
    by (simp add: set_item_def nv)
  obtain w2 es2 where s: "storeOrQueue E hi (ex 0) key (set_item now key item w) OpSet ?w1 = (w2, es2, Inr ())"
    and t: "\<exists>es'. triggerBatch (ex 1) w2 = (w', es')"
    using assms by (auto simp: writer_Set_def Let_def nv it split: prod.splits sum.splits)
  obtain es' where t': "triggerBatch (ex 1) w2 = (w', es')" using t by blast
  have o: "other_targets hi ?w1 = other_targets hi w" by (intro ext) (simp add: other_targets_def)
  note f = storeOrQueue_ok [OF s] and g = triggerBatch_frame [OF t']
  show "Set E key (Some (set_item now key item w)) (g_store w) = (g_store w', Inr ())"
    "pendingOps w' = pendingOps w @ map (\<lambda>_. queue_op key OpSet (set_item now key item w)) (other_targets hi w key)"
    "g_ring w' = g_ring w" "g_member w' = g_member w" "g_nodeID w' = g_nodeID w"
    "g_replicaCount w' = g_replicaCount w" "batchThreshold w' = batchThreshold w"
    "w_cache w' = fst (cache_Delete (hash128 E hi) key (w_cache w))"
    "lastVersions w' = trim_versions order (AList.update key (snd (next_version now key w)) (lastVersions w))"
    "w_hlc w' = fst (next_version now key w)"
    using f g by (simp_all add: nv o)
qed

text \<open>The tombstone a \<open>Delete\<close> writes.\<close>

definition tombstone :: "gotime \<Rightarrow> string \<Rightarrow> int64 \<Rightarrow> 'a writer_scheme \<Rightarrow> StoredItem" where
  "tombstone now key ver w =
     \<lparr>Version = delete_version (hlcToInt64 now (snd (HLC_Now (UnixNano now) (w_hlc w)))) ver, ExpireAt = zero_time,
      Value = go_nil, Key = key\<rparr>"

lemma tombstone_simps [simp]: "Value (tombstone now key ver w) = go_nil" "0 < sint (Version (tombstone now key ver w))"
  "ExpireAt (tombstone now key ver w) = zero_time"
  by (simp_all add: tombstone_def delete_version_def Let_def)

lemma writer_Delete_ok:
  assumes "writer_Delete E hi now ex key ver w = (w', es, Inr ())"
  shows "Set E key (Some (tombstone now key ver w)) (g_store w) = (g_store w', Inr ())"
    "pendingOps w' = pendingOps w @ map (\<lambda>_. queue_op key OpDelete (tombstone now key ver w)) (other_targets hi w key)"
    "w_cache w' = fst (cache_Delete (hash128 E hi) key (w_cache w))"
    "lastVersions w' = lastVersions w" "w_hlc w' = fst (HLC_Now (UnixNano now) (w_hlc w))"
    "g_ring w' = g_ring w" "g_replicaCount w' = g_replicaCount w"
proof -
  obtain h str where h: "HLC_Now (UnixNano now) (w_hlc w) = (h, str)" by fastforce
  have tomb: "\<lparr>Version = delete_version (hlcToInt64 now str) ver, ExpireAt = zero_time, Value = go_nil, Key = key\<rparr>
      = tombstone now key ver w"
    by (simp add: tombstone_def h)
  obtain w0 es0 where s: "storeOrQueue E hi (ex 0) key (tombstone now key ver w) OpDelete (w\<lparr>w_hlc := h\<rparr>) = (w0, es0, Inr ())"
    and t: "\<exists>es'. triggerBatch (ex 1) w0 = (w', es')"
    using assms by (auto simp: writer_Delete_def h Let_def tomb split: prod.splits sum.splits)
  obtain es' where t': "triggerBatch (ex 1) w0 = (w', es')" using t by blast
  have o: "other_targets hi (w\<lparr>w_hlc := h\<rparr>) key = other_targets hi w key" by (simp add: other_targets_def)
  show "Set E key (Some (tombstone now key ver w)) (g_store w) = (g_store w', Inr ())"
    "pendingOps w' = pendingOps w @ map (\<lambda>_. queue_op key OpDelete (tombstone now key ver w)) (other_targets hi w key)"
    "w_cache w' = fst (cache_Delete (hash128 E hi) key (w_cache w))"
    "lastVersions w' = lastVersions w" "w_hlc w' = fst (HLC_Now (UnixNano now) (w_hlc w))"
    "g_ring w' = g_ring w" "g_replicaCount w' = g_replicaCount w"
    using storeOrQueue_ok [OF s] triggerBatch_frame [OF t'] by (simp_all add: h o)
qed

lemma writer_Delete_succeeds:
  assumes "ring_GetN hi (g_ring w) key (g_replicaCount w) \<noteq> []"
    and "snd (Set E key (Some (tombstone now key ver w)) (g_store w)) = Inr ()"
  shows "\<exists>w' es. writer_Delete E hi now ex key ver w = (w', es, Inr ())"
  using assms
  by (auto simp: writer_Delete_def storeOrQueue_def tombstone_def Let_def split: prod.splits sum.splits)

lemma recent_pending_last:
  assumes "0 < batchThreshold w" "pendingOps w = ps @ [op]"
  shows "op \<in> set (recent_pending w)"
proof -
  let ?d = "nat (int (length (pendingOps w)) - batchThreshold w * 200)"
  have "?d < length (pendingOps w)" using assms by simp
  then have "drop ?d (pendingOps w) \<noteq> []" by simp
  moreover have "last (drop ?d (pendingOps w)) = op" using \<open>?d < _\<close> assms(2) by (simp add: last_drop)
  ultimately have "op \<in> set (drop ?d (pendingOps w))" by (metis last_in_set)
  then show ?thesis using assms(2) by (simp add: recent_pending_def Let_def)
qed

text \<open>After a \<open>Set\<close>, the next flush has the written item among the operations of every other replica.\<close>

lemma writer_Set_flush:
  assumes "writer_Set E hi now order ex key item w = (w', es, Inr ())" "0 < batchThreshold w"
    and "t \<in> set (other_targets hi w key)"
  shows "queue_op key OpSet (set_item now key item w) \<in> set (ops_for hi w' t (flush_ops E now' w'))"
proof -
  note f = writer_Set_ok [OF assms(1)]
  have key: "key \<noteq> ''''" using f(1) by (auto simp: Set_def)
  obtain ts t0 where "other_targets hi w key = ts @ [t0]"
    using assms(3) by (cases "other_targets hi w key" rule: rev_cases) auto
  then have "queue_op key OpSet (set_item now key item w) \<in> set (recent_pending w')"
    using f(2,7) assms(2) by (intro recent_pending_last) auto
  moreover have "other_targets hi w' = other_targets hi w" by (intro ext) (simp add: other_targets_def f)
  ultimately show ?thesis using key assms(3) by (auto simp: ops_for_def flush_ops_def queue_op_def)
qed

section \<open>From a write to the replicas\<close>

lemma sent_items_queue_op:
  assumes "queue_op key ot item \<in> set ops"
  shows "(key, wire_item key item) \<in> set (sent_items ops)"
proof -
  obtain xs ys where "ops = xs @ queue_op key ot item # ys" using assms by (meson split_list)
  then show ?thesis by (simp add: sent_items_def received_def op_items_def queue_op_def wire_op_def)
qed

lemma push_merges:
  assumes "replica_ok E now (g_store b)" "batch_ok now ops" "has_room (g_store b) (sent_items ops)"
    and "is_replica hi b key" "(key, it) \<in> set (sent_items ops)"
  shows "\<exists>b' v. gossip_HandleMessage E hi now accept (push_message (Serialize ops)) b = (b', Inr (), [])
    \<and> view E (g_store b') key = Some v \<and> view_version (item_view it) \<le> view_version v
    \<and> v \<in> set (writes fst (\<lambda>op. item_view (snd op)) (sent_items ops) key) \<union> set_option (view E (g_store b) key)"
proof -
  let ?rel = "filter (\<lambda>(k, _). is_replica hi b k) (sent_items ops)"
  let ?ws = "writes fst (\<lambda>op. item_view (snd op)) (sent_items ops) key"
  obtain t where t: "gossip_HandleMessage E hi now accept (push_message (Serialize ops)) b = (b\<lparr>g_store := t\<rparr>, Inr (), [])"
    "puts (apply_put E now) ?rel (g_store b) = Some t"
    using HandleMessage_batch [OF assms(1,2), of "[]"] assms(3) by auto
  have v: "view E t key = fold (\<lambda>v old. lww_merge view_version old v) ?ws (view E (g_store b) key)"
    using gossip_replica.puts_view [OF assms(1) t(2), of key] assms(4) by (simp add: writes_relevant)
  have mem: "item_view it \<in> set ?ws" using assms(5) by (force simp: writes_def)
  then have "view E t key \<noteq> None" unfolding v fold_merge_None by auto
  then obtain u where u: "view E t key = Some u" by auto
  from fold_merge_max [OF u [unfolded v]] mem t(1) u show ?thesis by fastforce
qed

section \<open>Version numbers\<close>

lemma next_version_above:
  assumes "map_of (lastVersions w) key = Some u" "sint u < 2 ^ 63 - 1"
  shows "sint u < sint (snd (next_version now key w))"
proof -
  have "sint (u + 1) = sint u + 1" using assms(2) sint64_bounds [of u] by (subst sint64_add) simp_all
  then show ?thesis using assms(1) by (simp add: next_version_def Let_def split: prod.splits)
qed

lemma trim_versions_small: "length lv \<le> maxVersions \<Longrightarrow> trim_versions order lv = lv"
  by (simp add: trim_versions_def)

section \<open>An example cluster\<close>

text \<open>A cluster of two nodes for the examples: \<open>a\<close> writes, \<open>b\<close> is the other replica.\<close>

definition solo_store :: MemStorage where
  "solo_store = New 1 (DefaultConfig\<lparr>ShardCount := 1, CompressionEnabled := False\<rparr>)"

definition duo_ring :: hashRing where
  "duo_ring = fst (ring_Update (\<lambda>_. 0) 1 [''a'', ''b''] (newHashRing 1))"

definition duo_mgr :: memberMgr where
  "duo_mgr = example_mgr [(''b'', example_info ''b'' ''h:2'' NodeStateAlive 1 0)]"

definition example_writer :: writer where
  "example_writer = newWriter (newGossip ''a'' solo_store duo_ring 3 0 duo_mgr) (NewHLC ''a'')
     (cache_New 1 2 \<lparr>ekey = '''', evalue = example_item 0, expireAt = 0, enext = None, eprev = None\<rparr>) 200 0"

definition example_peer :: gossip where
  "example_peer = newGossip ''b'' example_store duo_ring 3 0 duo_mgr"

lemma solo_shard: "shards solo_store = [new_shard]" "shardMask solo_store = 0" "maxMemoryMB solo_store = 512"
  "totalBytes solo_store = 0" "asyncEviction solo_store" "compressionEnabled solo_store = False" "evictThreshold solo_store = 85"
  by (simp_all add: solo_store_def New_def New_shardCount_def DefaultConfig_def nextPowerOf2_def smear_def Let_def)

lemma new_shard_fields: "sdata new_shard = []" "lru new_shard = []" "syncHead new_shard = 0" "syncTail new_shard = 0"
  "syncBuffer new_shard = replicate 8192 None" "syncCapacity new_shard = 8192"
  by (simp_all add: new_shard_def Let_def nextPowerOf2_8192)

lemma solo_Set:
  assumes "Value it = Some v" "length v \<le> 1000" "v \<noteq> []" "IsZero (ExpireAt it)"
  shows "snd (Set example_env ''k'' (Some it) solo_store) = Inr ()"
    "snd (GetSyncBuffer example_env now (fst (Set example_env ''k'' (Some it) solo_store)))
      = [\<lparr>opKey = ''k'', opType = OpSet, opItem = Some (it\<lparr>Key := ''k''\<rparr>)\<rparr>]"
  using assms
  by (simp_all add: Set_def getShard_def solo_shard prepareCompressedItem_def checkAndEvict_def Let_def
   storeItemWithConflictResolution_eq store_iter_def load_def tryStoreNewKey_def calculateItemSize_def
   new_shard_fields store_data_def upd_shard_def updateStatsForNewKey_def touchLRU_def addToSyncBuffer_def push_sync_def
    GetSyncBuffer_def drain_shard_def fill_value_def GetNoCopy_def get_with_def del: replicate.simps)

lemma solo_store_empty: "view E solo_store k = None"
  by (simp add: view_def lookup_def getShard_def solo_shard load_def new_shard_fields)

lemma duo_ring_GetN: "ring_GetN (\<lambda>_. 0) duo_ring k 3 = [''a'', ''b'']"
proof -
  have r: "data duo_ring = Some \<lparr>nodes = [\<lparr>hash = 0, nodeID = ''a''\<rparr>, \<lparr>hash = 0, nodeID = ''b''\<rparr>]\<rparr>"
    by (simp add: duo_ring_def ring_Update_def newHashRing_def build_ring_def)
  have s: "sort_Search 0 (Suc (Suc 0)) (\<lambda>_. True) = 0"
    by (simp add: sort_Search.simps [of 0 "Suc (Suc 0)"] sort_Search.simps [of 0 "Suc 0"] sort_Search.simps [of 0 0] Let_def)
  show ?thesis
    by (simp add: ring_GetN_def r findNode_def s GetN_loop.simps [of _ _ _ 0] GetN_loop.simps [of _ _ _ "Suc 0"]
        GetN_loop.simps [of _ _ _ "Suc (Suc 0)"])
qed

lemma duo_ring_inv: "ring_inv duo_ring"
  unfolding duo_ring_def by (rule ring_inv_Update) (rule ring_inv_new)

lemma example_writer_fields [simp]:
  "g_nodeID example_writer = ''a''" "g_store example_writer = solo_store" "g_ring example_writer = duo_ring"
  "g_replicaCount example_writer = 3" "g_member example_writer = duo_mgr" "batchThreshold example_writer = 200"
  "pendingOps example_writer = []" "lastVersions example_writer = []" "w_hlc example_writer = NewHLC ''a''"
  by (simp_all add: example_writer_def newWriter_def newGossip_def gossip.extend_def)

lemma example_targets: "other_targets (\<lambda>_. 0) example_writer k = [''b'']"
  by (simp add: other_targets_def duo_ring_GetN)

lemma duo_mgr_addr: "nodeIDToAddr duo_mgr ''b'' = ''h:2''" "alive_at duo_mgr ''h:2''"
  by (simp_all add: nodeIDToAddr_def alive_at_def duo_mgr_def example_mgr_def example_info_def Members_def)

lemma writer_Set_succeeds:
  assumes "ring_GetN hi (g_ring w) key (g_replicaCount w) \<noteq> []"
    and "snd (Set E key (Some (set_item now key item w)) (g_store w)) = Inr ()"
  shows "\<exists>w' es. writer_Set E hi now order ex key item w = (w', es, Inr ())"
  using assms
  by (auto simp: writer_Set_def storeOrQueue_def set_item_def Let_def split: prod.splits sum.splits)

lemma example_flush_ops:
  assumes "writer_Set example_env (\<lambda>_. 0) now order ex ''k'' (example_item 0) example_writer = (w', es, Inr ())"
  shows "flush_ops example_env now' w' =
    replicate 2 (queue_op ''k'' OpSet (set_item now ''k'' (example_item 0) example_writer))"
proof -
  let ?it = "set_item now ''k'' (example_item 0) example_writer"
  note f = writer_Set_ok [OF assms]
  have it: "Value ?it = Value (example_item 0)" "ExpireAt ?it = zero_time" "Key ?it = ''k''"
    by (simp_all add: set_item_def)
  have "snd (GetSyncBuffer example_env now' (g_store w')) = [\<lparr>opKey = ''k'', opType = OpSet, opItem = Some ?it\<rparr>]"
    using solo_Set(2) [of ?it "[7, 7, 7, 7, 7, 7, 7, 7, 7, 7]" now'] f(1) it
    by (simp add: example_item_def IsZero_def)
  moreover have "recent_pending w' = [queue_op ''k'' OpSet ?it]"
    using f(2,7) by (simp add: recent_pending_def example_targets)
  ultimately show ?thesis by (simp add: flush_ops_def queue_op_def numeral_2_eq_2)
qed

section \<open>Properties\<close>



text \<open>A sequence of \<open>Set\<close> calls on one writer, with the versions it gave, in order.\<close>

record set_call =
  sc_now :: gotime
  sc_key :: string
  sc_item :: StoredItem
  sc_ex :: "nat \<Rightarrow> bool \<times> bool"

fun set_run ::
  "env \<Rightarrow> (string \<Rightarrow> uint64) \<Rightarrow> (string list \<Rightarrow> string list) \<Rightarrow> set_call list \<Rightarrow> 'a writer_scheme
   \<Rightarrow> 'a writer_scheme \<times> (string \<times> int64) list" where
  "set_run E hi order [] w = (w, [])"
| "set_run E hi order (c # cs) w =
     (let v = snd (next_version (sc_now c) (sc_key c) w);
          w1 = fst (writer_Set E hi (sc_now c) order (sc_ex c) (sc_key c) (sc_item c) w)
      in case set_run E hi order cs w1 of (w2, vs) \<Rightarrow> (w2, (sc_key c, v) # vs))"

lemma storeOrQueue_lastVersions: "lastVersions (fst (storeOrQueue E hi ex key item ot w)) = lastVersions w"
  by (auto simp: storeOrQueue_def Let_def triggerBatch_frame split: prod.splits sum.splits)

lemma writer_Set_lastVersions:
  "lastVersions (fst (writer_Set E hi now order ex key item w))
     = trim_versions order (AList.update key (snd (next_version now key w)) (lastVersions w))"
proof -
  obtain h v where nv: "next_version now key w = (h, v)" by fastforce
  let ?it = "\<lparr>Version = v, ExpireAt = ExpireAt item, Value = Value item, Key = key\<rparr>"
  let ?w1 = "w\<lparr>w_hlc := h, lastVersions := trim_versions order (AList.update key v (lastVersions w))\<rparr>"
  obtain w2 es r where s: "storeOrQueue E hi (ex 0) key ?it OpSet ?w1 = (w2, es, r)" by (metis prod_cases3)
  have "lastVersions w2 = lastVersions ?w1"
    using storeOrQueue_lastVersions [of E hi "ex 0" key ?it OpSet ?w1] by (simp add: s)
  then show ?thesis
    by (auto simp: writer_Set_def nv Let_def s triggerBatch_frame split: sum.splits prod.splits)
qed

lemma set_run_increasing:
  assumes "set_run E hi order cs w = (w', vs)"
    and "card (set (map fst (lastVersions w)) \<union> sc_key ` set cs) \<le> maxVersions" "distinct (map fst (lastVersions w))"
    and "\<forall>(k, v) \<in> set vs. sint v < 2 ^ 63 - 1" "\<forall>(k, v) \<in> set (lastVersions w). sint v < 2 ^ 63 - 1"
  shows "sorted_wrt (\<lambda>(k, v) (k', v'). k = k' \<longrightarrow> sint v < sint v') vs
    \<and> (\<forall>(k, v) \<in> set vs. \<forall>u. map_of (lastVersions w) k = Some u \<longrightarrow> sint u < sint v)"
  using assms
proof (induction cs arbitrary: w vs)
  case (Cons c cs)
  let ?k = "sc_key c" and ?v = "snd (next_version (sc_now c) (sc_key c) w)"
  let ?w1 = "fst (writer_Set E hi (sc_now c) order (sc_ex c) ?k (sc_item c) w)"
  obtain vs1 where r: "set_run E hi order cs ?w1 = (w', vs1)" "vs = (?k, ?v) # vs1"
    using Cons.prems(1) by (auto simp: Let_def split: prod.splits)
  let ?lv = "AList.update ?k ?v (lastVersions w)"
  have dl: "distinct (map fst ?lv)" using Cons.prems(3) by (rule distinct_update)
  have dom: "set (map fst ?lv) = insert ?k (set (map fst (lastVersions w)))" by (simp add: dom_update)
  have "length ?lv \<le> maxVersions"
  proof -
    have "length ?lv = card (set (map fst ?lv))" using distinct_card [OF dl] by simp
    also have "\<dots> \<le> card (set (map fst (lastVersions w)) \<union> sc_key ` set (c # cs))"
      unfolding dom by (intro card_mono) auto
    finally show ?thesis using Cons.prems(2) by simp
  qed
  then have lv: "lastVersions ?w1 = ?lv" by (simp add: writer_Set_lastVersions trim_versions_small)
  have eq: "set (map fst ?lv) \<union> sc_key ` set cs = set (map fst (lastVersions w)) \<union> sc_key ` set (c # cs)"
    unfolding dom by auto
  have sub: "set ?lv \<subseteq> insert (?k, ?v) (set (lastVersions w))" by (rule set_update_subset)
  have vmax: "sint ?v < 2 ^ 63 - 1" using Cons.prems(4) r(2) by simp
  have lmax: "sint v < 2 ^ 63 - 1" if "(k, v) \<in> set (lastVersions w)" for k v
    using bspec [OF Cons.prems(5) that] by simp
  have "\<forall>p \<in> set ?lv. sint (snd p) < 2 ^ 63 - 1"
  proof
    fix p assume "p \<in> set ?lv"
    then have "p \<in> insert (?k, ?v) (set (lastVersions w))" by (rule subsetD [OF sub])
    then show "sint (snd p) < 2 ^ 63 - 1" using vmax lmax [of "fst p" "snd p"] by auto
  qed
  then have m: "\<forall>(k, v) \<in> set (lastVersions ?w1). sint v < 2 ^ 63 - 1" unfolding lv by (simp add: case_prod_beta)
  have c: "card (set (map fst (lastVersions ?w1)) \<union> sc_key ` set cs) \<le> maxVersions"
    unfolding lv eq by (rule Cons.prems(2))
  have d: "distinct (map fst (lastVersions ?w1))" unfolding lv by (rule dl)
  have n: "\<forall>(k, v) \<in> set vs1. sint v < 2 ^ 63 - 1" using Cons.prems(4) r(2) by simp
  note ih0 = Cons.IH [OF r(1) c d n m]
  have ih: "sorted_wrt (\<lambda>(k, v) (k', v'). k = k' \<longrightarrow> sint v < sint v') vs1" by (rule ih0 [THEN conjunct1])
  have ih2: "sint u < sint v" if "(k, v) \<in> set vs1" "map_of ?lv k = Some u" for k v u
    using bspec [OF ih0 [THEN conjunct2] that(1)] that(2) unfolding lv by simp
  have above: "sint u < sint ?v" if "map_of (lastVersions w) ?k = Some u" for u
    using next_version_above [OF that lmax [OF map_of_SomeD [OF that]]] .
  have new: "sint ?v < sint v" if "(?k, v) \<in> set vs1" for v
    using ih2 [OF that, of ?v] by (simp add: update_conv')
  have old: "sint u < sint v" if "(k, v) \<in> set vs1" "map_of (lastVersions w) k = Some u" for k v u
  proof (cases "k = ?k")
    case True
    then show ?thesis using new [of v] above [of u] that by simp
  next
    case False
    then show ?thesis using ih2 [OF that(1), of u] that(2) by (simp add: update_conv')
  qed
  show ?case
    unfolding r(2) using ih new above old by auto
qed simp

text \<open>
  C11: the versions one writer gives to the writes of a key increase strictly, also when the clock's 64-bit
  version wraps or the wall clock goes back: along any sequence of \<open>Set\<close> calls on a fresh writer, over at
  most 10000 keys, whatever the store and the executor do, as long as no version reaches the largest
  integer.
\<close>

theorem writer_versions_increase:
  assumes "set_run E hi order cs (newWriter g h c threshold window) = (w', vs)"
    and "card (sc_key ` set cs) \<le> maxVersions" "\<forall>(k, v) \<in> set vs. sint v < 2 ^ 63 - 1"
  shows "sorted_wrt (\<lambda>(k, v) (k', v'). k = k' \<longrightarrow> sint v < sint v') vs \<and> map fst vs = map sc_key cs"
proof -
  have lv: "lastVersions (newWriter g h c threshold window) = []" by (simp add: newWriter_def gossip.extend_def)
  have "map fst vs = map sc_key cs" if "set_run E hi order cs w = (w', vs)" for w
    using that by (induction cs arbitrary: w vs) (auto simp: Let_def split: prod.splits)
  with set_run_increasing [OF assms(1)] assms show ?thesis by (simp add: lv)
qed

theorem writer_versions_increase_witness:
  "sorted_wrt (\<lambda>(k, v) (k', v'). k = k' \<longrightarrow> sint v < sint v')
     (snd (set_run example_env (\<lambda>_. 0) id
        [\<lparr>sc_now = 1700, sc_key = ''k'', sc_item = example_item 0, sc_ex = \<lambda>_. (True, True)\<rparr>]
        (newWriter (newGossip ''a'' solo_store duo_ring 3 0 duo_mgr) (NewHLC ''a'') (w_cache example_writer) 200 0)))"
proof -
  let ?c = "\<lparr>sc_now = 1700, sc_key = ''k'', sc_item = example_item 0, sc_ex = \<lambda>_. (True, True)\<rparr>"
  let ?w = "newWriter (newGossip ''a'' solo_store duo_ring 3 0 duo_mgr) (NewHLC ''a'') (w_cache example_writer) 200 0"
  obtain w' vs where r: "set_run example_env (\<lambda>_. 0) id [?c] ?w = (w', vs)" by fastforce
  have "snd (next_version 1700 ''k'' ?w) = hlcToInt64 1700 ''a:1700:0''"
    by (simp add: next_version_def newWriter_def gossip.extend_def UnixNano_def hlc_eval Let_def)
  then have "vs = [(''k'', hlcToInt64 1700 ''a:1700:0'')]"
    using r by (auto simp: Let_def split: prod.splits)
  moreover have "sint (hlcToInt64 1700 ''a:1700:0'') < 2 ^ 63 - 1"
    unfolding hlcToInt64_def by code_simp
  ultimately show ?thesis using writer_versions_increase [OF r] r by (simp add: maxVersions_def)
qed

lemma writer_Delete_targets:
  "writer_Delete E hi now ex key ver w = (w1, es, Inr ()) \<Longrightarrow> ring_GetN hi (g_ring w) key (g_replicaCount w) \<noteq> []"
  by (auto simp: writer_Delete_def storeOrQueue_def Let_def split: prod.splits)

text \<open>
  C13: a write after a delete can be lost without an error. A tombstone always gets a positive version, but
  the clock's version is negative for half of every \<open>2^48\<close> ns. When the stored version of a key was not positive and
  the key is deleted, a \<open>Set\<close> that follows and gets a version that is not positive returns without an error and leaves
  the tombstone in place, if the store has room for both (nothing is evicted).
\<close>

theorem set_after_delete_lost:
  assumes inv: "storage_inv E (g_store w)" "lz4_decodes (lz E)"
    and del: "writer_Delete E hi now ex key ver w = (w1, es1, Inr ())"
    and set: "writer_Set E hi now' order ex' key item w1 = (w2, es2, res)"
    and old: "\<forall>v. view E (g_store w) key = Some v \<longrightarrow> view_version v \<le> 0"
    and neg: "sint (snd (next_version now' key w1)) \<le> 0"
    and room: "asyncEviction (g_store w)" "go_len (Value item) \<le> maxAlloc"
      "totalBytes (g_store w) + 2 * calculateItemSize key (Value item) \<le> maxMemoryMB (g_store w) * 1024 * 1024"
  shows "res = Inr () \<and> (\<exists>v. view E (g_store w2) key = Some v \<and> 0 < view_version v \<and> snd (snd v) = go_nil)"
proof -
  let ?tomb = "tombstone now key ver w"
  have st1: "Set E key (Some ?tomb) (g_store w) = (g_store w1, Inr ())" by (rule writer_Delete_ok(1) [OF del])
  have key: "key \<noteq> ''''" using st1 by (auto simp: Set_def)
  have sz: "calculateItemSize key (Value ?tomb) \<le> calculateItemSize key (Value item)"
    by (simp add: calculateItemSize_def)
  have room1: "totalBytes (g_store w) + calculateItemSize key (Value ?tomb) \<le> maxMemoryMB (g_store w) * 1024 * 1024"
    using room(3) sz calculateItemSize_def [of key "Value item"] by simp
  obtain u where u: "storage_put E (key, ?tomb) (g_store w) = Some u" "storage_inv E u" "same_config (g_store w) u"
    "totalBytes u \<le> totalBytes (g_store w) + calculateItemSize key (Value ?tomb)"
    by (rule storage_put_fits [OF inv(1) key room(1) _ room1]) simp
  have u1: "u = g_store w1" using storage_put_Set [OF inv(1) u(1)] st1 by (metis Pair_inject)
  have pos: "0 < sint (Version ?tomb)" by simp
  have v1: "view E u key = Some (item_view ?tomb)"
  proof (cases "view E (g_store w) key")
    case None
    then show ?thesis using storage_put_view [OF conjI [OF inv] u(1), of key] by simp
  next
    case (Some v)
    then have "view_version v \<le> 0" using old by blast
    then have "view_version v < view_version (item_view ?tomb)"
      by (rule le_less_trans) (simp add: view_version_def item_view_def)
    with Some show ?thesis using storage_put_view [OF conjI [OF inv] u(1), of key] by (simp add: lww_merge_def)
  qed
  let ?it = "set_item now' key item w1"
  have it: "Value ?it = Value item" "sint (Version ?it) \<le> 0" using neg by (simp_all add: set_item_def)
  have c: "asyncEviction u" "maxMemoryMB u = maxMemoryMB (g_store w)" using u(3) room(1) by (simp_all add: same_config_def)
  obtain u2 where u2: "storage_put E (key, ?it) u = Some u2"
    by (rule storage_put_fits [OF u(2) key c(1), of ?it]) (use room(2,3) sz u(4) c(2) it in simp_all)
  have st2: "Set E key (Some ?it) (g_store w1) = (u2, Inr ())" using storage_put_Set [OF u(2) u2] by (simp add: u1)
  have "ring_GetN hi (g_ring w) key (g_replicaCount w) \<noteq> []" by (rule writer_Delete_targets [OF del])
  then have ok: "res = Inr ()"
    using writer_Set_succeeds [of hi w1 key E now' item order ex'] st2 set writer_Delete_ok(6,7) [OF del] by auto
  have "u2 = g_store w2" using writer_Set_ok(1) [OF set [unfolded ok]] st2 by simp
  moreover have "view E u2 key = Some (item_view ?tomb)"
    using storage_put_view [OF conjI [OF u(2) inv(2)] u2, of key] v1 it(2) pos
    by (simp add: lww_merge_def view_version_def item_view_def)
  ultimately show ?thesis using pos ok by (auto simp: view_version_def item_view_def)
qed

theorem set_after_delete_lost_witness:
  "\<exists>w1 es1 w2 es2 v.
     writer_Delete example_env (\<lambda>_. 0) 244000000000000 (\<lambda>_. (True, True)) ''k'' 0 example_writer = (w1, es1, Inr ())
     \<and> writer_Set example_env (\<lambda>_. 0) 244000000000001 id (\<lambda>_. (True, True)) ''k'' (example_item 0) w1 = (w2, es2, Inr ())
     \<and> view example_env (g_store w2) ''k'' = Some v \<and> snd (snd v) = go_nil"
proof -
  let ?ex = "\<lambda>_ :: nat. (True, True)" and ?tomb = "tombstone 244000000000000 ''k'' 0 example_writer"
  have inv: "storage_inv example_env solo_store"
    unfolding solo_store_def by (rule New_inv) (rule New_shardCount_pos, simp_all add: DefaultConfig_def)
  obtain u where u: "storage_put example_env (''k'', ?tomb) solo_store = Some u" "storage_inv example_env u"
    "same_config solo_store u" "totalBytes u \<le> 177"
    by (rule storage_put_fits [OF inv, of "''k''" ?tomb]) (simp_all add: solo_shard calculateItemSize_def)
  have du: "Set example_env ''k'' (Some ?tomb) solo_store = (u, Inr ())" by (rule storage_put_Set [OF inv u(1)])
  obtain w1 es1 where d: "writer_Delete example_env (\<lambda>_. 0) 244000000000000 ?ex ''k'' 0 example_writer = (w1, es1, Inr ())"
    using writer_Delete_succeeds [of "\<lambda>_. 0" example_writer "''k''" example_env 244000000000000 0 ?ex] du
    by (auto simp: duo_ring_GetN)
  note f = writer_Delete_ok [OF d]
  have u1: "g_store w1 = u" using f(1) du by simp
  let ?it = "set_item 244000000000001 ''k'' (example_item 0) w1"
  have c: "asyncEviction u" "maxMemoryMB u = 512" using u(3) by (simp_all add: same_config_def solo_shard)
  have it: "Value ?it = Value (example_item 0)" by (simp add: set_item_def)
  obtain u2 where u2: "storage_put example_env (''k'', ?it) u = Some u2"
    by (rule storage_put_fits [OF u(2), of "''k''" ?it]) (use c u(4) in \<open>simp_all add: it maxAlloc_def\<close>)
  have "Set example_env ''k'' (Some ?it) u = (u2, Inr ())" by (rule storage_put_Set [OF u(2) u2])
  then obtain w2 es2 where s: "writer_Set example_env (\<lambda>_. 0) 244000000000001 id ?ex ''k'' (example_item 0) w1 = (w2, es2, Inr ())"
    using writer_Set_succeeds [of "\<lambda>_. 0" w1 "''k''" example_env 244000000000001 "example_item 0" id ?ex] u1 f(6,7)
    by (auto simp: duo_ring_GetN)
  have "snd (next_version 244000000000001 ''k'' w1) = hlcToInt64 244000000000001 ''a:244000000000001:0''"
    using f(4,5) by (simp add: next_version_def UnixNano_def hlc_eval Let_def)
  moreover have "sint (hlcToInt64 244000000000001 ''a:244000000000001:0'') \<le> 0" unfolding hlcToInt64_def by code_simp
  ultimately have "sint (snd (next_version 244000000000001 ''k'' w1)) \<le> 0" by simp
  from set_after_delete_lost [OF _ _ d s _ this] inv d s show ?thesis
    by (auto simp: solo_shard maxAlloc_def solo_store_empty)
qed

text \<open>The calls that can trigger a flush, and a sequence of them with all its effects.\<close>

datatype writer_call =
  WSet gotime "string list \<Rightarrow> string list" "nat \<Rightarrow> bool \<times> bool" string StoredItem
| WBatchSet gotime "bool \<times> bool" "(string \<times> StoredItem) list"
| WDelete gotime "nat \<Rightarrow> bool \<times> bool" string int64
| WTick "bool \<times> bool"

fun writer_exec ::
  "env \<Rightarrow> (string \<Rightarrow> uint64) \<Rightarrow> writer_call \<Rightarrow> 'a writer_scheme \<Rightarrow> 'a writer_scheme \<times> writer_effect list" where
  "writer_exec E hi (WSet now order ex key item) w = (case writer_Set E hi now order ex key item w of (w', es, _) \<Rightarrow> (w', es))"
| "writer_exec E hi (WBatchSet now ex kvs) w = writer_BatchSet E hi now ex kvs w"
| "writer_exec E hi (WDelete now ex key ver) w = (case writer_Delete E hi now ex key ver w of (w', es, _) \<Rightarrow> (w', es))"
| "writer_exec E hi (WTick ex) w = timer_tick ex w"

fun writer_run ::
  "env \<Rightarrow> (string \<Rightarrow> uint64) \<Rightarrow> writer_call list \<Rightarrow> 'a writer_scheme \<Rightarrow> 'a writer_scheme \<times> writer_effect list" where
  "writer_run E hi [] w = (w, [])"
| "writer_run E hi (c # cs) w =
     (case writer_exec E hi c w of (w1, es) \<Rightarrow> (case writer_run E hi cs w1 of (w2, es') \<Rightarrow> (w2, es @ es')))"

lemma triggerBatch_pending:
  assumes "flushPending w" "triggerBatch ex w = (w', es)"
  shows "flushPending w' \<and> set es \<subseteq> {ResetTimer}"
  using assms by (auto simp: triggerBatch_def Let_def split: if_splits)

lemma storeOrQueue_pending:
  assumes "flushPending w" "storeOrQueue E hi ex key item ot w = (w', es, r)"
  shows "flushPending w' \<and> set es \<subseteq> {ResetTimer}"
proof -
  have t: "flushPending w2 \<and> set es2 \<subseteq> {ResetTimer}"
    if "triggerBatch ex (w\<lparr>g_store := s, pendingOps := ops\<rparr>) = (w2, es2)" for s ops w2 es2
    using triggerBatch_pending [OF _ that] assms(1) by simp
  show ?thesis
    using assms by (auto simp: storeOrQueue_def Let_def dest: t split: if_splits prod.splits sum.splits)
qed

lemma writer_exec_pending:
  assumes "flushPending w" "writer_exec E hi c w = (w', es)"
  shows "flushPending w' \<and> set es \<subseteq> {ResetTimer}"
proof -
  have two: "flushPending w2 \<and> set es2 \<subseteq> {ResetTimer}"
    if "flushPending w0" "(case storeOrQueue E hi (ex 0) key item ot w0 of
           (w2, es, Inl e) \<Rightarrow> (w2, es, Inl e)
         | (w2, es, Inr _) \<Rightarrow> (case triggerBatch (ex 1) w2 of (w3, es') \<Rightarrow> (w3, es @ es', Inr ()))) = (w2, es2, r)"
    for w0 w2 :: "'a writer_scheme" and es2 r ex key item ot
  proof -
    obtain w1 es1 r1 where s: "storeOrQueue E hi (ex 0) key item ot w0 = (w1, es1, r1)" by (metis prod_cases3)
    obtain w3 es3 where t: "triggerBatch (ex 1) w1 = (w3, es3)" by fastforce
    show ?thesis
      using storeOrQueue_pending [OF that(1) s] triggerBatch_pending [OF _ t] that(2) s t by (auto split: sum.splits)
  qed
  have b: "flushPending (fold (batch_item E hi v) kvs w0) = flushPending w0" for v kvs and w0 :: "'a writer_scheme"
    by (induction kvs arbitrary: w0) (auto simp: batch_item_def Let_def split: prod.splits)
  show ?thesis
  proof (cases c)
    case (WSet now order ex key item)
    then obtain r where r: "writer_Set E hi now order ex key item w = (w', es, r)"
      using assms(2) by (auto split: prod.splits)
    obtain h v where nv: "next_version now key w = (h, v)" by fastforce
    show ?thesis by (rule two [OF _ r [unfolded writer_Set_def nv Let_def prod.case]]) (simp add: assms(1))
  next
    case (WBatchSet now ex kvs)
    obtain h str where h: "HLC_Now (UnixNano now) (w_hlc w) = (h, str)" by fastforce
    let ?w0 = "fold (batch_item E hi (hlcToInt64 now str)) kvs (w\<lparr>w_hlc := h\<rparr>)"
    have p: "flushPending ?w0" using assms(1) by (simp add: b)
    show ?thesis
      using assms WBatchSet triggerBatch_pending [OF p, of ex w' es]
      by (simp add: writer_BatchSet_def Let_def h split: if_splits)
  next
    case (WDelete now ex key ver)
    then obtain r where r: "writer_Delete E hi now ex key ver w = (w', es, r)"
      using assms(2) by (auto split: prod.splits)
    obtain h str where h: "HLC_Now (UnixNano now) (w_hlc w) = (h, str)" by fastforce
    show ?thesis by (rule two [OF _ r [unfolded writer_Delete_def h Let_def prod.case]]) (simp add: assms(1))
  next
    case (WTick ex)
    then show ?thesis using assms by (auto simp: timer_tick_def)
  qed
qed



end
