(* ===== verification/Reader.thy ===== *)
theory Reader
  imports Writer
begin

text \<open>
  \<open>internal/cluster/reader.go\<close>: reads through cache, store and replicas, read repair and its rate limiter.

  \<^item> The record \<open>reader\<close> extends \<open>writer\<close>: cache, store, ring and members are those of the node, and the
    read repair's writer is the base record.
  \<^item> \<open>remote t\<close> is what \<open>getFunc\<close> gives for the key on node \<open>t\<close>; \<open>RTimeout\<close> stands for a context that ends
    first.
  \<^item> Where replicas are read in parallel, the targets whose functions the executor takes are an argument and
    the answers arrive in the order of the argument \<open>arrivals\<close>; \<open>None\<close> is a call that waits forever.
  \<^item> The pooled slices of alive targets are empty when taken. In \<open>GetWithConsistency\<close> the slice
    \<open>aliveTargets\<close> is cut from the pooled one before the targets are appended to the latter, and stays
    empty: \<open>aliveTargets\<close> below is that slice, \<open>alive\<close> the pooled one.
\<close>

section \<open>Rate limiter\<close>

record rateLimiter =
  rate :: int64
  tokens :: int64
  last_ts :: int64

definition newRateLimiter :: "gotime \<Rightarrow> int64 \<Rightarrow> rateLimiter" where
  "newRateLimiter now ratePerSec = \<lparr>rate = ratePerSec, tokens = ratePerSec, last_ts = UnixNano now\<rparr>"

definition limiter_Allow :: "gotime \<Rightarrow> rateLimiter \<Rightarrow> rateLimiter \<times> bool" where
  "limiter_Allow now rl =
     (let elapsed = UnixNano now - last_ts rl;
          refill = word_of_int (sint (elapsed * rate rl) sdiv 1000000000);
          t1 = tokens rl + refill;
          t2 = (if sint t1 > sint (rate rl) then rate rl else t1);
          rl1 = rl\<lparr>last_ts := UnixNano now\<rparr>
      in if sint t2 \<ge> 1 then (rl1\<lparr>tokens := t2 - 1\<rparr>, True) else (rl1\<lparr>tokens := t2\<rparr>, False))"

section \<open>State\<close>

record reader = writer +
  r_cacheTTL :: duration
  r_replicaCount :: int
  r_limiter :: rateLimiter

datatype ConsistencyLevel = ConsistencyLevelOne | ConsistencyLevelQuorum | ConsistencyLevelAll | ConsistencyLevelOther int

definition newReader :: "writer \<Rightarrow> duration \<Rightarrow> int \<Rightarrow> rateLimiter \<Rightarrow> reader" where
  "newReader w ttl rc rl =
     writer.extend w
       \<lparr>r_cacheTTL = (if ttl \<le> 0 then 15000000 else ttl), r_replicaCount = (if rc \<le> 0 then 3 else rc),
        r_limiter = rl\<rparr>"

definition newReadRepair :: "gotime \<Rightarrow> int64 \<Rightarrow> rateLimiter" where
  "newReadRepair now rateLimitPerSec = newRateLimiter now (if sint rateLimitPerSec \<le> 0 then 100 else rateLimitPerSec)"

datatype remote_result = RItem "StoredItem option" | RNotFound | RError | RTimeout

definition has_value :: "StoredItem \<Rightarrow> bool" where
  "has_value item \<longleftrightarrow> \<not> IsTombstone item \<and> go_len (Value item) > 0"

section \<open>Get\<close>

text \<open>The loop over the remote replicas: the first item with a value.\<close>

fun first_remote :: "(string \<Rightarrow> remote_result) \<Rightarrow> string list \<Rightarrow> StoredItem option" where
  "first_remote remote [] = None"
| "first_remote remote (t # ts) =
     (case remote t of
        RItem (Some item) \<Rightarrow> if has_value item then Some item else first_remote remote ts
      | _ \<Rightarrow> first_remote remote ts)"

definition reader_Get ::
  "env \<Rightarrow> (string \<Rightarrow> uint64) \<Rightarrow> gotime \<Rightarrow> (string \<Rightarrow> remote_result) \<Rightarrow> string \<Rightarrow> 'a reader_scheme
   \<Rightarrow> 'a reader_scheme \<times> (storage_err + StoredItem option)" where
  "reader_Get E hi now remote key r =
     (case cache_Get (hash128 E hi) now key (w_cache r) of
        (c, Some item) \<Rightarrow> (r\<lparr>w_cache := c\<rparr>, Inr (DeepCopy (Some item)))
      | (c, None) \<Rightarrow>
          (case Get E now key (g_store r) of
             (s, Inr item) \<Rightarrow> (r\<lparr>w_cache := c, g_store := s\<rparr>, Inr (Some item))
           | (s, Inl e) \<Rightarrow>
               (let r1 = r\<lparr>w_cache := c, g_store := s\<rparr> in
                if e \<noteq> ErrNotFound \<and> e \<noteq> ErrExpired then (r1, Inl e)
                else
                  (let targets = ring_GetN hi (g_ring r) key (r_replicaCount r);
                       alive = filter (\<lambda>t. t \<noteq> g_nodeID r \<and> State_of t (g_member r) = NodeStateAlive) targets
                   in case first_remote remote alive of
                        None \<Rightarrow> (r1, Inr None)
                      | Some item \<Rightarrow>
                          (case cache_Set (hash128 E hi) now key item (r_cacheTTL r) c of
                             None \<Rightarrow> (r1, Inl ErrPanic)
                           | Some c' \<Rightarrow> (r1\<lparr>w_cache := c'\<rparr>, Inr (DeepCopy (Some item))))))))"

text \<open>\<open>BatchGet\<close>: the executor takes keys until it refuses one; the reads run one after the other.\<close>

fun batch_get ::
  "env \<Rightarrow> (string \<Rightarrow> uint64) \<Rightarrow> gotime \<Rightarrow> (string \<Rightarrow> string \<Rightarrow> remote_result) \<Rightarrow> string list
   \<Rightarrow> (string \<times> StoredItem) list \<Rightarrow> 'a reader_scheme \<Rightarrow> 'a reader_scheme \<times> (string \<times> StoredItem) list" where
  "batch_get E hi now remote [] result r = (r, result)"
| "batch_get E hi now remote (key # ks) result r =
     (case reader_Get E hi now (\<lambda>t. remote t key) key r of
        (r1, Inr (Some item)) \<Rightarrow> batch_get E hi now remote ks (AList.update key item result) r1
      | (r1, _) \<Rightarrow> batch_get E hi now remote ks result r1)"

definition reader_BatchGet ::
  "env \<Rightarrow> (string \<Rightarrow> uint64) \<Rightarrow> gotime \<Rightarrow> (string \<Rightarrow> string \<Rightarrow> remote_result) \<Rightarrow> (string \<Rightarrow> bool) \<Rightarrow> string list
   \<Rightarrow> 'a reader_scheme \<Rightarrow> 'a reader_scheme \<times> (string \<times> StoredItem) list" where
  "reader_BatchGet E hi now remote accept ks r =
     (if length ks = 0 then (r, []) else batch_get E hi now remote (submit accept ks) [] r)"

section \<open>Read repair\<close>

fun max_item :: "StoredItem \<Rightarrow> StoredItem list \<Rightarrow> StoredItem" where
  "max_item m [] = m"
| "max_item m (it # its) = max_item (if CompareVersion it (Some m) > 0 then it else m) its"

text \<open>\<open>Repair\<close>: the limiter afterwards and the write handed to the executor, if any.\<close>

definition Repair :: "gotime \<Rightarrow> bool \<Rightarrow> string \<Rightarrow> StoredItem list \<Rightarrow> rateLimiter \<Rightarrow> rateLimiter \<times> (string \<times> StoredItem) option" where
  "Repair now accept key versions rl =
     (case versions of
        [] \<Rightarrow> (rl, None)
      | v0 # vs \<Rightarrow>
          (let maxVersion = max_item v0 vs;
               (rl1, ok) = limiter_Allow now rl
           in (rl1, if ok \<and> accept then Some (key, maxVersion) else None)))"

definition run_repair ::
  "env \<Rightarrow> (string \<Rightarrow> uint64) \<Rightarrow> gotime \<Rightarrow> (string list \<Rightarrow> string list) \<Rightarrow> (nat \<Rightarrow> bool \<times> bool) \<Rightarrow> string \<times> StoredItem
   \<Rightarrow> 'a writer_scheme \<Rightarrow> 'a writer_scheme \<times> writer_effect list \<times> (writer_err + unit)" where
  "run_repair E hi now order ex task w = writer_Set E hi now order ex (fst task) (snd task) w"

section \<open>Speculative reads\<close>

text \<open>One replica read: the local store or \<open>getFunc\<close>.\<close>

definition read_one ::
  "env \<Rightarrow> gotime \<Rightarrow> (string \<Rightarrow> remote_result) \<Rightarrow> string \<Rightarrow> string \<Rightarrow> 'a reader_scheme
   \<Rightarrow> 'a reader_scheme \<times> StoredItem option" where
  "read_one E now remote key t r =
     (if t = g_nodeID r
      then (case Get E now key (g_store r) of
              (s, Inr item) \<Rightarrow> (r\<lparr>g_store := s\<rparr>, if has_value item then Some item else None)
            | (s, Inl _) \<Rightarrow> (r\<lparr>g_store := s\<rparr>, None))
      else (r, case remote t of
                 RItem (Some item) \<Rightarrow> if has_value item then Some item else None
               | _ \<Rightarrow> None))"

text \<open>The functions the executor took, in the order in which their answers arrive.\<close>

fun read_all ::
  "env \<Rightarrow> gotime \<Rightarrow> (string \<Rightarrow> remote_result) \<Rightarrow> string \<Rightarrow> string list \<Rightarrow> 'a reader_scheme
   \<Rightarrow> 'a reader_scheme \<times> StoredItem option list" where
  "read_all E now remote key [] r = (r, [])"
| "read_all E now remote key (t # ts) r =
     (case read_one E now remote key t r of (r1, res) \<Rightarrow>
        (case read_all E now remote key ts r1 of (r2, rs) \<Rightarrow> (r2, res # rs)))"

fun best_item :: "StoredItem option \<Rightarrow> StoredItem list \<Rightarrow> StoredItem option" where
  "best_item best [] = best"
| "best_item best (it # its) =
     best_item (case best of None \<Rightarrow> Some it | Some b \<Rightarrow> if CompareVersion it (Some b) > 0 then Some it else best) its"

text \<open>The repair that a read of several replicas starts when their versions differ.\<close>

definition repair_items ::
  "gotime \<Rightarrow> bool \<Rightarrow> string \<Rightarrow> StoredItem list \<Rightarrow> 'a reader_scheme \<Rightarrow> 'a reader_scheme \<times> (string \<times> StoredItem) option" where
  "repair_items now accept key its r =
     (if length its > 1 \<and> length (remdups (map Version its)) > 1
      then (case Repair now accept key its (r_limiter r) of (rl, task) \<Rightarrow> (r\<lparr>r_limiter := rl\<rparr>, task))
      else (r, None))"

text \<open>
  \<open>GetSpeculative\<close>: \<open>arrivals\<close> lists the alive targets the executor took, in the order of their answers.
  The loop waits for as many answers as there are alive targets; if the executor refused one, only the
  caller's context (\<open>cancelled\<close>) ends the wait.
\<close>

definition reader_GetSpeculative ::
  "env \<Rightarrow> (string \<Rightarrow> uint64) \<Rightarrow> gotime \<Rightarrow> (string \<Rightarrow> remote_result) \<Rightarrow> (string list \<Rightarrow> string list) \<Rightarrow> bool \<Rightarrow> bool \<Rightarrow> string \<Rightarrow> int
   \<Rightarrow> 'a reader_scheme \<Rightarrow> ('a reader_scheme \<times> (storage_err + StoredItem option) \<times> (string \<times> StoredItem) option) option" where
  "reader_GetSpeculative E hi now remote arrivals cancelled accept key n r =
     (if key = '''' then Some (r, Inl ErrEmptyKey, None)
      else
        (let n1 = (if n \<le> 0 then 3 else n);
             targets = ring_GetN hi (g_ring r) key n1;
             alive = filter (\<lambda>t. State_of t (g_member r) = NodeStateAlive \<or> t = g_nodeID r) targets;
             answers = arrivals alive
         in if length alive = 0 then Some (r, Inr None, None)
            else if length answers < length alive \<and> \<not> cancelled then None
            else
              (case read_all E now remote key answers r of (r1, results) \<Rightarrow>
                 (let its = List.map_filter id results in
                  case repair_items now accept key its r1 of (r2, task) \<Rightarrow>
                    Some (r2, Inr (DeepCopy (best_item None its)), task)))))"

section \<open>Reads with a consistency level\<close>

text \<open>The collecting loop: at most \<open>n\<close> answers, until enough have a value.\<close>

fun collect :: "nat \<Rightarrow> nat \<Rightarrow> StoredItem option list \<Rightarrow> StoredItem list" where
  "collect 0 required rs = []"
| "collect (Suc n) required [] = []"
| "collect (Suc n) required (res # rs) =
     (if required = 0 then []
      else case res of
        None \<Rightarrow> collect n required rs
      | Some item \<Rightarrow> item # collect n (required - 1) rs)"

definition required_responses :: "ConsistencyLevel \<Rightarrow> string list \<Rightarrow> string list \<Rightarrow> nat" where
  "required_responses level alive aliveTargets =
     (let n = (case level of
                 ConsistencyLevelOne \<Rightarrow> 1
               | ConsistencyLevelQuorum \<Rightarrow> length alive div 2 + 1
               | ConsistencyLevelAll \<Rightarrow> length aliveTargets
               | ConsistencyLevelOther _ \<Rightarrow> 1)
      in if n > length alive then length alive else n)"

text \<open>
  The collected items go to a local slice; the pooled slice that decides about a repair stays empty, so no
  repair is started.
\<close>

definition reader_GetWithConsistency ::
  "env \<Rightarrow> (string \<Rightarrow> uint64) \<Rightarrow> gotime \<Rightarrow> (string \<Rightarrow> remote_result) \<Rightarrow> (string list \<Rightarrow> string list) \<Rightarrow> string \<Rightarrow> ConsistencyLevel
   \<Rightarrow> 'a reader_scheme \<Rightarrow> 'a reader_scheme \<times> (storage_err + StoredItem option)" where
  "reader_GetWithConsistency E hi now remote arrivals key level r =
     (if key = '''' then (r, Inl ErrEmptyKey)
      else case (if level = ConsistencyLevelOne then cache_Get (hash128 E hi) now key (w_cache r) else (w_cache r, None)) of
        (c, Some item) \<Rightarrow> (r\<lparr>w_cache := c\<rparr>, Inr (DeepCopy (Some item)))
      | (c, None) \<Rightarrow>
          (let r0 = r\<lparr>w_cache := c\<rparr>;
               targets = ring_GetN hi (g_ring r) key (r_replicaCount r);
               alive = filter (\<lambda>t. State_of t (g_member r) = NodeStateAlive \<or> t = g_nodeID r) targets;
               aliveTargets = [];
               required = required_responses level alive aliveTargets
           in if length alive = 0 then (r0, Inr None)
              else
                (case read_all E now remote key (arrivals alive) r0 of (r1, results) \<Rightarrow>
                   let its = collect (length aliveTargets) required results in
                   if length its < required then (r1, Inr None)
                   else (case best_item None its of
                           None \<Rightarrow> (r1, Inr None)
                         | Some best \<Rightarrow>
                             if level = ConsistencyLevelOne
                             then (case cache_Set (hash128 E hi) now key best (r_cacheTTL r) c of
                                     None \<Rightarrow> (r1, Inl ErrPanic)
                                   | Some c' \<Rightarrow> (r1\<lparr>w_cache := c'\<rparr>, Inr (DeepCopy (Some best))))
                             else (r1, Inr (DeepCopy (Some best)))))))"

section \<open>The best of several answers\<close>

lemma length_update_eq: "length (AList.update k v xs) = length (AList.update k u xs)"
  by (induction xs) auto

lemma best_item_max:
  "best_item best its = Some m \<Longrightarrow>
   m \<in> set its \<union> set_option best \<and> (\<forall>it \<in> set its \<union> set_option best. sint (Version it) \<le> sint (Version m))"
proof (induction its arbitrary: best)
  case (Cons it its)
  note ih = Cons.IH [OF Cons.prems [unfolded best_item.simps]]
  show ?case
  proof (cases best)
    case None
    then show ?thesis using ih by simp
  next
    case (Some b)
    then show ?thesis using ih by (auto simp: CompareVersion_pos_iff split: if_splits intro: order_trans)
  qed
qed auto

lemma max_item_max:
  "max_item m its \<in> insert m (set its) \<and> (\<forall>it \<in> insert m (set its). sint (Version it) \<le> sint (Version (max_item m its)))"
proof (induction its arbitrary: m)
  case (Cons it its)
  show ?case
    using Cons.IH [of it] Cons.IH [of m] by (auto simp: CompareVersion_pos_iff intro: order_trans)
qed simp

section \<open>Properties\<close>

text \<open>
  Read your writes. After a successful \<open>Set\<close> on a node, \<open>Get\<close> on that node returns the value that was
  set, with its new version, whatever the cache held and whatever the eviction removed, when the version is
  above the stored one, the value is at most 8 MB and not expired.
\<close>

theorem read_your_write:
  assumes "storage_inv E (g_store r)" "lz4_decodes (lz E)" "cache_inv (hash128 E hi) (w_cache r)"
    and "writer_Set E hi now order ex key item r = (r', es, Inr ())"
    and "\<forall>ci. lookup E (g_store r) key = Some ci \<longrightarrow> sint (cVersion ci) < sint (snd (next_version now key r))"
    and "go_len (Value item) \<le> maxAlloc"
    and "IsZero (ExpireAt item) \<or> sint (UnixNano now') \<le> sint (UnixNano (ExpireAt item))"
  shows "snd (reader_Get E hi now' remote key r')
    = Inr (Some \<lparr>Version = snd (next_version now key r), ExpireAt = ExpireAt item, Value = Value item, Key = ''''\<rparr>)"
proof -
  note f = writer_Set_ok [OF assms(4)]
  let ?it = "set_item now key item r"
  have it: "Version ?it = snd (next_version now key r)" "ExpireAt ?it = ExpireAt item" "Value ?it = Value item"
    by (simp_all add: set_item_def)
  obtain c b where d: "cache_Delete (hash128 E hi) key (w_cache r) = (c, b)" by fastforce
  have c: "cache_inv (hash128 E hi) c" "closed c \<or> key = '''' \<or> cview (hash128 E hi) c key = None"
    using cache_Delete_ok [OF assms(3) d] by (auto simp: fun_upd_def)
  obtain c2 res where g: "cache_Get (hash128 E hi) now' key c = (c2, res)" by fastforce
  have miss: "res = None" using cache_Get_ok [OF c(1) g] c(2) by (auto split: if_splits option.splits)
  have "snd (Get E now' key (g_store r')) = Inr \<lparr>Version = Version ?it, ExpireAt = ExpireAt ?it, Value = Value ?it, Key = ''''\<rparr>"
    by (rule Set_then_Get [OF assms(1) f(1)]) (use assms(2,5-7) it in simp_all)
  then obtain s where "Get E now' key (g_store r')
      = (s, Inr \<lparr>Version = Version ?it, ExpireAt = ExpireAt ?it, Value = Value ?it, Key = ''''\<rparr>)"
    by (metis prod.collapse)
  then show ?thesis using f(8) by (simp add: reader_Get_def d g miss it)
qed

definition example_reader :: reader where
  "example_reader = newReader example_writer 0 0 (newReadRepair 0 0)"

lemma example_reader_fields [simp]:
  "g_nodeID example_reader = ''a''" "g_store example_reader = solo_store" "g_ring example_reader = duo_ring"
  "g_replicaCount example_reader = 3" "g_member example_reader = duo_mgr" "lastVersions example_reader = []"
  "w_hlc example_reader = NewHLC ''a''" "w_cache example_reader = w_cache example_writer"
  by (simp_all add: example_reader_def newReader_def writer.extend_def example_writer_def newWriter_def newGossip_def
      gossip.extend_def)

lemma example_reader_cache: "cache_inv H (w_cache example_reader)"
  by (simp add: example_writer_def newWriter_def gossip.extend_def cache_New_ok)

lemma solo_inv: "storage_inv example_env solo_store"
  unfolding solo_store_def by (rule New_inv) (rule New_shardCount_pos, simp_all add: DefaultConfig_def)

lemma example_reader_Set:
  "\<exists>r' es. writer_Set example_env (\<lambda>_. 0) now order ex ''k'' (example_item 0) example_reader = (r', es, Inr ())"
proof (rule writer_Set_succeeds)
  let ?it = "set_item now ''k'' (example_item 0) example_reader"
  have it: "Value ?it = Value (example_item 0)" "ExpireAt ?it = zero_time" by (simp_all add: set_item_def)
  show "snd (Set example_env ''k'' (Some ?it) (g_store example_reader)) = Inr ()"
    using solo_Set(1) [of ?it "[7, 7, 7, 7, 7, 7, 7, 7, 7, 7]"] it by (simp add: example_item_def IsZero_def)
qed (simp add: duo_ring_GetN)

theorem read_your_write_witness:
  "\<exists>r' es. writer_Set example_env (\<lambda>_. 0) 1700 id (\<lambda>_. (True, True)) ''k'' (example_item 0) example_reader = (r', es, Inr ())
     \<and> snd (reader_Get example_env (\<lambda>_. 0) 1800 (\<lambda>_. RError) ''k'' r')
       = Inr (Some \<lparr>Version = snd (next_version 1700 ''k'' example_reader), ExpireAt = zero_time,
                   Value = Value (example_item 0), Key = ''''\<rparr>)"
proof -
  obtain r' es where s: "writer_Set example_env (\<lambda>_. 0) 1700 id (\<lambda>_. (True, True)) ''k'' (example_item 0) example_reader
      = (r', es, Inr ())"
    using example_reader_Set by blast
  have "lookup example_env (g_store example_reader) ''k'' = None"
    using solo_store_empty [of example_env "''k''"] by (simp add: view_def)
  then have "snd (reader_Get example_env (\<lambda>_. 0) 1800 (\<lambda>_. RError) ''k'' r')
       = Inr (Some \<lparr>Version = snd (next_version 1700 ''k'' example_reader), ExpireAt = ExpireAt (example_item 0),
                   Value = Value (example_item 0), Key = ''''\<rparr>)"
    by (intro read_your_write [OF _ _ example_reader_cache s]) (simp_all add: solo_inv maxAlloc_def IsZero_def)
  with s show ?thesis by auto
qed

text \<open>
  Reads at a consistency level never read. For every key, store, ring and answers of the replicas,
  \<open>GetWithConsistency\<close> at a level other than \<open>ConsistencyLevelOne\<close> returns no item, and at that level it
  returns nothing but what the cache holds.
\<close>

theorem GetWithConsistency_never_reads:
  assumes "key \<noteq> ''''"
  shows "snd (reader_GetWithConsistency E hi now remote arrivals key level r) =
    (if level = ConsistencyLevelOne then Inr (snd (cache_Get (hash128 E hi) now key (w_cache r))) else Inr None)"
proof -
  have "collect (length []) n rs = []" for n rs by simp
  then show ?thesis
    using assms by (auto simp: reader_GetWithConsistency_def Let_def split: prod.splits option.splits)
qed

theorem GetWithConsistency_never_reads_witness:
  "\<exists>r' es. writer_Set example_env (\<lambda>_. 0) 1700 id (\<lambda>_. (True, True)) ''k'' (example_item 0) example_reader = (r', es, Inr ())
     \<and> snd (reader_GetWithConsistency example_env (\<lambda>_. 0) 1800 (\<lambda>_. RItem (Some (example_item 9))) id ''k''
              ConsistencyLevelQuorum r') = Inr None"
  using example_reader_Set [of 1700 id "\<lambda>_. (True, True)"]
    GetWithConsistency_never_reads [of "''k''" example_env "\<lambda>_. 0" 1800 "\<lambda>_. RItem (Some (example_item 9))" id
      ConsistencyLevelQuorum]
  by fastforce

text \<open>
  Read repair can undo a newer write. A repair that was started with an older item of a key and runs after
  a successful \<open>Set\<close> of the key writes the older value under a version above the one of the \<open>Set\<close>, and the
  store holds the older value afterwards.
\<close>

theorem repair_reverts_write:
  assumes inv: "storage_inv E (g_store w)" "lz4_decodes (lz E)"
    and new: "writer_Set E hi now order ex key newer w = (w1, es1, Inr ())"
    and rep: "run_repair E hi now' order ex' (key, old) w1 = (w2, es2, Inr ())"
    and wins: "\<forall>v. view E (g_store w) key = Some v \<longrightarrow> view_version v < sint (snd (next_version now key w))"
    and vers: "length (AList.update key 0 (lastVersions w)) \<le> maxVersions" "sint (snd (next_version now key w)) < 2 ^ 63 - 1"
    and room: "asyncEviction (g_store w)" "go_len (Value newer) \<le> maxAlloc" "go_len (Value old) \<le> maxAlloc"
      "totalBytes (g_store w) + calculateItemSize key (Value newer) + calculateItemSize key (Value old)
        \<le> maxMemoryMB (g_store w) * 1024 * 1024"
  shows "\<exists>v. view E (g_store w2) key = Some v \<and> snd (snd v) = Value old
    \<and> sint (snd (next_version now key w)) < view_version v"
proof -
  let ?n = "set_item now key newer w" and ?o = "set_item now' key old w1"
  note f1 = writer_Set_ok [OF new] and f2 = writer_Set_ok [OF rep [unfolded run_repair_def fst_conv snd_conv]]
  have it: "Value ?n = Value newer" "Value ?o = Value old" "Version ?n = snd (next_version now key w)"
    by (simp_all add: set_item_def)
  have key: "key \<noteq> ''''" using f1(1) by (auto simp: Set_def)
  have "0 \<le> calculateItemSize key (Value old)" by (simp add: calculateItemSize_def)
  then have r1: "totalBytes (g_store w) + calculateItemSize key (Value newer) \<le> maxMemoryMB (g_store w) * 1024 * 1024"
    using room(4) by linarith
  obtain u where u: "storage_put E (key, ?n) (g_store w) = Some u" "storage_inv E u" "same_config (g_store w) u"
    "totalBytes u \<le> totalBytes (g_store w) + calculateItemSize key (Value ?n)"
    by (rule storage_put_fits [OF inv(1) key room(1), of ?n]) (use room(2) r1 in \<open>simp_all add: it\<close>)
  have u1: "u = g_store w1" using storage_put_Set [OF inv(1) u(1)] f1(1) by (metis Pair_inject)
  have v1: "view E u key = Some (item_view ?n)"
    using storage_put_view [OF conjI [OF inv] u(1), of key] wins
    by (cases "view E (g_store w) key") (auto simp: lww_merge_def view_version_def item_view_def it(3))
  have "length (AList.update key (snd (next_version now key w)) (lastVersions w)) \<le> maxVersions"
    using vers(1) length_update_eq [of key 0 "lastVersions w" "snd (next_version now key w)"] by simp
  then have "map_of (lastVersions w1) key = Some (snd (next_version now key w))"
    using f1(9) by (simp add: trim_versions_small update_conv')
  then have lt: "sint (Version ?n) < sint (Version ?o)"
    using next_version_above [OF _ vers(2), of w1 key now'] by (simp add: set_item_def)
  have c: "asyncEviction u" "maxMemoryMB u = maxMemoryMB (g_store w)" using u(3) room(1) by (simp_all add: same_config_def)
  obtain u2 where u2: "storage_put E (key, ?o) u = Some u2"
    by (rule storage_put_fits [OF u(2) key c(1), of ?o]) (use room(3,4) u(4) c(2) it in simp_all)
  have "u2 = g_store w2" using storage_put_Set [OF u(2) u2] f2(1) u1 by (metis Pair_inject)
  moreover have "view E u2 key = Some (item_view ?o)"
    using storage_put_view [OF conjI [OF u(2) inv(2)] u2, of key] v1 lt
    by (simp add: lww_merge_def view_version_def item_view_def)
  ultimately show ?thesis using lt by (auto simp: view_version_def item_view_def it)
qed

theorem repair_reverts_write_witness:
  "\<exists>w1 es1 w2 es2 v.
     writer_Set example_env (\<lambda>_. 0) 1700 id (\<lambda>_. (True, True)) ''k'' (example_item 0) example_reader = (w1, es1, Inr ())
     \<and> run_repair example_env (\<lambda>_. 0) 1800 id (\<lambda>_. (True, True)) (''k'', (example_item 0)\<lparr>Value := Some [1]\<rparr>) w1 = (w2, es2, Inr ())
     \<and> view example_env (g_store w2) ''k'' = Some v \<and> snd (snd v) = Some [1]"
proof -
  let ?ex = "\<lambda>_ :: nat. (True, True)" and ?old = "(example_item 0)\<lparr>Value := Some [1]\<rparr>"
  obtain w1 es1 where s: "writer_Set example_env (\<lambda>_. 0) 1700 id ?ex ''k'' (example_item 0) example_reader = (w1, es1, Inr ())"
    using example_reader_Set by blast
  note f = writer_Set_ok [OF s]
  let ?n = "set_item 1700 ''k'' (example_item 0) example_reader" and ?o = "set_item 1800 ''k'' ?old w1"
  have it: "Value ?n = Value (example_item 0)" "Value ?o = Some [1]" by (simp_all add: set_item_def)
  obtain u where u: "storage_put example_env (''k'', ?n) solo_store = Some u" "storage_inv example_env u"
    "same_config solo_store u" "totalBytes u \<le> 187"
    by (rule storage_put_fits [OF solo_inv, of "''k''" ?n]) (simp_all add: solo_shard it maxAlloc_def)
  have u1: "u = g_store w1" using storage_put_Set [OF solo_inv u(1)] f(1) by (metis Pair_inject example_reader_fields(2))
  have c: "asyncEviction u" "maxMemoryMB u = 512" using u(3) by (simp_all add: same_config_def solo_shard)
  obtain u2 where u2: "storage_put example_env (''k'', ?o) u = Some u2"
    by (rule storage_put_fits [OF u(2), of "''k''" ?o]) (use c u(4) in \<open>simp_all add: it maxAlloc_def calculateItemSize_def\<close>)
  have "Set example_env ''k'' (Some ?o) (g_store w1) = (u2, Inr ())" using storage_put_Set [OF u(2) u2] u1 by metis
  then obtain w2 es2 where "writer_Set example_env (\<lambda>_. 0) 1800 id ?ex ''k'' ?old w1 = (w2, es2, Inr ())"
    using writer_Set_succeeds [of "\<lambda>_. 0" w1 "''k''" example_env 1800 ?old id ?ex] f(3,6) by (auto simp: duo_ring_GetN)
  then have r: "run_repair example_env (\<lambda>_. 0) 1800 id ?ex (''k'', ?old) w1 = (w2, es2, Inr ())"
    by (simp add: run_repair_def)
  have "snd (next_version 1700 ''k'' example_reader) = hlcToInt64 1700 ''a:1700:0''"
    by (simp add: next_version_def UnixNano_def hlc_eval Let_def)
  moreover have "sint (hlcToInt64 1700 ''a:1700:0'') < 2 ^ 63 - 1" unfolding hlcToInt64_def by code_simp
  ultimately have v: "sint (snd (next_version 1700 ''k'' example_reader)) < 2 ^ 63 - 1" by simp
  from repair_reverts_write [OF _ _ s r _ _ v] s r show ?thesis
    by (auto simp: solo_inv solo_store_empty maxVersions_def solo_shard maxAlloc_def calculateItemSize_def)
qed

text \<open>A sequence of calls to the limiter, and calls at a fixed distance.\<close>

fun limiter_run :: "gotime list \<Rightarrow> rateLimiter \<Rightarrow> bool list" where
  "limiter_run [] rl = []"
| "limiter_run (now # ts) rl = (case limiter_Allow now rl of (rl1, ok) \<Rightarrow> ok # limiter_run ts rl1)"

definition calls_every :: "int \<Rightarrow> gotime \<Rightarrow> nat \<Rightarrow> gotime list" where
  "calls_every d t0 n = map (\<lambda>i. t0 + d * int (Suc i)) [0..<n]"

text \<open>
  The repair limiter starves under load. When it has no token left and is asked again before a full token
  has accrued since the previous call, it refuses and forgets the elapsed time; so calls at such a pace are
  refused forever, however many.
\<close>

theorem limiter_starves:
  assumes "tokens rl = 0" "last_ts rl = UnixNano t0" "0 < sint (rate rl)" "0 \<le> d" "d * sint (rate rl) < 1000000000"
  shows "limiter_run (calls_every d t0 n) rl = replicate n False"
  using assms
proof (induction n arbitrary: rl t0)
  case (Suc n)
  let ?t = "t0 + d"
  have e: "UnixNano ?t - last_ts rl = word_of_int d"
    using Suc.prems(2) by (simp add: UnixNano_def)
  have "word_of_int d * rate rl = word_of_int (d * sint (rate rl))" by simp
  moreover have "sint (word_of_int (d * sint (rate rl)) :: int64) = d * sint (rate rl)"
    using Suc.prems(3-5) by (intro sint64_of_int) (simp_all add: order_trans [of _ 0])
  ultimately have "sint (word_of_int d * rate rl) = d * sint (rate rl)" by (simp only:)
  then have "sint ((UnixNano ?t - last_ts rl) * rate rl) sdiv 1000000000 = 0"
    using e Suc.prems(3-5) by (simp add: signed_divide_int_def)
  then have a: "limiter_Allow ?t rl = (rl\<lparr>last_ts := UnixNano ?t, tokens := 0\<rparr>, False)"
    using Suc.prems(1,3) by (simp add: limiter_Allow_def Let_def)
  have c: "calls_every d t0 (Suc n) = ?t # calls_every d ?t n"
    by (simp add: calls_every_def map_upt_Suc algebra_simps del: upt_Suc)
  have "limiter_run (calls_every d ?t n) (rl\<lparr>last_ts := UnixNano ?t, tokens := 0\<rparr>) = replicate n False"
    by (rule Suc.IH) (use Suc.prems in simp_all)
  then show ?case by (simp add: c a)
qed (simp add: calls_every_def)

theorem limiter_starves_witness:
  "limiter_run (calls_every 9000000 0 1000) \<lparr>rate = 100, tokens = 0, last_ts = UnixNano 0\<rparr> = replicate 1000 False"
  by (rule limiter_starves) simp_all

end
