(* ===== verification/Cluster.thy ===== *)
theory Cluster
  imports Reader Lifecycle Net_Message
begin

text \<open>
  \<open>internal/cluster/cluster.go\<close>: the node. It wires the components together, keeps the hash ring in step with
  the membership, registers the network handlers and offers the client operations.

  \<^item> The record \<open>cluster\<close> extends \<open>reader\<close>, so one record holds the store, ring, members, clock, cache, writer
    queue and limiter of a node. What the components hand to the network and to the executor while a message is
    handled is collected in \<open>c_out\<close>.
  \<^item> The state of the message handlers is \<open>cluster option\<close>: \<open>None\<close> is a process that has ended by a panic
    (the server's goroutines do not recover).
  \<^item> \<open>DecodeMemberMsg\<close> returns an \<open>interface{}\<close>. A decoder that fails gives a nil pointer of its message type, and
    the interface that holds it is not nil: the datatype \<open>go_iface\<close>.
\<close>

section \<open>State\<close>

datatype node_effect = MemberOut member_effect | PullTask string

record cluster = reader +
  c_lifecycle :: LifecycleManager
  c_out :: "node_effect list"

record ClusterConfig =
  cc_NodeID :: string
  cc_Address :: string
  cc_PingInterval :: duration
  cc_FailureTimeout :: duration
  cc_SuspectTimeout :: duration
  cc_VirtualNodes :: int
  cc_ReplicaCount :: int
  cc_BatchThreshold :: int
  cc_BatchWindow :: duration
  cc_GossipInterval :: duration
  cc_CacheTTL :: duration
  cc_CacheSize :: int
  cc_HasNetwork :: bool
  cc_HasSendFunc :: bool
  cc_ReadRepairRateLimitPerSec :: int64

section \<open>Executor sizes\<close>

definition workerCount :: "int \<Rightarrow> int" where
  "workerCount numCPU =
     (let w = numCPU * 4; w1 = (if w < 16 then 16 else w) in if w1 > 256 then 256 else w1)"

definition queueSize :: "int \<Rightarrow> int" where
  "queueSize workers = (let q = workers * 3000 in if q > 300000 then 300000 else q)"

section \<open>The ring follows the members\<close>

definition alive_ids :: "NodeInfo list \<Rightarrow> string list" where
  "alive_ids ms = map NodeID (filter (\<lambda>m. State m = NodeStateAlive) ms)"

definition updateRing :: "(string \<Rightarrow> uint64) \<Rightarrow> gotime \<Rightarrow> NodeInfo list \<Rightarrow> hashRing \<Rightarrow> hashRing" where
  "updateRing hi now ms ring =
     (let nodeIDs = alive_ids ms
      in if length nodeIDs > 0 then fst (ring_Update hi (UnixNano now) nodeIDs ring) else ring)"

text \<open>The callbacks among the effects of a member operation, in order; \<open>clock i\<close> is the \<open>i\<close>-th clock reading.\<close>

fun ring_follow ::
  "(string \<Rightarrow> uint64) \<Rightarrow> (nat \<Rightarrow> gotime) \<Rightarrow> nat \<Rightarrow> member_effect list \<Rightarrow> hashRing \<Rightarrow> hashRing \<times> nat" where
  "ring_follow hi clock i [] ring = (ring, i)"
| "ring_follow hi clock i (e # es) ring =
     (case e of
        MembershipChange ms \<Rightarrow> ring_follow hi clock (Suc i) es (updateRing hi (clock i) ms ring)
      | _ \<Rightarrow> ring_follow hi clock i es ring)"

text \<open>A step of the member manager on the node.\<close>

definition cluster_member_step ::
  "(string \<Rightarrow> uint64) \<Rightarrow> (nat \<Rightarrow> gotime) \<Rightarrow> nat \<Rightarrow> member_event \<Rightarrow> 'a cluster_scheme \<Rightarrow> 'a cluster_scheme \<times> nat" where
  "cluster_member_step hi clock i e c =
     (case member_step e (g_member c) of (m, es) \<Rightarrow>
        (case ring_follow hi clock i es (g_ring c) of (ring, i') \<Rightarrow>
           (c\<lparr>g_member := m, g_ring := ring, c_out := c_out c @ map MemberOut es\<rparr>, i')))"

section \<open>Construction\<close>

definition registrations :: "bool \<Rightarrow> (string \<times> string list) list" where
  "registrations hasNet =
     (if hasNet then [(''network'', [])] else [])
     @ [(''storage'', []), (''executor'', [''storage'']), (''cache'', [''storage'']),
        (''member-mgr'', [''executor'']), (''hash-ring'', [''member-mgr'']), (''writer'', [''member-mgr'']),
        (''gossip'', [''member-mgr'']), (''reader'', [''gossip'', ''cache'']), (''read-repair'', [''gossip'']),
        (''anti-entropy'', [''gossip'']), (''replay'', [''gossip''])]"

definition cluster_lifecycle :: "bool \<Rightarrow> LifecycleManager" where
  "cluster_lifecycle hasNet = fold (\<lambda>(n, deps). Register n deps) (registrations hasNet) lifecycle_New"

definition member_config :: "ClusterConfig \<Rightarrow> memberConfig" where
  "member_config cfg =
     \<lparr>cfgNodeID = cc_NodeID cfg, cfgAddress = cc_Address cfg, cfgPingInterval = cc_PingInterval cfg,
      cfgFailureTimeout = cc_FailureTimeout cfg, cfgSuspectTimeout = cc_SuspectTimeout cfg,
      cfgHasSend = True, cfgHasCallback = False\<rparr>"

text \<open>\<open>New\<close>; \<open>blank\<close> is the zero cache entry of the entry pool. \<open>None\<close> is the error for a missing send function.\<close>

definition cluster_New ::
  "(string \<Rightarrow> uint64) \<Rightarrow> gotime \<Rightarrow> StoredItem entry \<Rightarrow> ClusterConfig \<Rightarrow> MemStorage \<Rightarrow> HLC \<Rightarrow> cluster option" where
  "cluster_New hi now blank cfg st h =
     (if \<not> cc_HasNetwork cfg \<and> \<not> cc_HasSendFunc cfg then None
      else
        (let cacheSize = (if cc_CacheSize cfg \<le> 0 then 10000 else cc_CacheSize cfg);
             hotCache = cache_New 256 cacheSize blank;
             ring = newHashRing (cc_VirtualNodes cfg);
             member = (newMemberMgr now (member_config cfg))\<lparr>hasCallback := True\<rparr>;
             ring1 = updateRing hi now (Members member) ring;
             g = newGossip (cc_NodeID cfg) st ring1 (cc_ReplicaCount cfg) (cc_GossipInterval cfg) member;
             w = newWriter g h hotCache (cc_BatchThreshold cfg) (cc_BatchWindow cfg);
             r = newReader w (cc_CacheTTL cfg) 0 (newReadRepair now (cc_ReadRepairRateLimitPerSec cfg))
         in Some (reader.extend r
              \<lparr>c_lifecycle = cluster_lifecycle (cc_HasNetwork cfg), c_out = []\<rparr>)))"

section \<open>Network handlers\<close>

datatype go_iface = NilIface | NilPtr nat | MsgPtr member_msg | RawBytes "byte list"

text \<open>
  The two ways a connect frame fails to decode: the plain nil for a connect message with an unusable address, and
  the nil pointer of the cluster-sync decoder.
\<close>

definition refused_connect :: "byte list \<Rightarrow> bool" where
  "refused_connect dat \<longleftrightarrow>
     (let o1 = snd (decodeString dat 0) in
      \<not> (length dat \<ge> 10 \<and> o1 > 0 \<and> o1 + 4 \<le> length dat \<and> get_u32 (drop o1 dat) \<le> 1000)
      \<and> (case decodeConnectMsg dat of
           Some (ConnectMsg nid addr inc) \<Rightarrow> nid \<noteq> '''' \<and> addr \<noteq> '''' \<and> bad_address addr
         | _ \<Rightarrow> False))"

definition decodeMemberMsg :: "byte list \<Rightarrow> MessageType \<Rightarrow> go_iface" where
  "decodeMemberMsg dat t =
     (if length dat = 0 then NilIface
      else if t = MessageTypePing then (case DecodeMemberMsg dat 1 of None \<Rightarrow> NilPtr 1 | Some m \<Rightarrow> MsgPtr m)
      else if t = MessageTypeConnect then
        (case DecodeMemberMsg dat 2 of
           None \<Rightarrow> if refused_connect dat then NilIface else NilPtr 2
         | Some m \<Rightarrow> MsgPtr m)
      else if t = MessageTypeLeave then (case DecodeMemberMsg dat 3 of None \<Rightarrow> NilPtr 3 | Some m \<Rightarrow> MsgPtr m)
      else if t = MessageTypeGossipPush \<or> t = MessageTypeGossipPull then RawBytes dat
      else NilIface)"

definition getMessageType :: "member_msg \<Rightarrow> MessageType" where
  "getMessageType msg =
     (case msg of
        PingMsg _ _ _ \<Rightarrow> MessageTypePing
      | AckMsg _ _ _ \<Rightarrow> MessageTypePing
      | ConnectMsg _ _ _ \<Rightarrow> MessageTypeConnect
      | LeaveMsg _ _ \<Rightarrow> MessageTypeLeave
      | IndirectProbeMsg _ _ _ \<Rightarrow> MessageTypePing
      | ClusterSyncMsg _ _ \<Rightarrow> MessageTypeConnect
      | IndirectAckMsg _ _ _ _ \<Rightarrow> MessageTypeUnknown)"

text \<open>
  \<open>member.HandleMessage\<close> on an interface value. The handlers of pings, acks, probes and leaves return on a nil
  message; \<open>handleClusterSync\<close> does not check and dereferences it.
\<close>

definition handle_iface ::
  "(string \<Rightarrow> uint64) \<Rightarrow> gotime \<Rightarrow> (nat \<Rightarrow> gotime) \<Rightarrow> go_iface \<Rightarrow> 'a cluster_scheme \<Rightarrow> 'a cluster_scheme option" where
  "handle_iface hi now clock v c =
     (case v of
        NilIface \<Rightarrow> Some c
      | RawBytes _ \<Rightarrow> Some c
      | NilPtr t \<Rightarrow> if t = 2 then None else Some c
      | MsgPtr msg \<Rightarrow> Some (fst (cluster_member_step hi clock 0 (EvReceive now msg) c)))"

definition member_handler ::
  "(string \<Rightarrow> uint64) \<Rightarrow> gotime \<Rightarrow> (nat \<Rightarrow> gotime) \<Rightarrow> MessageType \<Rightarrow> 'a cluster_scheme option handler" where
  "member_handler hi now clock t remoteAddr dat s =
     (case s of
        None \<Rightarrow> (None, Inr go_nil)
      | Some c \<Rightarrow>
          if t = MessageTypeConnect \<and> go_len dat < 2 then (Some c, Inr go_nil)
          else (handle_iface hi now clock (decodeMemberMsg (go_bytes dat) t) c, Inr go_nil))"

definition gossip_handler ::
  "env \<Rightarrow> (string \<Rightarrow> uint64) \<Rightarrow> gotime \<Rightarrow> (string \<Rightarrow> bool) \<Rightarrow> 'a cluster_scheme option handler" where
  "gossip_handler E hi now accept remoteAddr dat s =
     (case s of
        None \<Rightarrow> (None, Inr go_nil)
      | Some c \<Rightarrow>
          (case gossip_HandleMessage E hi now accept (go_bytes dat) c of (c1, _, tasks) \<Rightarrow>
             (Some (c1\<lparr>c_out := c_out c1 @ map PullTask tasks\<rparr>), Inr go_nil)))"

text \<open>The item both read handlers answer with: the store's, unless it is a tombstone or empty.\<close>

definition stored_value :: "env \<Rightarrow> gotime \<Rightarrow> bytes \<Rightarrow> 'a cluster_scheme \<Rightarrow> 'a cluster_scheme \<times> StoredItem option" where
  "stored_value E now dat c =
     (case Get E now (BytesToString (go_bytes dat)) (g_store c) of
        (s, Inl _) \<Rightarrow> (c\<lparr>g_store := s\<rparr>, None)
      | (s, Inr item) \<Rightarrow>
          (c\<lparr>g_store := s\<rparr>, if IsTombstone item \<or> go_len (Value item) = 0 then None else Some item))"

definition request_handler :: "env \<Rightarrow> gotime \<Rightarrow> 'a cluster_scheme option handler" where
  "request_handler E now remoteAddr dat s =
     (case s of
        None \<Rightarrow> (None, Inr go_nil)
      | Some c \<Rightarrow>
          if go_len dat = 0 then (Some c, Inr go_nil)
          else (case stored_value E now dat c of
                  (c1, None) \<Rightarrow> (Some c1, Inr go_nil)
                | (c1, Some item) \<Rightarrow> (Some c1, Inr (Value item))))"

definition encode_item :: "StoredItem \<Rightarrow> byte list" where
  "encode_item item =
     (let keyBytes = StringToBytes (Key item);
          expireAt = (if \<not> IsZero (ExpireAt item) then UnixNano (ExpireAt item) else 0)
      in [of_nat (length keyBytes AND 0xFF), of_nat (drop_bit 8 (length keyBytes))] @ keyBytes
         @ put_u64 (Version item) @ [0] @ put_u64 expireAt @ put_le 4 (go_len (Value item)) @ go_bytes (Value item))"

definition read_handler :: "env \<Rightarrow> gotime \<Rightarrow> 'a cluster_scheme option handler" where
  "read_handler E now remoteAddr dat s =
     (case s of
        None \<Rightarrow> (None, Inr go_nil)
      | Some c \<Rightarrow>
          if go_len dat = 0 then (Some c, Inr go_nil)
          else (case stored_value E now dat c of
                  (c1, None) \<Rightarrow> (Some c1, Inr go_nil)
                | (c1, Some item) \<Rightarrow> (Some c1, Inr (Some (encode_item item)))))"

definition setupNetworkHandlers ::
  "env \<Rightarrow> (string \<Rightarrow> uint64) \<Rightarrow> gotime \<Rightarrow> (nat \<Rightarrow> gotime) \<Rightarrow> (string \<Rightarrow> bool)
   \<Rightarrow> 'a cluster_scheme option simpleRouter \<Rightarrow> 'a cluster_scheme option simpleRouter" where
  "setupNetworkHandlers E hi now clock accept =
     RegisterHandler MessageTypeReadRequest (read_handler E now)
     \<circ> RegisterHandler MessageTypeRequest (request_handler E now)
     \<circ> RegisterHandler MessageTypeGossipPull (gossip_handler E hi now accept)
     \<circ> RegisterHandler MessageTypeGossipPush (gossip_handler E hi now accept)
     \<circ> RegisterHandler MessageTypeLeave (member_handler hi now clock MessageTypeLeave)
     \<circ> RegisterHandler MessageTypeConnect (member_handler hi now clock MessageTypeConnect)
     \<circ> RegisterHandler MessageTypePing (member_handler hi now clock MessageTypePing)"

text \<open>\<open>NewNetwork\<close> registers a handler for one-way messages that does nothing.\<close>

definition network_router :: "'s simpleRouter" where
  "network_router = RegisterHandler MessageTypeOneWay (\<lambda>remote dat s. (s, Inr go_nil)) NewRouter"

text \<open>What the server of a node does with the bytes of a message.\<close>

definition node_receive ::
  "env \<Rightarrow> (string \<Rightarrow> uint64) \<Rightarrow> gotime \<Rightarrow> (nat \<Rightarrow> gotime) \<Rightarrow> (string \<Rightarrow> bool) \<Rightarrow> (nat \<Rightarrow> byte) \<Rightarrow> string \<Rightarrow> byte list
   \<Rightarrow> 'a cluster_scheme option \<Rightarrow> 'a cluster_scheme option \<times> (net_err + bytes)" where
  "node_receive E hi now clock accept junk =
     server_handler (lz E) junk (setupNetworkHandlers E hi now clock accept network_router) now"

section \<open>Remote reads\<close>

text \<open>
  \<open>createGetFunc\<close>: the address of the node, and the item of a response. \<open>RError\<close> covers an unknown node, a
  network error and a malformed response.
\<close>

definition node_address :: "string \<Rightarrow> memberMgr \<Rightarrow> string" where
  "node_address nid m = (case List.find (\<lambda>i. NodeID i = nid) (Members m) of None \<Rightarrow> '''' | Some i \<Rightarrow> Address i)"

definition read_request :: "gotime \<Rightarrow> string \<Rightarrow> Message" where
  "read_request now key =
     \<lparr>mType = MessageTypeReadRequest, mID = UnixNano now, mData = Some (StringToBytes key), mTimestamp = UnixNano now,
      mCompressed = False\<rparr>"

definition parse_response :: "gotime \<Rightarrow> string \<Rightarrow> bytes \<Rightarrow> remote_result" where
  "parse_response now key respData =
     (let dat = go_bytes respData in
      if length dat = 0 then RItem None
      else if length dat < 2 then RError
      else
        (let keyLen = get_u16 dat; o1 = 2 in
         if o1 + keyLen + 8 + 1 + 8 + 4 > length dat
         then RItem (Some \<lparr>Version = UnixNano now, ExpireAt = zero_time, Value = respData, Key = key\<rparr>)
         else
           (let o2 = o1 + keyLen;
                ver = get_u64 (drop o2 dat);
                o3 = o2 + 8 + 1;
                expireAt = get_u64 (drop o3 dat);
                o4 = o3 + 8;
                valueLen = get_u32 (drop o4 dat);
                o5 = o4 + 4
            in if o5 + valueLen > length dat then RError
               else
                 (let v = (if valueLen > 0 then FastCloneBytes (Some (take valueLen (drop o5 dat))) else None);
                      expireTime = (if sint expireAt > 0 then time_Unix0 expireAt else zero_time)
                  in RItem (Some \<lparr>Version = ver, ExpireAt = expireTime, Value = v, Key = key\<rparr>)))))"

text \<open>
  \<open>client addr bytes\<close> is the answer of the client to a request; the message is nil-checked through its data, since
  \<open>RequestMessage\<close> returns a message when it returns no error.
\<close>

definition createGetFunc ::
  "lz4 \<Rightarrow> (nat \<Rightarrow> byte) \<Rightarrow> (string \<Rightarrow> byte list \<Rightarrow> net_err + byte list) \<Rightarrow> gotime \<Rightarrow> memberMgr \<Rightarrow> string \<Rightarrow> string
   \<Rightarrow> remote_result" where
  "createGetFunc z junk client now m nid key =
     (let addr = node_address nid m in
      if addr = '''' then RError
      else case RequestMessage z junk client addr (read_request now key) of
        Inl _ \<Rightarrow> RError
      | Inr resp \<Rightarrow> parse_response now key (mData resp))"

section \<open>Client operations\<close>

definition cluster_Set ::
  "env \<Rightarrow> (string \<Rightarrow> uint64) \<Rightarrow> gotime \<Rightarrow> (string list \<Rightarrow> string list) \<Rightarrow> (nat \<Rightarrow> bool \<times> bool) \<Rightarrow> string \<Rightarrow> bytes
   \<Rightarrow> 'a cluster_scheme \<Rightarrow> 'a cluster_scheme \<times> writer_effect list \<times> (writer_err + unit)" where
  "cluster_Set E hi now order ex key v c =
     writer_Set E hi now order ex key \<lparr>Version = 0, ExpireAt = zero_time, Value = v, Key = ''''\<rparr> c"

definition cluster_Get ::
  "env \<Rightarrow> (string \<Rightarrow> uint64) \<Rightarrow> gotime \<Rightarrow> (string \<Rightarrow> remote_result) \<Rightarrow> string \<Rightarrow> 'a cluster_scheme
   \<Rightarrow> 'a cluster_scheme \<times> (storage_err + bytes)" where
  "cluster_Get E hi now remote key c =
     (case reader_Get E hi now remote key c of
        (c1, Inl e) \<Rightarrow> (c1, Inl e)
      | (c1, Inr None) \<Rightarrow> (c1, Inr go_nil)
      | (c1, Inr (Some item)) \<Rightarrow> (c1, Inr (Value item)))"

definition cluster_Delete ::
  "env \<Rightarrow> (string \<Rightarrow> uint64) \<Rightarrow> gotime \<Rightarrow> (nat \<Rightarrow> bool \<times> bool) \<Rightarrow> string
   \<Rightarrow> 'a cluster_scheme \<Rightarrow> 'a cluster_scheme \<times> writer_effect list \<times> (writer_err + unit)" where
  "cluster_Delete E hi now ex key c =
     (case Get E now key (g_store c) of (s, res) \<Rightarrow>
        writer_Delete E hi now ex key (case res of Inl _ \<Rightarrow> 0 | Inr item \<Rightarrow> Version item) (c\<lparr>g_store := s\<rparr>))"

text \<open>\<open>Join\<close>: the manager has at least itself, so its wait for members ends at once.\<close>

definition cluster_Join ::
  "(string \<Rightarrow> uint64) \<Rightarrow> gotime \<Rightarrow> (nat \<Rightarrow> bool) \<Rightarrow> string list \<Rightarrow> 'a cluster_scheme \<Rightarrow> 'a cluster_scheme \<times> (join_err + unit)" where
  "cluster_Join hi now ok seeds c =
     (case Join ok seeds (g_member c) of
        (es, Inl e) \<Rightarrow> (c\<lparr>c_out := c_out c @ map MemberOut es\<rparr>, Inl e)
      | (es, Inr _) \<Rightarrow>
          (c\<lparr>c_out := c_out c @ map MemberOut es, g_ring := updateRing hi now (Members (g_member c)) (g_ring c)\<rparr>, Inr ()))"

definition cluster_Leave :: "(string \<Rightarrow> uint64) \<Rightarrow> (nat \<Rightarrow> gotime) \<Rightarrow> 'a cluster_scheme \<Rightarrow> 'a cluster_scheme" where
  "cluster_Leave hi clock c = fst (cluster_member_step hi clock 0 EvLeave c)"

definition cluster_Stop ::
  "(string \<Rightarrow> uint64) \<Rightarrow> gotime \<Rightarrow> (string \<Rightarrow> bool) \<Rightarrow> 'a cluster_scheme \<Rightarrow> 'a cluster_scheme \<times> string list \<times> (lifecycle_err + unit)" where
  "cluster_Stop hi now fails c =
     (c\<lparr>g_ring := updateRing hi now (Members (g_member c)) (g_ring c)\<rparr>, CloseWithTimeout fails (c_lifecycle c))"

text \<open>An execution of the member manager on the node.\<close>

primrec cluster_exec ::
  "(string \<Rightarrow> uint64) \<Rightarrow> (nat \<Rightarrow> gotime) \<Rightarrow> nat \<Rightarrow> member_event list \<Rightarrow> 'a cluster_scheme \<Rightarrow> 'a cluster_scheme \<times> nat" where
  "cluster_exec hi clock i [] c = (c, i)"
| "cluster_exec hi clock i (e # evs) c =
     (case cluster_member_step hi clock i e c of (c1, i1) \<Rightarrow> cluster_exec hi clock i1 evs c1)"

section \<open>Callbacks report every change of the alive members\<close>

definition alive_keys :: "memberMgr \<Rightarrow> string set" where
  "alive_keys m = {n. \<exists>info. map_of (members m) n = Some info \<and> State info = NodeStateAlive}"

definition snapshots :: "member_effect list \<Rightarrow> NodeInfo list list" where
  "snapshots es = concat (map (\<lambda>e. case e of MembershipChange ms \<Rightarrow> [ms] | _ \<Rightarrow> []) es)"

definition tracked :: "memberMgr \<Rightarrow> member_effect list \<Rightarrow> memberMgr \<Rightarrow> bool" where
  "tracked m es m' \<longleftrightarrow>
     (if snapshots es = [] then alive_keys m' = alive_keys m else set (alive_ids (last (snapshots es))) = alive_keys m')"

lemma snapshots_simps [simp]:
  "snapshots [] = []" "snapshots (a @ b) = snapshots a @ snapshots b"
  "snapshots (e # es) = (case e of MembershipChange ms \<Rightarrow> ms # snapshots es | _ \<Rightarrow> snapshots es)"
  "snapshots (send m addr msg) = []"
  by (auto simp: snapshots_def send_def split: member_effect.split)

lemma alive_ids_Members:
  assumes "mgr_inv lv m"
  shows "set (alive_ids (Members m)) = alive_keys m"
proof -
  have d: "distinct (map fst (members m))" using assms by (simp add: mgr_inv_def)
  have "(n, info) \<in> set (members m) \<Longrightarrow> NodeID info = n" for n info
    using mgr_invD(1) [OF assms] map_of_is_SomeI [OF d] by blast
  then show ?thesis
    by (force simp: alive_ids_def Members_def alive_keys_def map_of_eq_Some_iff [OF d] image_iff)
qed

lemma tracked_refl [simp]: "tracked m [] m" "tracked m (send m' addr msg) m"
  by (simp_all add: tracked_def)

lemma tracked_trans: "tracked a es b \<Longrightarrow> tracked b es' c \<Longrightarrow> tracked a (es @ es') c"
  by (simp add: tracked_def split: if_splits)

lemma tracked_quiet: "tracked a es b \<Longrightarrow> snapshots es' = [] \<Longrightarrow> alive_keys b' = alive_keys b \<Longrightarrow> tracked a (es @ es') b'"
  by (rule tracked_trans) (simp_all add: tracked_def)

lemma tracked_changed:
  assumes "hasCallback m'" "mgr_inv lv m'"
  shows "tracked m (changed m') m'"
  using assms(1) alive_ids_Members [OF assms(2)] by (simp add: tracked_def changed_def)

lemma steps_callback:
  assumes "table_steps lv m m'" "mgr_inv lv m" "hasCallback m"
  shows "mgr_inv lv m'" "hasCallback m'"
  using table_steps_keep [OF assms(1)] assms by (simp_all add: same_settings_def)

lemma hasCallback_store [simp]: "hasCallback (store_member n info m) = hasCallback m"
  by (simp add: store_member_def)

lemma alive_keys_frame [simp]:
  "alive_keys (m\<lparr>indirectProbes := p\<rparr>) = alive_keys m" "alive_keys (m\<lparr>incarnation := i\<rparr>) = alive_keys m"
  by (simp_all add: alive_keys_def)

lemma tracked_frame [simp]: "tracked m es (m'\<lparr>indirectProbes := p\<rparr>) \<longleftrightarrow> tracked m es m'"
  by (simp add: tracked_def)

lemma alive_keys_store:
  "map_of (members m) n = Some old \<Longrightarrow> State info = State old \<Longrightarrow> alive_keys (store_member n info m) = alive_keys m"
  by (auto simp: alive_keys_def update_conv')

lemma markDead_tracked:
  assumes "n = memberMgr.nodeID m \<Longrightarrow> lv" "mgr_inv lv m" "hasCallback m" "markDead n m = (m', es)"
  shows "tracked m es m'"
proof -
  have "mgr_inv lv m'" using steps_callback(1) [OF markDead_steps assms(2,3), of n] assms(1,4) by simp
  then show ?thesis
    using assms(3,4) tracked_changed [of m' lv m] by (auto simp: markDead_def Let_def split: option.splits if_splits)
qed

lemma markSuspect_tracked:
  assumes "n \<noteq> memberMgr.nodeID m" "mgr_inv lv m" "hasCallback m" "markSuspect n m = (m', es)"
  shows "tracked m es m'"
proof -
  have "mgr_inv lv m'" using steps_callback(1) [OF markSuspect_steps assms(2,3), of n] assms(1,4) by simp
  then show ?thesis
    using assms(3,4) tracked_quiet [OF tracked_changed [of m' lv m], of "[Schedule (suspectTimeout m) n]" m']
    by (auto simp: markSuspect_def Let_def split: option.splits if_splits)
qed

lemma updateNode_tracked:
  assumes "n = memberMgr.nodeID m \<Longrightarrow> self_ok lv st" "mgr_inv lv m" "hasCallback m"
    and "updateNode now n addr inc st m = (m', es)"
  shows "tracked m es m'"
proof -
  have "mgr_inv lv m'"
    using steps_callback(1) [OF updateNode_steps assms(2,3), of n st now addr inc] assms(1,4) by simp
  then show ?thesis
    using assms(3,4) tracked_changed [of m' lv m] alive_keys_store [of m n]
    by (auto simp: updateNode_def Let_def tracked_def split: option.splits if_splits)
qed

lemma updateLastActive_keys: "alive_keys (updateLastActive now n m) = alive_keys m"
  by (auto simp: updateLastActive_def intro!: alive_keys_store split: option.split)

lemma updateNode_alive_tracked:
  "mgr_inv lv m \<Longrightarrow> hasCallback m \<Longrightarrow> updateNode now n addr inc NodeStateAlive m = (m', es) \<Longrightarrow> tracked m es m'"
  by (rule updateNode_tracked) (simp_all add: self_ok_def)

lemma ping_node_tracked:
  assumes "mgr_inv lv m" "hasCallback m" "ping_node net now n m = Some (m', es)"
  shows "tracked m es m'"
proof (cases "map_of (members m) n")
  case None
  then show ?thesis using assms(3) by (simp add: ping_node_def)
next
  case (Some info)
  have probe: "snapshots ps = []" if "tryIndirectProbe n m = Some ps" for ps
    using that by (auto simp: tryIndirectProbe_def Let_def split: if_splits option.splits)
  show ?thesis
  proof (cases "n = memberMgr.nodeID m")
    case True
    then show ?thesis using Some assms(3) by (simp add: ping_node_def)
  next
    case False
    then show ?thesis
      using Some assms(3) markDead_tracked [of n m lv, OF _ assms(1,2)] markSuspect_tracked [OF False assms(1,2)] probe
      by (auto simp: ping_node_def Let_def tracked_def updateLastActive_keys split: if_splits)
  qed
qed

lemma ping_nodes_tracked:
  assumes "mgr_inv lv m" "hasCallback m" "ping_nodes net now ns m = (m', es, ok)"
  shows "tracked m es m'"
  using assms
proof (induction ns arbitrary: m es)
  case (Cons n ns)
  show ?case
  proof (cases "ping_node net now n m")
    case None
    then show ?thesis using Cons.prems by simp
  next
    case (Some r)
    then obtain m1 es1 es2 where r: "ping_node net now n m = Some (m1, es1)" "ping_nodes net now ns m1 = (m', es2, ok)"
        "es = es1 @ es2"
      using Cons.prems(3) by (cases r) (auto split: prod.splits)
    note keep = steps_callback [OF ping_node_steps [OF Cons.prems(1) r(1)] Cons.prems(1,2)]
    show ?thesis
      unfolding r(3) by (rule tracked_trans [OF ping_node_tracked [OF Cons.prems(1,2) r(1)] Cons.IH [OF keep r(2)]])
  qed
qed simp

lemma sync_members_tracked:
  "mgr_inv lv m \<Longrightarrow> hasCallback m \<Longrightarrow> tracked m (snd (sync_members now mems m)) (fst (sync_members now mems m))"
proof (induction now mems m rule: sync_members.induct)
  case (2 now mem mems m)
  obtain m1 es where u: "updateNode now (NodeID mem) (Address mem) (Incarnation mem) (State mem) m = (m1, es)"
    by fastforce
  show ?case
  proof (cases "NodeID mem \<noteq> memberMgr.nodeID m \<and> \<not> bad_address (Address mem)")
    case True
    have "table_steps lv m m1" using updateNode_steps [of "NodeID mem" m lv] True u by (metis fst_conv)
    note keep = steps_callback [OF this 2(3,4)]
    have "tracked m1 (snd (sync_members now mems m1)) (fst (sync_members now mems m1))"
      using 2(1) [OF True u [symmetric] keep] .
    moreover have "tracked m es m1" using updateNode_tracked [OF _ 2(3,4) u] True by simp
    ultimately show ?thesis using True by (auto simp: u split: prod.splits intro: tracked_trans)
  next
    case False
    then show ?thesis using 2(2) [OF False 2(3,4)] by auto
  qed
qed simp

text \<open>Acks refresh the entry of a known node with an address.\<close>

definition refresh :: "gotime \<Rightarrow> string \<Rightarrow> int64 \<Rightarrow> memberMgr \<Rightarrow> memberMgr \<times> member_effect list" where
  "refresh now n inc m =
     (case map_of (members m) n of
        None \<Rightarrow> (m, [])
      | Some info \<Rightarrow> if Address info \<noteq> '''' then updateNode now n (Address info) inc NodeStateAlive m else (m, []))"

lemma refresh_tracked:
  assumes "mgr_inv lv m" "hasCallback m" "refresh now n inc m = (m1, es)"
  shows "tracked m es m1"
  using assms(3) updateNode_alive_tracked [OF assms(1,2)] by (auto simp: refresh_def split: option.splits if_splits)

lemma handleAck_tracked:
  assumes "mgr_inv lv m" "hasCallback m"
  shows "tracked m (snd (handleAck now n inc m)) (fst (handleAck now n inc m))"
proof -
  obtain m1 es where r: "refresh now n inc m = (m1, es)" by fastforce
  note t = refresh_tracked [OF assms r]
  show ?thesis
    unfolding handleAck_def refresh_def [symmetric] r Let_def
    using t by (auto intro!: tracked_quiet [OF t] split: option.split)
qed

lemma handleIndirectAck_tracked:
  assumes "mgr_inv lv m" "hasCallback m"
  shows "tracked m (snd (handleIndirectAck now t target inc m)) (fst (handleIndirectAck now t target inc m))"
proof -
  obtain m1 es where r: "refresh now target inc m = (m1, es)" by fastforce
  note t = refresh_tracked [OF assms r]
  show ?thesis
    unfolding handleIndirectAck_def refresh_def [symmetric] r Let_def
    using t by (auto intro!: tracked_quiet [OF t] split: option.split)
qed

lemma HandleMessage_tracked:
  assumes "mgr_inv lv m" "hasCallback m"
  shows "tracked m (snd (HandleMessage now msg m)) (fst (HandleMessage now msg m))"
proof (cases msg)
  case (PingMsg f t inc)
  then show ?thesis
    by (auto simp: handlePing_def Let_def split: prod.splits option.splits
        intro!: tracked_quiet [OF updateNode_alive_tracked [OF assms]])
next
  case (ConnectMsg n addr inc)
  then show ?thesis
    by (auto simp: handleConnect_def split: prod.splits intro!: tracked_quiet [OF updateNode_alive_tracked [OF assms]])
next
  case (IndirectAckMsg f t target inc)
  then show ?thesis by (simp add: handleIndirectAck_tracked [OF assms])
next
  case (LeaveMsg n inc)
  then show ?thesis by (simp add: handleLeave_def updateNode_def)
next
  case (IndirectProbeMsg f target inc)
  then show ?thesis by (auto simp: handleIndirectProbe_def tracked_def split: option.splits)
qed (simp_all add: handleAck_tracked [OF assms] handleClusterSync_def sync_members_tracked [OF assms])

lemma member_step_tracked:
  assumes "mgr_inv lv m" "hasCallback m" "e \<noteq> EvLeave" "member_step e m = (m', es)"
  shows "tracked m es m'"
proof (cases e)
  case (EvStart now)
  then show ?thesis using assms(4) by (auto simp: Start_def tracked_def)
next
  case (EvTick net now)
  then show ?thesis using assms(4) ping_nodes_tracked [OF assms(1,2)] by (auto simp: doPing_def split: prod.splits)
next
  case (EvReceive now msg)
  then show ?thesis using assms(4) HandleMessage_tracked [OF assms(1,2), of now msg] by simp
next
  case (EvTimer now n)
  have "n = memberMgr.nodeID m \<Longrightarrow> suspectExpired now n m = (m, [])"
    using mgr_invD(2) [OF assms(1)] by (auto simp: suspectExpired_def self_ok_def split: option.splits)
  then show ?thesis
    using EvTimer assms(4) markDead_tracked [OF _ assms(1,2), of n m' es]
    by (cases "n = memberMgr.nodeID m") (auto simp: suspectExpired_def split: option.splits if_splits)
qed (use assms(3) in simp)

section \<open>The ring after the callbacks\<close>

definition ring_ids :: "hashRing \<Rightarrow> string set" where
  "ring_ids r = ringNode.nodeID ` set (ring_nodes r)"

abbreviation reading :: "(nat \<Rightarrow> gotime) \<Rightarrow> nat \<Rightarrow> int" where
  "reading clock i \<equiv> sint (UnixNano (clock i))"

lemma updateRing_ids:
  assumes "ring_inv r" "alive_ids ms \<noteq> []" "sint (version r) < sint (UnixNano now)"
  shows "ring_inv (updateRing hi now ms r)" "ring_ids (updateRing hi now ms r) = set (alive_ids ms)"
    "version (updateRing hi now ms r) = UnixNano now"
proof -
  obtain r' where u: "ring_Update hi (UnixNano now) (alive_ids ms) r = (r', True)"
    using assms(2,3) by (simp add: ring_Update_def)
  have e: "updateRing hi now ms r = r'" using assms(2) by (simp add: updateRing_def u)
  show "ring_inv (updateRing hi now ms r)" "ring_ids (updateRing hi now ms r) = set (alive_ids ms)"
    "version (updateRing hi now ms r) = UnixNano now"
    unfolding e ring_ids_def using ring_Update_members [OF assms(1) u] ring_Update_accept [OF u] by simp_all
qed

text \<open>The readings from \<open>i\<close> to \<open>N\<close> are later than the version of the ring.\<close>

definition ring_older :: "(nat \<Rightarrow> gotime) \<Rightarrow> nat \<Rightarrow> nat \<Rightarrow> hashRing \<Rightarrow> bool" where
  "ring_older clock N i r \<longleftrightarrow> (\<forall>k. i \<le> k \<and> k < N \<longrightarrow> sint (version r) < reading clock k)"

lemma ring_follow_count: "ring_follow hi clock i es r = (r', j) \<Longrightarrow> i \<le> j"
  by (induction es arbitrary: i r) (fastforce split: member_effect.splits)+

lemma updateRing_older:
  assumes "ring_inv r" "ring_older clock N i r" "i < N" "strict_mono_on {..<N} (reading clock)"
  shows "ring_inv (updateRing hi (clock i) ms r)" "ring_older clock N (Suc i) (updateRing hi (clock i) ms r)"
    "alive_ids ms \<noteq> [] \<Longrightarrow> ring_ids (updateRing hi (clock i) ms r) = set (alive_ids ms)"
proof -
  have v: "sint (version r) < reading clock i" using assms(2,3) by (simp add: ring_older_def)
  have m: "reading clock i < reading clock k" if "Suc i \<le> k" "k < N" for k
    using strict_mono_onD [OF assms(4), of i k] that by simp
  show "ring_inv (updateRing hi (clock i) ms r)"
    using updateRing_ids(1) [OF assms(1) _ v] assms(1) by (cases "alive_ids ms = []") (simp_all add: updateRing_def)
  show "ring_older clock N (Suc i) (updateRing hi (clock i) ms r)"
    using updateRing_ids(3) [OF assms(1) _ v, of ms] assms(2) m
    by (cases "alive_ids ms = []") (simp_all add: updateRing_def ring_older_def)
  show "alive_ids ms \<noteq> [] \<Longrightarrow> ring_ids (updateRing hi (clock i) ms r) = set (alive_ids ms)"
    using updateRing_ids(2) [OF assms(1) _ v] .
qed

lemma ring_follow_ids:
  assumes "ring_inv r" "ring_older clock N i r" "strict_mono_on {..<N} (reading clock)"
    and "ring_follow hi clock i es r = (r', j)" "j \<le> N"
  shows "ring_inv r' \<and> ring_older clock N j r'
    \<and> (snapshots es = [] \<longrightarrow> ring_ids r' = ring_ids r)
    \<and> (snapshots es \<noteq> [] \<longrightarrow> alive_ids (last (snapshots es)) \<noteq> [] \<longrightarrow> ring_ids r' = set (alive_ids (last (snapshots es))))"
  using assms(1,2,4,5)
proof (induction es arbitrary: r i)
  case (Cons e es)
  show ?case
  proof (cases e)
    case (MembershipChange ms)
    then have f: "ring_follow hi clock (Suc i) es (updateRing hi (clock i) ms r) = (r', j)" using Cons.prems(3) by simp
    then have "i < N" using ring_follow_count [OF f] Cons.prems(4) by simp
    note u = updateRing_older [OF Cons.prems(1,2) this assms(3)]
    from Cons.IH [OF u(1,2) f Cons.prems(4)] u(3) [of ms] show ?thesis by (simp add: MembershipChange)
  qed (use Cons in simp_all)
qed simp

text \<open>What a node keeps: a well-formed table that reports its changes, and a ring of exactly the alive members.\<close>

definition ring_in_step :: "(nat \<Rightarrow> gotime) \<Rightarrow> nat \<Rightarrow> nat \<Rightarrow> 'a cluster_scheme \<Rightarrow> bool" where
  "ring_in_step clock N i c \<longleftrightarrow> mgr_inv False (g_member c) \<and> hasCallback (g_member c) \<and> ring_inv (g_ring c)
     \<and> ring_older clock N i (g_ring c) \<and> ring_ids (g_ring c) = alive_keys (g_member c)"

lemma self_alive:
  assumes "mgr_inv False m"
  shows "memberMgr.nodeID m \<in> alive_keys m"
proof -
  obtain info where "map_of (members m) (memberMgr.nodeID m) = Some info"
    using assms by (auto simp: mgr_inv_def map_of_eq_None_iff dest: not_None_eq [THEN iffD1])
  then show ?thesis using mgr_invD(2) [OF assms] by (simp add: alive_keys_def self_ok_def)
qed

lemma cluster_member_step_in_step:
  assumes "ring_in_step clock N i c" "e \<noteq> EvLeave" "cluster_member_step hi clock i e c = (c', j)"
    and "j \<le> N" "strict_mono_on {..<N} (reading clock)"
  shows "ring_in_step clock N j c'" "i \<le> j"
proof -
  obtain m es where s: "member_step e (g_member c) = (m, es)" by fastforce
  obtain r' j' where f: "ring_follow hi clock i es (g_ring c) = (r', j')" by fastforce
  have c': "g_member c' = m" "g_ring c' = r'" "j' = j" using assms(3) by (auto simp: cluster_member_step_def s f)
  have inv: "mgr_inv False (g_member c)" "hasCallback (g_member c)" "ring_inv (g_ring c)"
    "ring_older clock N i (g_ring c)" "ring_ids (g_ring c) = alive_keys (g_member c)"
    using assms(1) by (simp_all add: ring_in_step_def)
  have "table_steps False (g_member c) m" using member_step_steps [OF inv(1), of e] assms(2) s by simp
  note keep = steps_callback [OF this inv(1,2)]
  have t: "tracked (g_member c) es m" using member_step_tracked [OF inv(1,2) assms(2) s] .
  have "ring_ids r' = alive_keys m"
    using ring_follow_ids [OF inv(3,4) assms(5) f] t self_alive [OF keep(1)] assms(4) inv(5)
    by (auto simp: tracked_def c' split: if_splits)
  then show "ring_in_step clock N j c'"
    using ring_follow_ids [OF inv(3,4) assms(5) f] keep assms(4) by (simp add: ring_in_step_def c')
  show "i \<le> j" using ring_follow_count [OF f] c'(3) by simp
qed

lemma cluster_exec_count: "cluster_exec hi clock i evs c = (c', j) \<Longrightarrow> i \<le> j"
proof (induction evs arbitrary: i c)
  case (Cons e evs)
  obtain c1 i1 where s: "cluster_member_step hi clock i e c = (c1, i1)" by fastforce
  then have "i \<le> i1" using ring_follow_count by (fastforce simp: cluster_member_step_def split: prod.splits)
  moreover have "i1 \<le> j" using Cons.IH Cons.prems s by simp
  ultimately show ?case by simp
qed simp

lemma cluster_exec_in_step:
  assumes "ring_in_step clock N i c" "EvLeave \<notin> set evs" "cluster_exec hi clock i evs c = (c', j)"
    and "j \<le> N" "strict_mono_on {..<N} (reading clock)"
  shows "ring_in_step clock N j c'"
  using assms(1-4)
proof (induction evs arbitrary: i c)
  case (Cons e evs)
  obtain c1 i1 where s: "cluster_member_step hi clock i e c = (c1, i1)" by fastforce
  then have r: "cluster_exec hi clock i1 evs c1 = (c', j)" using Cons.prems(3) by simp
  have e: "e \<noteq> EvLeave" "EvLeave \<notin> set evs" using Cons.prems(2) by auto
  have "i1 \<le> N" using cluster_exec_count [OF r] Cons.prems(4) by simp
  from cluster_member_step_in_step(1) [OF Cons.prems(1) e(1) s this assms(5)] show ?case
    using e(2) r Cons.prems(4) by (rule Cons.IH)
qed simp

lemma mgr_inv_callback: "mgr_inv lv (m\<lparr>hasCallback := b\<rparr>) \<longleftrightarrow> mgr_inv lv m"
  by (simp add: mgr_inv_def)

lemma cluster_New_fields:
  assumes "cluster_New hi now blank cfg st h = Some c"
  shows "g_member c = (newMemberMgr now (member_config cfg))\<lparr>hasCallback := True\<rparr>"
    and "g_ring c = updateRing hi now (Members (g_member c)) (newHashRing (cc_VirtualNodes cfg))"
  using assms unfolding cluster_New_def Let_def
  by (auto simp: newReader_def newWriter_def newGossip_def gossip.defs writer.defs reader.defs split: if_split_asm)

lemma ring_older_new:
  assumes "0 < reading clock 0" "strict_mono_on {..<N} (reading clock)"
  shows "ring_older clock N 0 (newHashRing vn)"
  unfolding ring_older_def
proof (intro allI impI)
  fix k assume k: "0 \<le> k \<and> k < N"
  have "reading clock 0 \<le> reading clock k"
    using strict_mono_onD [OF assms(2), of 0 k] k by (cases "k = 0") auto
  then show "sint (version (newHashRing vn)) < reading clock k" using assms(1) by (simp add: newHashRing_def)
qed

lemma cluster_New_in_step:
  assumes "cluster_New hi (clock 0) blank cfg st h = Some c"
    and "0 < N" "0 < reading clock 0" "strict_mono_on {..<N} (reading clock)"
  shows "ring_in_step clock N 1 c"
proof -
  let ?m = "g_member c"
  have m: "mgr_inv False ?m" "hasCallback ?m"
    by (simp_all add: cluster_New_fields(1) [OF assms(1)] mgr_inv_callback newMemberMgr_inv)
  note u = updateRing_older [OF ring_inv_new ring_older_new [OF assms(3,4)] assms(2,4)]
  have "alive_ids (Members ?m) \<noteq> []" using self_alive [OF m(1)] alive_ids_Members [OF m(1)] by auto
  then show ?thesis
    using m u [where hi = hi and ms = "Members ?m"] alive_ids_Members [OF m(1)] cluster_New_fields(2) [OF assms(1)]
    by (simp add: ring_in_step_def)
qed

section \<open>Properties\<close>

text \<open>
  C9: the ring is the alive membership. From the construction of a node on, after every sequence of started
  managers, ping cycles, received messages and suspicion timers, without a call of \<open>Leave\<close>, the nodes of the hash ring
  are exactly the members the node believes alive, provided the clock readings taken for the ring versions are positive
  and strictly increase.
\<close>

theorem ring_tracks_members:
  assumes "cluster_New hi (clock 0) blank cfg st h = Some c0" "cluster_exec hi clock 1 evs c0 = (c, j)"
    and "EvLeave \<notin> set evs" "0 < reading clock 0" "strict_mono_on {..<j} (reading clock)"
  shows "ringNode.nodeID ` set (ring_nodes (g_ring c)) =
    NodeID ` {m \<in> set (Members (g_member c)). State m = NodeStateAlive}"
proof -
  have "0 < j" using cluster_exec_count [OF assms(2)] by simp
  from cluster_exec_in_step [OF cluster_New_in_step [OF assms(1) this assms(4,5)] assms(3,2) order_refl assms(5)]
  have "ring_ids (g_ring c) = alive_keys (g_member c)" "mgr_inv False (g_member c)"
    by (simp_all add: ring_in_step_def)
  then show ?thesis using alive_ids_Members by (simp add: ring_ids_def alive_ids_def)
qed

definition example_cfg :: ClusterConfig where
  "example_cfg =
     \<lparr>cc_NodeID = ''a'', cc_Address = ''a:1'', cc_PingInterval = 0, cc_FailureTimeout = 0, cc_SuspectTimeout = 0,
      cc_VirtualNodes = 1, cc_ReplicaCount = 2, cc_BatchThreshold = 1, cc_BatchWindow = 0, cc_GossipInterval = 0,
      cc_CacheTTL = 0, cc_CacheSize = 0, cc_HasNetwork = True, cc_HasSendFunc = False,
      cc_ReadRepairRateLimitPerSec = 0\<rparr>"

lemma example_New: "\<exists>c. cluster_New hi now blank example_cfg st h = Some c"
  by (simp add: cluster_New_def Let_def example_cfg_def)

lemma example_clock: "strict_mono_on {..<2::nat} (reading (\<lambda>i. int i + 1))"
proof (rule strict_mono_onI)
  fix a b :: nat assume "a \<in> {..<2}" "b \<in> {..<2}" "a < b"
  then have "a = 0" "b = 1" by auto
  then show "reading (\<lambda>i. int i + 1) a < reading (\<lambda>i. int i + 1) b" by (simp add: UnixNano_def)
qed

lemma example_connect:
  assumes "cluster_New hi 1 blank example_cfg st h = Some c0"
  shows "\<exists>c. cluster_exec hi (\<lambda>i. int i + 1) 1 [EvReceive 2 (ConnectMsg ''b'' ''b:1'' 1)] c0 = (c, 2)
    \<and> NodeID ` {m \<in> set (Members (g_member c)). State m = NodeStateAlive} = {''a'', ''b''}"
  by (force simp: cluster_member_step_def cluster_New_fields(1) [OF assms] handleConnect_def updateNode_def newMemberMgr_def
      member_config_def example_cfg_def changed_def send_def Members_def store_member_def Let_def)

theorem ring_tracks_members_witness:
  "\<exists>c0 c. cluster_New (\<lambda>_. 0) 1 undefined example_cfg solo_store (NewHLC ''a'') = Some c0
    \<and> cluster_exec (\<lambda>_. 0) (\<lambda>i. int i + 1) 1 [EvReceive 2 (ConnectMsg ''b'' ''b:1'' 1)] c0 = (c, 2)
    \<and> ringNode.nodeID ` set (ring_nodes (g_ring c)) = {''a'', ''b''}"
proof -
  obtain c0 where n: "cluster_New (\<lambda>_. 0) 1 undefined example_cfg solo_store (NewHLC ''a'') = Some c0"
    using example_New by blast
  then have n0: "cluster_New (\<lambda>_. 0) ((\<lambda>i. int i + 1) 0) undefined example_cfg solo_store (NewHLC ''a'') = Some c0"
    by simp
  obtain c where e: "cluster_exec (\<lambda>_. 0) (\<lambda>i. int i + 1) 1 [EvReceive 2 (ConnectMsg ''b'' ''b:1'' 1)] c0 = (c, 2)"
    and m: "NodeID ` {m \<in> set (Members (g_member c)). State m = NodeStateAlive} = {''a'', ''b''}"
    using example_connect [OF n] by blast
  have "ringNode.nodeID ` set (ring_nodes (g_ring c)) = {''a'', ''b''}"
    using ring_tracks_members [OF n0 e _ _ example_clock] m by (simp add: UnixNano_def)
  with n e show ?thesis by blast
qed

section \<open>Remote reads of a written value\<close>

text \<open>A message whose frame the receiver can decode.\<close>

definition fits_frame :: "lz4 \<Rightarrow> Message \<Rightarrow> bool" where
  "fits_frame z msg \<longleftrightarrow> \<not> mCompressed msg \<and> go_len (mData msg) < 256 ^ 4
     \<and> (\<forall>blk. sent_block z msg = Some blk \<longrightarrow> go_len (mData msg) \<le> decode_capacity (length blk))"

text \<open>The client's answer when the node \<open>b\<close> listens at the address.\<close>

definition served_by ::
  "env \<Rightarrow> (string \<Rightarrow> uint64) \<Rightarrow> gotime \<Rightarrow> (nat \<Rightarrow> gotime) \<Rightarrow> (string \<Rightarrow> bool) \<Rightarrow> (nat \<Rightarrow> byte) \<Rightarrow> 'a cluster_scheme
   \<Rightarrow> string \<Rightarrow> byte list \<Rightarrow> net_err + byte list" where
  "served_by E hi now clock accept junk b addr dat =
     (case snd (node_receive E hi now clock accept junk addr dat (Some b)) of Inl e \<Rightarrow> Inl e | Inr resp \<Rightarrow> Inr (go_bytes resp))"

lemma decode_fits:
  assumes "lz4_decodes z" "lz4_rejects_short z" "\<forall>n. n \<le> CompressBlockBound z n" "fits_frame z msg"
  shows "decodeMessage z (encodeMessage z junk msg) =
     Inr (msg\<lparr>mData := Some (go_bytes (mData msg)), mCompressed := sent_block z msg \<noteq> None\<rparr>)"
  using assms by (intro decode_sent) (auto simp: fits_frame_def)

lemma length_encodeMessage: "22 \<le> length (encodeMessage z junk msg)"
  by (auto simp: encodeMessage_def Let_def split: prod.split)

lemma handler_lookup:
  "map_of (handlers (setupNetworkHandlers E hi now clock accept network_router)) MessageTypeReadRequest = Some (read_handler E now)"
  "map_of (handlers (setupNetworkHandlers E hi now clock accept network_router)) MessageTypeConnect
     = Some (member_handler hi now clock MessageTypeConnect)"
  by (simp_all add: setupNetworkHandlers_def RegisterHandler_def network_router_def NewRouter_def update_conv' MessageTypeReadRequest_def
      MessageTypeRequest_def MessageTypeGossipPull_def MessageTypeGossipPush_def MessageTypeLeave_def MessageTypeConnect_def
      MessageTypePing_def)

lemma parse_encode_item:
  assumes "go_len (Value item) > 0" "go_len (Value item) < 2 ^ 32" "Key item = ''''" "IsZero (ExpireAt item)"
  shows "parse_response now key (Some (encode_item item)) = RItem (Some (item\<lparr>Key := key\<rparr>))"
proof -
  obtain v where v: "Value item = Some v" "v \<noteq> []" using assms(1) by (cases "Value item") auto
  let ?l = "put_le 4 (length v)"
  have e: "encode_item item = put_le 2 0 @ put_u64 (Version item) @ [0] @ put_u64 0 @ ?l @ v"
    using assms(3,4) put_le_2_bytes [of 0] by (simp add: encode_item_def Let_def v StringToBytes_def)
  have d: "drop 2 (encode_item item) = put_u64 (Version item) @ [0] @ put_u64 0 @ ?l @ v"
    "drop 11 (encode_item item) = put_u64 0 @ ?l @ v"
    "drop 19 (encode_item item) = ?l @ v" "drop 23 (encode_item item) = v"
    by (simp_all add: e)
  have g: "get_u16 (encode_item item) = 0" unfolding e by simp
  have len: "length (encode_item item) = 23 + length v" by (simp add: e)
  show ?thesis
    using assms(2,4) v unfolding parse_response_def Let_def
    by (simp add: g len d IsZero_def del: drop_append)
qed

lemma Route_read:
  assumes "mType msg = MessageTypeReadRequest" "mData msg = Some (StringToBytes key)" "key \<noteq> ''''"
    and "Get E now key (g_store b) = (s, Inr item)" "go_len (Value item) > 0"
  shows "snd (Route (setupNetworkHandlers E hi now clock accept network_router) now addr msg (Some b)) =
     Inr (Some \<lparr>mType = MessageTypeReadResponse, mID = mID msg, mData = Some (encode_item item), mTimestamp = UnixNano now,
                mCompressed = False\<rparr>)"
  using assms
  by (simp add: handler_lookup(1) [unfolded MessageTypeReadRequest_def] Route_def read_handler_def stored_value_def Let_def IsTombstone_def MessageTypeReadRequest_def
      MessageTypeResponse_def MessageTypeReadResponse_def MessageTypeGossipResponse_def MessageTypeOneWay_def
      MessageTypeHeartbeat_def MessageTypeRequest_def)

abbreviation read_response :: "gotime \<Rightarrow> gotime \<Rightarrow> StoredItem \<Rightarrow> Message" where
  "read_response now now' item \<equiv>
     \<lparr>mType = MessageTypeReadResponse, mID = UnixNano now, mData = Some (encode_item item), mTimestamp = UnixNano now',
      mCompressed = False\<rparr>"

lemma remote_read:
  assumes z: "lz4_decodes (lz E)" "lz4_rejects_short (lz E)" "\<forall>n. n \<le> CompressBlockBound (lz E) n"
    and key: "key \<noteq> ''''" "node_address nid m \<noteq> ''''"
    and get: "Get E now' key (g_store b) = (s, Inr item)" "go_len (Value item) > 0" "go_len (Value item) < 2 ^ 32"
      "Key item = ''''" "IsZero (ExpireAt item)"
    and fits: "fits_frame (lz E) (read_request now key)" "fits_frame (lz E) (read_response now now' item)"
  shows "createGetFunc (lz E) junk (served_by E hi now' clock accept junk' b) now m nid key = RItem (Some (item\<lparr>Key := key\<rparr>))"
proof -
  let ?q = "encodeMessage (lz E) junk (read_request now key)"
  note dq = decode_fits [OF z fits(1), of junk] and dr = decode_fits [OF z fits(2), of junk']
  let ?m = "(read_request now key)\<lparr>mData := Some (go_bytes (mData (read_request now key))),
      mCompressed := sent_block (lz E) (read_request now key) \<noteq> None\<rparr>"
  have "snd (Route (setupNetworkHandlers E hi now' clock accept network_router) now' (node_address nid m) ?m (Some b))
      = Inr (Some (read_response now now' item))"
    using Route_read [where msg = ?m, OF _ _ key(1) get(1,2)] by (simp add: read_request_def)
  then have "served_by E hi now' clock accept junk' b (node_address nid m) ?q
      = Inr (encodeMessage (lz E) junk' (read_response now now' item))"
    using length_encodeMessage [of "lz E" junk "read_request now key"]
    by (auto simp: served_by_def node_receive_def server_handler_def dq split: prod.splits)
  then show ?thesis
    using key(2) parse_encode_item [OF get(2-5)] by (simp add: createGetFunc_def RequestMessage_def dr)
qed

text \<open>
  C10: reading a written value from another node. When \<open>Set\<close> succeeds on the node \<open>b\<close> with a non-empty value within
  the limit and a version above the one stored there, a node that knows an address of \<open>b\<close> and then sends a read
  request to it gets the written value, without expiry, with the version of the write, through the framing, the
  routing, the read handler and the parsing of the response. Both messages have to fit a frame and the limits of the
  decoder, and nothing happens on \<open>b\<close> between the write and the request.
\<close>

theorem remote_read_your_write:
  assumes "lz4_decodes (lz E)" "lz4_rejects_short (lz E)" "\<forall>n. n \<le> CompressBlockBound (lz E) n"
    and "key \<noteq> ''''" "node_address nid m \<noteq> ''''" "storage_inv E (g_store b)"
    and "cluster_Set E hi t order ex key v b = (b', es, Inr ())" "0 < go_len v" "go_len v \<le> maxAlloc"
    and "\<forall>ci. lookup E (g_store b) key = Some ci \<longrightarrow> sint (cVersion ci) < sint (snd (next_version t key b))"
    and "fits_frame (lz E) (read_request now key)"
    and "fits_frame (lz E) (read_response now now'
           \<lparr>Version = snd (next_version t key b), ExpireAt = zero_time, Value = v, Key = ''''\<rparr>)"
  shows "createGetFunc (lz E) junk (served_by E hi now' clock accept junk' b') now m nid key =
    RItem (Some \<lparr>Version = snd (next_version t key b), ExpireAt = zero_time, Value = v, Key = key\<rparr>)"
proof -
  let ?it = "\<lparr>Version = snd (next_version t key b), ExpireAt = zero_time, Value = v, Key = ''''\<rparr>"
  note f = writer_Set_ok [OF assms(7) [unfolded cluster_Set_def]]
  have "snd (Get E now' key (g_store b')) = Inr ?it"
    using Set_then_Get [OF assms(6) f(1) _ assms(1)] assms(9,10) by (simp add: set_item_def IsZero_def)
  then obtain s where g: "Get E now' key (g_store b') = (s, Inr ?it)" by (metis prod.collapse)
  have "go_len v < 2 ^ 32" using assms(9) by (simp add: maxAlloc_def)
  with remote_read [OF assms(1-5) g _ _ _ _ assms(11,12)] assms(8) show ?thesis by (simp add: IsZero_def)
qed

text \<open>
  A malformed connect frame ends the process. When the payload of a connect message, of two bytes or more, is no
  connect and no cluster-sync message, and is not refused for its address, the handler dereferences the nil pointer
  the decoder returned.
\<close>

theorem malformed_connect_crashes:
  assumes "lz4_decodes (lz E)" "lz4_rejects_short (lz E)" "\<forall>n. n \<le> CompressBlockBound (lz E) n"
    and "fits_frame (lz E) msg" "mType msg = MessageTypeConnect" "2 \<le> go_len (mData msg)"
    and "DecodeMemberMsg (go_bytes (mData msg)) 2 = None" "\<not> refused_connect (go_bytes (mData msg))"
  shows "fst (node_receive E hi now clock accept junk addr (encodeMessage (lz E) junk' msg) (Some c)) = None"
proof -
  let ?m = "msg\<lparr>mData := Some (go_bytes (mData msg)), mCompressed := sent_block (lz E) msg \<noteq> None\<rparr>"
  have d: "decodeMemberMsg (go_bytes (mData msg)) MessageTypeConnect = NilPtr 2"
    using assms(6-8) by (auto simp: decodeMemberMsg_def MessageTypeConnect_def MessageTypePing_def go_len_def)
  have "member_handler hi now clock MessageTypeConnect addr (Some (go_bytes (mData msg))) (Some c) = (None, Inr go_nil)"
    using assms(6) by (simp add: member_handler_def handle_iface_def d go_len_def)
  then have "fst (Route (setupNetworkHandlers E hi now clock accept network_router) now addr ?m (Some c)) = None"
    using assms(5)
    by (simp add: handler_lookup(2) [unfolded MessageTypeConnect_def] Route_def MessageTypeConnect_def MessageTypeResponse_def MessageTypeReadResponse_def
        MessageTypeGossipResponse_def Let_def)
  then show ?thesis
    using length_encodeMessage [of "lz E" junk' msg] decode_fits [OF assms(1-4), of junk']
    by (auto simp: node_receive_def server_handler_def split: prod.splits sum.splits option.splits)
qed

lemma small_fits: "\<not> mCompressed msg \<Longrightarrow> go_len (mData msg) \<le> 256 \<Longrightarrow> fits_frame z msg"
  by (simp add: fits_frame_def sent_block_def networkCompressThreshold_def)

definition example_node :: cluster where
  "example_node = reader.extend example_reader \<lparr>c_lifecycle = cluster_lifecycle True, c_out = []\<rparr>"

lemma example_node_fields [simp]:
  "g_store example_node = solo_store" "g_ring example_node = duo_ring" "g_nodeID example_node = ''a''"
  "g_replicaCount example_node = 3"
  by (simp_all add: example_node_def reader.defs example_reader_def newReader_def writer.defs example_writer_def newWriter_def
      gossip.defs newGossip_def)

lemma example_lz4: "lz4_decodes (lz example_env)" "lz4_rejects_short (lz example_env)"
  "\<forall>n. n \<le> CompressBlockBound (lz example_env) n"
  by (simp_all add: example_env_def rle_lz4_decodes rle_lz4_rejects_short) (simp add: rle_lz4_def)

theorem malformed_connect_crashes_witness:
  "fst (node_receive example_env (\<lambda>_. 0) 9 (\<lambda>i. int i + 10) (\<lambda>_. True) (\<lambda>_. 0) ''x:1''
     (encodeMessage (lz example_env) (\<lambda>_. 0)
        \<lparr>mType = MessageTypeConnect, mID = 1, mData = Some [5, 0, 1], mTimestamp = 1, mCompressed = False\<rparr>)
     (Some example_node)) = None"
proof (rule malformed_connect_crashes [OF example_lz4])
  have "DecodeMemberMsg [5, 0, 1] 2 = None \<and> \<not> refused_connect [5, 0, 1]" by code_simp
  then show "DecodeMemberMsg (go_bytes (mData
      \<lparr>mType = MessageTypeConnect, mID = 1, mData = Some [5, 0, 1], mTimestamp = 1, mCompressed = False\<rparr>)) 2 = None"
    "\<not> refused_connect (go_bytes (mData
      \<lparr>mType = MessageTypeConnect, mID = 1, mData = Some [5, 0, 1], mTimestamp = 1, mCompressed = False\<rparr>))"
    by simp_all
qed (simp_all add: small_fits)

lemma example_node_Set:
  "\<exists>c' es. cluster_Set example_env (\<lambda>_. 0) now order ex ''k'' (Value (example_item 0)) example_node = (c', es, Inr ())"
  unfolding cluster_Set_def
proof (rule writer_Set_succeeds)
  let ?it = "set_item now ''k'' \<lparr>Version = 0, ExpireAt = zero_time, Value = Value (example_item 0), Key = ''''\<rparr> example_node"
  show "snd (Set example_env ''k'' (Some ?it) (g_store example_node)) = Inr ()"
    using solo_Set(1) [of ?it "[7, 7, 7, 7, 7, 7, 7, 7, 7, 7]"] by (simp add: set_item_def example_item_def IsZero_def)
qed (simp add: duo_ring_GetN)

theorem remote_read_your_write_witness:
  "\<exists>b' es. cluster_Set example_env (\<lambda>_. 0) 1700 id (\<lambda>_. (True, True)) ''k'' (Value (example_item 0)) example_node = (b', es, Inr ())
     \<and> createGetFunc (lz example_env) (\<lambda>_. 0) (served_by example_env (\<lambda>_. 0) 1900 (\<lambda>i. int i + 1900) (\<lambda>_. True) (\<lambda>_. 1) b')
         1800 duo_mgr ''b'' ''k''
       = RItem (Some \<lparr>Version = snd (next_version 1700 ''k'' example_node), ExpireAt = zero_time,
                     Value = Value (example_item 0), Key = ''k''\<rparr>)"
proof -
  obtain b' es where s: "cluster_Set example_env (\<lambda>_. 0) 1700 id (\<lambda>_. (True, True)) ''k'' (Value (example_item 0)) example_node
      = (b', es, Inr ())"
    using example_node_Set by blast
  have l: "lookup example_env (g_store example_node) ''k'' = None"
    using solo_store_empty [of example_env "''k''"] by (simp add: view_def)
  have "node_address ''b'' duo_mgr \<noteq> ''''" by code_simp
  from remote_read_your_write [OF example_lz4 _ this _ s] l show ?thesis
    using s by (simp add: small_fits solo_inv maxAlloc_def example_item_def read_request_def encode_item_def Let_def)
qed

text \<open>The dependencies \<open>New\<close> registers can be resolved, so a start never fails for its order.\<close>

lemma cluster_order_resolves: "\<exists>order. resolveOrder (cluster_lifecycle hasNet) = Inr order"
proof -
  have "(case resolveOrder (cluster_lifecycle True) of Inl _ \<Rightarrow> False | Inr _ \<Rightarrow> True)"
    "(case resolveOrder (cluster_lifecycle False) of Inl _ \<Rightarrow> False | Inr _ \<Rightarrow> True)"
    by code_simp+
  then show ?thesis by (cases hasNet) (auto split: sum.splits)
qed

end
