(* ===== verification/Entropy.thy ===== *)
theory Entropy
  imports Cluster
begin

text \<open>
  \<open>internal/cluster/entropy.go\<close>: the anti-entropy digest and comparison, the checkpoint file, and hinted handoff.

  \<^item> The digest of a store is a Bloom filter over its keys and a table of their versions. The calls that read the
    store change it (counters, recency, removal of expired entries), so every function returns the store. One
    reading of the clock stands for the readings of one call.
  \<^item> The file system is a map from paths to contents. A write of the checkpoint can fail or be interrupted at every
    step.
  \<^item> The retry of a hinted handoff releases its lock between copying the queue and removing what was sent; what
    others do in between is an argument.
\<close>

section \<open>Digest\<close>

definition entropy_interval :: "duration \<Rightarrow> duration" where
  "entropy_interval d = (if d \<le> 0 then 30 * time_Second else d)"

definition bloomSize :: nat where
  "bloomSize = 1024 * 8"

text \<open>The byte and the bit of a key in a filter of \<open>size\<close> bits.\<close>

definition bloom_pos :: "(string \<Rightarrow> uint64) \<Rightarrow> nat \<Rightarrow> string \<Rightarrow> nat \<times> nat" where
  "bloom_pos hi sz key = (let h = unat (hi key mod of_nat sz) in (h div 8, h mod 8))"

definition bloom_add :: "(string \<Rightarrow> uint64) \<Rightarrow> string \<Rightarrow> byte list \<Rightarrow> byte list" where
  "bloom_add hi key bloom =
     (case bloom_pos hi bloomSize key of (i, b) \<Rightarrow> bloom[i := bloom ! i OR push_bit b 1])"

definition bloom_has :: "(string \<Rightarrow> uint64) \<Rightarrow> nat \<Rightarrow> string \<Rightarrow> byte list \<Rightarrow> bool" where
  "bloom_has hi sz key bloom \<longleftrightarrow> (case bloom_pos hi sz key of (i, b) \<Rightarrow> bloom ! i AND push_bit b 1 \<noteq> 0)"

definition getKeysInRange :: "gotime \<Rightarrow> string \<Rightarrow> MemStorage \<Rightarrow> MemStorage \<times> string list" where
  "getKeysInRange now rangeKey s =
     (case Keys now s of (s1, allKeys) \<Rightarrow>
        if rangeKey = '''' then (s1, allKeys)
        else (s1, filter (\<lambda>key. length key \<ge> length rangeKey \<and> take (length rangeKey) key = rangeKey) allKeys))"

definition track_version :: "string \<Rightarrow> int64 \<Rightarrow> (string \<times> int64) list \<Rightarrow> (string \<times> int64) list" where
  "track_version key ver vv =
     (if sint ver > sint (case map_of vv key of None \<Rightarrow> 0 | Some v \<Rightarrow> v) then AList.update key ver vv else vv)"

fun digest_loop ::
  "env \<Rightarrow> (string \<Rightarrow> uint64) \<Rightarrow> gotime \<Rightarrow> string list \<Rightarrow> byte list \<Rightarrow> (string \<times> int64) list \<Rightarrow> MemStorage
   \<Rightarrow> MemStorage \<times> byte list \<times> (string \<times> int64) list" where
  "digest_loop E hi now [] bloom vv s = (s, bloom, vv)"
| "digest_loop E hi now (key # ks) bloom vv s =
     (case Get E now key s of (s1, r) \<Rightarrow>
        digest_loop E hi now ks (bloom_add hi key bloom)
          (case r of Inr item \<Rightarrow> track_version key (Version item) vv | Inl _ \<Rightarrow> vv) s1)"

definition Digest ::
  "env \<Rightarrow> (string \<Rightarrow> uint64) \<Rightarrow> gotime \<Rightarrow> string \<Rightarrow> MemStorage \<Rightarrow> MemStorage \<times> byte list \<times> (string \<times> int64) list" where
  "Digest E hi now rangeKey s =
     (case getKeysInRange now rangeKey s of (s1, ks) \<Rightarrow>
        digest_loop E hi now ks (replicate (bloomSize div 8) 0) [] s1)"

section \<open>Comparison\<close>

text \<open>The verdict on one local key.\<close>

definition key_differs ::
  "(string \<Rightarrow> uint64) \<Rightarrow> byte list \<Rightarrow> byte list \<Rightarrow> (string \<times> int64) list \<Rightarrow> string \<Rightarrow> storage_err + StoredItem \<Rightarrow> bool" where
  "key_differs hi bloom localBloom vv key r =
     (let sz = length bloom * 8;
          hasKey = bloom_has hi sz key bloom;
          localHasKey = (length localBloom > fst (bloom_pos hi sz key) \<and> bloom_has hi sz key localBloom)
      in hasKey \<noteq> localHasKey
         \<or> (case r of
              Inr item \<Rightarrow> (case map_of vv key of Some remoteVersion \<Rightarrow> sint (Version item) < sint remoteVersion | None \<Rightarrow> hasKey)
            | Inl _ \<Rightarrow> map_of vv key \<noteq> None))"

text \<open>The store is read only when the filters agree on the key.\<close>

fun sync_keys ::
  "env \<Rightarrow> (string \<Rightarrow> uint64) \<Rightarrow> gotime \<Rightarrow> byte list \<Rightarrow> byte list \<Rightarrow> (string \<times> int64) list \<Rightarrow> string list \<Rightarrow> MemStorage
   \<Rightarrow> MemStorage \<times> string list" where
  "sync_keys E hi now bloom localBloom vv [] s = (s, [])"
| "sync_keys E hi now bloom localBloom vv (key # ks) s =
     (let sz = length bloom * 8 in
      if sz = 0 then (case sync_keys E hi now bloom localBloom vv ks s of (s2, ds) \<Rightarrow> (s2, key # ds))
      else
        (let agree = (bloom_has hi sz key bloom
                        = (length localBloom > fst (bloom_pos hi sz key) \<and> bloom_has hi sz key localBloom));
             (s1, r) = (if agree then Get E now key s else (s, Inl ErrNotFound))
         in case sync_keys E hi now bloom localBloom vv ks s1 of (s2, ds) \<Rightarrow>
              (s2, if key_differs hi bloom localBloom vv key r then key # ds else ds)))"

fun sync_missing :: "env \<Rightarrow> gotime \<Rightarrow> string list \<Rightarrow> MemStorage \<Rightarrow> MemStorage \<times> string list" where
  "sync_missing E now [] s = (s, [])"
| "sync_missing E now (key # ks) s =
     (case Get E now key s of (s1, r) \<Rightarrow>
        (case sync_missing E now ks s1 of (s2, ds) \<Rightarrow> (s2, case r of Inl _ \<Rightarrow> key # ds | Inr _ \<Rightarrow> ds)))"

definition Sync ::
  "env \<Rightarrow> (string \<Rightarrow> uint64) \<Rightarrow> gotime \<Rightarrow> byte list \<Rightarrow> (string \<times> int64) list \<Rightarrow> MemStorage \<Rightarrow> MemStorage \<times> string list" where
  "Sync E hi now bloom vv s =
     (case Keys now s of (s1, allKeys) \<Rightarrow>
        (case Digest E hi now '''' s1 of (s2, localBloom, _) \<Rightarrow>
           (case sync_keys E hi now bloom localBloom vv allKeys s2 of (s3, ds) \<Rightarrow>
              (case sync_missing E now (map fst vv) s3 of (s4, ds') \<Rightarrow> (s4, ds @ ds')))))"

section \<open>One round of anti-entropy\<close>

definition entropy_targets :: "memberMgr \<Rightarrow> string list" where
  "entropy_targets m = map Address (filter (\<lambda>i. State i = NodeStateAlive \<and> Address i \<noteq> '''') (Members m))"

definition entropy_index :: "gotime \<Rightarrow> nat \<Rightarrow> nat" where
  "entropy_index now n = nat \<bar>sint (UnixNano now) smod int n\<bar>"

definition doAntiEntropy ::
  "env \<Rightarrow> (string \<Rightarrow> uint64) \<Rightarrow> gotime \<Rightarrow> 'a gossip_scheme \<Rightarrow> 'a gossip_scheme \<times> (string \<times> byte list) list" where
  "doAntiEntropy E hi now g =
     (let aliveMembers = entropy_targets (g_member g) in
      if length aliveMembers = 0 then (g, [])
      else
        (let target = aliveMembers ! entropy_index now (length aliveMembers) in
         case Digest E hi now '''' (g_store g) of (s1, localBloom, _) \<Rightarrow>
           (case Sync E hi now localBloom [] s1 of (s2, diffKeys) \<Rightarrow>
              if length diffKeys = 0 then (g\<lparr>g_store := s2\<rparr>, [])
              else Pull E now target (g\<lparr>g_store := s2\<rparr>))))"

section \<open>The checkpoint file\<close>

type_synonym fs = "string \<Rightarrow> byte list option"

datatype save_step = StepMkdir | StepCreate | StepPrefix | StepData | StepSync | StepClose | StepRename

text \<open>
  A step succeeds, fails or is interrupted by the end of the process, having written so many bytes; an interrupted
  step that does not write is complete unless the number is 0.
\<close>

datatype io = IoOk | IoFail nat | IoCrash nat

datatype save_result = Saved | SaveError | SaveCrashed

definition tmpPath :: "string \<Rightarrow> string" where
  "tmpPath path = path @ ''.tmp''"

definition append_file :: "string \<Rightarrow> byte list \<Rightarrow> fs \<Rightarrow> fs" where
  "append_file p dat f = f(p := Some (the (f p) @ dat))"

definition step_effect :: "string \<Rightarrow> byte list \<Rightarrow> nat \<Rightarrow> save_step \<Rightarrow> fs \<Rightarrow> fs" where
  "step_effect path dat n st f =
     (let tmp = tmpPath path in
      case st of
        StepCreate \<Rightarrow> (if n = 0 then f else f(tmp := Some []))
      | StepPrefix \<Rightarrow> append_file tmp (take n (put_le 4 (length dat))) f
      | StepData \<Rightarrow> append_file tmp (take n dat) f
      | StepRename \<Rightarrow> (if n = 0 then f else f(path := f tmp, tmp := None))
      | _ \<Rightarrow> f)"

definition step_cleanup :: "string \<Rightarrow> save_step \<Rightarrow> fs \<Rightarrow> fs" where
  "step_cleanup path st f =
     (if st \<in> {StepPrefix, StepData, StepSync, StepClose} then f(tmpPath path := None) else f)"

fun save_steps :: "string \<Rightarrow> byte list \<Rightarrow> (save_step \<Rightarrow> io) \<Rightarrow> save_step list \<Rightarrow> fs \<Rightarrow> fs \<times> save_result" where
  "save_steps path dat out [] f = (f, Saved)"
| "save_steps path dat out (st # sts) f =
     (case out st of
        IoOk \<Rightarrow> save_steps path dat out sts (step_effect path dat (length dat + 4) st f)
      | IoFail n \<Rightarrow> (step_cleanup path st
                      (if st \<in> {StepPrefix, StepData} then step_effect path dat n st f else f), SaveError)
      | IoCrash n \<Rightarrow> (step_effect path dat n st f, SaveCrashed))"

definition SaveCheckpoint :: "string \<Rightarrow> (save_step \<Rightarrow> io) \<Rightarrow> SyncOperation list \<Rightarrow> fs \<Rightarrow> fs \<times> save_result" where
  "SaveCheckpoint path out ops f =
     (if length ops = 0 then (f, Saved)
      else save_steps path (go_bytes (Serialize ops)) out
             [StepMkdir, StepCreate, StepPrefix, StepData, StepSync, StepClose, StepRename] f)"

text \<open>
  \<open>readable\<close>: an existing file can be read. The end of the slice is computed with 32 bits, so a length close to
  the largest one gives an end before the start.
\<close>

datatype load_result = LoadOps "SyncOperation option list" | LoadError | LoadPanic

definition LoadCheckpoint :: "string \<Rightarrow> bool \<Rightarrow> fs \<Rightarrow> load_result" where
  "LoadCheckpoint path readable f =
     (case f path of
        None \<Rightarrow> LoadOps []
      | Some dat \<Rightarrow>
          if \<not> readable then LoadError
          else if length dat < 4 then LoadOps []
          else
            (let len = get_u32 dat; upto = (4 + len) mod 2 ^ 32 in
             if length dat < 4 + len then LoadOps []
             else if upto < 4 then LoadPanic
             else LoadOps (Deserialize (drop 4 (take upto dat)))))"

section \<open>Replay at the start, checkpoints while running\<close>

text \<open>A nil operation, or a write that panics, ends the start with a panic.\<close>

fun replay_items :: "SyncOperation option list \<Rightarrow> (string \<times> StoredItem) list \<Rightarrow> (string \<times> StoredItem) list option" where
  "replay_items [] kvs = Some kvs"
| "replay_items (None # ops) kvs = None"
| "replay_items (Some op # ops) kvs =
     replay_items ops (case opItem op of Some item \<Rightarrow> AList.update (opKey op) item kvs | None \<Rightarrow> kvs)"

definition replay_Start ::
  "env \<Rightarrow> (string \<Rightarrow> uint64) \<Rightarrow> gotime \<Rightarrow> bool \<times> bool \<Rightarrow> (string \<Rightarrow> bool) \<Rightarrow> load_result \<Rightarrow> (string \<times> SyncOperation list) list
   \<Rightarrow> 'a writer_scheme \<Rightarrow> ('a writer_scheme \<times> writer_effect list \<times> string list) option" where
  "replay_Start E hi now ex accept loaded hh w =
     (let retries = submit accept (map fst hh) in
      case loaded of
        LoadPanic \<Rightarrow> None
      | LoadError \<Rightarrow> Some (w, [], retries)
      | LoadOps ops \<Rightarrow>
          (if length ops > 0 then
             (case replay_items ops [] of
                None \<Rightarrow> None
              | Some kvs \<Rightarrow>
                  if length kvs > 0 \<and> BatchSet_panics E hi now kvs w then None
                  else if length kvs > 0
                  then (case writer_BatchSet E hi now ex kvs w of (w1, eff) \<Rightarrow> Some (w1, eff, retries))
                  else Some (w, [], retries))
           else Some (w, [], retries)))"

definition checkpoint_tick ::
  "env \<Rightarrow> gotime \<Rightarrow> string \<Rightarrow> (save_step \<Rightarrow> io) \<Rightarrow> MemStorage \<times> fs \<Rightarrow> MemStorage \<times> fs" where
  "checkpoint_tick E now path out sf =
     (case GetSyncBuffer E now (fst sf) of (s1, ops) \<Rightarrow>
        (s1, if length ops > 0 then fst (SaveCheckpoint path out ops (snd sf)) else snd sf))"

definition replay_Close ::
  "env \<Rightarrow> gotime \<Rightarrow> string \<Rightarrow> (save_step \<Rightarrow> io) \<Rightarrow> MemStorage \<times> fs \<Rightarrow> MemStorage \<times> fs" where
  "replay_Close E now path out sf =
     (case GetSyncBuffer E now (fst sf) of (s1, ops) \<Rightarrow> (s1, fst (SaveCheckpoint path out ops (snd sf))))"

section \<open>Hinted handoff\<close>

type_synonym hints = "(string \<times> SyncOperation list) list"

definition hinted :: "hints \<Rightarrow> string \<Rightarrow> SyncOperation list" where
  "hinted hh n = (case map_of hh n of None \<Rightarrow> [] | Some ops \<Rightarrow> ops)"

text \<open>The second component is the node a retry was submitted for, the third the error of the executor.\<close>

definition HintedHandoff :: "bool \<Rightarrow> string \<Rightarrow> SyncOperation list \<Rightarrow> hints \<Rightarrow> hints \<times> string list \<times> bool" where
  "HintedHandoff accept n ops hh =
     (if length ops = 0 then (hh, [], True)
      else (AList.update n (hinted hh n @ ops) hh, if accept then [n] else [], accept))"

definition handoff_backoff :: "nat \<Rightarrow> duration" where
  "handoff_backoff i =
     (let backoff = 2 ^ i * 100 * time_Millisecond
      in if backoff > 10 * time_Second then 10 * time_Second else backoff)"

definition handoff_target :: "string \<Rightarrow> memberMgr \<Rightarrow> string" where
  "handoff_target n m =
     (case find (\<lambda>i. NodeID i = n \<and> State i = NodeStateAlive) (Members m) of None \<Rightarrow> '''' | Some i \<Rightarrow> Address i)"

text \<open>
  One attempt. \<open>g\<close> is the gossip component at that moment, \<open>others\<close> what other goroutines do to the table while
  the lock is not held. \<open>Push\<close> never returns an error. Removing more operations than are queued panics, and the
  lock stays held.
\<close>

datatype attempt = AttemptDone "(string \<times> bytes) list" | AttemptWait | AttemptPanic

definition drop_sent :: "string \<Rightarrow> nat \<Rightarrow> hints \<Rightarrow> hints option" where
  "drop_sent n sent hh =
     (if length (hinted hh n) = sent then Some (AList.delete n hh)
      else if sent > length (hinted hh n) then None
      else
        (let remaining = drop sent (hinted hh n)
         in Some (if length remaining > 0 then AList.update n remaining hh else AList.delete n hh)))"

definition handoff_attempt ::
  "string \<Rightarrow> 'a gossip_scheme \<Rightarrow> (string \<Rightarrow> bool) \<Rightarrow> (hints \<Rightarrow> hints) \<Rightarrow> hints \<Rightarrow> hints \<times> attempt" where
  "handoff_attempt n g accept others hh =
     (let opsCopy = hinted hh n in
      if length opsCopy = 0 then (hh, AttemptDone [])
      else
        (let hh1 = others hh; targetAddr = handoff_target n (g_member g) in
         if State_of n (g_member g) \<noteq> NodeStateAlive then (hh1, AttemptWait)
         else if targetAddr = '''' then (hh1, AttemptWait)
         else (case drop_sent n (length opsCopy) hh1 of
                 None \<Rightarrow> (hh1, AttemptPanic)
               | Some hh2 \<Rightarrow> (hh2, AttemptDone (Push accept opsCopy [targetAddr] g)))))"

definition maxRetries :: nat where
  "maxRetries = 10"

text \<open>The loop over the attempts left, with the time slept so far.\<close>

fun handoff_loop ::
  "string \<Rightarrow> (nat \<Rightarrow> 'a gossip_scheme \<times> (string \<Rightarrow> bool) \<times> (hints \<Rightarrow> hints)) \<Rightarrow> nat list \<Rightarrow> duration \<Rightarrow> hints
   \<Rightarrow> hints \<times> attempt \<times> duration" where
  "handoff_loop n env [] slept hh = (AList.delete n hh, AttemptDone [], slept)"
| "handoff_loop n env (i # is) slept hh =
     (case env i of (g, accept, others) \<Rightarrow>
        (case handoff_attempt n g accept others hh of
           (hh1, AttemptWait) \<Rightarrow> handoff_loop n env is (slept + handoff_backoff i) hh1
         | (hh1, r) \<Rightarrow> (hh1, r, slept)))"

definition retryHintedHandoff ::
  "string \<Rightarrow> (nat \<Rightarrow> 'a gossip_scheme \<times> (string \<Rightarrow> bool) \<times> (hints \<Rightarrow> hints)) \<Rightarrow> hints \<Rightarrow> hints \<times> attempt \<times> duration" where
  "retryHintedHandoff n env hh = handoff_loop n env [0..<maxRetries] 0 hh"

section \<open>Digest and comparison are exact\<close>

text \<open>A store every entry of which can be read: none has expired and every value can be decompressed.\<close>

definition settled :: "env \<Rightarrow> gotime \<Rightarrow> MemStorage \<Rightarrow> bool" where
  "settled E now s \<longleftrightarrow> storage_inv E s
     \<and> (\<forall>k ci. lookup E s k = Some ci \<longrightarrow> decoded E ci \<noteq> None \<and> \<not> is_past now ci
          \<and> (IsZero (cExpireAt ci) \<or> sint (UnixNano now) \<le> sint (UnixNano (cExpireAt ci))))"

lemma settledD:
  assumes "settled E now s"
  shows "storage_inv E s"
    "lookup E s k = Some ci \<Longrightarrow> \<not> is_past now ci"
    "lookup E s k = Some ci \<Longrightarrow> IsZero (cExpireAt ci) \<or> sint (UnixNano now) \<le> sint (UnixNano (cExpireAt ci))"
    "lookup E s k = Some ci \<Longrightarrow> \<exists>v. decoded E ci = Some v"
  using assms unfolding settled_def by auto

definition versions :: "env \<Rightarrow> MemStorage \<Rightarrow> string \<Rightarrow> int64 option" where
  "versions E s k = map_option cVersion (lookup E s k)"

lemma lookup_empty_key:
  assumes "storage_inv E s"
  shows "lookup E s '''' = None"
proof (rule ccontr)
  assume "lookup E s '''' \<noteq> None"
  then obtain i ci where i: "getShard E s '''' = Some i" "load s i '''' = Some ci"
    by (auto simp: lookup_def split: option.splits)
  then have "i < length (shards s)" by (simp add: getShard_less)
  with assms have "data_ok (home E s i) (shards s ! i)" by (simp add: storage_inv_def)
  with i(2) show False by (auto simp: data_ok_def load_def home_def dest!: map_of_SomeD)
qed

text \<open>Reading a settled store changes no entry and finds what is there.\<close>

lemma Get_settled:
  assumes s: "settled E now s" and g: "Get E now key s = (s', r)"
  shows "settled E now s' \<and> lookup E s' = lookup E s
    \<and> (case r of Inr it \<Rightarrow> versions E s key = Some (Version it) | Inl _ \<Rightarrow> versions E s key = None)"
proof -
  note i = settledD(1) [OF s]
  have g': "GetNoCopy E now key s = (s', r)" using g by (simp add: Get_eq_GetNoCopy)
  note f = GetNoCopy_frame [OF g' settledD(3) [OF s]]
  have c: "storage_inv E s'" "same_config s s'"
    using get_with_inv [OF i] g' by (simp_all add: GetNoCopy_def)
  have l: "lookup E s' = lookup E s" by (intro ext lookup_cong [OF c(2)] f(1))
  moreover have "settled E now s'" using s c(1) l by (simp add: settled_def)
  moreover have "case r of Inr it \<Rightarrow> versions E s key = Some (Version it) | Inl _ \<Rightarrow> versions E s key = None"
  proof (cases "lookup E s key")
    case None
    then show ?thesis using f(3) by (cases r) (auto simp: versions_def)
  next
    case (Some ci)
    obtain v where v: "decoded E ci = Some v" using settledD(4) [OF s Some] by blast
    have k: "key \<noteq> ''''" using Some lookup_empty_key [OF i] by auto
    show ?thesis
      using get_with_hit [OF i k Some v settledD(3) [OF s Some]] g' Some by (simp add: GetNoCopy_def versions_def)
  qed
  ultimately show ?thesis by simp
qed

lemma shard_entry_lookup:
  assumes "storage_inv E s" "sh \<in> set (shards s)" "(k, ci) \<in> set (sdata sh)"
  shows "lookup E s k = Some ci"
proof -
  obtain i where i: "i < length (shards s)" "shards s ! i = sh" using assms(2) by (auto simp: in_set_conv_nth)
  with assms(1) have d: "data_ok (home E s i) sh" by (auto simp: storage_inv_def)
  with assms(3) have "home E s i k" "map_of (sdata sh) k = Some ci"
    by (auto simp: data_ok_def)
  then show ?thesis using i by (simp add: home_def lookup_def load_def)
qed

lemma lookup_shard_entry:
  "lookup E s k = Some ci \<Longrightarrow> \<exists>sh \<in> set (shards s). (k, ci) \<in> set (sdata sh)"
  by (auto simp: lookup_def load_def split: option.splits dest!: map_of_SomeD dest: getShard_less intro!: bexI)

lemma Keys_settled:
  assumes s: "settled E now s"
  shows "fst (Keys now s) = s" "set (snd (Keys now s)) = dom (lookup E s)"
proof -
  have "filter (\<lambda>(k, ci). \<not> is_past now ci) (sdata sh) = sdata sh" if "sh \<in> set (shards s)" for sh
    using shard_entry_lookup [OF settledD(1) [OF s] that] settledD(2) [OF s] by (auto simp: filter_id_conv)
  then have k: "keys_shard now sh = (sh, map fst (sdata sh))" if "sh \<in> set (shards s)" for sh
    using that by (simp add: keys_shard_def)
  have "map (\<lambda>sh. fst (keys_shard now sh)) (shards s) = shards s" by (simp add: k map_idI)
  then show "fst (Keys now s) = s" by (simp add: Keys_def)
  have "set (snd (Keys now s)) = (\<Union>sh \<in> set (shards s). fst ` set (sdata sh))" by (auto simp: Keys_def k)
  also have "\<dots> = dom (lookup E s)"
    using shard_entry_lookup [OF settledD(1) [OF s]] lookup_shard_entry [of E s] by force
  finally show "set (snd (Keys now s)) = dom (lookup E s)" .
qed

text \<open>The filter has no false negatives.\<close>

lemma bloom_pos_bounds:
  assumes "bloom_pos hi bloomSize key = (i, b)"
  shows "i < bloomSize div 8" "b < 8"
proof -
  have "unat (hi key mod of_nat bloomSize) < 8192" by (simp add: bloomSize_def unat_mod)
  with assms show "i < bloomSize div 8" "b < 8" by (auto simp: bloom_pos_def Let_def bloomSize_def)
qed

lemma bloom_has_bit: "bloom_has hi sz key bloom \<longleftrightarrow> (case bloom_pos hi sz key of (i, b) \<Rightarrow> bit (bloom ! i) b)"
  by (simp add: bloom_has_def push_bit_of_1 and_exp_eq_0_iff_not_bit case_prod_beta)

lemma bit_power_byte: "n < 8 \<Longrightarrow> bit ((2 :: byte) ^ n) n"
  by (simp add: bit_simps)

lemma length_bloom_add [simp]: "length (bloom_add hi key bloom) = length bloom"
  by (simp add: bloom_add_def split: prod.split)

lemma bloom_add_has:
  assumes "length bloom = bloomSize div 8"
  shows "bloom_has hi bloomSize key (bloom_add hi key bloom)"
  using assms bloom_pos_bounds [of hi key]
  by (auto simp: bloom_has_bit bloom_add_def bit_or_iff push_bit_of_1 bit_power_byte split: prod.split)

lemma bloom_add_keeps:
  assumes "length bloom = bloomSize div 8" "bloom_has hi bloomSize key bloom"
  shows "bloom_has hi bloomSize key (bloom_add hi key' bloom)"
  using assms bloom_pos_bounds [of hi key] bloom_pos_bounds [of hi key']
  by (auto simp: bloom_has_bit bloom_add_def bit_or_iff nth_list_update split: prod.splits)

text \<open>The version table of a digest holds the positive versions of the store.\<close>

definition positive :: "env \<Rightarrow> MemStorage \<Rightarrow> bool" where
  "positive E s \<longleftrightarrow> (\<forall>k v. versions E s k = Some v \<longrightarrow> 0 < sint v)"

lemma track_version_spec:
  assumes "\<And>k v. map_of vv k = Some v \<Longrightarrow> f k = Some v" "f key = Some ver" "0 < sint ver"
  shows "map_of (track_version key ver vv) = (map_of vv)(key \<mapsto> ver)"
  using assms(1) [of key] assms(2,3) by (auto simp: track_version_def update_conv' split: option.splits)

lemma digest_loop_spec:
  assumes "settled E now s" "positive E s" "length bloom = bloomSize div 8"
    and "\<And>k v. map_of vv k = Some v \<Longrightarrow> versions E s k = Some v" "set ks \<subseteq> dom (lookup E s)"
    and "digest_loop E hi now ks bloom vv s = (s', bloom', vv')"
  shows "settled E now s' \<and> lookup E s' = lookup E s \<and> length bloom' = bloomSize div 8
    \<and> (\<forall>k. k \<in> set ks \<or> bloom_has hi bloomSize k bloom \<longrightarrow> bloom_has hi bloomSize k bloom')
    \<and> map_of vv' = (\<lambda>k. if k \<in> set ks then versions E s k else map_of vv k)"
  using assms
proof (induction ks arbitrary: bloom vv s)
  case Nil
  then show ?case by auto
next
  case (Cons key ks)
  obtain s1 r where g: "Get E now key s = (s1, r)" by (cases "Get E now key s")
  note gs = Get_settled [OF Cons.prems(1) g]
  have v1: "versions E s1 = versions E s" by (rule ext) (use gs in \<open>simp add: versions_def\<close>)
  obtain it where r: "r = Inr it" "versions E s key = Some (Version it)"
    using gs Cons.prems(5) by (cases r) (auto simp: versions_def)
  have pos: "0 < sint (Version it)" using Cons.prems(2) r(2) unfolding positive_def by blast
  let ?b = "bloom_add hi key bloom" and ?v = "track_version key (Version it) vv"
  have tv: "map_of ?v = (map_of vv)(key \<mapsto> Version it)"
    by (rule track_version_spec [of vv "versions E s", OF Cons.prems(4) r(2) pos])
  have b: "length ?b = bloomSize div 8" using Cons.prems(3) by simp
  have "positive E s1" "set ks \<subseteq> dom (lookup E s1)" using Cons.prems(2,5) gs v1 by (simp_all add: positive_def)
  moreover have "versions E s1 k = Some v" if "map_of ?v k = Some v" for k v
    using that Cons.prems(4) r(2) by (auto simp: tv v1 split: if_splits)
  moreover have "digest_loop E hi now ks ?b ?v s1 = (s', bloom', vv')" using Cons.prems(6) by (simp add: g r(1))
  ultimately have ih: "settled E now s' \<and> lookup E s' = lookup E s1 \<and> length bloom' = bloomSize div 8
    \<and> (\<forall>k. k \<in> set ks \<or> bloom_has hi bloomSize k ?b \<longrightarrow> bloom_has hi bloomSize k bloom')
    \<and> map_of vv' = (\<lambda>k. if k \<in> set ks then versions E s1 k else map_of ?v k)"
    using Cons.IH [OF _ _ b] gs by blast
  have "bloom_has hi bloomSize k ?b" if "k = key \<or> bloom_has hi bloomSize k bloom" for k
    using that bloom_add_has [OF Cons.prems(3)] bloom_add_keeps [OF Cons.prems(3)] by blast
  then show ?case using ih gs r(2) by (auto simp: tv v1 fun_eq_iff)
qed

lemma Digest_spec:
  assumes "settled E now s" "positive E s" "Digest E hi now '''' s = (s', bloom, vv)"
  shows "settled E now s' \<and> lookup E s' = lookup E s \<and> length bloom = bloomSize div 8
    \<and> (\<forall>k \<in> dom (lookup E s). bloom_has hi bloomSize k bloom) \<and> map_of vv = versions E s"
proof -
  obtain ks where k: "Keys now s = (s, ks)" "set ks = dom (lookup E s)"
    using Keys_settled [OF assms(1)] by (cases "Keys now s") auto
  have d: "digest_loop E hi now ks (replicate (bloomSize div 8) 0) [] s = (s', bloom, vv)"
    using assms(3) k(1) by (simp add: Digest_def getKeysInRange_def)
  show ?thesis
    using digest_loop_spec [OF assms(1,2) _ _ _ d] k(2) by (auto simp: fun_eq_iff versions_def)
qed

text \<open>
  The keys on which a store \<open>s\<close> is behind or disagrees about existence with a store \<open>t\<close>: those only one of
  them has, and those of which \<open>s\<close> has an older version.
\<close>

definition stale :: "env \<Rightarrow> MemStorage \<Rightarrow> MemStorage \<Rightarrow> string \<Rightarrow> bool" where
  "stale E s t k \<longleftrightarrow> (case (versions E s k, versions E t k) of
       (None, None) \<Rightarrow> False | (Some v, Some w) \<Rightarrow> sint v < sint w | _ \<Rightarrow> True)"

lemma sync_keys_spec:
  assumes "settled E now s" "set ks \<subseteq> dom (lookup E s)" "length bloom = bloomSize div 8" "length lb = bloomSize div 8"
    and "\<forall>k \<in> set ks. bloom_has hi bloomSize k lb"
    and "sync_keys E hi now bloom lb vv ks s = (s', ds)"
  shows "settled E now s' \<and> lookup E s' = lookup E s
    \<and> set ds = {k \<in> set ks. \<not> bloom_has hi bloomSize k bloom
                  \<or> (case map_of vv k of None \<Rightarrow> True | Some w \<Rightarrow> sint (the (versions E s k)) < sint w)}"
  using assms
proof (induction ks arbitrary: s s' ds)
  case Nil
  then show ?case by auto
next
  case (Cons key ks)
  have sz: "length bloom * 8 = bloomSize" "bloomSize \<noteq> 0" using Cons.prems(3) by (simp_all add: bloomSize_def)
  have lb: "fst (bloom_pos hi bloomSize key) < length lb" "bloom_has hi bloomSize key lb"
    using bloom_pos_bounds(1) [of hi key] Cons.prems(4,5) by (auto simp: prod_eq_iff)
  define has where "has = bloom_has hi bloomSize key bloom"
  obtain s1 r where g: "(if has then Get E now key s else (s, Inl ErrNotFound)) = (s1, r)" by fastforce
  have s1: "settled E now s1" "lookup E s1 = lookup E s"
    and r: "has \<Longrightarrow> case r of Inr it \<Rightarrow> versions E s key = Some (Version it) | Inl _ \<Rightarrow> versions E s key = None"
    using g Get_settled [OF Cons.prems(1), of key s1 r] Cons.prems(1) by (auto split: if_splits)
  have v1: "versions E s1 = versions E s" by (rule ext) (simp add: versions_def s1(2))
  obtain ds1 where d: "sync_keys E hi now bloom lb vv ks s1 = (s', ds1)"
    and ds: "ds = (if key_differs hi bloom lb vv key r then key # ds1 else ds1)"
    using Cons.prems(6) g lb
    by (cases "sync_keys E hi now bloom lb vv ks s1") (simp add: sz Let_def has_def)
  have "key_differs hi bloom lb vv key r
      \<longleftrightarrow> \<not> has \<or> (case map_of vv key of None \<Rightarrow> True | Some w \<Rightarrow> sint (the (versions E s key)) < sint w)"
    using r Cons.prems(2) lb
    by (cases r) (auto simp: key_differs_def Let_def sz has_def versions_def split: option.split)
  moreover have "settled E now s' \<and> lookup E s' = lookup E s1
    \<and> set ds1 = {k \<in> set ks. \<not> bloom_has hi bloomSize k bloom
                  \<or> (case map_of vv k of None \<Rightarrow> True | Some w \<Rightarrow> sint (the (versions E s k)) < sint w)}"
    unfolding v1 [symmetric] using Cons.prems(2,5) s1(2) by (intro Cons.IH [OF s1(1) _ Cons.prems(3,4) _ d]) auto
  ultimately show ?case by (auto simp: s1(2) ds has_def)
qed

lemma sync_missing_spec:
  assumes "settled E now s" "sync_missing E now ks s = (s', ds)"
  shows "settled E now s' \<and> lookup E s' = lookup E s \<and> set ds = {k \<in> set ks. versions E s k = None}"
  using assms
proof (induction ks arbitrary: s s' ds)
  case Nil
  then show ?case by auto
next
  case (Cons key ks)
  obtain s1 r where g: "Get E now key s = (s1, r)" by (cases "Get E now key s")
  note gs = Get_settled [OF Cons.prems(1) g]
  have v1: "versions E s1 = versions E s" by (rule ext) (use gs in \<open>simp add: versions_def\<close>)
  obtain ds1 where d: "sync_missing E now ks s1 = (s', ds1)"
    and ds: "ds = (case r of Inl _ \<Rightarrow> key # ds1 | Inr _ \<Rightarrow> ds1)"
    using Cons.prems(2) g by (cases "sync_missing E now ks s1") auto
  have "settled E now s' \<and> lookup E s' = lookup E s1 \<and> set ds1 = {k \<in> set ks. versions E s1 k = None}"
    using gs by (intro Cons.IH [OF _ d]) simp
  then show ?case using gs by (auto simp: ds v1 split: sum.splits)
qed

lemma Sync_spec:
  assumes s: "settled E now s" "positive E s" and b: "length bloom = bloomSize div 8"
    and S: "Sync E hi now bloom vv s = (s', ds)"
  shows "settled E now s' \<and> lookup E s' = lookup E s
    \<and> set ds = {k \<in> dom (versions E s). \<not> bloom_has hi bloomSize k bloom
                  \<or> (case map_of vv k of None \<Rightarrow> True | Some w \<Rightarrow> sint (the (versions E s k)) < sint w)}
               \<union> {k \<in> dom (map_of vv). versions E s k = None}"
proof -
  have dv: "dom (versions E s) = dom (lookup E s)" by (auto simp: versions_def)
  obtain ks where k: "Keys now s = (s, ks)" "set ks = dom (lookup E s)"
    using Keys_settled [OF s(1)] by (cases "Keys now s") auto
  obtain s2 lb v2 where d: "Digest E hi now '''' s = (s2, lb, v2)" by (cases "Digest E hi now '''' s")
  note ds' = Digest_spec [OF s d]
  have ver: "versions E t = versions E s" if "lookup E t = lookup E s" for t
    by (rule ext) (simp add: versions_def that)
  obtain s3 d1 where y: "sync_keys E hi now bloom lb vv ks s2 = (s3, d1)"
    by (cases "sync_keys E hi now bloom lb vv ks s2")
  obtain d2 where m: "sync_missing E now (map fst vv) s3 = (s', d2)" and r: "ds = d1 @ d2"
    using S k(1) d y by (cases "sync_missing E now (map fst vv) s3") (auto simp: Sync_def)
  have "settled E now s3 \<and> lookup E s3 = lookup E s2
    \<and> set d1 = {k \<in> set ks. \<not> bloom_has hi bloomSize k bloom
                  \<or> (case map_of vv k of None \<Rightarrow> True | Some w \<Rightarrow> sint (the (versions E s2 k)) < sint w)}"
    using ds' k(2) by (intro sync_keys_spec [OF _ _ b _ _ y]) auto
  then have "settled E now s3 \<and> lookup E s3 = lookup E s
    \<and> set d1 = {k \<in> dom (lookup E s). \<not> bloom_has hi bloomSize k bloom
                  \<or> (case map_of vv k of None \<Rightarrow> True | Some w \<Rightarrow> sint (the (versions E s k)) < sint w)}"
    using ds' unfolding k(2) ver [OF ds' [THEN conjunct2, THEN conjunct1]] by simp
  then show ?thesis
    using sync_missing_spec [OF _ m] ver [of s3] by (simp add: r dv dom_map_of_conv_image_fst)
qed

text \<open>
  C16: comparing a store with the digest of another reports exactly the keys that only one of them has and those
  of which the local version is older, if in both stores nothing has expired, every value can be read and all versions
  are positive. Collisions in the Bloom filter neither hide a difference nor report a key on which the stores agree,
  and neither call changes the versions of its store.
\<close>

theorem Sync_exact:
  assumes "settled E now s" "positive E s" "settled E now t" "positive E t"
    and "Digest E hi now '''' t = (t', bloom, vv)" "Sync E hi now bloom vv s = (s', diffKeys)"
  shows "set diffKeys = {k. stale E s t k} \<and> versions E s' = versions E s \<and> versions E t' = versions E t"
proof -
  note d = Digest_spec [OF assms(3,4,5)]
  have v: "map_of vv = versions E t" using d by blast
  have b: "bloom_has hi bloomSize k bloom" if "versions E t k = Some w" for k w
    using d that by (auto simp: versions_def)
  have y: "lookup E s' = lookup E s
    \<and> set diffKeys = {k \<in> dom (versions E s). \<not> bloom_has hi bloomSize k bloom
                  \<or> (case versions E t k of None \<Rightarrow> True | Some w \<Rightarrow> sint (the (versions E s k)) < sint w)}
               \<union> {k \<in> dom (versions E t). versions E s k = None}"
    using Sync_spec [OF assms(1,2) _ assms(6)] d unfolding v by blast
  have "set diffKeys = {k. stale E s t k}"
    unfolding y [THEN conjunct2] by (auto simp: stale_def b split: option.splits)
  moreover have "versions E s' = versions E s" "versions E t' = versions E t"
    using y d by (auto simp: versions_def fun_eq_iff)
  ultimately show ?thesis by blast
qed

lemma example_settled:
  obtains t where "settled example_env 5 t" "versions example_env t = [''k'' \<mapsto> 7]"
proof -
  obtain t where t: "storage_put example_env (''k'', example_item 7) example_store = Some t"
    by (rule storage_put_fits [OF example_store_inv, of "''k''" "example_item 7"]) (simp_all add: maxAlloc_def)
  obtain i ci where st: "Set example_env ''k'' (Some (example_item 7)) example_store = (t, Inr ())"
    "home example_env example_store i ''k''"
    "prepareCompressedItem example_env example_store ''k'' (example_item 7) = (ci, calculateItemSize ''k'' (cValue ci))"
    "store_iter i ''k'' ci (calculateItemSize ''k'' (cValue ci)) (example_item 7) example_store = Some t"
    "go_len (Value (example_item 7)) \<le> maxAlloc"
    by (rule storage_put_Set [OF example_store_inv t])
  have l: "lookup example_env t = [''k'' \<mapsto> ci]"
    by (rule ext) (simp add: store_iter_lookup [OF st(2,4)] lww_merge_def)
  have "decoded example_env ci = Some (Value (example_item 7))"
    by (rule decompressValue_prepare [OF example_env_decodes st(5,3)])
  moreover have "cVersion ci = 7" "IsZero (cExpireAt ci)" using prepare_fields [OF st(3)] by (simp_all add: IsZero_def)
  ultimately show thesis
    using Set_inv [OF example_store_inv st(1)] l
    by (intro that [of t]) (auto simp: settled_def versions_def fun_eq_iff is_past_def)
qed

lemma example_store_settled: "settled example_env 5 example_store" "positive example_env example_store"
  "versions example_env example_store = Map.empty"
  by (auto simp: settled_def example_store_inv positive_def versions_def)

theorem Sync_exact_witness:
  "\<exists>t t' bloom vv s' diffKeys. Digest example_env (\<lambda>_. 0) 5 '''' t = (t', bloom, vv)
     \<and> Sync example_env (\<lambda>_. 0) 5 bloom vv example_store = (s', diffKeys) \<and> set diffKeys = {''k''}"
proof -
  obtain t where t: "settled example_env 5 t" "versions example_env t = [''k'' \<mapsto> 7]" by (rule example_settled)
  then have p: "positive example_env t" by (auto simp: positive_def split: if_splits)
  obtain t' bloom vv where d: "Digest example_env (\<lambda>_. 0) 5 '''' t = (t', bloom, vv)"
    by (cases "Digest example_env (\<lambda>_. 0) 5 '''' t")
  obtain s' ds where y: "Sync example_env (\<lambda>_. 0) 5 bloom vv example_store = (s', ds)"
    by (cases "Sync example_env (\<lambda>_. 0) 5 bloom vv example_store")
  have "set ds = {''k''}"
    using Sync_exact [OF example_store_settled(1,2) t(1) p d y]
    by (auto simp: stale_def t(2) example_store_settled(3) split: if_splits option.splits)
  with d y show ?thesis by blast
qed

section \<open>A round of anti-entropy\<close>

text \<open>
  A round of anti-entropy compares the store with its own digest and an empty version table, so every key of
  the store counts as different: a node that has any key pulls from its target in every round, also when all
  replicas agree, and a node without a key never pulls.
\<close>

theorem entropy_reports_all:
  assumes "settled E now (g_store g)" "positive E (g_store g)" "entropy_targets (g_member g) \<noteq> []"
  defines "target \<equiv> entropy_targets (g_member g) ! entropy_index now (length (entropy_targets (g_member g)))"
  shows "\<exists>s. versions E s = versions E (g_store g) \<and> entropy_index now (length (entropy_targets (g_member g))) < length (entropy_targets (g_member g))
    \<and> doAntiEntropy E hi now g
        = (if dom (versions E (g_store g)) = {} then (g\<lparr>g_store := s\<rparr>, []) else Pull E now target (g\<lparr>g_store := s\<rparr>))"
proof -
  let ?n = "length (entropy_targets (g_member g))"
  obtain s1 bloom vv where d: "Digest E hi now '''' (g_store g) = (s1, bloom, vv)"
    by (cases "Digest E hi now '''' (g_store g)")
  note ds = Digest_spec [OF assms(1,2) d]
  obtain s2 diff where y: "Sync E hi now bloom [] s1 = (s2, diff)" by (cases "Sync E hi now bloom [] s1")
  have v1: "versions E s1 = versions E (g_store g)" by (rule ext) (use ds in \<open>simp add: versions_def\<close>)
  have "positive E s1" using assms(2) by (simp add: positive_def v1)
  then have s2: "lookup E s2 = lookup E s1" and diff: "set diff = dom (versions E s1)"
    using Sync_spec [OF _ _ _ y] ds by auto
  have r: "versions E s2 = versions E (g_store g)" by (rule ext) (use ds s2 in \<open>simp add: versions_def\<close>)
  have "\<bar>sint (UnixNano now) smod int ?n\<bar> < int ?n"
    using assms(3) smod_int_range [of "int ?n" "sint (UnixNano now)"] by fastforce
  then have i: "entropy_index now ?n < ?n" by (simp add: entropy_index_def)
  have "(length diff = 0) = (dom (versions E (g_store g)) = {})" using diff unfolding v1 by (metis length_0_conv set_empty)
  then have "doAntiEntropy E hi now g
    = (if dom (versions E (g_store g)) = {} then (g\<lparr>g_store := s2\<rparr>, []) else Pull E now target (g\<lparr>g_store := s2\<rparr>))"
    using assms(3) by (simp add: doAntiEntropy_def Let_def d y target_def)
  then show ?thesis using r i by blast
qed

theorem entropy_reports_all_witness:
  "\<exists>t s. versions example_env s = [''k'' \<mapsto> 7]
     \<and> doAntiEntropy example_env (\<lambda>_. 0) 5 (newGossip ''a'' t duo_ring 3 0 duo_mgr)
       = Pull example_env 5 ''h:2'' (newGossip ''a'' t duo_ring 3 0 duo_mgr\<lparr>g_store := s\<rparr>)"
proof -
  obtain t where t: "settled example_env 5 t" "versions example_env t = [''k'' \<mapsto> 7]" by (rule example_settled)
  let ?g = "newGossip ''a'' t duo_ring 3 0 duo_mgr"
  have p: "positive example_env t" using t(2) by (auto simp: positive_def split: if_splits)
  have g: "g_store ?g = t" "entropy_targets (g_member ?g) = [''h:1'', ''h:2'']"
    by (simp_all add: newGossip_def entropy_targets_def duo_mgr_def example_mgr_def example_info_def Members_def)
  have i: "entropy_index 5 (Suc (Suc 0)) = 1" by (simp add: entropy_index_def UnixNano_def signed_modulo_int_def)
  from entropy_reports_all [of example_env 5 ?g "\<lambda>_. 0"] t p i
  show ?thesis unfolding g by (auto simp: i)
qed

section \<open>Checkpoints survive a crash\<close>

lemma tmpPath_neq [simp]: "tmpPath path \<noteq> path" "path \<noteq> tmpPath path"
  by (simp_all add: tmpPath_def)

lemma LoadCheckpoint_cong: "f' path = f path \<Longrightarrow> LoadCheckpoint path b f' = LoadCheckpoint path b f"
  by (simp add: LoadCheckpoint_def)

lemma LoadCheckpoint_saved:
  assumes "f path = Some (put_le 4 (length dat) @ dat)" "length dat + 4 < 2 ^ 32"
  shows "LoadCheckpoint path True f = LoadOps (Deserialize dat)"
  using assms by (simp add: LoadCheckpoint_def Let_def)

text \<open>Until the rename only the temporary file changes.\<close>

lemma save_steps_keeps:
  assumes "StepRename \<notin> set sts"
  shows "fst (save_steps path dat out sts f) path = f path"
  using assms
  by (induction sts arbitrary: f)
     (auto simp: step_effect_def step_cleanup_def append_file_def Let_def split: io.split save_step.split)

lemma save_steps_append:
  "save_steps path dat out (xs @ ys) f
    = (case save_steps path dat out xs f of (f1, Saved) \<Rightarrow> save_steps path dat out ys f1 | fr \<Rightarrow> fr)"
  by (induction xs arbitrary: f) (auto split: io.split save_result.split)

lemma save_steps_write:
  assumes "save_steps path dat out [StepMkdir, StepCreate, StepPrefix, StepData, StepSync, StepClose] f = (f1, Saved)"
  shows "f1 (tmpPath path) = Some (put_le 4 (length dat) @ dat)"
  using assms by (auto simp: step_effect_def append_file_def Let_def split: io.splits)

text \<open>
  C17: a checkpoint is replaced as a whole. Whatever step of the write fails or is interrupted, the next load
  returns what it returned before or exactly the new operations; the new ones when the write reports success, the
  old ones when it reports an error.
\<close>

theorem checkpoint_crash_safe:
  assumes "ops \<noteq> []" "length ops < 2 ^ 32" "\<forall>op \<in> set ops. op_ok op" "length (go_bytes (Serialize ops)) + 4 < 2 ^ 32"
    and "SaveCheckpoint path out ops f = (f', res)"
  shows "LoadCheckpoint path True f' \<in> {LoadCheckpoint path True f, LoadOps (received ops)}
    \<and> (res = Saved \<longrightarrow> LoadCheckpoint path True f' = LoadOps (received ops))
    \<and> (res = SaveError \<longrightarrow> LoadCheckpoint path True f' = LoadCheckpoint path True f)"
proof -
  let ?d = "go_bytes (Serialize ops)"
  let ?xs = "[StepMkdir, StepCreate, StepPrefix, StepData, StepSync, StepClose]"
  obtain f1 r1 where x: "save_steps path ?d out ?xs f = (f1, r1)" by (cases "save_steps path ?d out ?xs f")
  have k: "f1 path = f path" using save_steps_keeps [of ?xs path ?d out f] x by simp
  have s: "(case (f1, r1) of (f1, Saved) \<Rightarrow> save_steps path ?d out [StepRename] f1 | fr \<Rightarrow> fr) = (f', res)"
    using assms(1,5) save_steps_append [of path ?d out ?xs "[StepRename]" f] x by (simp add: SaveCheckpoint_def)
  have "f' path = f path \<and> res \<noteq> Saved
    \<or> f' path = Some (put_le 4 (length ?d) @ ?d) \<and> res \<noteq> SaveError"
  proof (cases r1)
    case Saved
    then show ?thesis
      using s k save_steps_write [of path ?d out f f1] x
      by (auto simp: step_effect_def step_cleanup_def Let_def split: io.splits if_splits)
  qed (use s k in auto)
  moreover have "LoadCheckpoint path True f' = LoadOps (received ops)" if "f' path = Some (put_le 4 (length ?d) @ ?d)"
    using LoadCheckpoint_saved [of f' path ?d] that assms(4) Deserialize_Serialize [OF assms(1,2,3)] by simp
  ultimately have "LoadCheckpoint path True f' = LoadCheckpoint path True f \<and> res \<noteq> Saved
    \<or> LoadCheckpoint path True f' = LoadOps (received ops) \<and> res \<noteq> SaveError"
    using LoadCheckpoint_cong [of f' path f] by blast
  then show ?thesis by auto
qed

theorem checkpoint_crash_safe_witness:
  "let op = example_op 7;
       out = (\<lambda>st. if st = StepData then IoCrash 3 else IoOk);
       old = [''c'' \<mapsto> []];
       f' = fst (SaveCheckpoint ''c'' out [op] old)
   in LoadCheckpoint ''c'' True f' \<in> {LoadOps [], LoadOps (received [op])}
      \<and> LoadCheckpoint ''c'' True (fst (SaveCheckpoint ''c'' (\<lambda>_. IoOk) [op] old)) = LoadOps (received [op])"
proof -
  let ?out = "\<lambda>st. if st = StepData then IoCrash 3 else IoOk" and ?old = "[''c'' \<mapsto> [] :: byte list]"
  have ok: "\<forall>op \<in> set [example_op 7]. op_ok op"
    by (simp add: example_op_def op_ok_def item_ok_def short_def example_item_def go_len_def IsZero_def)
  have len: "length (go_bytes (Serialize [example_op 7])) + 4 < 2 ^ 32"
    using encodeOp_length [of "''k''" "example_item 7" OpSet]
    by (simp add: Serialize_def go_bytes_def example_op_def encodeOp_eq short_def item_ok_def example_item_def go_len_def)
  note c = checkpoint_crash_safe [OF _ _ ok len, of "''c''"]
  have o: "LoadCheckpoint ''c'' True ?old = LoadOps []" by (simp add: LoadCheckpoint_def)
  obtain f' r where s: "SaveCheckpoint ''c'' ?out [example_op 7] ?old = (f', r)"
    by (cases "SaveCheckpoint ''c'' ?out [example_op 7] ?old")
  obtain f2 where s2: "SaveCheckpoint ''c'' (\<lambda>_. IoOk) [example_op 7] ?old = (f2, Saved)"
    by (simp add: SaveCheckpoint_def)
  show ?thesis using c [OF _ _ s] c [OF _ _ s2] o by (simp add: s s2 Let_def)
qed

section \<open>Hinted handoff delivers or gives up\<close>

lemma hinted_update [simp]: "hinted (AList.update n ops hh) k = (if k = n then ops else hinted hh k)"
  by (simp add: hinted_def update_conv')

lemma hinted_delete [simp]: "hinted (AList.delete n hh) k = (if k = n then [] else hinted hh k)"
  by (simp add: hinted_def delete_conv')

text \<open>Other goroutines only add hints: calls of \<open>HintedHandoff\<close>, but no second retry for the node.\<close>

definition only_adds :: "string \<Rightarrow> (hints \<Rightarrow> hints) \<Rightarrow> bool" where
  "only_adds n others \<longleftrightarrow> (\<forall>hh. \<exists>extra. hinted (others hh) n = hinted hh n @ extra)"

lemma drop_sent_spec:
  assumes "hinted hh n = sent @ extra"
  shows "\<exists>hh'. drop_sent n (length sent) hh = Some hh' \<and> hinted hh' n = extra
    \<and> (\<forall>k. k \<noteq> n \<longrightarrow> hinted hh' k = hinted hh k)"
  using assms by (auto simp: drop_sent_def)

lemma handoff_attempt_spec:
  assumes "hinted hh n \<noteq> []" "State_of n (g_member g) = NodeStateAlive" "handoff_target n (g_member g) \<noteq> ''''"
    and "hinted (others hh) n = hinted hh n @ extra"
  shows "\<exists>hh'. handoff_attempt n g accept others hh
          = (hh', AttemptDone (Push accept (hinted hh n) [handoff_target n (g_member g)] g)) \<and> hinted hh' n = extra"
  using drop_sent_spec [OF assms(4)] assms(1-3) by (auto simp: handoff_attempt_def Let_def)

lemma handoff_attempt_waits:
  assumes "hinted hh n \<noteq> []" "State_of n (g_member g) \<noteq> NodeStateAlive \<or> handoff_target n (g_member g) = ''''"
  shows "handoff_attempt n g accept others hh = (others hh, AttemptWait)"
  using assms by (auto simp: handoff_attempt_def Let_def)

text \<open>
  The attempts in which the node cannot be reached pass without effect: the hints are kept, those added meanwhile
  included, and only the waiting time grows.
\<close>

definition unreachable :: "string \<Rightarrow> 'a gossip_scheme \<Rightarrow> bool" where
  "unreachable n g \<longleftrightarrow> State_of n (g_member g) \<noteq> NodeStateAlive \<or> handoff_target n (g_member g) = ''''"

lemma handoff_loop_waits:
  assumes "\<forall>i \<in> set is. unreachable n (fst (env i)) \<and> only_adds n (snd (snd (env i)))" "hinted hh n \<noteq> []"
  shows "\<exists>hh' extra. hinted hh' n = hinted hh n @ extra
    \<and> handoff_loop n env (is @ js) slept hh = handoff_loop n env js (slept + sum_list (map handoff_backoff is)) hh'"
  using assms
proof (induction "is" arbitrary: hh slept)
  case Nil
  then show ?case by (intro exI [of _ hh] exI [of _ "[]"]) simp
next
  case (Cons i "is")
  obtain g accept others where e: "env i = (g, accept, others)" by (cases "env i")
  have "handoff_attempt n g accept others hh = (others hh, AttemptWait)"
    using Cons.prems e by (intro handoff_attempt_waits) (simp_all add: unreachable_def)
  moreover have "only_adds n others" using Cons.prems(1) e by simp
  then obtain x where x: "hinted (others hh) n = hinted hh n @ x" unfolding only_adds_def by blast
  moreover have "\<exists>hh' extra. hinted hh' n = hinted (others hh) n @ extra
      \<and> handoff_loop n env (is @ js) (slept + handoff_backoff i) (others hh)
        = handoff_loop n env js (slept + handoff_backoff i + sum_list (map handoff_backoff is)) hh'"
    using Cons.prems x by (intro Cons.IH) auto
  ultimately show ?case by (auto simp: e ac_simps)
qed

text \<open>
  C18: if hints are queued for a node that becomes reachable by the tenth attempt, and meanwhile hints for it are only
  added, so no second retry for the node runs, the retry ends by handing all hints queued at that moment, in order, to
  one call of \<open>Push\<close> for the node, after the waiting times of the attempts before; the queue keeps exactly those added
  after they were copied. What that call sends is up to \<open>Push\<close>: nothing if the executor refuses its function.
\<close>

theorem handoff_delivers:
  assumes "\<forall>i < k. unreachable n (fst (env i)) \<and> only_adds n (snd (snd (env i)))" "k < maxRetries"
    and "env k = (g, accept, others)" "\<not> unreachable n g" "only_adds n others" "hinted hh n \<noteq> []"
  shows "\<exists>queued table hh'. hinted table n = hinted hh n @ queued
    \<and> hinted (others table) n = hinted table n @ hinted hh' n
    \<and> retryHintedHandoff n env hh
        = (hh', AttemptDone (Push accept (hinted hh n @ queued) [handoff_target n (g_member g)] g),
           sum_list (map handoff_backoff [0..<k]))"
proof -
  have sp: "[0..<maxRetries] = [0..<k] @ k # [Suc k..<maxRetries]"
    using assms(2) upt_add_eq_append [of 0 k "maxRetries - k"] by (simp add: upt_conv_Cons [of k maxRetries])
  obtain hh1 q where h: "hinted hh1 n = hinted hh n @ q"
    "retryHintedHandoff n env hh
      = handoff_loop n env (k # [Suc k..<maxRetries]) (0 + sum_list (map handoff_backoff [0..<k])) hh1"
    using handoff_loop_waits [of "[0..<k]" n env hh "k # [Suc k..<maxRetries]" 0] assms(1,6)
    by (auto simp: retryHintedHandoff_def sp)
  obtain x where x: "hinted (others hh1) n = hinted hh1 n @ x" using assms(5) unfolding only_adds_def by blast
  have "hinted hh1 n \<noteq> []" using h(1) assms(6) by simp
  then obtain hh2 where "handoff_attempt n g accept others hh1
      = (hh2, AttemptDone (Push accept (hinted hh1 n) [handoff_target n (g_member g)] g))" "hinted hh2 n = x"
    using handoff_attempt_spec [of hh1 n g others x accept] x assms(4) by (auto simp: unreachable_def)
  then show ?thesis using h assms(3) by (intro exI [of _ q] exI [of _ hh1] exI [of _ hh2]) (simp add: x)
qed

lemma example_reach:
  "unreachable ''b'' example_gossip" "\<not> unreachable ''b'' example_peer"
  "handoff_target ''b'' (g_member example_peer) = ''h:2''"
  by (simp_all add: unreachable_def example_gossip_def example_peer_def newGossip_def State_of_def example_mgr_def
      duo_mgr_def example_info_def handoff_target_def Members_def)

theorem handoff_delivers_witness:
  "\<exists>queued hh'. retryHintedHandoff ''b''
       (\<lambda>i. (if i < 3 then example_gossip else example_peer, \<lambda>_. True, \<lambda>h. h)) [(''b'', [example_op 7])]
     = (hh', AttemptDone (Push (\<lambda>_. True) (example_op 7 # queued) [''h:2''] example_peer), 700 * time_Millisecond)"
proof -
  have a: "only_adds ''b'' (\<lambda>h. h)" by (simp add: only_adds_def)
  have "sum_list (map handoff_backoff [0..<3]) = 700 * time_Millisecond"
    by (simp add: handoff_backoff_def Let_def time_Millisecond_def time_Second_def upt_rec)
  then show ?thesis
    using handoff_delivers [of 3 "''b''" "\<lambda>i. (if i < 3 then example_gossip else example_peer, \<lambda>_. True, \<lambda>h. h)"
        example_peer "\<lambda>_. True" "\<lambda>h. h" "[(''b'', [example_op 7])]"]
    by (auto simp: a example_reach maxRetries_def hinted_def)
qed

text \<open>
  A node that stays unreachable through the ten attempts loses its hints, those added meanwhile included,
  after 42.7 seconds of waiting; nothing is sent.
\<close>

theorem handoff_gives_up:
  assumes "\<forall>i < maxRetries. unreachable n (fst (env i)) \<and> only_adds n (snd (snd (env i)))" "hinted hh n \<noteq> []"
  shows "\<exists>hh'. hinted hh' n = [] \<and> retryHintedHandoff n env hh = (hh', AttemptDone [], 42700 * time_Millisecond)"
proof -
  have "sum_list (map handoff_backoff [0..<maxRetries]) = 42700 * time_Millisecond"
    by (simp add: maxRetries_def handoff_backoff_def Let_def time_Millisecond_def time_Second_def upt_rec)
  then show ?thesis
    using handoff_loop_waits [of "[0..<maxRetries]" n env hh "[]" 0] assms by (auto simp: retryHintedHandoff_def)
qed

theorem handoff_gives_up_witness:
  "\<exists>hh'. hinted hh' ''b'' = []
     \<and> retryHintedHandoff ''b'' (\<lambda>_. (example_gossip, \<lambda>_. True, \<lambda>h. h)) [(''b'', [example_op 7])]
       = (hh', AttemptDone [], 42700 * time_Millisecond)"
  using handoff_gives_up [of "''b''" "\<lambda>_. (example_gossip, \<lambda>_. True, \<lambda>h. h)" "[(''b'', [example_op 7])]"]
  by (simp add: example_reach only_adds_def hinted_def)

text \<open>
  Two retries for the same node race. If both copy the same hints, the other sends and removes them first, and
  fewer hints have been queued since, this one panics while it holds the lock of the table.
\<close>

theorem handoff_race_panics:
  assumes "\<not> unreachable n g" "hinted hh n \<noteq> []"
    and "handoff_attempt n g accept (\<lambda>h. h) hh = (hh1, r)"
    and "HintedHandoff ok n added hh1 = (hh2, sub, b)" "length added < length (hinted hh n)"
  shows "snd (handoff_attempt n g accept (\<lambda>_. hh2) hh) = AttemptPanic"
proof -
  have "hinted hh1 n = []"
    using handoff_attempt_spec [of hh n g "\<lambda>h. h" "[]" accept] assms(1-3) by (auto simp: unreachable_def)
  then have "hinted hh2 n = added" using assms(4) \<open>hinted hh1 n = []\<close> by (auto simp: HintedHandoff_def split: if_splits)
  then show ?thesis using assms(1,2,5) by (auto simp: handoff_attempt_def drop_sent_def Let_def unreachable_def)
qed

theorem handoff_race_panics_witness:
  "\<exists>hh2. hinted hh2 ''b'' = [example_op 8]
     \<and> snd (handoff_attempt ''b'' example_peer (\<lambda>_. True) (\<lambda>_. hh2) [(''b'', [example_op 7, example_op 6])])
       = AttemptPanic"
proof -
  let ?hh = "[(''b'', [example_op 7, example_op 6])]"
  obtain hh1 r where a: "handoff_attempt ''b'' example_peer (\<lambda>_. True) (\<lambda>h. h) ?hh = (hh1, r)" by fastforce
  have e: "hinted hh1 ''b'' = []"
    using handoff_attempt_spec [of ?hh "''b''" example_peer "\<lambda>h. h" "[]" "\<lambda>_. True"] a example_reach
    by (auto simp: hinted_def unreachable_def)
  obtain hh2 sub b where h: "HintedHandoff True ''b'' [example_op 8] hh1 = (hh2, sub, b)"
    by (cases "HintedHandoff True ''b'' [example_op 8] hh1")
  have "hinted hh2 ''b'' = [example_op 8]" using h e by (auto simp: HintedHandoff_def)
  then show ?thesis
    using handoff_race_panics [OF example_reach(2) _ a h] by (auto simp: hinted_def)
qed

end
