(* ===== verification/Scheduler.thy ===== *)
theory Scheduler
  imports GridKV_Prelude
begin

text \<open>
  \<open>internal/utils/executor/scheduler.go\<close>: functions run once after a delay, kept in a binary heap ordered by time.

  \<^item> A \<open>*ScheduledTask\<close> is an address of a store of tasks, because the handle returned by \<open>Schedule\<close> is used by
    \<open>Cancel\<close> and the heap writes the position of a task into it. The heap is the list of the addresses.
  \<^item> \<open>Push\<close>, \<open>Pop\<close>, \<open>up\<close> and \<open>down\<close> are those of Go's \<open>container/heap\<close>.
  \<^item> The dispatcher goroutine is either about to take the lock or blocked on the wakeup channel or on the timer;
    its loop body between two blocking points is one step, since it holds the lock. \<open>Close\<close> signals after it
    has released the lock, so it is two steps.
\<close>

section \<open>The heap\<close>

record ScheduledTask =
  t_when :: gotime
  t_fn :: nat
  t_index :: int
  t_cancel :: bool

type_synonym tasks = "(nat \<Rightarrow> ScheduledTask) \<times> nat list"

definition key_at :: "tasks \<Rightarrow> nat \<Rightarrow> gotime" where
  "key_at q i = t_when (fst q (snd q ! i))"

definition Less :: "tasks \<Rightarrow> nat \<Rightarrow> nat \<Rightarrow> bool" where
  "Less q i j \<longleftrightarrow> key_at q i < key_at q j"

definition set_index :: "nat \<Rightarrow> int \<Rightarrow> (nat \<Rightarrow> ScheduledTask) \<Rightarrow> nat \<Rightarrow> ScheduledTask" where
  "set_index a i m = m(a := (m a)\<lparr>t_index := i\<rparr>)"

definition Swap :: "nat \<Rightarrow> nat \<Rightarrow> tasks \<Rightarrow> tasks" where
  "Swap i j q =
     (let h = (snd q)[i := snd q ! j, j := snd q ! i]
      in (set_index (h ! j) (int j) (set_index (h ! i) (int i) (fst q)), h))"

definition taskHeap_Push :: "nat \<Rightarrow> tasks \<Rightarrow> tasks" where
  "taskHeap_Push a q = (set_index a (int (length (snd q))) (fst q), snd q @ [a])"

definition taskHeap_Pop :: "tasks \<Rightarrow> tasks \<times> nat" where
  "taskHeap_Pop q = (let item = last (snd q) in ((set_index item (-1) (fst q), butlast (snd q)), item))"

function up :: "nat \<Rightarrow> tasks \<Rightarrow> tasks" where
  "up j q = (let i = (j - 1) div 2 in if i = j \<or> \<not> Less q j i then q else up i (Swap i j q))"
  by pat_completeness auto

termination
  by (relation "measure fst") auto

definition child :: "nat \<Rightarrow> nat \<Rightarrow> tasks \<Rightarrow> nat" where
  "child i n q = (let j1 = 2 * i + 1; j2 = j1 + 1 in if j2 < n \<and> Less q j2 j1 then j2 else j1)"

function down :: "nat \<Rightarrow> nat \<Rightarrow> tasks \<Rightarrow> tasks" where
  "down i n q =
     (if 2 * i + 1 \<ge> n then q
      else let j = child i n q in if \<not> Less q j i then q else down j n (Swap i j q))"
  by pat_completeness auto

termination
  by (relation "measure (\<lambda>(i, n, q). n - i)") (auto simp: child_def Let_def)

declare up.simps [simp del] down.simps [simp del]

definition heap_Push :: "nat \<Rightarrow> tasks \<Rightarrow> tasks" where
  "heap_Push a q = (let q1 = taskHeap_Push a q in up (length (snd q1) - 1) q1)"

definition heap_Pop :: "tasks \<Rightarrow> tasks \<times> nat" where
  "heap_Pop q = (let n = length (snd q) - 1 in taskHeap_Pop (down 0 n (Swap 0 n q)))"

section \<open>The scheduler\<close>

datatype dispatcher = Active | WaitWakeup | WaitTimer gotime | Exited

record Scheduler =
  s_tasks :: tasks
  s_fresh :: nat
  s_closed :: bool
  s_wakeup :: bool
  s_signals :: nat
  s_disp :: dispatcher

text \<open>
  \<open>s_fresh\<close> is the next address, \<open>s_wakeup\<close> tells whether the channel of capacity 1 holds a token, \<open>s_signals\<close>
  counts the calls of \<open>Close\<close> that have released the lock and not yet signalled.
\<close>

definition NewScheduler :: Scheduler where
  "NewScheduler =
     \<lparr>s_tasks = (\<lambda>_. \<lparr>t_when = 0, t_fn = 0, t_index = 0, t_cancel = False\<rparr>, []), s_fresh = 0, s_closed = False,
      s_wakeup = False, s_signals = 0, s_disp = Active\<rparr>"

text \<open>A nil function is \<open>None\<close>; the result is the handle.\<close>

definition Schedule :: "gotime \<Rightarrow> duration \<Rightarrow> nat option \<Rightarrow> Scheduler \<Rightarrow> Scheduler \<times> nat option" where
  "Schedule now d fn s =
     (case fn of
        None \<Rightarrow> (s, None)
      | Some f \<Rightarrow>
          if d < 0 then (s, None)
          else
            (let a = s_fresh s;
                 m = (fst (s_tasks s))(a := \<lparr>t_when = now + d, t_fn = f, t_index = 0, t_cancel = False\<rparr>);
                 s1 = s\<lparr>s_tasks := (m, snd (s_tasks s)), s_fresh := a + 1\<rparr>
             in if s_closed s then (s1, None)
                else
                  (let q = heap_Push a (s_tasks s1)
                   in (s1\<lparr>s_tasks := q, s_wakeup := s_wakeup s \<or> t_index (fst q a) = 0\<rparr>, Some a))))"

definition Cancel :: "nat option \<Rightarrow> Scheduler \<Rightarrow> Scheduler" where
  "Cancel t s =
     (case t of
        None \<Rightarrow> s
      | Some a \<Rightarrow> (case s_tasks s of (m, h) \<Rightarrow> s\<lparr>s_tasks := (m(a := (m a)\<lparr>t_cancel := True\<rparr>), h)\<rparr>))"

definition Close_begin :: "Scheduler \<Rightarrow> Scheduler" where
  "Close_begin s = (if s_closed s then s else s\<lparr>s_closed := True, s_signals := s_signals s + 1\<rparr>)"

definition Close_signal :: "Scheduler \<Rightarrow> Scheduler" where
  "Close_signal s = (if s_signals s = 0 then s else s\<lparr>s_wakeup := True, s_signals := s_signals s - 1\<rparr>)"

text \<open>One pass of the dispatcher from the lock to the next blocking point or call; the result is the task it runs.\<close>

definition run_pass :: "gotime \<Rightarrow> Scheduler \<Rightarrow> Scheduler \<times> nat option" where
  "run_pass now s =
     (let q = s_tasks s in
      if s_closed s \<and> length (snd q) = 0 then (s\<lparr>s_disp := Exited\<rparr>, None)
      else if length (snd q) = 0 then (s\<lparr>s_disp := WaitWakeup\<rparr>, None)
      else
        (let nxt = snd q ! 0; wait = t_when (fst q nxt) - now in
         if wait \<le> 0 then
           (case heap_Pop q of (q1, _) \<Rightarrow>
              (s\<lparr>s_tasks := q1\<rparr>, if t_cancel (fst q nxt) then None else Some nxt))
         else (s\<lparr>s_disp := WaitTimer (now + wait)\<rparr>, None)))"

text \<open>A blocked dispatcher continues when the channel holds a token or, in the second select, its timer has fired.\<close>

definition wake :: "gotime \<Rightarrow> bool \<Rightarrow> Scheduler \<Rightarrow> Scheduler" where
  "wake now by_timer s =
     (case s_disp s of
        WaitWakeup \<Rightarrow> if s_wakeup s then s\<lparr>s_disp := Active, s_wakeup := False\<rparr> else s
      | WaitTimer t \<Rightarrow> if by_timer then (if now \<ge> t then s\<lparr>s_disp := Active\<rparr> else s)
                      else if s_wakeup s then s\<lparr>s_disp := Active, s_wakeup := False\<rparr> else s
      | _ \<Rightarrow> s)"

datatype sched_event = EvSchedule duration "nat option" | EvCancel "nat option" | EvClose | EvSignal | EvRun | EvWake bool

text \<open>A step at time \<open>now\<close>, with the handle it returns and the task it runs.\<close>

fun sched_step :: "gotime \<Rightarrow> sched_event \<Rightarrow> Scheduler \<Rightarrow> Scheduler \<times> nat option \<times> nat option" where
  "sched_step now (EvSchedule d fn) s = (case Schedule now d fn s of (s1, h) \<Rightarrow> (s1, h, None))"
| "sched_step now (EvCancel t) s = (Cancel t s, None, None)"
| "sched_step now EvClose s = (Close_begin s, None, None)"
| "sched_step now EvSignal s = (Close_signal s, None, None)"
| "sched_step now EvRun s = (if s_disp s = Active then (case run_pass now s of (s1, f) \<Rightarrow> (s1, None, f)) else (s, None, None))"
| "sched_step now (EvWake by_timer) s = (wake now by_timer s, None, None)"

text \<open>A history: the handles given out and the tasks run, with the time of each run, newest first.\<close>

record sched_run =
  r_sched :: Scheduler
  r_handles :: "nat list"
  r_fired :: "(gotime \<times> nat) list"

fun sched_exec :: "(gotime \<times> sched_event) list \<Rightarrow> sched_run \<Rightarrow> sched_run" where
  "sched_exec [] r = r"
| "sched_exec ((now, ev) # evs) r =
     (case sched_step now ev (r_sched r) of (s, h, f) \<Rightarrow>
        sched_exec evs
          \<lparr>r_sched = s, r_handles = (case h of None \<Rightarrow> [] | Some a \<Rightarrow> [a]) @ r_handles r,
           r_fired = (case f of None \<Rightarrow> [] | Some a \<Rightarrow> [(now, a)]) @ r_fired r\<rparr>)"

text \<open>Rounds of the dispatcher alone at a fixed time.\<close>

definition dispatch :: "gotime \<Rightarrow> Scheduler \<Rightarrow> Scheduler \<times> nat option" where
  "dispatch now s =
     (let s1 = wake now True (wake now False s) in if s_disp s1 = Active then run_pass now s1 else (s1, None))"

fun dispatch_rounds :: "nat \<Rightarrow> gotime \<Rightarrow> Scheduler \<Rightarrow> Scheduler \<times> nat list" where
  "dispatch_rounds 0 now s = (s, [])"
| "dispatch_rounds (Suc n) now s =
     (case dispatch now s of (s1, f) \<Rightarrow>
        (case dispatch_rounds n now s1 of (s2, fs) \<Rightarrow> (s2, (case f of None \<Rightarrow> [] | Some a \<Rightarrow> [a]) @ fs)))"

section \<open>The heap is a priority queue\<close>

text \<open>
  A queue of tasks with a time each. Inside the locale: taking all tasks out one by one gives them in the order
  of their times, each once.
\<close>

locale time_queue =
  fixes push :: "nat \<Rightarrow> 'q \<Rightarrow> 'q" and pop :: "'q \<Rightarrow> 'q \<times> nat"
    and contents :: "'q \<Rightarrow> nat multiset" and time_of :: "'q \<Rightarrow> nat \<Rightarrow> gotime" and qinv :: "'q \<Rightarrow> bool"
  assumes push_inv: "qinv q \<Longrightarrow> a \<notin># contents q \<Longrightarrow> qinv (push a q)"
    and push_contents: "contents (push a q) = add_mset a (contents q)"
    and push_time: "time_of (push a q) = time_of q"
    and pop_inv: "qinv q \<Longrightarrow> contents q \<noteq> {#} \<Longrightarrow> qinv (fst (pop q))"
    and pop_contents: "qinv q \<Longrightarrow> contents q \<noteq> {#} \<Longrightarrow> contents q = add_mset (snd (pop q)) (contents (fst (pop q)))"
    and pop_time: "qinv q \<Longrightarrow> contents q \<noteq> {#} \<Longrightarrow> time_of (fst (pop q)) = time_of q"
    and pop_least: "qinv q \<Longrightarrow> a \<in># contents q \<Longrightarrow> time_of q (snd (pop q)) \<le> time_of q a"
begin

fun drain :: "nat \<Rightarrow> 'q \<Rightarrow> nat list" where
  "drain 0 q = []"
| "drain (Suc n) q = snd (pop q) # drain n (fst (pop q))"

lemma drain_sorted:
  "qinv q \<Longrightarrow> size (contents q) = n \<Longrightarrow>
    mset (drain n q) = contents q \<and> sorted (map (time_of q) (drain n q))"
proof (induction n arbitrary: q)
  case 0
  then show ?case by simp
next
  case (Suc n)
  then have ne: "contents q \<noteq> {#}" by auto
  note c = pop_contents [OF Suc.prems(1) ne]
  have "size (contents (fst (pop q))) = n" using Suc.prems(2) by (subst (asm) c) simp
  then have ih: "mset (drain n (fst (pop q))) = contents (fst (pop q))"
    "sorted (map (time_of q) (drain n (fst (pop q))))"
    using Suc.IH [OF pop_inv [OF Suc.prems(1) ne]] pop_time [OF Suc.prems(1) ne] by simp_all
  have "time_of q (snd (pop q)) \<le> time_of q a" if "a \<in> set (drain n (fst (pop q)))" for a
  proof (rule pop_least [OF Suc.prems(1)])
    have "a \<in># contents (fst (pop q))" using that unfolding ih(1) [symmetric] by simp
    then show "a \<in># contents q" by (subst c) simp
  qed
  moreover have "mset (drain (Suc n) q) = contents q" using c ih(1) by simp
  ultimately show ?case using ih(2) by auto
qed

end

abbreviation parent :: "nat \<Rightarrow> nat" where
  "parent c \<equiv> (c - 1) div 2"

definition heap_ok :: "nat \<Rightarrow> tasks \<Rightarrow> bool" where
  "heap_ok n q \<longleftrightarrow> (\<forall>c. 0 < c \<and> c < n \<longrightarrow> key_at q (parent c) \<le> key_at q c)"

definition task_time :: "tasks \<Rightarrow> nat \<Rightarrow> gotime" where
  "task_time q a = t_when (fst q a)"

text \<open>What swapping two positions keeps: the tasks and all their fields but the position.\<close>

definition same_tasks :: "tasks \<Rightarrow> tasks \<Rightarrow> bool" where
  "same_tasks q q' \<longleftrightarrow> mset (snd q') = mset (snd q)
     \<and> (\<forall>a. t_when (fst q' a) = t_when (fst q a) \<and> t_fn (fst q' a) = t_fn (fst q a) \<and> t_cancel (fst q' a) = t_cancel (fst q a))
     \<and> (\<forall>a. a \<notin> set (snd q) \<longrightarrow> fst q' a = fst q a)"

definition index_ok :: "tasks \<Rightarrow> bool" where
  "index_ok q \<longleftrightarrow> distinct (snd q) \<and> (\<forall>i < length (snd q). t_index (fst q (snd q ! i)) = int i)"

lemma set_index_fields [simp]:
  "t_when (set_index a i m b) = t_when (m b)" "t_fn (set_index a i m b) = t_fn (m b)"
  "t_cancel (set_index a i m b) = t_cancel (m b)" "t_index (set_index a i m b) = (if b = a then i else t_index (m b))"
  by (simp_all add: set_index_def)

lemma set_index_other: "b \<noteq> a \<Longrightarrow> set_index a i m b = m b"
  by (simp add: set_index_def)

lemma length_Swap [simp]: "length (snd (Swap i j q)) = length (snd q)"
  by (simp add: Swap_def Let_def)

lemma key_at_Swap:
  "i < length (snd q) \<Longrightarrow> j < length (snd q) \<Longrightarrow>
    key_at (Swap i j q) k = key_at q (if k = j then i else if k = i then j else k)"
  by (auto simp: key_at_def Swap_def Let_def nth_list_update)

lemma same_tasks_refl [simp]: "same_tasks q q"
  by (simp add: same_tasks_def)

lemma same_tasks_Swap:
  assumes "same_tasks p q" "i < length (snd q)" "j < length (snd q)"
  shows "same_tasks p (Swap i j q)"
proof -
  have "mset ((snd q)[i := snd q ! j, j := snd q ! i]) = mset (snd q)"
    using assms(2,3) by (simp add: mset_swap)
  then have m: "mset (snd (Swap i j q)) = mset (snd p)" using assms(1) by (simp add: Swap_def Let_def same_tasks_def)
  have "fst (Swap i j q) a = fst q a" if "a \<notin> set (snd p)" for a
  proof -
    have "a \<notin> set (snd (Swap i j q))" using that m by (metis set_mset_mset)
    then have "a \<noteq> snd (Swap i j q) ! i" "a \<noteq> snd (Swap i j q) ! j" using assms(2,3) by auto
    then show ?thesis by (simp add: Swap_def Let_def set_index_other)
  qed
  then show ?thesis using assms(1) m by (simp add: same_tasks_def Swap_def Let_def)
qed

lemma index_ok_Swap:
  assumes "index_ok q" "i < length (snd q)" "j < length (snd q)"
  shows "index_ok (Swap i j q)"
proof -
  let ?h = "(snd q)[i := snd q ! j, j := snd q ! i]"
  have d: "distinct ?h" using assms by (simp add: index_ok_def distinct_swap)
  have "t_index (fst (Swap i j q) (?h ! k)) = int k" if "k < length ?h" for k
    using that assms d by (auto simp: Swap_def Let_def index_ok_def nth_eq_iff_index_eq nth_list_update)
  then show ?thesis using d by (simp add: index_ok_def Swap_def Let_def)
qed

text \<open>Moving a task up or down only swaps positions.\<close>

lemma up_swaps:
  assumes "\<And>i j q. P q \<Longrightarrow> i < length (snd q) \<Longrightarrow> j < length (snd q) \<Longrightarrow> P (Swap i j q)" "P q" "j < length (snd q)"
  shows "P (up j q)"
  using assms(2,3)
proof (induction j q rule: up.induct)
  case (1 j q)
  show ?case
  proof (cases "(j - 1) div 2 = j \<or> \<not> Less q j ((j - 1) div 2)")
    case True
    then show ?thesis using 1 by (subst up.simps) (simp add: Let_def)
  next
    case False
    have "(j - 1) div 2 < length (snd q)" using 1(3) by linarith
    then show ?thesis using 1 False assms(1) [OF 1(2)] by (subst up.simps) (simp add: Let_def)
  qed
qed

lemma child_bounds: "2 * i + 1 < n \<Longrightarrow> i < child i n q \<and> child i n q < n \<and> parent (child i n q) = i"
  by (auto simp: child_def Let_def)

lemma down_swaps:
  assumes "\<And>i j q. P q \<Longrightarrow> i < n \<Longrightarrow> j < n \<Longrightarrow> P (Swap i j q)" "P q"
  shows "P (down i n q)"
  using assms
proof (induction i n q rule: down.induct)
  case (1 i n q)
  show ?case
  proof (cases "n \<le> 2 * i + 1 \<or> \<not> Less q (child i n q) i")
    case True
    then show ?thesis using 1(3) by (subst down.simps) (auto simp: Let_def)
  next
    case False
    then have c: "child i n q < n" "i < n" using child_bounds [of i n q] by auto
    have "P (Swap i (child i n q) q)" using 1(2) [OF 1(3)] c by blast
    then show ?thesis using 1(1) [OF _ refl] 1(2) False by (subst down.simps) (simp add: Let_def)
  qed
qed

lemma up_heap:
  assumes "j < n" "n = length (snd q)"
    and "\<And>c. 0 < c \<Longrightarrow> c < n \<Longrightarrow> c \<noteq> j \<Longrightarrow> key_at q (parent c) \<le> key_at q c"
    and "\<And>c. 0 < c \<Longrightarrow> c < n \<Longrightarrow> parent c = j \<Longrightarrow> 0 < j \<Longrightarrow> key_at q (parent j) \<le> key_at q c"
  shows "heap_ok n (up j q)"
  using assms
proof (induction j q rule: up.induct)
  case (1 j q)
  define i where "i = (j - 1) div 2"
  show ?case
  proof (cases "i = j \<or> \<not> Less q j i")
    case True
    then have "key_at q (parent j) \<le> key_at q j" if "0 < j" using that by (auto simp: Less_def i_def)
    then have "heap_ok n q" using 1(4) unfolding heap_ok_def by (metis le_refl)
    then show ?thesis using True by (subst up.simps) (simp add: Let_def i_def)
  next
    case False
    then have j: "0 < j" "i < j" "key_at q j < key_at q i" by (auto simp: Less_def i_def)
    define q' where "q' = Swap i j q"
    have k: "key_at q' c = key_at q (if c = j then i else if c = i then j else c)" for c
      unfolding q'_def using 1(2,3) j(2) by (intro key_at_Swap) linarith+
    have low: "key_at q i \<le> key_at q c" if "0 < c" "c < n" "parent c = i \<or> parent c = j" "c \<noteq> j" for c
      using that 1(4) [of c] 1(5) [of c] j(1) unfolding i_def by auto
    have "key_at q' (parent c) \<le> key_at q' c" if c: "0 < c" "c < n" "c \<noteq> i" for c
    proof (cases "parent c = i \<or> parent c = j")
      case True
      have pj: "parent j = i" "j \<noteq> i" using j by (simp_all add: i_def)
      show ?thesis
      proof (cases "c = j")
        case True
        then show ?thesis unfolding k using pj j(3) by simp
      next
        case False
        then show ?thesis unfolding k using low [of c] c \<open>parent c = i \<or> parent c = j\<close> pj(2) j(3) by auto
      qed
    next
      case False
      then have "c \<noteq> j" by (auto simp: i_def)
      then show ?thesis unfolding k using 1(4) [of c] c False by simp
    qed
    moreover have "key_at q' (parent i) \<le> key_at q' c" if c: "0 < c" "c < n" "parent c = i" "0 < i" for c
    proof -
      have "key_at q (parent i) \<le> key_at q i" using 1(4) [of i] c(4) j(2) 1(2) by linarith
      moreover have "parent i \<noteq> i" "parent i \<noteq> j" "c \<noteq> i" using c j(2) by linarith+
      ultimately show ?thesis using low [of c] c by (cases "c = j") (auto simp: k)
    qed
    ultimately have "heap_ok n (up i q')"
      using 1(1) [OF i_def] False 1(2,3) j(2) by (auto simp: q'_def)
    then show ?thesis using False by (subst up.simps) (simp add: Let_def i_def q'_def)
  qed
qed

lemma down_heap:
  assumes "n \<le> length (snd q)"
    and "\<And>c. 0 < c \<Longrightarrow> c < n \<Longrightarrow> parent c \<noteq> i \<Longrightarrow> key_at q (parent c) \<le> key_at q c"
    and "\<And>c. 0 < c \<Longrightarrow> c < n \<Longrightarrow> parent c = i \<Longrightarrow> 0 < i \<Longrightarrow> key_at q (parent i) \<le> key_at q c"
  shows "heap_ok n (down i n q)"
  using assms
proof (induction i n q rule: down.induct)
  case (1 i n q)
  let ?j = "child i n q"
  have least: "key_at q ?j \<le> key_at q c" if "0 < c" "c < n" "parent c = i" for c
  proof -
    have "c = 2 * i + 1 \<or> c = 2 * i + 2" using that by auto
    then show ?thesis using that(2) by (auto simp: child_def Let_def Less_def)
  qed
  show ?case
  proof (cases "n \<le> 2 * i + 1 \<or> \<not> Less q ?j i")
    case True
    have "key_at q (parent c) \<le> key_at q c" if "0 < c" "c < n" for c
    proof (cases "parent c = i")
      case True
      then have "\<not> n \<le> 2 * i + 1" using that by linarith
      then have "key_at q i \<le> key_at q ?j" using \<open>n \<le> 2 * i + 1 \<or> \<not> Less q ?j i\<close> by (auto simp: Less_def)
      then show ?thesis using least [OF that True] True by simp
    qed (use 1(3) that in auto)
    then have "heap_ok n q" by (simp add: heap_ok_def)
    then show ?thesis using True by (subst down.simps) (auto simp: Let_def)
  next
    case False
    then have j: "i < ?j" "?j < n" "parent ?j = i" "key_at q ?j < key_at q i"
      using child_bounds [of i n q] by (auto simp: Less_def)
    let ?q = "Swap i ?j q"
    have k: "key_at ?q c = key_at q (if c = ?j then i else if c = i then ?j else c)" for c
      using 1(2) j by (intro key_at_Swap) auto
    have "key_at ?q (parent c) \<le> key_at ?q c" if c: "0 < c" "c < n" "parent c \<noteq> ?j" for c
    proof (cases "parent c = i")
      case True
      then show ?thesis using least [OF c(1,2) True] j c by (auto simp: k)
    next
      case False
      have "key_at q (parent i) \<le> key_at q ?j" if "0 < i" using 1(4) [of ?j] that j by auto
      then show ?thesis using 1(3) [of c] c False j by (auto simp: k)
    qed
    moreover have "key_at ?q (parent ?j) \<le> key_at ?q c" if c: "0 < c" "c < n" "parent c = ?j" for c
    proof -
      have "?j < c" using c by linarith
      then show ?thesis using 1(3) [of c] c j by (auto simp: k)
    qed
    ultimately have "heap_ok n (down ?j n ?q)"
      using 1(1) [OF _ refl] False 1(2) by auto
    then show ?thesis using False by (subst down.simps) (auto simp: Let_def)
  qed
qed

lemma heap_ok_root:
  assumes "heap_ok n q" "c < n"
  shows "key_at q 0 \<le> key_at q c"
  using assms(2)
proof (induction c rule: less_induct)
  case (less c)
  show ?case
  proof (cases "c = 0")
    case False
    then have "key_at q 0 \<le> key_at q (parent c)" using less by (intro less.IH) linarith+
    also have "\<dots> \<le> key_at q c" using assms(1) less.prems False by (simp add: heap_ok_def)
    finally show ?thesis .
  qed simp
qed

definition queue_ok :: "tasks \<Rightarrow> bool" where
  "queue_ok q \<longleftrightarrow> heap_ok (length (snd q)) q \<and> index_ok q"

lemma same_tasks_mset: "same_tasks q q' \<Longrightarrow> mset (snd q') = mset (snd q)"
  by (simp add: same_tasks_def)

lemma same_tasks_length: "same_tasks q q' \<Longrightarrow> length (snd q') = length (snd q)"
  using mset_eq_length same_tasks_mset by blast

lemma up_same: "j < length (snd q) \<Longrightarrow> same_tasks q (up j q)"
  by (rule up_swaps [where P = "same_tasks q"]) (auto intro: same_tasks_Swap)

lemma down_same: "n \<le> length (snd q) \<Longrightarrow> same_tasks q (down i n q)"
proof (rule down_swaps [where P = "same_tasks q"])
  fix i j q'
  assume "n \<le> length (snd q)" "same_tasks q q'" "i < n" "j < n"
  then show "same_tasks q (Swap i j q')" using same_tasks_length [of q q'] by (intro same_tasks_Swap) auto
qed simp

lemma down_index:
  assumes "n \<le> length (snd q)" "index_ok q"
  shows "index_ok (down i n q)"
proof -
  have "index_ok (down i n q) \<and> n \<le> length (snd (down i n q))"
    by (rule down_swaps [where P = "\<lambda>q. index_ok q \<and> n \<le> length (snd q)"]) (use assms in \<open>auto intro: index_ok_Swap\<close>)
  then show ?thesis by simp
qed

lemma down_above: "n \<le> k \<Longrightarrow> snd (down i n q) ! k = snd q ! k"
  by (rule down_swaps [where P = "\<lambda>q'. snd q' ! k = snd q ! k"]) (auto simp: Swap_def Let_def)

lemma heap_Push_same: "same_tasks (taskHeap_Push a q) (heap_Push a q)"
  by (auto simp: heap_Push_def Let_def taskHeap_Push_def intro!: up_same)

lemma heap_Push_ok:
  assumes "queue_ok q" "a \<notin> set (snd q)"
  shows "queue_ok (heap_Push a q)"
proof -
  let ?q = "taskHeap_Push a q" and ?n = "length (snd q)"
  have l: "length (snd ?q) = Suc ?n" by (simp add: taskHeap_Push_def)
  have k: "key_at ?q c = key_at q c" if "c < ?n" for c
    using that by (simp add: key_at_def taskHeap_Push_def nth_append)
  have i: "index_ok ?q" using assms by (auto simp: index_ok_def queue_ok_def taskHeap_Push_def nth_append less_Suc_eq)
  have "heap_ok (Suc ?n) (up ?n ?q)"
  proof (rule up_heap)
    fix c
    assume c: "0 < c" "c < Suc ?n" "c \<noteq> ?n"
    then have "key_at q (parent c) \<le> key_at q c" using assms(1) by (simp add: queue_ok_def heap_ok_def)
    moreover have "c < ?n" "parent c < ?n" using c by linarith+
    ultimately show "key_at ?q (parent c) \<le> key_at ?q c" by (simp add: k)
  qed (auto simp: l)
  moreover have "index_ok (up ?n ?q)" by (rule up_swaps [where P = index_ok]) (auto intro: index_ok_Swap i simp: l)
  moreover have "length (snd (up ?n ?q)) = Suc ?n" using same_tasks_length [OF up_same [of ?n ?q]] by (simp add: l)
  ultimately show ?thesis by (simp add: queue_ok_def heap_Push_def Let_def l)
qed

lemma heap_Pop_spec:
  assumes q: "queue_ok q" and ne: "snd q \<noteq> []" and p: "heap_Pop q = (q', a)"
  shows "queue_ok q'" "a = snd q ! 0" "mset (snd q) = add_mset a (mset (snd q'))" "t_index (fst q' a) = -1"
    "\<And>b. t_when (fst q' b) = t_when (fst q b) \<and> t_fn (fst q' b) = t_fn (fst q b) \<and> t_cancel (fst q' b) = t_cancel (fst q b)"
    "\<And>b. b \<notin> set (snd q) \<Longrightarrow> fst q' b = fst q b"
proof -
  define n where "n = length (snd q) - 1"
  define r where "r = down 0 n (Swap 0 n q)"
  have n: "length (snd q) = Suc n" using ne by (cases "snd q") (auto simp: n_def)
  have ix: "index_ok (Swap 0 n q)" using q n by (intro index_ok_Swap) (auto simp: queue_ok_def)
  have s: "same_tasks q r"
    unfolding r_def
  proof (rule down_swaps [where P = "same_tasks q"])
    show "same_tasks q (Swap 0 n q)" using n by (intro same_tasks_Swap) auto
    fix i j q'
    assume "same_tasks q q'" "i < n" "j < n"
    then show "same_tasks q (Swap i j q')" using n same_tasks_length [of q q'] by (intro same_tasks_Swap) auto
  qed
  have lr: "length (snd r) = Suc n" using same_tasks_length [OF s] n by simp
  have top: "snd r ! n = snd q ! 0"
    unfolding r_def using n by (simp add: down_above Swap_def Let_def)
  have h: "heap_ok n r"
    unfolding r_def
  proof (rule down_heap)
    fix c
    assume c: "0 < c" "c < n" "parent c \<noteq> 0"
    then have "key_at q (parent c) \<le> key_at q c" using q n by (simp add: queue_ok_def heap_ok_def)
    moreover have "parent c < n" "parent c \<noteq> 0" using c by linarith+
    ultimately show "key_at (Swap 0 n q) (parent c) \<le> key_at (Swap 0 n q) c" using c n by (simp add: key_at_Swap)
  qed (simp_all add: n)
  have ir: "index_ok r" unfolding r_def using ix n by (intro down_index) simp_all
  have sr: "snd r = butlast (snd r) @ [snd r ! n]"
    using lr by (metis append_butlast_last_id last_conv_nth length_0_conv nat.distinct(1) diff_Suc_1)
  have hp: "heap_Pop q = taskHeap_Pop r" by (simp add: heap_Pop_def r_def n_def Let_def)
  have lst: "last (snd r) = snd r ! n" using lr by (subst last_conv_nth) auto
  have q': "a = snd r ! n" "q' = (set_index a (-1) (fst r), butlast (snd r))"
    using p hp lst by (auto simp: taskHeap_Pop_def Let_def)
  show "a = snd q ! 0" using q'(1) top by simp
  show "mset (snd q) = add_mset a (mset (snd q'))"
    using same_tasks_mset [OF s] arg_cong [OF sr, of mset] by (simp only: q' mset_append snd_conv) simp
  have d: "distinct (snd r)" using ir by (simp add: index_ok_def)
  have na: "a \<notin> set (butlast (snd r))" using d sr by (metis q'(1) distinct_append list.set_intros(1) disjoint_iff)
  have nb: "butlast (snd r) ! k = snd r ! k" if "k < n" for k using that lr by (simp add: nth_butlast)
  have "key_at q' k = key_at r k" if "k < n" for k using that by (simp add: key_at_def q' nb)
  then have "heap_ok n q'" using h by (auto simp: heap_ok_def)
  moreover have "index_ok q'"
    using ir d na lr by (auto simp: index_ok_def q'(2) nb distinct_butlast in_set_conv_nth nth_butlast)
  ultimately show "queue_ok q'" using lr by (simp add: queue_ok_def q'(2))
  show "t_index (fst q' a) = -1" by (simp add: q')
  show "t_when (fst q' b) = t_when (fst q b) \<and> t_fn (fst q' b) = t_fn (fst q b) \<and> t_cancel (fst q' b) = t_cancel (fst q b)" for b
    using s by (simp add: q' same_tasks_def)
  have "a \<in> set (snd q)" using \<open>a = snd q ! 0\<close> ne by simp
  then show "b \<notin> set (snd q) \<Longrightarrow> fst q' b = fst q b" for b
    using s by (auto simp: q'(2) same_tasks_def set_index_def)
qed

interpretation tq: time_queue heap_Push heap_Pop "\<lambda>q. mset (snd q)" task_time queue_ok
proof
  fix q :: tasks and a
  show "queue_ok (heap_Push a q)" if "queue_ok q" "a \<notin># mset (snd q)" using heap_Push_ok that by simp
  show "mset (snd (heap_Push a q)) = add_mset a (mset (snd q))"
    using same_tasks_mset [OF heap_Push_same [of a q]] by (simp add: taskHeap_Push_def)
  show "task_time (heap_Push a q) = task_time q"
    using heap_Push_same [of a q] by (auto simp: task_time_def same_tasks_def taskHeap_Push_def)
next
  fix q :: tasks and a
  assume q: "queue_ok q"
  obtain q' b where p: "heap_Pop q = (q', b)" by (cases "heap_Pop q")
  { assume "mset (snd q) \<noteq> {#}"
    then have ne: "snd q \<noteq> []" by simp
    show "queue_ok (fst (heap_Pop q))" "mset (snd q) = add_mset (snd (heap_Pop q)) (mset (snd (fst (heap_Pop q))))"
      "task_time (fst (heap_Pop q)) = task_time q"
      using heap_Pop_spec [OF q ne p] by (auto simp: p task_time_def) }
  assume "a \<in># mset (snd q)"
  then obtain c where c: "c < length (snd q)" "snd q ! c = a" by (auto simp: in_set_conv_nth)
  then have "snd q \<noteq> []" by auto
  then have "b = snd q ! 0" using heap_Pop_spec(2) [OF q _ p] by simp
  then show "task_time q (snd (heap_Pop q)) \<le> task_time q a"
    using heap_ok_root [of "length (snd q)" q c] q c by (simp add: p queue_ok_def task_time_def key_at_def)
qed

section \<open>Invariant of the scheduler\<close>

abbreviation pending :: "Scheduler \<Rightarrow> nat list" where
  "pending s \<equiv> snd (s_tasks s)"

abbreviation task :: "Scheduler \<Rightarrow> nat \<Rightarrow> ScheduledTask" where
  "task s \<equiv> fst (s_tasks s)"

text \<open>
  No wakeup is lost: a dispatcher that is blocked without a token has nothing to do before its timer fires.
\<close>

definition wakeup_ok :: "Scheduler \<Rightarrow> bool" where
  "wakeup_ok s \<longleftrightarrow> (case s_disp s of
       Active \<Rightarrow> True
     | WaitWakeup \<Rightarrow> s_wakeup s \<or> pending s = [] \<and> (s_closed s \<longrightarrow> 0 < s_signals s)
     | WaitTimer t \<Rightarrow> pending s \<noteq> [] \<and> (s_wakeup s \<or> t \<le> t_when (task s (pending s ! 0)))
     | Exited \<Rightarrow> s_closed s \<and> pending s = [])"

definition sched_inv :: "Scheduler \<Rightarrow> bool" where
  "sched_inv s \<longleftrightarrow> queue_ok (s_tasks s) \<and> (\<forall>a \<in> set (pending s). a < s_fresh s) \<and> wakeup_ok s"

lemma queue_ok_cong:
  assumes "queue_ok q" "snd q' = snd q"
    and "\<And>a. a \<in> set (snd q) \<Longrightarrow> t_when (fst q' a) = t_when (fst q a) \<and> t_index (fst q' a) = t_index (fst q a)"
  shows "queue_ok q'"
proof -
  have "key_at q' i = key_at q i" if "i < length (snd q)" for i using that assms(2,3) by (simp add: key_at_def)
  moreover have "parent c < length (snd q)" if "c < length (snd q)" for c using that by linarith
  ultimately show ?thesis using assms by (auto simp: queue_ok_def heap_ok_def index_ok_def)
qed

lemma queue_root:
  assumes "queue_ok q" "a \<in> set (snd q)"
  shows "t_when (fst q (snd q ! 0)) \<le> t_when (fst q a)"
proof -
  obtain c where "c < length (snd q)" "snd q ! c = a" using assms(2) by (auto simp: in_set_conv_nth)
  then show ?thesis using heap_ok_root [of "length (snd q)" q c] assms(1) by (simp add: queue_ok_def key_at_def)
qed

lemma index_root:
  assumes "queue_ok q" "a \<in> set (snd q)"
  shows "t_index (fst q a) = 0 \<longleftrightarrow> a = snd q ! 0"
proof -
  obtain c where c: "c < length (snd q)" "snd q ! c = a" using assms(2) by (auto simp: in_set_conv_nth)
  then have "t_index (fst q a) = int c" "a = snd q ! 0 \<longleftrightarrow> c = 0"
    using assms(1) nth_eq_iff_index_eq [of "snd q" c 0] by (fastforce simp: queue_ok_def index_ok_def)+
  then show ?thesis by simp
qed

lemma Schedule_inv:
  assumes s: "sched_inv s" and r: "Schedule now d fn s = (s', h)"
  shows "sched_inv s'"
    "h = None \<Longrightarrow> pending s' = pending s" "\<And>a. h = Some a \<Longrightarrow> a = s_fresh s \<and> mset (pending s') = add_mset a (mset (pending s))"
    "\<And>b. b < s_fresh s \<Longrightarrow> t_when (task s' b) = t_when (task s b) \<and> t_cancel (task s' b) = t_cancel (task s b)"
    "s_fresh s \<le> s_fresh s'" "\<And>a. h = Some a \<Longrightarrow> a < s_fresh s'"
proof -
  define new where "new = (task s)(s_fresh s := \<lparr>t_when = now + d, t_fn = the fn, t_index = 0, t_cancel = False\<rparr>)"
  let ?q = "(new, pending s)" and ?a = "s_fresh s"
  have fresh: "?a \<notin> set (pending s)" using s by (auto simp: sched_inv_def)
  have q: "queue_ok ?q"
    using s fresh by (intro queue_ok_cong [of "s_tasks s" ?q]) (auto simp: sched_inv_def new_def)
  have nw: "new b = task s b" if "b < ?a" for b using that by (simp add: new_def)
  let ?p = "heap_Push ?a ?q"
  have p: "queue_ok ?p" using heap_Push_ok [OF q] fresh by simp
  have sm: "same_tasks (taskHeap_Push ?a ?q) ?p" by (rule heap_Push_same)
  then have mp: "mset (snd ?p) = add_mset ?a (mset (pending s))"
    by (simp add: same_tasks_def taskHeap_Push_def)
  have tp: "t_when (fst ?p b) = t_when (new b)" "t_cancel (fst ?p b) = t_cancel (new b)" for b
    using sm by (simp_all add: same_tasks_def taskHeap_Push_def)
  have sp: "set (snd ?p) = insert ?a (set (pending s))" using mp by (metis set_mset_add_mset_insert set_mset_mset)
  have ne: "snd ?p \<noteq> []" using sp by auto
  consider (none) "s' = s" "h = None"
    | (refused) "s' = s\<lparr>s_tasks := ?q, s_fresh := ?a + 1\<rparr>" "h = None" "s_closed s"
    | (ok) "s' = s\<lparr>s_tasks := ?p, s_fresh := ?a + 1, s_wakeup := s_wakeup s \<or> t_index (fst ?p ?a) = 0\<rparr>"
        "h = Some ?a" "\<not> s_closed s"
    using r by (cases fn) (auto simp: Schedule_def Let_def new_def split: if_splits)
  then have "sched_inv s' \<and> (h = None \<longrightarrow> pending s' = pending s)
    \<and> (\<forall>a. h = Some a \<longrightarrow> a = ?a \<and> mset (pending s') = add_mset a (mset (pending s)) \<and> a < s_fresh s')
    \<and> (\<forall>b < ?a. t_when (task s' b) = t_when (task s b) \<and> t_cancel (task s' b) = t_cancel (task s b)) \<and> ?a \<le> s_fresh s'"
  proof cases
    case none
    then show ?thesis using s by simp
  next
    case refused
    have "pending s ! 0 \<noteq> ?a" if "pending s \<noteq> []" using fresh that by (metis nth_mem length_greater_0_conv)
    then have "wakeup_ok s'"
      using s refused by (auto simp: sched_inv_def wakeup_ok_def new_def split: dispatcher.splits)
    then show ?thesis using s q refused by (auto simp: sched_inv_def new_def less_Suc_eq)
  next
    case ok
    have "t \<le> t_when (fst ?p (snd ?p ! 0))"
      if t: "t \<le> t_when (task s (pending s ! 0))" and n: "t_index (fst ?p ?a) \<noteq> 0" for t
    proof -
      have "snd ?p ! 0 \<noteq> ?a" using index_root [OF p] sp n by auto
      then have b: "snd ?p ! 0 \<in> set (pending s)" using sp ne by (metis insert_iff length_greater_0_conv nth_mem)
      then have "t_when (task s (pending s ! 0)) \<le> t_when (task s (snd ?p ! 0))"
        using queue_root s by (simp add: sched_inv_def)
      also have "task s (snd ?p ! 0) = new (snd ?p ! 0)" using b fresh by (auto simp: new_def)
      finally show ?thesis using t by (simp add: tp)
    qed
    moreover have "t_index (fst ?p ?a) = 0" if "pending s = []"
      using that index_root [OF p, of ?a] sp ne by (metis insertI1 length_greater_0_conv nth_mem singletonD empty_set)
    ultimately have "wakeup_ok s'"
      using s ok ne by (auto simp: sched_inv_def wakeup_ok_def split: dispatcher.splits)
    then show ?thesis using s ok p mp sp nw by (auto simp: sched_inv_def tp less_Suc_eq)
  qed
  then show "sched_inv s'"
    "h = None \<Longrightarrow> pending s' = pending s" "\<And>a. h = Some a \<Longrightarrow> a = ?a \<and> mset (pending s') = add_mset a (mset (pending s))"
    "\<And>b. b < ?a \<Longrightarrow> t_when (task s' b) = t_when (task s b) \<and> t_cancel (task s' b) = t_cancel (task s b)"
    "?a \<le> s_fresh s'" "\<And>a. h = Some a \<Longrightarrow> a < s_fresh s'"
    by auto
qed

lemma Cancel_frame [simp]:
  "pending (Cancel t s) = pending s" "t_when (task (Cancel t s) b) = t_when (task s b)"
  "t_index (task (Cancel t s) b) = t_index (task s b)"
  "s_fresh (Cancel t s) = s_fresh s" "s_disp (Cancel t s) = s_disp s" "s_wakeup (Cancel t s) = s_wakeup s"
  "s_closed (Cancel t s) = s_closed s" "s_signals (Cancel t s) = s_signals s"
  by (auto simp: Cancel_def case_prod_beta split: option.split)

lemma Cancel_cancels: "t_cancel (task s b) \<Longrightarrow> t_cancel (task (Cancel t s) b)"
  by (auto simp: Cancel_def case_prod_beta split: option.split)

lemma Cancel_inv:
  assumes "sched_inv s"
  shows "sched_inv (Cancel t s)"
proof -
  have "queue_ok (s_tasks (Cancel t s))"
    by (rule queue_ok_cong [of "s_tasks s"]) (use assms in \<open>simp_all add: sched_inv_def\<close>)
  then show ?thesis using assms by (simp add: sched_inv_def wakeup_ok_def split: dispatcher.splits)
qed

lemma Close_inv:
  assumes "sched_inv s"
  shows "sched_inv (Close_begin s)" "sched_inv (Close_signal s)"
  using assms by (auto simp: Close_begin_def Close_signal_def sched_inv_def wakeup_ok_def split: dispatcher.split)

lemma Close_frame [simp]:
  "s_tasks (Close_begin s) = s_tasks s" "s_fresh (Close_begin s) = s_fresh s"
  "s_tasks (Close_signal s) = s_tasks s" "s_fresh (Close_signal s) = s_fresh s"
  by (simp_all add: Close_begin_def Close_signal_def)

lemma wake_inv: "sched_inv s \<Longrightarrow> sched_inv (wake now b s)"
  by (auto simp: wake_def sched_inv_def wakeup_ok_def split: dispatcher.split)

lemma wake_frame [simp]: "s_tasks (wake now b s) = s_tasks s" "s_fresh (wake now b s) = s_fresh s"
  by (auto simp: wake_def split: dispatcher.split)

text \<open>A pass takes the earliest task if it is due, and otherwise blocks or ends.\<close>

lemma run_pass_spec:
  assumes s: "sched_inv s" and d: "s_disp s = Active" and r: "run_pass now s = (s', f)"
  shows "sched_inv s'" "s_fresh s' = s_fresh s"
    "\<And>b. t_when (task s' b) = t_when (task s b) \<and> t_cancel (task s' b) = t_cancel (task s b)"
    "if pending s \<noteq> [] \<and> t_when (task s (pending s ! 0)) \<le> now
     then s_disp s' = Active \<and> mset (pending s) = add_mset (pending s ! 0) (mset (pending s'))
       \<and> f = (if t_cancel (task s (pending s ! 0)) then None else Some (pending s ! 0))
     else s_tasks s' = s_tasks s \<and> f = None"
proof -
  let ?a = "pending s ! 0"
  have q: "queue_ok (s_tasks s)" using s by (simp add: sched_inv_def)
  have "sched_inv s' \<and> s_fresh s' = s_fresh s
    \<and> (\<forall>b. t_when (task s' b) = t_when (task s b) \<and> t_cancel (task s' b) = t_cancel (task s b))
    \<and> (if pending s \<noteq> [] \<and> t_when (task s ?a) \<le> now
       then s_disp s' = Active \<and> mset (pending s) = add_mset ?a (mset (pending s'))
         \<and> f = (if t_cancel (task s ?a) then None else Some ?a)
       else s_tasks s' = s_tasks s \<and> f = None)"
  proof (cases "pending s \<noteq> [] \<and> t_when (task s ?a) \<le> now")
    case True
    obtain q1 a where p: "heap_Pop (s_tasks s) = (q1, a)" by (cases "heap_Pop (s_tasks s)")
    note h = heap_Pop_spec [OF q conjunct1 [OF True] p]
    have s': "s' = s\<lparr>s_tasks := q1\<rparr>" "f = (if t_cancel (task s ?a) then None else Some ?a)"
      using r True p by (auto simp: run_pass_def Let_def)
    have "set (snd q1) \<subseteq> set (pending s)" using h(3) by (metis set_mset_mset set_mset_add_mset_insert subset_insertI)
    then have "sched_inv s'" using s h(1) d by (auto simp: sched_inv_def wakeup_ok_def s')
    then show ?thesis using True h d by (simp add: s')
  next
    case False
    then show ?thesis
      using r s d by (auto simp: run_pass_def Let_def sched_inv_def wakeup_ok_def split: if_splits)
  qed
  then show "sched_inv s'" "s_fresh s' = s_fresh s"
    "\<And>b. t_when (task s' b) = t_when (task s b) \<and> t_cancel (task s' b) = t_cancel (task s b)"
    "if pending s \<noteq> [] \<and> t_when (task s ?a) \<le> now
     then s_disp s' = Active \<and> mset (pending s) = add_mset ?a (mset (pending s'))
       \<and> f = (if t_cancel (task s ?a) then None else Some ?a)
     else s_tasks s' = s_tasks s \<and> f = None"
    by blast+
qed

lemma NewScheduler_inv: "sched_inv NewScheduler"
  by (simp add: NewScheduler_def sched_inv_def queue_ok_def heap_ok_def index_ok_def wakeup_ok_def)

text \<open>
  The history of a scheduler: of the accepted tasks \<open>H\<close>, the tasks \<open>P\<close> are waiting, those of \<open>F\<close> were run, each
  once and not before its time, and the others were cancelled.
\<close>

definition history :: "nat set \<Rightarrow> nat set \<Rightarrow> (gotime \<times> nat) list \<Rightarrow> (nat \<Rightarrow> gotime) \<Rightarrow> (nat \<Rightarrow> bool) \<Rightarrow> bool" where
  "history P H F w c \<longleftrightarrow> P \<union> snd ` set F \<subseteq> H \<and> H \<subseteq> P \<union> snd ` set F \<union> {a. c a}
     \<and> distinct (map snd F) \<and> P \<inter> snd ` set F = {} \<and> (\<forall>(now, a) \<in> set F. w a \<le> now)"

lemma history_cong:
  assumes "history P H F w c" "\<And>a. a \<in> H \<Longrightarrow> w' a = w a" "\<And>a. a \<in> H \<Longrightarrow> c a \<Longrightarrow> c' a"
  shows "history P H F w' c'"
proof -
  have "w' a \<le> now" if "(now, a) \<in> set F" for now a
  proof -
    have "a \<in> H" using assms(1) that unfolding history_def by force
    then show ?thesis using assms(1,2) that by (fastforce simp: history_def)
  qed
  moreover have "H \<subseteq> P \<union> snd ` set F \<union> {a. c' a}" using assms(1,3) unfolding history_def by blast
  ultimately show ?thesis using assms(1) unfolding history_def by blast
qed

lemma history_add: "history P H F w c \<Longrightarrow> a \<notin> H \<Longrightarrow> history (insert a P) (insert a H) F w c"
  unfolding history_def by blast

lemma history_fire: "history (insert a P) H F w c \<Longrightarrow> a \<notin> P \<Longrightarrow> w a \<le> now \<Longrightarrow> history P H ((now, a) # F) w c"
  by (auto simp: history_def)

lemma history_drop: "history (insert a P) H F w c \<Longrightarrow> a \<notin> P \<Longrightarrow> c a \<Longrightarrow> history P H F w c"
  unfolding history_def by blast

definition run_inv :: "sched_run \<Rightarrow> bool" where
  "run_inv r \<longleftrightarrow> sched_inv (r_sched r) \<and> (\<forall>a \<in> set (r_handles r). a < s_fresh (r_sched r))
     \<and> history (set (pending (r_sched r))) (set (r_handles r)) (r_fired r)
         (\<lambda>a. t_when (task (r_sched r) a)) (\<lambda>a. t_cancel (task (r_sched r) a))"

lemma run_history:
  "run_inv r \<Longrightarrow> history (set (pending (r_sched r))) (set (r_handles r)) (r_fired r)
     (\<lambda>a. t_when (task (r_sched r) a)) (\<lambda>a. t_cancel (task (r_sched r) a))"
  by (simp add: run_inv_def)

lemma set_of_add_mset: "mset xs = add_mset a (mset ys) \<Longrightarrow> set xs = insert a (set ys)"
  by (metis set_mset_add_mset_insert set_mset_mset)

text \<open>The record after one step, and that each kind of step keeps the invariant.\<close>

definition record_step :: "gotime \<Rightarrow> Scheduler \<times> nat option \<times> nat option \<Rightarrow> sched_run \<Rightarrow> sched_run" where
  "record_step now shf r =
     \<lparr>r_sched = fst shf, r_handles = (case fst (snd shf) of None \<Rightarrow> [] | Some a \<Rightarrow> [a]) @ r_handles r,
      r_fired = (case snd (snd shf) of None \<Rightarrow> [] | Some a \<Rightarrow> [(now, a)]) @ r_fired r\<rparr>"

lemma record_quiet:
  assumes "run_inv r" "sched_inv s'" "pending s' = pending (r_sched r)" "s_fresh (r_sched r) \<le> s_fresh s'"
    and "\<And>a. a < s_fresh (r_sched r) \<Longrightarrow> t_when (task s' a) = t_when (task (r_sched r) a)"
    and "\<And>a. a < s_fresh (r_sched r) \<Longrightarrow> t_cancel (task (r_sched r) a) \<Longrightarrow> t_cancel (task s' a)"
  shows "run_inv (record_step now (s', None, None) r)"
proof -
  have "history (set (pending s')) (set (r_handles r)) (r_fired r) (\<lambda>a. t_when (task s' a)) (\<lambda>a. t_cancel (task s' a))"
    unfolding assms(3)
    by (rule history_cong [OF run_history [OF assms(1)]]) (use assms in \<open>auto simp: run_inv_def\<close>)
  moreover have "\<forall>a \<in> set (r_handles r). a < s_fresh s'" using assms(1,4) by (auto simp: run_inv_def intro: less_le_trans)
  ultimately show ?thesis using assms(2) by (simp add: run_inv_def record_step_def)
qed

lemma record_Schedule:
  assumes r: "run_inv r" and sc: "Schedule now d fn (r_sched r) = (s', h)"
  shows "run_inv (record_step now (s', h, None) r)"
proof (cases h)
  case None
  have i: "sched_inv (r_sched r)" using r by (simp add: run_inv_def)
  show ?thesis
    unfolding None by (rule record_quiet [OF r]) (use Schedule_inv [OF i sc] None in auto)
next
  case (Some a)
  let ?s = "r_sched r"
  have i: "sched_inv ?s" using r by (simp add: run_inv_def)
  note sp = Schedule_inv [OF i sc]
  have a: "a = s_fresh ?s" "set (pending s') = insert a (set (pending ?s))" "a < s_fresh s'"
    using sp(3,6) [OF Some] set_of_add_mset [of "pending s'" a "pending ?s"] by auto
  have nh: "a \<notin> set (r_handles r)" using r a(1) by (auto simp: run_inv_def)
  have "history (set (pending ?s)) (set (r_handles r)) (r_fired r) (\<lambda>a. t_when (task s' a)) (\<lambda>a. t_cancel (task s' a))"
    by (rule history_cong [OF run_history [OF r]]) (use r sp(4) in \<open>auto simp: run_inv_def\<close>)
  from history_add [OF this nh]
  have "history (set (pending s')) (set (a # r_handles r)) (r_fired r) (\<lambda>a. t_when (task s' a)) (\<lambda>a. t_cancel (task s' a))"
    by (simp add: a(2))
  moreover have "\<forall>b \<in> set (r_handles r). b < s_fresh s'"
    using r sp(5) by (auto simp: run_inv_def intro: less_le_trans)
  ultimately show ?thesis using sp(1) a(3) Some by (simp add: run_inv_def record_step_def)
qed

lemma record_run:
  assumes r: "run_inv r" and d: "s_disp (r_sched r) = Active" and rp: "run_pass now (r_sched r) = (s', f)"
  shows "run_inv (record_step now (s', None, f) r)"
proof (cases "pending (r_sched r) \<noteq> [] \<and> t_when (task (r_sched r) (pending (r_sched r) ! 0)) \<le> now")
  case True
  let ?s = "r_sched r" and ?a = "pending (r_sched r) ! 0"
  have i: "sched_inv ?s" using r by (simp add: run_inv_def)
  note sp = run_pass_spec [OF i d rp]
  have m: "mset (pending ?s) = add_mset ?a (mset (pending s'))" using sp(4) True by simp
  have "distinct (pending ?s)" using i by (simp add: sched_inv_def queue_ok_def index_ok_def)
  then have na: "?a \<notin> set (pending s')" using m by (metis distinct.simps(2) mset.simps(2) mset_eq_imp_distinct_iff)
  have "history (set (pending ?s)) (set (r_handles r)) (r_fired r) (\<lambda>a. t_when (task s' a)) (\<lambda>a. t_cancel (task s' a))"
    by (rule history_cong [OF run_history [OF r]]) (use r sp(3) in \<open>auto simp: run_inv_def\<close>)
  then have h: "history (insert ?a (set (pending s'))) (set (r_handles r)) (r_fired r)
      (\<lambda>a. t_when (task s' a)) (\<lambda>a. t_cancel (task s' a))"
    unfolding set_of_add_mset [OF m] .
  have t: "t_when (task s' ?a) \<le> now" using True sp(3) by simp
  have "history (set (pending s')) (set (r_handles r)) ((case f of None \<Rightarrow> [] | Some a \<Rightarrow> [(now, a)]) @ r_fired r)
      (\<lambda>a. t_when (task s' a)) (\<lambda>a. t_cancel (task s' a))"
  proof (cases "t_cancel (task ?s ?a)")
    case cancelled: True
    then have "f = None" "t_cancel (task s' ?a)" using sp(3,4) True by auto
    then show ?thesis using history_drop [OF h na] by simp
  next
    case False
    then have "f = Some ?a" using sp(4) True by auto
    then show ?thesis using history_fire [where w = "\<lambda>a. t_when (task s' a)", OF h na t] by simp
  qed
  then show ?thesis using r sp(1,2) by (simp add: run_inv_def record_step_def)
next
  case False
  have i: "sched_inv (r_sched r)" using r by (simp add: run_inv_def)
  note sp = run_pass_spec [OF i d rp]
  have "f = None" "s_tasks s' = s_tasks (r_sched r)" using sp(4) False by auto
  then show ?thesis using record_quiet [OF r sp(1)] sp(2) by simp
qed

lemma record_step_inv: "run_inv r \<Longrightarrow> run_inv (record_step now (sched_step now ev (r_sched r)) r)"
proof (cases ev)
  case (EvSchedule d fn)
  then show "run_inv r \<Longrightarrow> ?thesis"
    using record_Schedule [of r now d fn] by (simp add: case_prod_beta)
next
  case EvRun
  then show "run_inv r \<Longrightarrow> ?thesis"
    using record_run [of r now] record_quiet [of r "r_sched r" now] by (simp add: case_prod_beta run_inv_def)
next
  case (EvCancel t)
  then show "run_inv r \<Longrightarrow> ?thesis"
    using Cancel_inv Cancel_cancels by (simp add: record_quiet run_inv_def [THEN iffD1, THEN conjunct1])
qed (simp_all add: record_quiet Close_inv wake_inv run_inv_def [THEN iffD1, THEN conjunct1])

lemma sched_exec_inv: "run_inv r \<Longrightarrow> run_inv (sched_exec evs r)"
proof (induction evs arbitrary: r)
  case (Cons e evs)
  obtain now ev where e: "e = (now, ev)" by (cases e)
  show ?case
    using Cons.IH [OF record_step_inv [OF Cons.prems, of now ev]] by (simp add: e record_step_def case_prod_beta)
qed simp

section \<open>Due tasks are run\<close>

lemma wake_due:
  assumes "sched_inv s" "pending s \<noteq> []" "t_when (task s (pending s ! 0)) \<le> now"
  shows "s_disp (wake now True (wake now False s)) = Active"
  using assms by (auto simp: sched_inv_def wakeup_ok_def wake_def split: dispatcher.splits)

lemma dispatch_spec:
  assumes s: "sched_inv s" and r: "dispatch now s = (s', f)"
  shows "sched_inv s'"
    "\<And>b. t_when (task s' b) = t_when (task s b) \<and> t_cancel (task s' b) = t_cancel (task s b)"
    "if pending s \<noteq> [] \<and> t_when (task s (pending s ! 0)) \<le> now
     then mset (pending s) = add_mset (pending s ! 0) (mset (pending s'))
       \<and> f = (if t_cancel (task s (pending s ! 0)) then None else Some (pending s ! 0))
     else s_tasks s' = s_tasks s \<and> f = None"
proof -
  let ?w = "wake now True (wake now False s)"
  have w: "sched_inv ?w" by (intro wake_inv s)
  have "sched_inv s' \<and> (\<forall>b. t_when (task s' b) = t_when (task s b) \<and> t_cancel (task s' b) = t_cancel (task s b))
    \<and> (if pending s \<noteq> [] \<and> t_when (task s (pending s ! 0)) \<le> now
     then mset (pending s) = add_mset (pending s ! 0) (mset (pending s'))
       \<and> f = (if t_cancel (task s (pending s ! 0)) then None else Some (pending s ! 0))
     else s_tasks s' = s_tasks s \<and> f = None)"
  proof (cases "s_disp ?w = Active")
    case True
    then have "run_pass now ?w = (s', f)" using r by (simp add: dispatch_def Let_def)
    from run_pass_spec [OF w True this] show ?thesis by (simp split: if_splits)
  next
    case False
    then have "s' = ?w" "f = None" using r by (auto simp: dispatch_def Let_def)
    moreover have "\<not> (pending s \<noteq> [] \<and> t_when (task s (pending s ! 0)) \<le> now)" using wake_due [OF s] False by auto
    ultimately show ?thesis using w by simp
  qed
  then show "sched_inv s'"
    "\<And>b. t_when (task s' b) = t_when (task s b) \<and> t_cancel (task s' b) = t_cancel (task s b)"
    "if pending s \<noteq> [] \<and> t_when (task s (pending s ! 0)) \<le> now
     then mset (pending s) = add_mset (pending s ! 0) (mset (pending s'))
       \<and> f = (if t_cancel (task s (pending s ! 0)) then None else Some (pending s ! 0))
     else s_tasks s' = s_tasks s \<and> f = None"
    by blast+
qed

abbreviation due :: "gotime \<Rightarrow> Scheduler \<Rightarrow> nat \<Rightarrow> bool" where
  "due now s a \<equiv> t_when (task s a) \<le> now"

lemma root_not_due:
  assumes "sched_inv s" "\<not> (pending s \<noteq> [] \<and> due now s (pending s ! 0))" "a \<in> set (pending s)"
  shows "\<not> due now s a"
  using queue_root [of "s_tasks s" a] assms by (auto simp: sched_inv_def)

lemma filter_mset_none: "filter_mset P M = {#} \<longleftrightarrow> (\<forall>a \<in># M. \<not> P a)"
  by (induction M) auto

lemma none_due:
  assumes "filter_mset (due now s) M = {#}"
  shows "filter_mset (\<lambda>a. due now s a \<and> \<not> t_cancel (task s a)) M = {#}" "filter_mset (\<lambda>a. \<not> due now s a) M = M"
  using assms by (induction M) (auto split: if_splits)

lemma dispatch_rounds_spec:
  assumes "sched_inv s" "size (filter_mset (due now s) (mset (pending s))) \<le> n"
    and "dispatch_rounds n now s = (s', fs)"
  shows "mset fs = filter_mset (\<lambda>a. due now s a \<and> \<not> t_cancel (task s a)) (mset (pending s))
    \<and> sorted (map (\<lambda>a. t_when (task s a)) fs)
    \<and> mset (pending s') = filter_mset (\<lambda>a. \<not> due now s a) (mset (pending s))"
  using assms
proof (induction n arbitrary: s fs)
  case 0
  then have "filter_mset (due now s) (mset (pending s)) = {#}" by simp
  from none_due [OF this] show ?case using 0(3) by simp
next
  case (Suc n)
  obtain s1 f where d: "dispatch now s = (s1, f)" by (cases "dispatch now s")
  obtain fs1 where r: "dispatch_rounds n now s1 = (s', fs1)"
    and fs: "fs = (case f of None \<Rightarrow> [] | Some a \<Rightarrow> [a]) @ fs1"
    using Suc.prems(3) d by (cases "dispatch_rounds n now s1") auto
  note sp = dispatch_spec [OF Suc.prems(1) d]
  have eq: "t_when (task s1 b) = t_when (task s b)" "t_cancel (task s1 b) = t_cancel (task s b)" for b using sp(2) by auto
  let ?a = "pending s ! 0"
  show ?case
  proof (cases "pending s \<noteq> [] \<and> due now s ?a")
    case True
    have m: "mset (pending s) = add_mset ?a (mset (pending s1))" and f: "f = (if t_cancel (task s ?a) then None else Some ?a)"
      using sp(3) True by auto
    have "size (filter_mset (due now s1) (mset (pending s1))) \<le> n" using Suc.prems(2) True by (simp add: m eq)
    note ih = Suc.IH [OF sp(1) this r, unfolded eq]
    have "t_when (task s ?a) \<le> t_when (task s b)" if "b \<in> set fs1" for b
    proof -
      have "b \<in># mset fs1" using that by simp
      then have "b \<in># mset (pending s1)" using ih by auto
      then have "b \<in> set (pending s)" using set_of_add_mset [OF m] by simp
      then show ?thesis using queue_root Suc.prems(1) by (simp add: sched_inv_def)
    qed
    then show ?thesis using ih True by (cases "t_cancel (task s ?a)") (simp_all add: m fs f)
  next
    case False
    then have t: "s_tasks s1 = s_tasks s" "f = None" using sp(3) by (auto split: if_splits)
    have nd: "filter_mset (due now s) (mset (pending s)) = {#}"
      using root_not_due [OF Suc.prems(1) False] by (simp add: filter_mset_none)
    show ?thesis using Suc.IH [OF sp(1) _ r] nd by (simp add: t fs)
  qed
qed

section \<open>Properties\<close>

lemma sched_exec_start:
  "run_inv (sched_exec evs \<lparr>r_sched = NewScheduler, r_handles = [], r_fired = []\<rparr>)"
  by (rule sched_exec_inv) (use NewScheduler_inv in \<open>simp add: run_inv_def history_def NewScheduler_def\<close>)

text \<open>
  Closing does not drop the tasks, although the comment of \<open>Close\<close> says so: the dispatcher of a closed scheduler goes on
  until its heap is empty, and a pending task is run once it is due.
\<close>

lemma closed_keeps_pending:
  "let s = r_sched (sched_exec evs \<lparr>r_sched = NewScheduler, r_handles = [], r_fired = []\<rparr>)
   in pending (Close_begin s) = pending s \<and> (s_disp s = Exited \<longrightarrow> pending s = [])"
  using sched_exec_start [of evs]
  by (auto simp: Let_def run_inv_def sched_inv_def wakeup_ok_def Close_begin_def split: dispatcher.splits)

text \<open>
  C19: while the scheduler is open, in any interleaving of \<open>Schedule\<close>, \<open>Cancel\<close> and the dispatcher, every accepted task
  is waiting in the heap, has been run exactly once and not before its time, or was cancelled; and no wakeup is lost.
\<close>

theorem scheduler_history:
  assumes "EvClose \<notin> snd ` set evs" "r = sched_exec evs \<lparr>r_sched = NewScheduler, r_handles = [], r_fired = []\<rparr>"
  shows "history (set (pending (r_sched r))) (set (r_handles r)) (r_fired r)
      (\<lambda>a. t_when (task (r_sched r) a)) (\<lambda>a. t_cancel (task (r_sched r) a)) \<and> wakeup_ok (r_sched r)"
  using sched_exec_start [of evs] assms(2) by (simp add: run_inv_def sched_inv_def)

theorem scheduler_history_witness:
  "wakeup_ok (r_sched (sched_exec [(0, EvSchedule 5 (Some 10)), (0, EvRun), (1, EvSchedule 3 (Some 11)), (6, EvWake False)]
     \<lparr>r_sched = NewScheduler, r_handles = [], r_fired = []\<rparr>))"
  using scheduler_history [of "[(0, EvSchedule 5 (Some 10)), (0, EvRun), (1, EvSchedule 3 (Some 11)), (6, EvWake False)]"]
  by (simp del: sched_exec.simps)

text \<open>
  C20: while the scheduler is open, as many rounds of the dispatcher as tasks are due run all due tasks that were not
  cancelled, in the order of their times, and the tasks left are exactly those that are not due yet.
\<close>

theorem scheduler_runs_due:
  assumes "r_sched (sched_exec evs \<lparr>r_sched = NewScheduler, r_handles = [], r_fired = []\<rparr>) = s" "EvClose \<notin> snd ` set evs"
    and "size (filter_mset (due now s) (mset (pending s))) \<le> n" "dispatch_rounds n now s = (s', fs)"
  shows "mset fs = filter_mset (\<lambda>a. due now s a \<and> \<not> t_cancel (task s a)) (mset (pending s))
    \<and> sorted (map (\<lambda>a. t_when (task s a)) fs)
    \<and> mset (pending s') = filter_mset (\<lambda>a. \<not> due now s a) (mset (pending s))"
proof -
  have "sched_inv s" using sched_exec_start [of evs] assms(1) by (simp add: run_inv_def)
  then show ?thesis by (rule dispatch_rounds_spec) (fact assms)+
qed

lemma example_scheduled:
  defines "s \<equiv> r_sched (sched_exec [(0, EvSchedule 5 (Some 10)), (0, EvSchedule 3 (Some 11)), (1, EvSchedule 8 (Some 12))]
    \<lparr>r_sched = NewScheduler, r_handles = [], r_fired = []\<rparr>)"
  shows "pending s = [1, 0, 2]" "t_when (task s 0) = 5" "t_when (task s 1) = 3" "t_when (task s 2) = 9"
    "t_cancel (task s 0) = False" "t_cancel (task s 1) = False"
  by (simp_all add: s_def Schedule_def heap_Push_def taskHeap_Push_def up.simps Less_def key_at_def Swap_def
      set_index_def Let_def NewScheduler_def)

theorem scheduler_runs_due_witness:
  "let evs = [(0, EvSchedule 5 (Some 10)), (0, EvSchedule 3 (Some 11)), (1, EvSchedule 8 (Some 12))];
       s = r_sched (sched_exec evs \<lparr>r_sched = NewScheduler, r_handles = [], r_fired = []\<rparr>)
   in snd (dispatch_rounds 2 6 s) = [1, 0] \<and> mset (pending (fst (dispatch_rounds 2 6 s))) = {#2#}"
proof -
  define s where "s = r_sched (sched_exec [(0, EvSchedule 5 (Some 10)), (0, EvSchedule 3 (Some 11)), (1, EvSchedule 8 (Some 12))]
    \<lparr>r_sched = NewScheduler, r_handles = [], r_fired = []\<rparr>)"
  note h = example_scheduled [folded s_def, unfolded One_nat_def]
  have sz: "size (filter_mset (due 6 s) (mset (pending s))) \<le> 2" by (simp add: h)
  obtain s' fs where d: "dispatch_rounds 2 6 s = (s', fs)" by (cases "dispatch_rounds 2 6 s")
  have r: "mset fs = {#1, 0#}" "sorted (map (\<lambda>a. t_when (task s a)) fs)" "mset (pending s') = {#2#}"
    using scheduler_runs_due [OF s_def [symmetric] _ sz d] by (simp_all add: h)
  have "length fs = 2" using arg_cong [OF r(1), of size] by simp
  then obtain x y where xy: "fs = [x, y]" by (auto simp: numeral_2_eq_2 length_Suc_conv)
  then have "x = 1 \<and> y = 0 \<or> x = 0 \<and> y = 1" using r(1) by (auto simp: add_eq_conv_ex)
  then have "fs = [1, 0]" using r(2) xy h(2,3) by auto
  then show ?thesis unfolding Let_def s_def [symmetric] by (simp add: d r(3))
qed

end
