(* ===== verification/Executor.thy ===== *)
theory Executor
  imports GridKV_Prelude
begin

text \<open>
  \<open>internal/utils/executor/executor.go\<close>: the worker pool that runs the asynchronous tasks of a node.

  \<^item> A task is its identity; running it is its entry in \<open>e_executed\<close>, a panic inside it is recovered by \<open>run\<close>. The
    buffered channel is a list, \<open>e_tasksClosed\<close> and \<open>e_stopClosed\<close> tell whether the channels are closed.
  \<^item> Each worker goroutine has a program point. A step of a worker goes to its next read or write of shared state, so
    the interleavings include those between the test of the loop head and the decrement of the deferred function. The
    three atomic reads of the loop head are one step.
  \<^item> A task given to \<open>DoCtx\<close> stands for its wrapper, which leaves out the call when the context has ended.
  \<^item> \<open>Do\<close> holds the read lock until it returns: a call blocked on a full queue is kept in \<open>e_waiting\<close> and excludes
    \<open>Stop\<close> and \<open>Resize\<close>. \<open>DoCtx\<close> takes no lock, so its check and its send are two steps.
  \<^item> \<open>e_accepted\<close> records the tasks for which a submission returned without an error.
\<close>

section \<open>State\<close>

datatype worker = WTop | WSelect | WRun nat | WDrain | WDrainRun nat | WLeaving | WDone | WGone

record Exec =
  e_NonBlocking :: bool
  e_trackStats :: bool
  e_QueueSize :: nat
  e_tasks :: "nat list"
  e_tasksClosed :: bool
  e_stopClosed :: bool
  e_cap :: int
  e_running :: int
  e_closed :: bool
  e_done :: uint64
  e_dropped :: uint64
  e_workers :: "worker list"
  e_waiting :: "nat list"
  e_locked :: bool
  e_resize :: "(nat \<times> int) option"
  e_accepted :: "nat list"
  e_executed :: "nat list"

definition startWorker :: "Exec \<Rightarrow> Exec" where
  "startWorker e = e\<lparr>e_running := e_running e + 1, e_workers := e_workers e @ [WTop]\<rparr>"

definition exec_New :: "nat \<Rightarrow> int \<Rightarrow> int \<Rightarrow> bool \<Rightarrow> bool \<Rightarrow> Exec" where
  "exec_New cpus workers queueSize nonBlocking noStats =
     (let ws = (if workers \<le> 0 then int cpus else workers);
          qs = (if queueSize \<le> 0 then ws else queueSize);
          e = \<lparr>e_NonBlocking = nonBlocking, e_trackStats = \<not> noStats, e_QueueSize = nat qs, e_tasks = [],
               e_tasksClosed = False, e_stopClosed = False, e_cap = ws, e_running = 0, e_closed = False,
               e_done = 0, e_dropped = 0, e_workers = [], e_waiting = [], e_locked = False, e_resize = None,
               e_accepted = [], e_executed = []\<rparr>
      in (startWorker ^^ nat ws) e)"

section \<open>Submission\<close>

datatype do_err = ErrInvalidSize | ErrNilTask | ErrNilContext | ErrClosed | ErrFull | ErrContext

datatype do_result = Accepted | Refused do_err | Blocked | Panicked

definition count_done :: "Exec \<Rightarrow> Exec" where
  "count_done e = (if e_trackStats e then e\<lparr>e_done := e_done e + 1\<rparr> else e)"

definition count_dropped :: "Exec \<Rightarrow> Exec" where
  "count_dropped e = (if e_trackStats e then e\<lparr>e_dropped := e_dropped e + 1\<rparr> else e)"

definition has_room :: "Exec \<Rightarrow> bool" where
  "has_room e \<longleftrightarrow> length (e_tasks e) < e_QueueSize e"

definition enqueue :: "nat \<Rightarrow> Exec \<Rightarrow> Exec" where
  "enqueue t e = e\<lparr>e_tasks := e_tasks e @ [t], e_accepted := e_accepted e @ [t]\<rparr>"

definition exec_Do :: "nat option \<Rightarrow> Exec \<Rightarrow> Exec \<times> do_result" where
  "exec_Do task e =
     (case task of
        None \<Rightarrow> (e, Refused ErrNilTask)
      | Some t \<Rightarrow>
          if e_closed e then (e, Refused ErrClosed)
          else
            (let e1 = count_done e in
             if e_NonBlocking e then
               (if has_room e1 then (enqueue t e1, Accepted) else (count_dropped e1, Refused ErrFull))
             else if has_room e1 then (enqueue t e1, Accepted)
             else if e_stopClosed e1 then (e1, Refused ErrClosed)
             else (e1\<lparr>e_waiting := e_waiting e1 @ [t]\<rparr>, Blocked)))"

text \<open>A blocked \<open>Do\<close> completes when there is room.\<close>

definition Do_resume :: "Exec \<Rightarrow> Exec" where
  "Do_resume e =
     (case e_waiting e of
        [] \<Rightarrow> e
      | t # ts \<Rightarrow>
          if has_room e then (enqueue t e)\<lparr>e_waiting := ts\<rparr>
          else if e_stopClosed e then e\<lparr>e_waiting := ts\<rparr> else e)"

text \<open>
  \<open>DoCtx\<close> up to the submission, and the submission. \<open>pick\<close> is the case the final select tries; a select that can
  proceed picks one of its ready cases at random. Sending on a closed channel panics.
\<close>

definition DoCtx_begin :: "bool \<Rightarrow> bool \<Rightarrow> nat option \<Rightarrow> Exec \<Rightarrow> Exec \<times> (do_err + nat)" where
  "DoCtx_begin nilCtx ctxDone task e =
     (case task of
        None \<Rightarrow> (e, Inl ErrNilTask)
      | Some t \<Rightarrow>
          if nilCtx then (e, Inl ErrNilContext)
          else if e_closed e then (e, Inl ErrClosed)
          else if ctxDone then (e, Inl ErrContext)
          else (count_done e, Inr t))"

datatype pick = PickSend | PickCtx | PickStop

definition DoCtx_send :: "pick \<Rightarrow> bool \<Rightarrow> nat \<Rightarrow> Exec \<Rightarrow> Exec \<times> do_result" where
  "DoCtx_send p ctxDone t e =
     (if e_NonBlocking e then
        (if e_tasksClosed e then (e, Panicked)
         else if has_room e then (enqueue t e, Accepted)
         else (count_dropped e, Refused ErrFull))
      else
        (case p of
           PickSend \<Rightarrow> if e_tasksClosed e then (e, Panicked)
                       else if has_room e then (enqueue t e, Accepted) else (e, Blocked)
         | PickCtx \<Rightarrow> if ctxDone then (e, Refused ErrContext) else (e, Blocked)
         | PickStop \<Rightarrow> if e_stopClosed e then (e, Refused ErrClosed) else (e, Blocked)))"

section \<open>Workers\<close>

definition set_worker :: "nat \<Rightarrow> worker \<Rightarrow> Exec \<Rightarrow> Exec" where
  "set_worker i w e = e\<lparr>e_workers := (e_workers e)[i := w]\<rparr>"

definition take_task :: "nat \<Rightarrow> (nat \<Rightarrow> worker) \<Rightarrow> Exec \<Rightarrow> Exec" where
  "take_task i w e = (set_worker i (w (hd (e_tasks e))) e)\<lparr>e_tasks := tl (e_tasks e)\<rparr>"

definition run_task :: "nat \<Rightarrow> nat \<Rightarrow> worker \<Rightarrow> Exec \<Rightarrow> Exec" where
  "run_task i t w e = (set_worker i w e)\<lparr>e_executed := e_executed e @ [t]\<rparr>"

text \<open>\<open>preferStop\<close> resolves the select when both a task and the stop signal are there.\<close>

definition worker_step :: "nat \<Rightarrow> bool \<Rightarrow> Exec \<Rightarrow> Exec" where
  "worker_step i preferStop e =
     (if i \<ge> length (e_workers e) then e
      else
        (case e_workers e ! i of
           WTop \<Rightarrow> if e_running e > e_cap e \<and> e_cap e > 0 \<and> \<not> e_closed e then set_worker i WLeaving e
                   else set_worker i WSelect e
         | WSelect \<Rightarrow>
             if e_stopClosed e \<and> preferStop then set_worker i WDrain e
             else if e_tasks e \<noteq> [] then take_task i WRun e
             else if e_tasksClosed e then set_worker i WLeaving e
             else if e_stopClosed e then set_worker i WDrain e
             else e
         | WRun t \<Rightarrow> run_task i t WTop e
         | WDrain \<Rightarrow> if e_tasks e \<noteq> [] then take_task i WDrainRun e else set_worker i WLeaving e
         | WDrainRun t \<Rightarrow> run_task i t WDrain e
         | WLeaving \<Rightarrow> set_worker i WDone e
         | WDone \<Rightarrow> (set_worker i WGone e)\<lparr>e_running := e_running e - 1\<rparr>
         | WGone \<Rightarrow> e))"

section \<open>Resize, Wait and Stop\<close>

text \<open>
  \<open>Resize\<close> checks its argument and the closed flag first and takes the lock afterwards; these are two steps. Under the
  lock it starts the new workers one by one and stores the new capacity last, and the workers, which take no lock, run
  in between: \<open>e_resize\<close> holds how many are still to be started and the capacity to be stored.
\<close>

definition Resize_check :: "int \<Rightarrow> Exec \<Rightarrow> do_err option" where
  "Resize_check n e = (if n \<le> 0 then Some ErrInvalidSize else if e_closed e then Some ErrClosed else None)"

definition Resize_begin :: "int \<Rightarrow> Exec \<Rightarrow> Exec" where
  "Resize_begin n e =
     (let cur = e_cap e in
      if n = cur then e
      else if n > cur then e\<lparr>e_resize := Some (nat (n - cur), n)\<rparr>
      else e\<lparr>e_cap := n\<rparr>)"

definition Resize_grow :: "Exec \<Rightarrow> Exec" where
  "Resize_grow e =
     (case e_resize e of
        None \<Rightarrow> e
      | Some (Suc k, n) \<Rightarrow> (startWorker e)\<lparr>e_resize := Some (k, n)\<rparr>
      | Some (0, n) \<Rightarrow> e\<lparr>e_cap := n, e_resize := None\<rparr>)"

text \<open>\<open>Wait\<close> over the states it sees at its ticks, at most those of 30 seconds; \<open>False\<close> is the timeout.\<close>

definition Wait_poll :: "Exec \<Rightarrow> bool" where
  "Wait_poll e \<longleftrightarrow> length (e_tasks e) = 0 \<and> e_running e = 0"

definition exec_Wait :: "Exec \<Rightarrow> Exec list \<Rightarrow> do_err + bool" where
  "exec_Wait e polls = (if e_closed e then Inl ErrClosed else Inr (list_ex Wait_poll polls))"

definition stop_timeout :: "duration \<Rightarrow> int \<Rightarrow> duration" where
  "stop_timeout timeout c =
     (if timeout \<le> 0 then
        (let t = 10 * time_Second in
         if c > 100 then
           (let t' = t + (c div 100) * 100 * time_Millisecond
            in if t' > 30 * time_Second then 30 * time_Second else t')
         else t)
      else timeout)"

text \<open>\<open>Stop\<close> up to its select, which holds the lock, and after it.\<close>

definition Stop_begin :: "Exec \<Rightarrow> Exec" where
  "Stop_begin e =
     (if e_waiting e \<noteq> [] \<or> e_locked e \<or> e_resize e \<noteq> None \<or> e_closed e then e
      else e\<lparr>e_closed := True, e_tasksClosed := True, e_locked := True\<rparr>)"

definition finished :: "worker \<Rightarrow> bool" where
  "finished w \<longleftrightarrow> w = WDone \<or> w = WGone"

definition Stop_end :: "bool \<Rightarrow> Exec \<Rightarrow> Exec" where
  "Stop_end timedOut e =
     (if e_locked e \<and> (timedOut \<or> list_all finished (e_workers e))
      then e\<lparr>e_running := 0, e_stopClosed := True, e_locked := False\<rparr>
      else e)"

text \<open>The timeout of \<open>Close\<close>, from the time left until the deadline of its context, if it has one.\<close>

definition exec_close_timeout :: "duration option \<Rightarrow> duration" where
  "exec_close_timeout left = (case left of None \<Rightarrow> 10 * time_Second | Some d \<Rightarrow> if d \<le> 0 then 10 * time_Second else d)"

record exec_stats =
  xs_Cap :: int
  xs_Running :: int
  xs_Queued :: int
  xs_Done :: uint64
  xs_Dropped :: uint64

definition exec_Stats :: "Exec \<Rightarrow> exec_stats" where
  "exec_Stats e =
     \<lparr>xs_Cap = e_cap e, xs_Running = e_running e, xs_Queued = int (length (e_tasks e)),
      xs_Done = (if e_trackStats e then e_done e else 0), xs_Dropped = (if e_trackStats e then e_dropped e else 0)\<rparr>"

section \<open>Runs\<close>

datatype exec_event =
  XDo "nat option" | XResume | XCtxBegin bool bool "nat option" | XCtxSend pick bool nat
| XWorker nat bool | XResize int | XGrow | XStop | XStopEnd bool

text \<open>
  A \<open>Do\<close> that needs the lock while \<open>Stop\<close> or \<open>Resize\<close> holds it waits. \<open>XResize\<close> is the part of \<open>Resize\<close> after its
  check, which may have passed before the executor was closed, and \<open>XGrow\<close> its next step if it adds workers.
\<close>

fun exec_step :: "exec_event \<Rightarrow> Exec \<Rightarrow> Exec" where
  "exec_step (XDo t) e = (if e_locked e \<or> e_resize e \<noteq> None then e else fst (exec_Do t e))"
| "exec_step XResume e = Do_resume e"
| "exec_step (XCtxBegin nilCtx ctxDone t) e = fst (DoCtx_begin nilCtx ctxDone t e)"
| "exec_step (XCtxSend p ctxDone t) e = fst (DoCtx_send p ctxDone t e)"
| "exec_step (XWorker i preferStop) e = worker_step i preferStop e"
| "exec_step (XResize n) e = (if n \<le> 0 \<or> e_waiting e \<noteq> [] \<or> e_locked e \<or> e_resize e \<noteq> None then e else Resize_begin n e)"
| "exec_step XGrow e = Resize_grow e"
| "exec_step XStop e = Stop_begin e"
| "exec_step (XStopEnd timedOut) e = Stop_end timedOut e"

definition exec_run :: "exec_event list \<Rightarrow> Exec \<Rightarrow> Exec" where
  "exec_run evs e = fold exec_step evs e"

section \<open>Invariant\<close>

definition hand :: "worker \<Rightarrow> nat list" where
  "hand w = (case w of WRun t \<Rightarrow> [t] | WDrainRun t \<Rightarrow> [t] | _ \<Rightarrow> [])"

definition in_hand :: "worker list \<Rightarrow> nat list" where
  "in_hand ws = concat (map hand ws)"

definition live :: "worker list \<Rightarrow> int" where
  "live ws = int (length (filter (\<lambda>w. w \<noteq> WGone) ws))"

definition exec_inv :: "Exec \<Rightarrow> bool" where
  "exec_inv e \<longleftrightarrow> mset (e_accepted e) = mset (e_tasks e) + mset (in_hand (e_workers e)) + mset (e_executed e)
     \<and> length (e_tasks e) \<le> e_QueueSize e \<and> e_tasksClosed e = e_closed e \<and> (e_stopClosed e \<longrightarrow> e_closed e)
     \<and> (\<not> e_stopClosed e \<longrightarrow> e_running e = live (e_workers e))"

lemma mset_concat_update:
  "i < length xs \<Longrightarrow> mset (concat (map f (xs[i := y]))) + mset (f (xs ! i)) = mset (concat (map f xs)) + mset (f y)"
proof (induction xs arbitrary: i)
  case (Cons x xs)
  then show ?case by (cases i) (auto simp: ac_simps)
qed simp

lemma in_hand_update:
  "i < length ws \<Longrightarrow> mset (in_hand (ws[i := w])) + mset (hand (ws ! i)) = mset (in_hand ws) + mset (hand w)"
  unfolding in_hand_def by (rule mset_concat_update)

lemma live_update:
  "i < length ws \<Longrightarrow> live (ws[i := w]) + (if ws ! i = WGone then 0 else 1) = live ws + (if w = WGone then 0 else 1)"
proof (induction ws arbitrary: i)
  case (Cons v ws)
  have c: "live (a # xs) = (if a = WGone then 0 else 1) + live xs" for a xs by (simp add: live_def)
  show ?case
  proof (cases i)
    case (Suc j)
    then show ?thesis using Cons.IH [of j] Cons.prems by (simp add: c)
  qed (simp add: c)
qed simp

lemma workers_append [simp]:
  "in_hand (ws @ replicate n WTop) = in_hand ws" "live (ws @ replicate n WTop) = live ws + int n"
  by (induction n) (simp_all add: in_hand_def hand_def live_def)

lemma startWorkers [simp]:
  "e_tasks ((startWorker ^^ n) e) = e_tasks e" "e_accepted ((startWorker ^^ n) e) = e_accepted e"
  "e_executed ((startWorker ^^ n) e) = e_executed e" "e_QueueSize ((startWorker ^^ n) e) = e_QueueSize e"
  "e_tasksClosed ((startWorker ^^ n) e) = e_tasksClosed e" "e_closed ((startWorker ^^ n) e) = e_closed e"
  "e_stopClosed ((startWorker ^^ n) e) = e_stopClosed e" "e_cap ((startWorker ^^ n) e) = e_cap e"
  "e_waiting ((startWorker ^^ n) e) = e_waiting e" "e_locked ((startWorker ^^ n) e) = e_locked e"
  "e_running ((startWorker ^^ n) e) = e_running e + int n" "e_resize ((startWorker ^^ n) e) = e_resize e"
  "e_workers ((startWorker ^^ n) e) = e_workers e @ replicate n WTop"
  by (induction n) (simp_all add: startWorker_def replicate_append_same)

lemma count_fields [simp]:
  "e_tasks (count_done e) = e_tasks e" "e_accepted (count_done e) = e_accepted e" "e_executed (count_done e) = e_executed e"
  "e_QueueSize (count_done e) = e_QueueSize e" "e_tasksClosed (count_done e) = e_tasksClosed e"
  "e_closed (count_done e) = e_closed e" "e_stopClosed (count_done e) = e_stopClosed e"
  "e_running (count_done e) = e_running e" "e_workers (count_done e) = e_workers e" "e_cap (count_done e) = e_cap e"
  "e_tasks (count_dropped e) = e_tasks e" "e_accepted (count_dropped e) = e_accepted e"
  "e_executed (count_dropped e) = e_executed e" "e_QueueSize (count_dropped e) = e_QueueSize e"
  "e_tasksClosed (count_dropped e) = e_tasksClosed e" "e_closed (count_dropped e) = e_closed e"
  "e_stopClosed (count_dropped e) = e_stopClosed e" "e_running (count_dropped e) = e_running e"
  "e_workers (count_dropped e) = e_workers e" "e_cap (count_dropped e) = e_cap e"
  by (simp_all add: count_done_def count_dropped_def)

lemma exec_inv_same [simp]:
  "exec_inv (count_done e) = exec_inv e" "exec_inv (count_dropped e) = exec_inv e"
  "exec_inv (e\<lparr>e_waiting := ts\<rparr>) = exec_inv e"
  by (simp_all add: exec_inv_def)

lemma has_room_count [simp]: "has_room (count_done e) = has_room e"
  by (simp add: has_room_def)

lemma exec_inv_enqueue: "exec_inv e \<Longrightarrow> has_room e \<Longrightarrow> exec_inv (enqueue t e)"
  by (simp add: exec_inv_def enqueue_def has_room_def ac_simps)

lemma exec_inv_set_worker:
  assumes "exec_inv e" "i < length (e_workers e)" "hand w = hand (e_workers e ! i)" "w \<noteq> WGone" "e_workers e ! i \<noteq> WGone"
  shows "exec_inv (set_worker i w e)"
  using assms in_hand_update [OF assms(2), of w] live_update [OF assms(2), of w]
  by (simp add: exec_inv_def set_worker_def)

lemma worker_step_inv:
  assumes e: "exec_inv e"
  shows "exec_inv (worker_step i p e)"
proof (cases "i < length (e_workers e)")
  case True
  note u = in_hand_update [OF True] live_update [OF True]
  have take: "exec_inv (take_task i w e)"
    if "e_tasks e \<noteq> []" "hand (w (hd (e_tasks e))) = [hd (e_tasks e)]" "w (hd (e_tasks e)) \<noteq> WGone"
      "e_workers e ! i \<in> {WSelect, WDrain}" for w
    using that e u [of "w (hd (e_tasks e))"] by (cases "e_tasks e") (auto simp: exec_inv_def take_task_def set_worker_def hand_def)
  have run: "exec_inv (run_task i t w e)" if "hand (e_workers e ! i) = [t]" "e_workers e ! i \<noteq> WGone" "w \<in> {WTop, WDrain}" for t w
    using that e u [of w] by (auto simp: exec_inv_def run_task_def set_worker_def hand_def)
  have gone: "exec_inv ((set_worker i WGone e)\<lparr>e_running := e_running e - 1\<rparr>)" if "e_workers e ! i = WDone"
    using that e u [of WGone] by (auto simp: exec_inv_def set_worker_def hand_def)
  have move: "exec_inv (set_worker i w e)" if "hand w = []" "w \<noteq> WGone" "hand (e_workers e ! i) = []" "e_workers e ! i \<noteq> WGone" for w
    using exec_inv_set_worker [OF e True] that by simp
  show ?thesis
    using e True by (cases "e_workers e ! i") (auto simp: worker_step_def hand_def intro!: take run gone move)
qed (use e in \<open>simp add: worker_step_def\<close>)

lemma exec_Do_inv: "exec_inv e \<Longrightarrow> exec_inv (fst (exec_Do t e))"
  by (auto simp: exec_Do_def Let_def exec_inv_enqueue split: option.split)

lemma Do_resume_inv: "exec_inv e \<Longrightarrow> exec_inv (Do_resume e)"
  by (auto simp: Do_resume_def exec_inv_enqueue split: list.split)

lemma DoCtx_inv: "exec_inv e \<Longrightarrow> exec_inv (fst (DoCtx_begin nc cd t e))" "exec_inv e \<Longrightarrow> exec_inv (fst (DoCtx_send p cd n e))"
  by (auto simp: DoCtx_begin_def DoCtx_send_def exec_inv_enqueue split: option.split pick.split)

lemma Resize_inv: "exec_inv e \<Longrightarrow> exec_inv (Resize_begin n e)" "exec_inv e \<Longrightarrow> exec_inv (Resize_grow e)"
  by (auto simp: Resize_begin_def Resize_grow_def startWorker_def Let_def exec_inv_def in_hand_def live_def hand_def
      split: option.split nat.split)

lemma Stop_inv: "exec_inv e \<Longrightarrow> exec_inv (Stop_begin e)" "exec_inv e \<Longrightarrow> e_locked e \<longrightarrow> e_closed e \<Longrightarrow> exec_inv (Stop_end b e)"
  by (auto simp: Stop_begin_def Stop_end_def exec_inv_def)

definition lock_ok :: "Exec \<Rightarrow> bool" where
  "lock_ok e \<longleftrightarrow> (e_locked e \<longrightarrow> e_closed e)"

lemma lock_ok_step: "lock_ok e \<Longrightarrow> lock_ok (exec_step ev e)"
  by (cases ev)
     (auto simp: lock_ok_def exec_Do_def Do_resume_def DoCtx_begin_def DoCtx_send_def worker_step_def Resize_begin_def Resize_grow_def startWorker_def Stop_begin_def
       Stop_end_def Let_def count_done_def count_dropped_def enqueue_def take_task_def set_worker_def run_task_def
       split: option.split list.split pick.split worker.split nat.split)

lemma exec_step_inv: "exec_inv e \<Longrightarrow> lock_ok e \<Longrightarrow> exec_inv (exec_step ev e)"
  by (cases ev) (auto simp: exec_Do_inv Do_resume_inv DoCtx_inv worker_step_inv Resize_inv Stop_inv lock_ok_def)

lemma exec_New_inv: "exec_inv (exec_New cpus ws qs nb ns)" "lock_ok (exec_New cpus ws qs nb ns)"
  by (simp_all add: exec_New_def Let_def exec_inv_def in_hand_def live_def hand_def lock_ok_def)

lemma exec_run_inv: "exec_inv e \<Longrightarrow> lock_ok e \<Longrightarrow> exec_inv (exec_run evs e) \<and> lock_ok (exec_run evs e)"
  unfolding exec_run_def by (induction evs arbitrary: e) (auto simp: exec_step_inv lock_ok_step)

section \<open>Executors of fixed size\<close>

text \<open>
  Without \<open>Resize\<close> a worker leaves only when the executor is closed and the queue is empty, and a closed queue stays
  empty.
\<close>

definition leaving :: "worker \<Rightarrow> bool" where
  "leaving w \<longleftrightarrow> w = WLeaving \<or> w = WDone \<or> w = WGone"

definition draining :: "worker \<Rightarrow> bool" where
  "draining w \<longleftrightarrow> (case w of WDrain \<Rightarrow> True | WDrainRun _ \<Rightarrow> True | _ \<Rightarrow> False)"

definition fixed_inv :: "Exec \<Rightarrow> bool" where
  "fixed_inv e \<longleftrightarrow> exec_inv e \<and> lock_ok e \<and> e_resize e = None \<and> e_cap e = int (length (e_workers e))
     \<and> (e_closed e \<longrightarrow> e_waiting e = []) \<and> (list_ex leaving (e_workers e) \<longrightarrow> e_closed e \<and> e_tasks e = [])
     \<and> (list_ex draining (e_workers e) \<longrightarrow> e_closed e)"

definition no_resize :: "exec_event \<Rightarrow> bool" where
  "no_resize ev \<longleftrightarrow> (\<forall>n. ev \<noteq> XResize n)"

lemma live_le: "live ws \<le> int (length ws)"
  by (simp add: live_def)

lemma list_ex_update:
  "i < length ws \<Longrightarrow> list_ex P (ws[i := w]) \<Longrightarrow> P w \<or> list_ex P ws"
  by (auto simp: list_ex_iff dest: set_update_subset_insert [THEN subsetD])

lemma list_ex_nth: "i < length ws \<Longrightarrow> P (ws ! i) \<Longrightarrow> list_ex P ws"
  by (auto simp: list_ex_iff)

text \<open>What a step of a worker does to the flags, and when it leaves.\<close>

lemma worker_step_fields [simp]:
  "e_closed (worker_step i p e) = e_closed e" "e_resize (worker_step i p e) = e_resize e" "e_cap (worker_step i p e) = e_cap e"
  "e_waiting (worker_step i p e) = e_waiting e" "length (e_workers (worker_step i p e)) = length (e_workers e)"
  by (auto simp: worker_step_def take_task_def run_task_def set_worker_def split: worker.split)

lemma worker_step_leaves:
  assumes "fixed_inv e"
  shows "list_ex leaving (e_workers (worker_step i p e)) \<longrightarrow> e_closed e \<and> e_tasks (worker_step i p e) = []"
proof (cases "i < length (e_workers e)")
  case True
  have inv: "e_tasksClosed e = e_closed e" "e_stopClosed e \<longrightarrow> e_closed e"
    "\<not> e_closed e \<Longrightarrow> e_running e \<le> e_cap e"
    "list_ex leaving (e_workers e) \<longrightarrow> e_closed e \<and> e_tasks e = []"
    using assms live_le [of "e_workers e"] by (auto simp: fixed_inv_def exec_inv_def)
  have old: "list_ex leaving (e_workers e)" if "list_ex leaving ((e_workers e)[i := w])" "\<not> leaving w" for w
    using list_ex_update [OF True that(1)] that(2) by blast
  have at: "e_closed e \<and> e_tasks e = []" if "leaving (e_workers e ! i)"
    using list_ex_nth [OF True, of leaving] that inv(4) by blast
  show ?thesis
  proof (cases "e_workers e ! i")
    case WTop
    then show ?thesis
      using inv True old [of WSelect] by (auto simp: worker_step_def set_worker_def leaving_def)
  next
    case WSelect
    then show ?thesis
      using inv True old [of WDrain] old [of "WRun (hd (e_tasks e))"]
      by (auto simp: worker_step_def set_worker_def take_task_def leaving_def)
  next
    case (WRun t)
    then show ?thesis using inv True old [of WTop] by (auto simp: worker_step_def set_worker_def run_task_def leaving_def)
  next
    case WDrain
    have "e_closed e" using list_ex_nth [OF True, of draining] WDrain assms by (simp add: fixed_inv_def draining_def)
    then show ?thesis
      using inv True WDrain old [of "WDrainRun (hd (e_tasks e))"] assms
      by (auto simp: worker_step_def set_worker_def take_task_def leaving_def)
  next
    case (WDrainRun t)
    then show ?thesis using inv True old [of WDrain] by (auto simp: worker_step_def set_worker_def run_task_def leaving_def)
  qed (use at True inv in \<open>auto simp: worker_step_def set_worker_def leaving_def\<close>)
qed (use assms in \<open>auto simp: fixed_inv_def worker_step_def\<close>)

lemma worker_step_drains:
  assumes "fixed_inv e"
  shows "list_ex draining (e_workers (worker_step i p e)) \<longrightarrow> e_closed e"
proof (cases "i < length (e_workers e)")
  case True
  have inv: "e_stopClosed e \<longrightarrow> e_closed e" "list_ex draining (e_workers e) \<longrightarrow> e_closed e"
    using assms by (auto simp: fixed_inv_def exec_inv_def)
  show ?thesis
  proof (cases "e_closed e")
    case False
    then have "\<not> list_ex draining (e_workers e)" "\<not> draining (e_workers e ! i)"
      using inv list_ex_nth [OF True, of draining] by auto
    then have "list_ex draining ((e_workers e)[i := w]) \<Longrightarrow> draining w" for w
      using list_ex_update [OF True] by blast
    note old = this [of WSelect] this [of WLeaving] this [of "WRun (hd (e_tasks e))"] this [of WTop] this [of WDone] this [of WGone]
    show ?thesis
      using inv True False old \<open>\<not> list_ex draining (e_workers e)\<close> \<open>\<not> draining (e_workers e ! i)\<close>
      by (cases "e_workers e ! i") (auto simp: worker_step_def set_worker_def take_task_def run_task_def draining_def)
  qed simp
qed (use assms in \<open>simp add: fixed_inv_def worker_step_def\<close>)

lemma enqueue_fields [simp]:
  "e_workers (enqueue t e) = e_workers e" "e_cap (enqueue t e) = e_cap e" "e_closed (enqueue t e) = e_closed e"
  "e_waiting (enqueue t e) = e_waiting e" "e_resize (enqueue t e) = e_resize e"
  by (simp_all add: enqueue_def)

lemma count_more [simp]:
  "e_waiting (count_done e) = e_waiting e" "e_waiting (count_dropped e) = e_waiting e"
  "e_resize (count_done e) = e_resize e" "e_resize (count_dropped e) = e_resize e"
  by (simp_all add: count_done_def count_dropped_def)

lemma fixed_inv_step:
  assumes f: "fixed_inv e" and n: "no_resize ev"
  shows "fixed_inv (exec_step ev e)"
proof -
  have g: "exec_inv (exec_step ev e)" "lock_ok (exec_step ev e)"
    using f exec_step_inv lock_ok_step by (simp_all add: fixed_inv_def)
  have tc: "e_tasksClosed e = e_closed e" using f by (simp add: fixed_inv_def exec_inv_def)
  have "e_resize (exec_step ev e) = None \<and> e_cap (exec_step ev e) = int (length (e_workers (exec_step ev e)))
    \<and> (e_closed (exec_step ev e) \<longrightarrow> e_waiting (exec_step ev e) = [])
    \<and> (list_ex leaving (e_workers (exec_step ev e)) \<longrightarrow> e_closed (exec_step ev e) \<and> e_tasks (exec_step ev e) = [])
    \<and> (list_ex draining (e_workers (exec_step ev e)) \<longrightarrow> e_closed (exec_step ev e))"
  proof (cases ev)
    case (XDo t)
    then show ?thesis using f by (auto simp: fixed_inv_def exec_Do_def Let_def split: option.split)
  next
    case XResume
    then show ?thesis using f by (auto simp: fixed_inv_def Do_resume_def split: list.split)
  next
    case (XCtxBegin nc cd t)
    then show ?thesis using f by (auto simp: fixed_inv_def DoCtx_begin_def split: option.split)
  next
    case (XCtxSend p cd t)
    then show ?thesis using f tc by (auto simp: fixed_inv_def DoCtx_send_def split: pick.split)
  next
    case (XWorker i p)
    then show ?thesis
      using f worker_step_leaves [OF f, of i p] worker_step_drains [OF f, of i p] by (auto simp: fixed_inv_def)
  next
    case (XResize m)
    then show ?thesis using n by (simp add: no_resize_def)
  next
    case XGrow
    then show ?thesis using f by (simp add: fixed_inv_def Resize_grow_def)
  qed (use f in \<open>auto simp: fixed_inv_def Stop_begin_def Stop_end_def\<close>)
  then show ?thesis using g by (simp add: fixed_inv_def)
qed

lemma exec_New_workers:
  "e_workers (exec_New cpus ws qs nb ns) = replicate (nat (if ws \<le> 0 then int cpus else ws)) WTop"
  by (simp add: exec_New_def Let_def)

lemma exec_New_fixed: "fixed_inv (exec_New cpus ws qs nb ns)"
  using exec_New_inv [of cpus ws qs nb ns] exec_New_workers [of cpus ws qs nb ns]
  by (auto simp: fixed_inv_def list_ex_iff leaving_def draining_def exec_New_def Let_def)

lemma exec_run_fixed: "fixed_inv e \<Longrightarrow> list_all no_resize evs \<Longrightarrow> fixed_inv (exec_run evs e)"
  unfolding exec_run_def by (induction evs arbitrary: e) (auto simp: fixed_inv_step)

lemma exec_run_workers:
  "fixed_inv e \<Longrightarrow> list_all no_resize evs \<Longrightarrow> length (e_workers (exec_run evs e)) = length (e_workers e)"
  unfolding exec_run_def
proof (induction evs arbitrary: e)
  case (Cons ev evs)
  have "e_resize e = None" using Cons.prems by (simp add: fixed_inv_def)
  then have "length (e_workers (exec_step ev e)) = length (e_workers e)"
    using Cons.prems
    by (cases ev) (auto simp: no_resize_def Resize_grow_def exec_Do_def Do_resume_def DoCtx_begin_def DoCtx_send_def Stop_begin_def Stop_end_def
        Let_def split: option.split list.split pick.split)
  then show ?case using Cons fixed_inv_step by simp
qed simp

lemma fixed_open_running:
  assumes "fixed_inv e" "\<not> e_closed e"
  shows "e_running e = int (length (e_workers e))"
proof -
  have "\<forall>w \<in> set (e_workers e). w \<noteq> WGone" using assms by (auto simp: fixed_inv_def list_ex_iff leaving_def)
  then have "live (e_workers e) = int (length (e_workers e))" by (simp add: live_def)
  then show ?thesis using assms by (auto simp: fixed_inv_def exec_inv_def)
qed

text \<open>The work left after \<open>Stop\<close> has closed the queue.\<close>

definition rank :: "worker \<Rightarrow> nat" where
  "rank w = (case w of WRun _ \<Rightarrow> 6 | WTop \<Rightarrow> 5 | WSelect \<Rightarrow> 4 | WDrainRun _ \<Rightarrow> 4 | WDrain \<Rightarrow> 3 | WLeaving \<Rightarrow> 2 | WDone \<Rightarrow> 1 | WGone \<Rightarrow> 0)"

definition work :: "Exec \<Rightarrow> nat" where
  "work e = 4 * length (e_tasks e) + sum_list (map rank (e_workers e))"

lemma rank_update:
  "i < length ws \<Longrightarrow> sum_list (map rank (ws[i := w])) + rank (ws ! i) = sum_list (map rank ws) + rank w"
proof (induction ws arbitrary: i)
  case (Cons v ws)
  then show ?case by (cases i) (auto simp: add.commute add.left_commute)
qed simp

lemma worker_step_work:
  assumes "e_tasksClosed e" "e_closed e" "i < length (e_workers e)" "e_workers e ! i \<noteq> WGone"
  shows "work (worker_step i p e) < work e"
proof -
  have u: "sum_list (map rank ((e_workers e)[i := w])) + rank (e_workers e ! i) = sum_list (map rank (e_workers e)) + rank w" for w
    by (rule rank_update [OF assms(3)])
  show ?thesis
    using assms u [of WSelect] u [of WLeaving] u [of WDrain] u [of "WRun (hd (e_tasks e))"] u [of "WDrainRun (hd (e_tasks e))"]
      u [of WTop] u [of WDone] u [of WGone]
    by (cases "e_workers e ! i"; cases "e_tasks e")
       (auto simp: worker_step_def work_def set_worker_def take_task_def run_task_def rank_def)
qed

lemma work_bound: "length (e_tasks e) \<le> q \<Longrightarrow> work e \<le> 4 * q + 6 * length (e_workers e)"
proof -
  have "sum_list (map rank ws) \<le> 6 * length ws" for ws
    by (induction ws) (auto simp: rank_def split: worker.split)
  then show "length (e_tasks e) \<le> q \<Longrightarrow> work e \<le> 4 * q + 6 * length (e_workers e)"
    unfolding work_def by (metis add_mono mult_le_mono2)
qed

section \<open>Properties\<close>

text \<open>
  C21: in any interleaving of submissions, workers, resizing and stopping, every accepted task is waiting in the queue,
  in the hands of a worker, or has been run, each exactly once; and the queue never exceeds its size.
\<close>

theorem executor_conserves:
  "let e = exec_run evs (exec_New cpus ws qs nb ns)
   in mset (e_accepted e) = mset (e_tasks e) + mset (in_hand (e_workers e)) + mset (e_executed e)
      \<and> length (e_tasks e) \<le> e_QueueSize e"
  using exec_run_inv [OF exec_New_inv, of evs cpus ws qs nb ns] by (simp add: Let_def exec_inv_def)

text \<open>
  C22: a graceful stop loses nothing. If the executor was never resized, then once all workers have finished, which is
  when \<open>Stop\<close> returns without an error, every accepted task has been run exactly once.
\<close>

theorem stop_runs_all:
  assumes "e = exec_run evs (exec_New cpus ws qs nb ns)" "list_all no_resize evs" "0 < cpus \<or> 0 < ws"
    and "list_all finished (e_workers e)"
  shows "mset (e_executed e) = mset (e_accepted e)"
proof -
  have f: "fixed_inv e" using exec_run_fixed [OF exec_New_fixed assms(2)] assms(1) by simp
  have "length (e_workers e) \<noteq> 0"
    using exec_run_workers [OF exec_New_fixed assms(2), of cpus ws qs nb ns] assms(1,3) by (auto simp: exec_New_workers)
  then have "list_ex leaving (e_workers e)"
    using assms(4) by (cases "e_workers e") (auto simp: finished_def leaving_def)
  then have "e_tasks e = []" using f by (simp add: fixed_inv_def)
  moreover have "in_hand (e_workers e) = []"
    using assms(4) by (auto simp: in_hand_def hand_def finished_def list_all_iff split: worker.splits)
  ultimately show ?thesis using f by (simp add: fixed_inv_def exec_inv_def)
qed

theorem stop_runs_all_witness:
  "let e = exec_run ([XDo (Some 7), XDo (Some 8), XStop] @ replicate 10 (XWorker 0 False)) (exec_New 1 1 2 True False)
   in list_all finished (e_workers e) \<and> mset (e_executed e) = {#7, 8#}"
proof -
  let ?evs = "[XDo (Some 7), XDo (Some 8), XStop] @ replicate 10 (XWorker 0 False)"
  define e where "e = exec_run ?evs (exec_New 1 1 2 True False)"
  have w: "e_workers e = [WGone]" "e_accepted e = [7, 8]"
    by (simp_all add: e_def exec_run_def exec_New_def startWorker_def exec_Do_def count_done_def has_room_def enqueue_def
        Stop_begin_def worker_step_def set_worker_def take_task_def run_task_def Let_def numeral_eq_Suc)
  have "mset (e_executed e) = {#7, 8#}"
    using stop_runs_all [OF e_def] w by (simp add: finished_def no_resize_def numeral_eq_Suc)
  then show ?thesis unfolding Let_def e_def [symmetric] using w by (simp add: finished_def)
qed

text \<open>Steps of workers that have not left.\<close>

fun busy_steps :: "(nat \<times> bool) list \<Rightarrow> Exec \<Rightarrow> bool" where
  "busy_steps [] e = True"
| "busy_steps ((i, p) # sched) e =
     (i < length (e_workers e) \<and> e_workers e ! i \<noteq> WGone \<and> busy_steps sched (worker_step i p e))"

lemma busy_steps_work:
  "e_closed e \<Longrightarrow> e_tasksClosed e \<Longrightarrow> busy_steps sched e \<Longrightarrow> length sched \<le> work e"
proof (induction sched arbitrary: e)
  case (Cons ip sched)
  obtain i p where ip: "ip = (i, p)" by (cases ip)
  have "e_tasksClosed (worker_step i p e)"
    using Cons.prems(2) by (auto simp: worker_step_def take_task_def run_task_def set_worker_def split: worker.split)
  then have "length sched \<le> work (worker_step i p e)" using Cons ip by (intro Cons.IH) auto
  also have "\<dots> < work e" using Cons.prems ip by (intro worker_step_work) auto
  finally show ?case by simp
qed simp

text \<open>
  C23: after \<open>Stop\<close> has closed the executor the workers end: however they are scheduled, they make at most four steps
  per place of the queue and six per worker before all of them have left.
\<close>

theorem stop_terminates:
  assumes "e = exec_run evs (exec_New cpus ws qs nb ns)" "e_closed e" "busy_steps sched e"
  shows "length sched \<le> 4 * e_QueueSize e + 6 * length (e_workers e)"
proof -
  have i: "exec_inv e" using exec_run_inv [OF exec_New_inv] assms(1) by blast
  then have "length sched \<le> work e" using assms(2,3) by (intro busy_steps_work) (simp_all add: exec_inv_def)
  also have "\<dots> \<le> 4 * e_QueueSize e + 6 * length (e_workers e)" using i by (intro work_bound) (simp add: exec_inv_def)
  finally show ?thesis .
qed

theorem stop_terminates_witness:
  "let e = exec_run [XDo (Some 7), XStop] (exec_New 1 1 1 True False); sched = replicate 7 (0, False)
   in busy_steps sched e \<and> length sched \<le> 4 * e_QueueSize e + 6 * length (e_workers e)"
proof -
  define e where "e = exec_run [XDo (Some 7), XStop] (exec_New 1 1 1 True False)"
  let ?s = "replicate 7 (0, False)"
  have "e_closed e" "busy_steps ?s e"
    by (simp_all add: e_def exec_run_def exec_New_def startWorker_def exec_Do_def count_done_def has_room_def enqueue_def
        Stop_begin_def worker_step_def set_worker_def take_task_def run_task_def Let_def numeral_eq_Suc)
  then show ?thesis unfolding Let_def e_def [symmetric] using stop_terminates [OF e_def, of ?s] by simp
qed

text \<open>
  \<open>Wait\<close> cannot succeed. \<open>running\<close> counts the workers, not the tasks being run, so as long as the executor is open
  and was not resized, no poll of \<open>Wait\<close> finds it at zero and the call ends by its timeout, also when every task has
  been run.
\<close>

theorem Wait_times_out:
  assumes "0 < cpus \<or> 0 < ws" "\<not> e_closed e"
    and "\<forall>q \<in> set polls. \<exists>evs. list_all no_resize evs \<and> q = exec_run evs (exec_New cpus ws qs nb ns) \<and> \<not> e_closed q"
  shows "exec_Wait e polls = Inr False"
proof -
  have "\<not> Wait_poll q" if q: "q \<in> set polls" for q
  proof -
    obtain evs where e: "list_all no_resize evs" "q = exec_run evs (exec_New cpus ws qs nb ns)" "\<not> e_closed q"
      using assms(3) q by blast
    have "e_running q = int (length (e_workers q))"
      using fixed_open_running exec_run_fixed [OF exec_New_fixed e(1)] e by blast
    moreover have "length (e_workers q) \<noteq> 0"
      using exec_run_workers [OF exec_New_fixed e(1), of cpus ws qs nb ns] e(2) assms(1) by (auto simp: exec_New_workers)
    ultimately show ?thesis by (simp add: Wait_poll_def)
  qed
  then show ?thesis using assms(2) by (auto simp: exec_Wait_def list_ex_iff)
qed

theorem Wait_times_out_witness:
  "exec_Wait (exec_New 1 1 1 True False) [exec_run [] (exec_New 1 1 1 True False)] = Inr False"
proof (rule Wait_times_out [of 1 1 _ _ 1 True False])
  show o: "\<not> e_closed (exec_New 1 1 1 True False)" by (simp add: exec_New_def startWorker_def Let_def)
  show "\<forall>q \<in> set [exec_run [] (exec_New 1 1 1 True False)].
      \<exists>evs. list_all no_resize evs \<and> q = exec_run evs (exec_New 1 1 1 True False) \<and> \<not> e_closed q"
    using o by (auto simp: exec_run_def intro!: exI [of _ "[]"])
qed simp

text \<open>
  Resizing to fewer workers can stop the executor: two workers that both read the old number before either has left
  both leave, and an accepted task is never run although one worker should remain.
\<close>

theorem resize_stops_executor:
  "let e = exec_run [XResize 1, XWorker 0 False, XWorker 1 False, XWorker 0 False, XWorker 1 False,
                     XWorker 0 False, XWorker 1 False] (exec_New 1 2 2 True False)
   in e_workers e = [WGone, WGone] \<and> e_cap e = 1 \<and> snd (exec_Do (Some t) e) = Accepted"
  by (simp add: exec_run_def exec_New_def startWorker_def exec_Do_def count_done_def has_room_def Resize_begin_def
      worker_step_def set_worker_def Let_def numeral_eq_Suc)

text \<open>
  Resizing to more workers can add none: a worker started before the new capacity is stored sees more workers running
  than the old capacity allows and leaves, and the capacity reported afterwards counts it.
\<close>

theorem resize_adds_none:
  "let e = exec_run [XResize 2, XGrow, XWorker 1 False, XWorker 1 False, XWorker 1 False, XGrow] (exec_New 1 1 1 True False)
   in e_cap e = 2 \<and> e_resize e = None \<and> e_workers e = [WTop, WGone] \<and> e_running e = 1"
  by (simp add: exec_run_def exec_New_def startWorker_def Resize_begin_def Resize_grow_def worker_step_def set_worker_def Let_def)

text \<open>
  \<open>DoCtx\<close> checks the closed flag without the lock: when \<open>Stop\<close> closes the queue between the check and the send, the
  call panics.
\<close>

theorem DoCtx_panics:
  assumes "DoCtx_begin False False (Some t) e = (e1, Inr t)" "e_waiting e = []" "\<not> e_locked e" "e_resize e = None"
    and "e_NonBlocking e \<or> p = PickSend"
  shows "snd (DoCtx_send p ctxDone t (Stop_begin e1)) = Panicked"
  using assms by (auto simp: DoCtx_begin_def DoCtx_send_def Stop_begin_def count_done_def split: if_splits)

end
