(* ===== verification/Queued_Exec.thy ===== *)
theory Queued_Exec
  imports Executor
begin

text \<open>
  \<open>internal/utils/executor/queued_executor.go\<close>: the worker pool with a queue of three priorities per worker and work
  stealing.

  \<^item> The conventions are those of the plain executor: tasks are identities, workers have program points, \<open>x_accepted\<close>
    and \<open>x_executed\<close> record what was accepted and run.
  \<^item> A worker probes one queue per step, first its own, then the others in turn. The pushes of one submission to the
    queues in turn are one step; the check of the closed flag before them is another, since no lock is held.
    The three receives of a \<open>pop\<close> are one step, and so are the reads of the loop head.
  \<^item> \<open>YResize\<close> is the part of \<open>Resize\<close> after its check of the closed flag, and \<open>YGrow\<close> its next step if it adds workers. The timeout of \<open>Stop\<close> is computed as in the
    plain executor; \<open>YStopEnd\<close> is the end of \<open>Stop\<close>, with or without it.
\<close>

section \<open>Task queues\<close>

datatype priority = PriorityLow | PriorityNormal | PriorityHigh

record taskQueue =
  q_high :: "nat list"
  q_normal :: "nat list"
  q_low :: "nat list"

definition newTaskQueue :: taskQueue where
  "newTaskQueue = \<lparr>q_high = [], q_normal = [], q_low = []\<rparr>"

text \<open>A priority outside the three levels is clamped.\<close>

definition clamp :: "int \<Rightarrow> priority" where
  "clamp p = (let p1 = (if p < 0 then 0 else p); p2 = (if p1 > 2 then 2 else p1)
              in if p2 = 2 then PriorityHigh else if p2 = 1 then PriorityNormal else PriorityLow)"

definition level :: "priority \<Rightarrow> taskQueue \<Rightarrow> nat list" where
  "level p q = (case p of PriorityHigh \<Rightarrow> q_high q | PriorityNormal \<Rightarrow> q_normal q | PriorityLow \<Rightarrow> q_low q)"

definition queue_push :: "nat \<Rightarrow> nat \<Rightarrow> priority \<Rightarrow> taskQueue \<Rightarrow> taskQueue option" where
  "queue_push sz t p q =
     (case p of
        PriorityHigh \<Rightarrow> if length (q_high q) < sz then Some (q\<lparr>q_high := q_high q @ [t]\<rparr>) else None
      | PriorityNormal \<Rightarrow> if length (q_normal q) < sz then Some (q\<lparr>q_normal := q_normal q @ [t]\<rparr>) else None
      | PriorityLow \<Rightarrow> if length (q_low q) < sz then Some (q\<lparr>q_low := q_low q @ [t]\<rparr>) else None)"

text \<open>\<open>pop\<close>; \<open>steal\<close> does the same under the lock of the queue.\<close>

definition queue_pop :: "taskQueue \<Rightarrow> (nat \<times> taskQueue) option" where
  "queue_pop q =
     (case q_high q of
        t # ts \<Rightarrow> Some (t, q\<lparr>q_high := ts\<rparr>)
      | [] \<Rightarrow>
          (case q_normal q of
             t # ts \<Rightarrow> Some (t, q\<lparr>q_normal := ts\<rparr>)
           | [] \<Rightarrow> (case q_low q of t # ts \<Rightarrow> Some (t, q\<lparr>q_low := ts\<rparr>) | [] \<Rightarrow> None)))"

definition queue_len :: "taskQueue \<Rightarrow> nat" where
  "queue_len q = length (q_high q) + length (q_normal q) + length (q_low q)"

section \<open>The executor\<close>

datatype qpoint = QTop | QScan nat | QRun nat | QPause | QLeaving | QDone | QGone

record QueuedExec =
  x_NonBlocking :: bool
  x_trackStats :: bool
  x_QueueSize :: nat
  x_queues :: "taskQueue list"
  x_stopClosed :: bool
  x_cap :: int
  x_running :: int
  x_closed :: bool
  x_done :: uint64
  x_dropped :: uint64
  x_workers :: "(nat \<times> qpoint) list"
  x_resize :: "(nat \<times> nat) option"
  x_accepted :: "nat list"
  x_executed :: "nat list"

definition queued_startWorker :: "nat \<Rightarrow> QueuedExec \<Rightarrow> QueuedExec" where
  "queued_startWorker i x = x\<lparr>x_running := x_running x + 1, x_workers := x_workers x @ [(i, QTop)]\<rparr>"

definition NewQueued :: "nat \<Rightarrow> int \<Rightarrow> int \<Rightarrow> bool \<Rightarrow> bool \<Rightarrow> QueuedExec" where
  "NewQueued cpus workers queueSize nonBlocking noStats =
     (let ws = (if workers \<le> 0 then int cpus else workers);
          qs = (if queueSize \<le> 0 then ws * 2 else queueSize);
          x = \<lparr>x_NonBlocking = nonBlocking, x_trackStats = \<not> noStats, x_QueueSize = nat qs,
               x_queues = replicate (nat ws) newTaskQueue, x_stopClosed = False, x_cap = ws, x_running = 0,
               x_closed = False, x_done = 0, x_dropped = 0, x_workers = [], x_resize = None, x_accepted = [], x_executed = []\<rparr>
      in fold queued_startWorker [0..<nat ws] x)"

section \<open>Submission\<close>

definition queued_count_done :: "QueuedExec \<Rightarrow> QueuedExec" where
  "queued_count_done x = (if x_trackStats x then x\<lparr>x_done := x_done x + 1\<rparr> else x)"

definition queued_count_dropped :: "QueuedExec \<Rightarrow> QueuedExec" where
  "queued_count_dropped x = (if x_trackStats x then x\<lparr>x_dropped := x_dropped x + 1\<rparr> else x)"

definition DoPriority_begin :: "nat option \<Rightarrow> QueuedExec \<Rightarrow> QueuedExec \<times> (do_err + nat)" where
  "DoPriority_begin task x =
     (case task of
        None \<Rightarrow> (x, Inl ErrNilTask)
      | Some t \<Rightarrow> if x_closed x then (x, Inl ErrClosed) else (queued_count_done x, Inr t))"

text \<open>\<open>DoCtxPriority\<close> checks its context and the closed flag and calls \<open>DoPriority\<close> with the wrapped task.\<close>

definition DoCtxPriority_begin :: "bool \<Rightarrow> bool \<Rightarrow> nat option \<Rightarrow> QueuedExec \<Rightarrow> QueuedExec \<times> (do_err + nat)" where
  "DoCtxPriority_begin nilCtx ctxDone task x =
     (case task of
        None \<Rightarrow> (x, Inl ErrNilTask)
      | Some t \<Rightarrow>
          if nilCtx then (x, Inl ErrNilContext)
          else if x_closed x then (x, Inl ErrClosed)
          else if ctxDone then (x, Inl ErrContext)
          else DoPriority_begin (Some t) x)"

fun try_push :: "nat \<Rightarrow> priority \<Rightarrow> nat list \<Rightarrow> QueuedExec \<Rightarrow> QueuedExec option" where
  "try_push t p [] x = None"
| "try_push t p (i # is) x =
     (case queue_push (x_QueueSize x) t p (x_queues x ! i) of
        Some q \<Rightarrow> Some (x\<lparr>x_queues := (x_queues x)[i := q], x_accepted := x_accepted x @ [t]\<rparr>)
      | None \<Rightarrow> try_push t p is x)"

text \<open>The remainder of the division keeps the sign of the clock, so a clock before 1970 gives a negative index.\<close>

definition DoPriority_push :: "gotime \<Rightarrow> int \<Rightarrow> nat \<Rightarrow> QueuedExec \<Rightarrow> QueuedExec \<times> do_result" where
  "DoPriority_push now prio t x =
     (let n = length (x_queues x); w = sint (UnixNano now) smod int n; p = clamp prio in
      if n = 0 \<or> w < 0 then (x, Panicked)
      else
        (case try_push t p [nat w] x of
           Some x1 \<Rightarrow> (x1, Accepted)
         | None \<Rightarrow>
             if x_NonBlocking x then (queued_count_dropped x, Refused ErrFull)
             else
               (case try_push t p (map (\<lambda>i. (nat w + i) mod n) [0..<n]) x of
                  Some x1 \<Rightarrow> (x1, Accepted)
                | None \<Rightarrow>
                    if x_stopClosed x then (x, Refused ErrClosed)
                    else (queued_count_dropped x, Refused ErrFull))))"

section \<open>Workers\<close>

definition set_point :: "nat \<Rightarrow> qpoint \<Rightarrow> QueuedExec \<Rightarrow> QueuedExec" where
  "set_point i w x = x\<lparr>x_workers := (x_workers x)[i := (fst (x_workers x ! i), w)]\<rparr>"

text \<open>Probe \<open>k\<close> of a worker: its own queue, then the queues after it; its own is skipped then.\<close>

definition probe :: "nat \<Rightarrow> nat \<Rightarrow> QueuedExec \<Rightarrow> QueuedExec" where
  "probe i k x =
     (let n = length (x_queues x); own = fst (x_workers x ! i); j = (own + k) mod n;
          miss = (if k < n then set_point i (QScan (k + 1)) x else set_point i QPause x)
      in if k > 0 \<and> j = own then miss
         else
           (case queue_pop (x_queues x ! j) of
              Some (t, q) \<Rightarrow> (set_point i (QRun t) x)\<lparr>x_queues := (x_queues x)[j := q]\<rparr>
            | None \<Rightarrow> miss))"

definition queued_worker_step :: "nat \<Rightarrow> bool \<Rightarrow> QueuedExec \<Rightarrow> QueuedExec" where
  "queued_worker_step i tick x =
     (if i \<ge> length (x_workers x) then x
      else
        (case snd (x_workers x ! i) of
           QTop \<Rightarrow> if x_running x > x_cap x \<and> x_cap x > 0 \<and> \<not> x_closed x then set_point i QLeaving x
                   else set_point i (QScan 0) x
         | QScan k \<Rightarrow> probe i k x
         | QRun t \<Rightarrow> (set_point i QTop x)\<lparr>x_executed := x_executed x @ [t]\<rparr>
         | QPause \<Rightarrow> if x_stopClosed x \<and> \<not> tick then set_point i QLeaving x else set_point i QTop x
         | QLeaving \<Rightarrow> set_point i QDone x
         | QDone \<Rightarrow> (set_point i QGone x)\<lparr>x_running := x_running x - 1\<rparr>
         | QGone \<Rightarrow> x))"

section \<open>Resize, Wait and Stop\<close>

definition queued_grow :: "nat \<Rightarrow> QueuedExec \<Rightarrow> QueuedExec" where
  "queued_grow i x =
     (if i < length (x_queues x) then queued_startWorker i x
      else queued_startWorker i (x\<lparr>x_queues := x_queues x @ [newTaskQueue]\<rparr>))"

text \<open>
  \<open>Resize\<close> under its lock, which nothing else takes. It starts the new workers one by one and stores the capacity last;
  \<open>x_resize\<close> holds the index of the next worker and the capacity to be stored.
\<close>

definition queued_Resize :: "int \<Rightarrow> QueuedExec \<Rightarrow> QueuedExec" where
  "queued_Resize n x =
     (let cur = x_cap x in
      if n = cur then x
      else if n > cur then x\<lparr>x_resize := Some (nat cur, nat n)\<rparr>
      else x\<lparr>x_cap := n\<rparr>)"

definition queued_Resize_grow :: "QueuedExec \<Rightarrow> QueuedExec" where
  "queued_Resize_grow x =
     (case x_resize x of
        None \<Rightarrow> x
      | Some (i, n) \<Rightarrow>
          if i < n then (queued_grow i x)\<lparr>x_resize := Some (i + 1, n)\<rparr>
          else x\<lparr>x_cap := int n, x_resize := None\<rparr>)"

definition totalQueued :: "QueuedExec \<Rightarrow> nat" where
  "totalQueued x = sum_list (map queue_len (x_queues x))"

definition queued_Stats :: "QueuedExec \<Rightarrow> exec_stats" where
  "queued_Stats x =
     \<lparr>xs_Cap = x_cap x, xs_Running = x_running x, xs_Queued = int (totalQueued x),
      xs_Done = (if x_trackStats x then x_done x else 0), xs_Dropped = (if x_trackStats x then x_dropped x else 0)\<rparr>"

text \<open>\<open>Wait\<close> succeeds after ten polls in a row that see empty queues; \<open>False\<close> is the timeout.\<close>

fun queued_wait :: "nat \<Rightarrow> QueuedExec list \<Rightarrow> bool" where
  "queued_wait emptyCount [] = False"
| "queued_wait emptyCount (x # polls) =
     (if totalQueued x = 0 then (if emptyCount + 1 \<ge> 10 then True else queued_wait (emptyCount + 1) polls)
      else queued_wait 0 polls)"

definition queued_Stop :: "QueuedExec \<Rightarrow> QueuedExec" where
  "queued_Stop x = (if x_closed x then x else x\<lparr>x_closed := True, x_stopClosed := True\<rparr>)"

definition queued_StopEnd :: "QueuedExec \<Rightarrow> QueuedExec" where
  "queued_StopEnd x = x\<lparr>x_running := 0\<rparr>"

section \<open>Runs\<close>

datatype queued_event =
  YBegin "nat option" | YCtxBegin bool bool "nat option" | YPush gotime int nat | YWorker nat bool | YResize int | YGrow | YStop | YStopEnd

fun queued_step :: "queued_event \<Rightarrow> QueuedExec \<Rightarrow> QueuedExec" where
  "queued_step (YBegin t) x = fst (DoPriority_begin t x)"
| "queued_step (YCtxBegin nilCtx ctxDone t) x = fst (DoCtxPriority_begin nilCtx ctxDone t x)"
| "queued_step (YPush now p t) x = fst (DoPriority_push now p t x)"
| "queued_step (YWorker i tick) x = queued_worker_step i tick x"
| "queued_step (YResize n) x = (if n \<le> 0 \<or> x_resize x \<noteq> None then x else queued_Resize n x)"
| "queued_step YGrow x = queued_Resize_grow x"
| "queued_step YStop x = queued_Stop x"
| "queued_step YStopEnd x = (if x_closed x then queued_StopEnd x else x)"

definition queued_run :: "queued_event list \<Rightarrow> QueuedExec \<Rightarrow> QueuedExec" where
  "queued_run evs x = fold queued_step evs x"

section \<open>Priorities\<close>

definition queue_tasks :: "taskQueue \<Rightarrow> nat list" where
  "queue_tasks q = q_high q @ q_normal q @ q_low q"

definition queue_bounded :: "nat \<Rightarrow> taskQueue \<Rightarrow> bool" where
  "queue_bounded sz q \<longleftrightarrow> (\<forall>p. length (level p q) \<le> sz)"

lemma queue_bounded_levels:
  "queue_bounded sz q \<longleftrightarrow> length (q_high q) \<le> sz \<and> length (q_normal q) \<le> sz \<and> length (q_low q) \<le> sz"
proof -
  have all: "(\<forall>p. P p) \<longleftrightarrow> P PriorityHigh \<and> P PriorityNormal \<and> P PriorityLow" for P by (metis priority.exhaust)
  show ?thesis unfolding queue_bounded_def all by (simp add: level_def)
qed

lemma queue_push_spec:
  "queue_push sz t p q = Some q' \<Longrightarrow>
     mset (queue_tasks q') = add_mset t (mset (queue_tasks q)) \<and> (queue_bounded sz q \<longrightarrow> queue_bounded sz q')"
  by (auto simp: queue_push_def queue_tasks_def queue_bounded_levels split: priority.splits if_splits)

lemma queue_push_None: "queue_push sz t p q = None \<longleftrightarrow> length (level p q) \<ge> sz"
  by (auto simp: queue_push_def level_def split: priority.splits)

lemma queue_pop_spec:
  "queue_pop q = Some (t, q') \<Longrightarrow>
     mset (queue_tasks q) = add_mset t (mset (queue_tasks q')) \<and> (queue_bounded sz q \<longrightarrow> queue_bounded sz q')"
  by (auto simp: queue_pop_def queue_tasks_def queue_bounded_levels split: list.splits)

section \<open>Invariant\<close>

definition qhand :: "nat \<times> qpoint \<Rightarrow> nat list" where
  "qhand w = (case snd w of QRun t \<Rightarrow> [t] | _ \<Rightarrow> [])"

definition queued :: "QueuedExec \<Rightarrow> nat list" where
  "queued x = concat (map queue_tasks (x_queues x))"

definition queued_hands :: "QueuedExec \<Rightarrow> nat list" where
  "queued_hands x = concat (map qhand (x_workers x))"

definition queued_inv :: "QueuedExec \<Rightarrow> bool" where
  "queued_inv x \<longleftrightarrow> mset (x_accepted x) = mset (queued x) + mset (queued_hands x) + mset (x_executed x)
     \<and> (\<forall>q \<in> set (x_queues x). queue_bounded (x_QueueSize x) q)
     \<and> (\<forall>w \<in> set (x_workers x). fst w < length (x_queues x)) \<and> 0 < x_cap x"

lemma queued_count_inv [simp]:
  "queued_inv (queued_count_done x) = queued_inv x" "queued_inv (queued_count_dropped x) = queued_inv x"
  by (simp_all add: queued_inv_def queued_def queued_hands_def queued_count_done_def queued_count_dropped_def)

lemma set_update_all: "\<forall>y \<in> set xs. P y \<Longrightarrow> P z \<Longrightarrow> \<forall>y \<in> set (xs[i := z]). P y"
  using set_update_subset_insert [of xs i z] by auto

lemma try_push_inv:
  "queued_inv x \<Longrightarrow> \<forall>i \<in> set is. i < length (x_queues x) \<Longrightarrow> try_push t p is x = Some x' \<Longrightarrow> queued_inv x'"
proof (induction "is")
  case (Cons i "is")
  have i: "i < length (x_queues x)" using Cons.prems(2) by simp
  show ?case
  proof (cases "queue_push (x_QueueSize x) t p (x_queues x ! i)")
    case None
    then show ?thesis using Cons by simp
  next
    case (Some q)
    have x': "x' = x\<lparr>x_queues := (x_queues x)[i := q], x_accepted := x_accepted x @ [t]\<rparr>" using Cons.prems(3) Some by simp
    note sp = queue_push_spec [OF Some]
    have "mset (concat (map queue_tasks ((x_queues x)[i := q]))) = add_mset t (mset (queued x))"
      using mset_concat_update [OF i, of queue_tasks q] sp by (simp add: queued_def)
    moreover have "\<forall>q \<in> set ((x_queues x)[i := q]). queue_bounded (x_QueueSize x) q"
      using Cons.prems(1) sp i by (intro set_update_all) (auto simp: queued_inv_def)
    ultimately show ?thesis using Cons.prems(1) by (simp add: queued_inv_def x' queued_def queued_hands_def)
  qed
qed simp

lemma DoPriority_push_inv:
  assumes "queued_inv x"
  shows "queued_inv (fst (DoPriority_push now p t x))"
proof -
  let ?n = "length (x_queues x)" and ?w = "sint (UnixNano now) smod int (length (x_queues x))"
  have "nat ?w < ?n" if "0 < ?n" "0 \<le> ?w"
  proof -
    have "\<bar>?w\<bar> < int ?n" using that smod_int_range [of "int ?n" "sint (UnixNano now)"] by auto
    then show ?thesis using that(2) by linarith
  qed
  then show ?thesis
    using assms try_push_inv [OF assms, of "[nat ?w]" t "clamp p"]
      try_push_inv [OF assms, of "map (\<lambda>i. (nat ?w + i) mod ?n) [0..<?n]" t "clamp p"]
    by (auto simp: DoPriority_push_def Let_def split: option.splits)
qed

lemma set_point_inv:
  assumes "queued_inv x" "i < length (x_workers x)" "qhand (x_workers x ! i) = []" "qhand (n, w) = []"
  shows "queued_inv (set_point i w x)"
proof -
  have "qhand (fst (x_workers x ! i), w) = []" using assms(4) by (simp add: qhand_def)
  then have "mset (queued_hands (set_point i w x)) = mset (queued_hands x)"
    using mset_concat_update [OF assms(2), of qhand "(fst (x_workers x ! i), w)"] assms(3)
    by (simp add: queued_hands_def set_point_def)
  moreover have "\<forall>w' \<in> set (x_workers (set_point i w x)). fst w' < length (x_queues x)"
    unfolding set_point_def using assms(1,2) by simp (rule set_update_all, auto simp: queued_inv_def)
  ultimately show ?thesis using assms(1) by (simp add: queued_inv_def queued_def set_point_def)
qed

lemma probe_inv:
  assumes x: "queued_inv x" and i: "i < length (x_workers x)" "qhand (x_workers x ! i) = []"
  shows "queued_inv (probe i k x)"
proof -
  let ?n = "length (x_queues x)" and ?own = "fst (x_workers x ! i)"
  let ?j = "(?own + k) mod ?n"
  have n: "?own < ?n" using x i(1) by (simp add: queued_inv_def)
  then have j: "?j < ?n" by (intro mod_less_divisor) linarith
  have miss: "queued_inv (set_point i (QScan (k + 1)) x)" "queued_inv (set_point i QPause x)"
    using set_point_inv [OF x i, of ?own] by (simp_all add: qhand_def)
  show ?thesis
  proof (cases "queue_pop (x_queues x ! ?j)")
    case None
    then show ?thesis using miss by (auto simp: probe_def Let_def)
  next
    case (Some tq)
    obtain t q where tq: "tq = (t, q)" by (cases tq)
    note sp = queue_pop_spec [OF Some [unfolded tq], of "x_QueueSize x"]
    have "mset (queued x) = add_mset t (mset (concat (map queue_tasks ((x_queues x)[?j := q]))))"
      using mset_concat_update [OF j, of queue_tasks q] sp by (simp add: queued_def)
    moreover have "mset (concat (map qhand ((x_workers x)[i := (?own, QRun t)]))) = add_mset t (mset (queued_hands x))"
      using mset_concat_update [OF i(1), of qhand "(?own, QRun t)"] i(2) by (simp add: queued_hands_def qhand_def)
    moreover have "\<forall>q \<in> set ((x_queues x)[?j := q]). queue_bounded (x_QueueSize x) q"
      using x sp j by (intro set_update_all) (auto simp: queued_inv_def)
    moreover have "\<forall>w \<in> set ((x_workers x)[i := (?own, QRun t)]). fst w < ?n"
      using x n by (intro set_update_all) (auto simp: queued_inv_def)
    ultimately have "queued_inv ((set_point i (QRun t) x)\<lparr>x_queues := (x_queues x)[?j := q]\<rparr>)"
      using x by (simp add: queued_inv_def queued_def queued_hands_def set_point_def)
    then show ?thesis using miss Some tq by (auto simp: probe_def Let_def)
  qed
qed

lemma queued_worker_inv:
  assumes x: "queued_inv x"
  shows "queued_inv (queued_worker_step i tick x)"
proof (cases "i < length (x_workers x)")
  case True
  obtain n w where nw: "x_workers x ! i = (n, w)" by (cases "x_workers x ! i")
  have move: "queued_inv (set_point i w' x)" if "qhand (n, w) = []" "qhand (n, w') = []" for w'
    using set_point_inv [OF x True] that nw by simp
  have gone: "queued_inv ((set_point i QGone x)\<lparr>x_running := x_running x - 1\<rparr>)" if "w = QDone"
    using move [of QGone] that by (simp add: queued_inv_def queued_def queued_hands_def qhand_def)
  have run: "queued_inv ((set_point i QTop x)\<lparr>x_executed := x_executed x @ [t]\<rparr>)" if "w = QRun t" for t
  proof -
    have "mset (queued_hands (set_point i QTop x)) + {#t#} = mset (queued_hands x)"
      using mset_concat_update [OF True, of qhand "(n, QTop)"] that nw by (simp add: queued_hands_def set_point_def qhand_def)
    then have "mset (queued_hands x) = add_mset t (mset (queued_hands (set_point i QTop x)))" by simp
    moreover have "\<forall>w' \<in> set ((x_workers x)[i := (n, QTop)]). fst w' < length (x_queues x)"
    proof (rule set_update_all)
      show "fst (n, QTop) < length (x_queues x)" using x nth_mem [OF True] nw by (fastforce simp: queued_inv_def)
    qed (use x in \<open>simp add: queued_inv_def\<close>)
    ultimately show ?thesis using x nw by (simp add: queued_inv_def queued_def queued_hands_def set_point_def)
  qed
  show ?thesis
    using x True nw probe_inv [OF x True]
    by (cases w) (auto simp: queued_worker_step_def qhand_def intro: move gone run)
qed (use x in \<open>simp add: queued_worker_step_def\<close>)

lemma newTaskQueue_simps [simp]: "queue_tasks newTaskQueue = []" "queue_bounded sz newTaskQueue"
  by (simp_all add: newTaskQueue_def queue_tasks_def queue_bounded_levels)

lemma queued_grow_inv: "queued_inv x \<Longrightarrow> i \<le> length (x_queues x) \<Longrightarrow>
  queued_inv (queued_grow i x) \<and> i < length (x_queues (queued_grow i x)) \<and> length (x_queues x) \<le> length (x_queues (queued_grow i x))
    \<and> x_cap (queued_grow i x) = x_cap x"
  by (auto simp: queued_inv_def queued_grow_def queued_startWorker_def queued_def queued_hands_def qhand_def less_Suc_eq)

fun resize_ok :: "(nat \<times> nat) option \<Rightarrow> nat \<Rightarrow> bool" where
  "resize_ok None l = True"
| "resize_ok (Some (i, n)) l = (i \<le> l \<and> i \<le> n \<and> 0 < n)"

definition cap_ok :: "QueuedExec \<Rightarrow> bool" where
  "cap_ok x \<longleftrightarrow> x_cap x \<le> int (length (x_queues x)) \<and> resize_ok (x_resize x) (length (x_queues x))"

lemma queued_Resize_inv:
  assumes "queued_inv x" "cap_ok x" "0 < n"
  shows "queued_inv (queued_Resize n x) \<and> cap_ok (queued_Resize n x)"
  using assms by (auto simp: queued_Resize_def Let_def queued_inv_def queued_def queued_hands_def cap_ok_def)

lemma queued_inv_resize [simp]: "queued_inv (x\<lparr>x_resize := z\<rparr>) = queued_inv x"
  by (simp add: queued_inv_def queued_def queued_hands_def)

lemma queued_Resize_grow_inv:
  assumes "queued_inv x" "cap_ok x"
  shows "queued_inv (queued_Resize_grow x) \<and> cap_ok (queued_Resize_grow x)"
proof (cases "x_resize x")
  case None
  then show ?thesis using assms by (simp add: queued_Resize_grow_def)
next
  case (Some z)
  obtain i n where z: "z = (i, n)" by (cases z)
  have b: "i \<le> length (x_queues x)" "i \<le> n" "0 < n" using assms(2) Some z by (simp_all add: cap_ok_def)
  show ?thesis
  proof (cases "i < n")
    case True
    then show ?thesis
      using queued_grow_inv [OF assms(1) b(1)] assms(2) Some z by (simp add: queued_Resize_grow_def cap_ok_def)
  next
    case False
    then show ?thesis
      using assms b Some z by (auto simp: queued_Resize_grow_def cap_ok_def queued_inv_def queued_def queued_hands_def)
  qed
qed

lemma queues_length:
  "length (x_queues (queued_worker_step i b x)) = length (x_queues x)" "x_cap (queued_worker_step i b x) = x_cap x"
  "x_resize (queued_worker_step i b x) = x_resize x" "x_resize (fst (DoPriority_push now p t x)) = x_resize x"
  "length (x_queues (fst (DoPriority_push now p t x))) = length (x_queues x)" "x_cap (fst (DoPriority_push now p t x)) = x_cap x"
proof -
  have t: "try_push t p is x = Some x' \<Longrightarrow> length (x_queues x') = length (x_queues x) \<and> x_cap x' = x_cap x \<and> x_resize x' = x_resize x" for p x x' "is"
    by (induction "is") (auto split: option.splits)
  show "length (x_queues (fst (DoPriority_push now p t x))) = length (x_queues x)" "x_cap (fst (DoPriority_push now p t x)) = x_cap x"
    "x_resize (fst (DoPriority_push now p t x)) = x_resize x"
    by (auto simp: DoPriority_push_def Let_def queued_count_dropped_def split: option.splits dest!: t)
  show "length (x_queues (queued_worker_step i b x)) = length (x_queues x)" "x_cap (queued_worker_step i b x) = x_cap x"
    "x_resize (queued_worker_step i b x) = x_resize x"
    by (auto simp: queued_worker_step_def set_point_def probe_def Let_def split: qpoint.split option.split)
qed

lemma queued_begin_inv:
  "queued_inv x \<Longrightarrow> queued_inv (fst (DoPriority_begin t x))" "cap_ok x \<Longrightarrow> cap_ok (fst (DoPriority_begin t x))"
  "queued_inv x \<Longrightarrow> queued_inv (fst (DoCtxPriority_begin nc cd t x))" "cap_ok x \<Longrightarrow> cap_ok (fst (DoCtxPriority_begin nc cd t x))"
proof -
  have "cap_ok (queued_count_done x) = cap_ok x" by (simp add: cap_ok_def queued_count_done_def)
  then show "queued_inv x \<Longrightarrow> queued_inv (fst (DoPriority_begin t x))" "cap_ok x \<Longrightarrow> cap_ok (fst (DoPriority_begin t x))"
    "queued_inv x \<Longrightarrow> queued_inv (fst (DoCtxPriority_begin nc cd t x))" "cap_ok x \<Longrightarrow> cap_ok (fst (DoCtxPriority_begin nc cd t x))"
    by (auto simp: DoPriority_begin_def DoCtxPriority_begin_def split: option.split)
qed

lemma queued_step_inv:
  assumes "queued_inv x \<and> cap_ok x"
  shows "queued_inv (queued_step ev x) \<and> cap_ok (queued_step ev x)"
proof (cases ev)
  case (YResize n)
  then show ?thesis using assms queued_Resize_inv [of x n] by auto
next
  case YGrow
  then show ?thesis using assms queued_Resize_grow_inv [of x] by simp
next
  case (YPush now p t)
  then show ?thesis using assms DoPriority_push_inv [of x now p t] by (auto simp: cap_ok_def queues_length)
next
  case (YWorker i b)
  then show ?thesis using assms queued_worker_inv [of x i b] by (auto simp: cap_ok_def queues_length)
qed (use assms queued_begin_inv in \<open>auto simp: queued_Stop_def queued_StopEnd_def queued_inv_def cap_ok_def queued_def queued_hands_def\<close>)

lemma NewQueued_inv:
  assumes "0 < cpus \<or> 0 < ws"
  shows "queued_inv (NewQueued cpus ws qs nb ns) \<and> cap_ok (NewQueued cpus ws qs nb ns)"
proof -
  have st: "queued_inv (fold queued_startWorker is x) \<and> cap_ok (fold queued_startWorker is x)"
    if "queued_inv x" "cap_ok x" "\<forall>i \<in> set is. i < length (x_queues x)" for "is" x
    using that
  proof (induction "is" arbitrary: x)
    case (Cons i "is")
    have "queued_inv (queued_startWorker i x)" "cap_ok (queued_startWorker i x)" "x_queues (queued_startWorker i x) = x_queues x"
      using Cons.prems by (auto simp: queued_inv_def queued_startWorker_def queued_def queued_hands_def qhand_def cap_ok_def)
    then show ?case using Cons by simp
  qed simp
  show ?thesis
    unfolding NewQueued_def Let_def
    by (rule st) (use assms in \<open>auto simp: queued_inv_def cap_ok_def queued_def queued_hands_def\<close>)
qed

lemma queued_run_inv:
  "queued_inv x \<and> cap_ok x \<Longrightarrow> queued_inv (queued_run evs x) \<and> cap_ok (queued_run evs x)"
  unfolding queued_run_def
proof (induction evs arbitrary: x)
  case (Cons ev evs)
  then show ?case using queued_step_inv [of x ev] by simp
qed simp

section \<open>Properties\<close>

text \<open>
  C24: in any interleaving of submissions, workers that steal from each other, resizing and stopping, every accepted
  task is in exactly one place: a queue, the hands of a worker, or the list of tasks that were run; and no level of a
  queue exceeds its size.
\<close>

theorem queued_conserves:
  assumes "0 < cpus \<or> 0 < ws" "x = queued_run evs (NewQueued cpus ws qs nb ns)"
  shows "mset (x_accepted x) = mset (queued x) + mset (queued_hands x) + mset (x_executed x)
    \<and> (\<forall>q \<in> set (x_queues x). queue_bounded (x_QueueSize x) q)"
  using queued_run_inv [OF NewQueued_inv [OF assms(1)]] assms(2) by (simp add: queued_inv_def)

theorem queued_conserves_witness:
  "let x = queued_run [YPush 0 2 7, YPush 1 0 8, YWorker 0 False, YWorker 0 False] (NewQueued 1 2 1 True False)
   in mset (x_accepted x) = mset (queued x) + mset (queued_hands x) + mset (x_executed x)"
  using queued_conserves [of 1 2 _ "[YPush 0 2 7, YPush 1 0 8, YWorker 0 False, YWorker 0 False]" 1 True False]
  by (simp add: Let_def)

lemma try_push_None:
  "try_push t p is x = None \<longleftrightarrow> (\<forall>i \<in> set is. x_QueueSize x \<le> length (level p (x_queues x ! i)))"
  by (induction "is") (auto simp flip: queue_push_None [of _ t] split: option.split)

lemma rotate_all: "0 < n \<Longrightarrow> (\<lambda>i. (w + i) mod n) ` {0..<n} = {0..<(n :: nat)}"
proof -
  assume n: "0 < n"
  have "j \<in> (\<lambda>i. (w + i) mod n) ` {0..<n}" if "j < n" for j
  proof -
    let ?i = "(j + n - w mod n) mod n"
    have "w mod n < n" using n by simp
    have "(w + ?i) mod n = (w mod n + (j + n - w mod n)) mod n"
      by (metis mod_add_left_eq mod_add_right_eq)
    also have "w mod n + (j + n - w mod n) = j + n" using \<open>w mod n < n\<close> by linarith
    finally have "(w + ?i) mod n = j" using that by simp
    then show ?thesis using n by (intro image_eqI [of _ _ ?i]) simp_all
  qed
  then show ?thesis using n by auto
qed

text \<open>
  Without the non-blocking option a submission is refused as full only if the level of its priority is full in
  every queue, and accepted otherwise, whichever queue the clock selects.
\<close>

theorem DoPriority_accepts_iff:
  assumes "\<not> x_NonBlocking x" "0 \<le> sint (UnixNano now)" "x_queues x \<noteq> []" "\<not> x_stopClosed x"
  shows "snd (DoPriority_push now prio t x)
    = (if \<exists>q \<in> set (x_queues x). length (level (clamp prio) q) < x_QueueSize x then Accepted else Refused ErrFull)"
proof -
  let ?n = "length (x_queues x)"
  define w where "w = sint (UnixNano now) smod int ?n"
  have w: "0 \<le> w" "w < int ?n"
    using assms(2,3) smod_int_range [of "int ?n" "sint (UnixNano now)"]
    by (auto simp: w_def signed_modulo_int_def sgn_if)
  have s: "set (map (\<lambda>i. (nat w + i) mod ?n) [0..<?n]) = {0..<?n}"
    using rotate_all [of ?n "nat w"] assms(3) by simp
  have all: "(\<forall>i \<in> {0..<?n}. P (x_queues x ! i)) \<longleftrightarrow> (\<forall>q \<in> set (x_queues x). P q)" for P
    by (auto simp: all_set_conv_all_nth)
  have "try_push t (clamp prio) (map (\<lambda>i. (nat w + i) mod ?n) [0..<?n]) x = None
      \<longleftrightarrow> (\<forall>q \<in> set (x_queues x). x_QueueSize x \<le> length (level (clamp prio) q))"
    unfolding try_push_None s by (rule all)
  moreover have "try_push t (clamp prio) [nat w] x = None" if "\<forall>q \<in> set (x_queues x). x_QueueSize x \<le> length (level (clamp prio) q)"
    unfolding try_push_None using that w by (auto simp: nat_less_iff)
  ultimately show ?thesis
    using assms(1,3,4) w(1)
    by (auto simp: DoPriority_push_def Let_def w_def [symmetric] linorder_not_le split: option.split)
qed

theorem DoPriority_accepts_iff_witness:
  "snd (DoPriority_push 5 1 9 (NewQueued 1 2 1 False False)) = Accepted"
proof -
  define x where "x = NewQueued 1 2 1 False False"
  have f: "x_NonBlocking x = False" "x_queues x = [newTaskQueue, newTaskQueue]" "x_stopClosed x = False" "x_QueueSize x = 1"
    by (simp_all add: x_def NewQueued_def queued_startWorker_def Let_def numeral_2_eq_2)
  show ?thesis
    unfolding x_def [symmetric] using DoPriority_accepts_iff [of x 5 1 9]
    by (simp add: f UnixNano_def newTaskQueue_def level_def clamp_def Let_def)
qed

text \<open>
  A submission that passed its check before \<open>Stop\<close> can still be accepted after all workers have left; the task is
  never run.
\<close>

theorem queued_task_lost:
  "let x = queued_run [YBegin (Some 7), YStop, YWorker 0 False, YWorker 0 False, YWorker 0 False, YWorker 0 False,
                       YWorker 0 False, YWorker 0 False, YPush 0 1 7] (NewQueued 1 1 1 True False)
   in x_workers x = [(0, QGone)] \<and> x_accepted x = [7] \<and> x_executed x = []"
  by (simp add: queued_run_def NewQueued_def queued_startWorker_def DoPriority_begin_def queued_count_done_def queued_Stop_def
      queued_worker_step_def set_point_def probe_def queue_pop_def newTaskQueue_def DoPriority_push_def UnixNano_def clamp_def
      queue_push_def Let_def)

end
