(* ===== verification/Buffer_Pool.thy ===== *)
theory Buffer_Pool
  imports GridKV_Prelude
begin

text \<open>
  \<open>internal/utils/bufferpool/tiered_pool.go\<close>: byte buffers pooled by size.

  \<^item> A buffer is its length and capacity; its contents are those of an earlier use. A \<open>sync.Pool\<close> is the list of the
    buffers put into it, of which it may drop any: \<open>pick\<close> is the position of the buffer it returns, \<open>None\<close> if it
    calls its \<open>New\<close> function.
  \<^item> The statistics are 64-bit counters. A call is one step; between the updates of its counters others can see them
    disagree.
\<close>

type_synonym buffer = "nat \<times> nat"

datatype tier = Tier1 | Tier2 | Tier3 | Tier4 | Tier5

record pool_stats =
  ps_hits :: "tier \<Rightarrow> uint64"
  ps_misses :: uint64
  ps_total :: uint64

record TieredBufferPool =
  tp_pools :: "tier \<Rightarrow> nat list"
  tp_stats :: pool_stats

definition NewTieredBufferPool :: TieredBufferPool where
  "NewTieredBufferPool = \<lparr>tp_pools = \<lambda>_. [], tp_stats = \<lparr>ps_hits = \<lambda>_. 0, ps_misses = 0, ps_total = 0\<rparr>\<rparr>"

definition tier_New :: "tier \<Rightarrow> nat" where
  "tier_New t = (case t of Tier1 \<Rightarrow> 256 | Tier2 \<Rightarrow> 1024 | Tier3 \<Rightarrow> 4096 | Tier4 \<Rightarrow> 16384 | Tier5 \<Rightarrow> 65536)"

definition tier_for :: "nat \<Rightarrow> tier" where
  "tier_for sz = (if sz \<le> 1024 then Tier1 else if sz \<le> 4096 then Tier2 else if sz \<le> 16384 then Tier3
                  else if sz \<le> 65536 then Tier4 else Tier5)"

definition tiered_maxAlloc :: nat where
  "tiered_maxAlloc = 2 * 1024 * 1024"

definition count_total :: "TieredBufferPool \<Rightarrow> TieredBufferPool" where
  "count_total p = p\<lparr>tp_stats := (tp_stats p)\<lparr>ps_total := ps_total (tp_stats p) + 1\<rparr>\<rparr>"

definition count_miss :: "TieredBufferPool \<Rightarrow> TieredBufferPool" where
  "count_miss p = p\<lparr>tp_stats := (tp_stats p)\<lparr>ps_misses := ps_misses (tp_stats p) + 1\<rparr>\<rparr>"

definition count_hit :: "tier \<Rightarrow> TieredBufferPool \<Rightarrow> TieredBufferPool" where
  "count_hit t p = p\<lparr>tp_stats := (tp_stats p)\<lparr>ps_hits := (ps_hits (tp_stats p))(t := ps_hits (tp_stats p) t + 1)\<rparr>\<rparr>"

text \<open>\<open>sync.Pool\<close>: the capacity of the buffer taken.\<close>

definition sync_Get :: "nat option \<Rightarrow> tier \<Rightarrow> TieredBufferPool \<Rightarrow> TieredBufferPool \<times> nat" where
  "sync_Get pick t p =
     (let cs = tp_pools p t in
      case pick of
        Some i \<Rightarrow> if i < length cs then (p\<lparr>tp_pools := (tp_pools p)(t := take i cs @ drop (Suc i) cs)\<rparr>, cs ! i)
                  else (p, tier_New t)
      | None \<Rightarrow> (p, tier_New t))"

definition sync_Put :: "tier \<Rightarrow> nat \<Rightarrow> TieredBufferPool \<Rightarrow> TieredBufferPool" where
  "sync_Put t c p = p\<lparr>tp_pools := (tp_pools p)(t := c # tp_pools p t)\<rparr>"

text \<open>A negative size panics (\<open>None\<close>), after it was counted.\<close>

definition tiered_Get :: "nat option \<Rightarrow> int \<Rightarrow> TieredBufferPool \<Rightarrow> TieredBufferPool \<times> buffer option" where
  "tiered_Get pick n p =
     (let p1 = count_total p; sz = nat n in
      if n \<le> 256 then (count_miss p1, if n < 0 then None else Some (0, sz))
      else
        (let t = tier_for sz in
         case sync_Get pick t p1 of (p2, c) \<Rightarrow>
           if c \<ge> sz then (count_hit t p2, Some (sz, c))
           else
             (let allocSize = (if sz > tiered_maxAlloc then tiered_maxAlloc else sz)
              in (count_miss (sync_Put t c p2), Some (0, allocSize)))))"

text \<open>A nil buffer is \<open>None\<close>.\<close>

definition tiered_Put :: "buffer option \<Rightarrow> TieredBufferPool \<Rightarrow> TieredBufferPool" where
  "tiered_Put buf p =
     (case buf of
        None \<Rightarrow> p
      | Some (l, c) \<Rightarrow>
          if c = 0 then p
          else if c > 65536 then p
          else if c \<le> 256 then p
          else if c \<le> 1024 then sync_Put Tier1 c p
          else if c \<le> 4096 then sync_Put Tier2 c p
          else if c \<le> 16384 then sync_Put Tier3 c p
          else if c \<le> 65536 then sync_Put Tier4 c p
          else p)"

text \<open>\<open>GetAndPut\<close>; the function it calls is given the buffer, and its result is passed on.\<close>

definition tiered_GetAndPut ::
  "nat option \<Rightarrow> int \<Rightarrow> (buffer \<Rightarrow> 'e) \<Rightarrow> TieredBufferPool \<Rightarrow> TieredBufferPool \<times> 'e option" where
  "tiered_GetAndPut pick n fn p =
     (case tiered_Get pick n p of
        (p1, None) \<Rightarrow> (p1, None)
      | (p1, Some buf) \<Rightarrow> (tiered_Put (Some buf) p1, Some (fn buf)))"

definition all_hits :: "pool_stats \<Rightarrow> uint64" where
  "all_hits s = ps_hits s Tier1 + ps_hits s Tier2 + ps_hits s Tier3 + ps_hits s Tier4 + ps_hits s Tier5"

datatype pool_event = PGet "nat option" int | PPut "buffer option"

fun pool_step :: "pool_event \<Rightarrow> TieredBufferPool \<Rightarrow> TieredBufferPool" where
  "pool_step (PGet pick sz) p = fst (tiered_Get pick sz p)"
| "pool_step (PPut buf) p = tiered_Put buf p"

section \<open>Invariant\<close>

definition tier_high :: "tier \<Rightarrow> nat" where
  "tier_high t = (case t of Tier1 \<Rightarrow> 1024 | Tier2 \<Rightarrow> 4096 | Tier3 \<Rightarrow> 16384 | Tier4 \<Rightarrow> 65536 | Tier5 \<Rightarrow> 65536)"

definition pools_ok :: "TieredBufferPool \<Rightarrow> bool" where
  "pools_ok p \<longleftrightarrow> (\<forall>t. \<forall>c \<in> set (tp_pools p t). tier_New t \<le> c \<and> c \<le> tier_high t)"

definition stats_ok :: "TieredBufferPool \<Rightarrow> bool" where
  "stats_ok p \<longleftrightarrow> all_hits (tp_stats p) + ps_misses (tp_stats p) = ps_total (tp_stats p) \<and> ps_hits (tp_stats p) Tier5 = 0"

lemma count_pools [simp]:
  "tp_pools (count_total p) = tp_pools p" "tp_pools (count_miss p) = tp_pools p" "tp_pools (count_hit t p) = tp_pools p"
  "tp_stats (sync_Put t c p) = tp_stats p"
  by (simp_all add: count_total_def count_miss_def count_hit_def sync_Put_def)

lemma sync_Get_spec:
  assumes "pools_ok p" "sync_Get pick t p = (p', c)"
  shows "pools_ok p' \<and> tp_stats p' = tp_stats p \<and> tier_New t \<le> c \<and> c \<le> tier_high t"
proof -
  have n: "tier_New t \<le> tier_New t \<and> tier_New t \<le> tier_high t"
    by (simp add: tier_high_def tier_New_def split: tier.split)
  have "tier_New t \<le> tp_pools p t ! i \<and> tp_pools p t ! i \<le> tier_high t" if "i < length (tp_pools p t)" for i
    using assms(1) that by (simp add: pools_ok_def)
  moreover have "set (take i cs @ drop (Suc i) cs) \<subseteq> set cs" for i and cs :: "nat list"
    using set_take_subset [of i cs] set_drop_subset [of "Suc i" cs] by auto
  ultimately show ?thesis
    using assms n by (fastforce simp: sync_Get_def pools_ok_def Let_def split: option.splits if_splits)
qed

lemma sync_Put_ok: "pools_ok p \<Longrightarrow> tier_New t \<le> c \<Longrightarrow> c \<le> tier_high t \<Longrightarrow> pools_ok (sync_Put t c p)"
  by (auto simp: pools_ok_def sync_Put_def)

lemma stats_hit: "stats_ok p \<Longrightarrow> t \<noteq> Tier5 \<Longrightarrow> stats_ok (count_hit t (count_total p))"
  by (cases t) (auto simp: stats_ok_def count_hit_def count_total_def all_hits_def ac_simps)

lemma stats_miss: "stats_ok p \<Longrightarrow> stats_ok (count_miss (count_total p))"
  by (auto simp: stats_ok_def count_miss_def count_total_def all_hits_def ac_simps)

lemma stats_cong: "tp_stats p' = tp_stats p \<Longrightarrow> stats_ok (count_hit t p') = stats_ok (count_hit t p)"
  "tp_stats p' = tp_stats p \<Longrightarrow> stats_ok (count_miss p') = stats_ok (count_miss p)"
  by (simp_all add: stats_ok_def count_hit_def count_miss_def)

lemma tiered_Get_spec:
  assumes "pools_ok p" "stats_ok p" "tiered_Get pick n p = (p', r)"
  shows "pools_ok p' \<and> stats_ok p' \<and> (r = None \<longleftrightarrow> n < 0)
    \<and> (\<forall>l c. r = Some (l, c) \<longrightarrow> min (nat n) tiered_maxAlloc \<le> c \<and> (l = 0 \<or> l = nat n))"
proof (cases "n \<le> 256")
  case True
  then have "p' = count_miss (count_total p)" "r = (if n < 0 then None else Some (0, nat n))"
    using assms(3) by (auto simp: tiered_Get_def Let_def)
  then show ?thesis using assms(1) stats_miss [OF assms(2)] by (simp add: pools_ok_def)
next
  case False
  let ?t = "tier_for (nat n)"
  obtain p2 c0 where g: "sync_Get pick ?t (count_total p) = (p2, c0)" by (cases "sync_Get pick ?t (count_total p)")
  have "pools_ok (count_total p)" using assms(1) by (simp add: pools_ok_def)
  note sp = sync_Get_spec [OF this g]
  show ?thesis
  proof (cases "nat n \<le> c0")
    case True
    have "?t \<noteq> Tier5" using True sp by (auto simp: tier_for_def tier_high_def split: if_splits)
    moreover have "p' = count_hit ?t p2" "r = Some (nat n, c0)" using assms(3) False True g by (auto simp: tiered_Get_def Let_def)
    ultimately show ?thesis
      using True False sp stats_hit [OF assms(2), of ?t] stats_cong(1) [of p2 "count_total p"] by (simp add: pools_ok_def)
  next
    case miss: False
    have "p' = count_miss (sync_Put ?t c0 p2)"
      "r = Some (0, if nat n > tiered_maxAlloc then tiered_maxAlloc else nat n)"
      using assms(3) False miss g by (auto simp: tiered_Get_def Let_def)
    moreover have "pools_ok (sync_Put ?t c0 p2)" using sp by (intro sync_Put_ok) auto
    ultimately show ?thesis
      using sp False stats_miss [OF assms(2)] stats_cong(2) [of "sync_Put ?t c0 p2" "count_total p"] by (auto simp: pools_ok_def)
  qed
qed

lemma tiered_Put_ok: "pools_ok p \<Longrightarrow> stats_ok p \<Longrightarrow> pools_ok (tiered_Put b p) \<and> stats_ok (tiered_Put b p)"
  by (auto simp: tiered_Put_def stats_ok_def tier_high_def tier_New_def intro!: sync_Put_ok split: option.split)

lemma pool_steps_ok:
  "pools_ok p \<Longrightarrow> stats_ok p \<Longrightarrow> pools_ok (fold pool_step evs p) \<and> stats_ok (fold pool_step evs p)"
proof (induction evs arbitrary: p)
  case (Cons ev evs)
  have "pools_ok (pool_step ev p) \<and> stats_ok (pool_step ev p)"
  proof (cases ev)
    case (PGet pick sz)
    obtain p' r where "tiered_Get pick sz p = (p', r)" by fastforce
    then show ?thesis using tiered_Get_spec [OF Cons.prems] PGet by simp
  qed (use tiered_Put_ok Cons.prems in simp)
  then show ?case using Cons.IH by simp
qed simp

lemma new_pool_ok: "pools_ok NewTieredBufferPool" "stats_ok NewTieredBufferPool"
  by (simp_all add: NewTieredBufferPool_def pools_ok_def stats_ok_def all_hits_def)

lemma pools_ok_max: "pools_ok p \<Longrightarrow> c \<in> set (tp_pools p t) \<Longrightarrow> c \<le> 65536"
  by (cases t) (auto simp: pools_ok_def tier_high_def dest!: spec [of _ t])

text \<open>
  C25: after any sequence of calls, \<open>Get\<close> panics exactly for a negative size, and otherwise returns a buffer with at
  least the capacity asked for, up to 2 MB, and of length zero or the size asked for. No buffer of more than 64 KB is
  kept for reuse, and the hits and misses add up to the number of calls.
\<close>

theorem buffer_pool_bounds:
  assumes "p = fold pool_step evs NewTieredBufferPool" "tiered_Get pick n p = (p', r)"
  shows "(r = None \<longleftrightarrow> n < 0)
    \<and> (\<forall>l c. r = Some (l, c) \<longrightarrow> min (nat n) tiered_maxAlloc \<le> c \<and> (l = 0 \<or> l = nat n))
    \<and> (\<forall>t. \<forall>c \<in> set (tp_pools p' t). c \<le> 65536)
    \<and> all_hits (tp_stats p') + ps_misses (tp_stats p') = ps_total (tp_stats p')"
proof -
  have "pools_ok p' \<and> stats_ok p' \<and> (r = None \<longleftrightarrow> n < 0)
    \<and> (\<forall>l c. r = Some (l, c) \<longrightarrow> min (nat n) tiered_maxAlloc \<le> c \<and> (l = 0 \<or> l = nat n))"
    using tiered_Get_spec [OF _ _ assms(2)] pool_steps_ok [OF new_pool_ok, of evs] assms(1) by simp
  then show ?thesis using pools_ok_max [of p'] by (auto simp: stats_ok_def)
qed

theorem buffer_pool_bounds_witness:
  "let p = fold pool_step [PPut (Some (0, 1000)), PGet None 70000] NewTieredBufferPool
   in snd (tiered_Get (Some 0) 900 p) = Some (900, 1000) \<and> snd (tiered_Get None (- 1) p) = None"
proof -
  define p where "p = fold pool_step [PPut (Some (0, 1000)), PGet None 70000] NewTieredBufferPool"
  obtain p' r where g: "tiered_Get None (- 1) p = (p', r)" by fastforce
  have "snd (tiered_Get (Some 0) 900 p) = Some (900, 1000)"
    by (simp add: p_def NewTieredBufferPool_def tiered_Put_def tiered_Get_def sync_Put_def sync_Get_def tier_for_def tier_New_def
        count_total_def count_miss_def count_hit_def tiered_maxAlloc_def Let_def)
  then show ?thesis using buffer_pool_bounds [OF p_def g] g unfolding p_def [symmetric] by (simp add: Let_def)
qed

end
