(* ===== verification/Node.thy ===== *)
theory Node
  imports Entropy
begin

text \<open>
  The node as one state machine: client calls, background tasks and received frames are events, and every event
  keeps the invariants of all components (\<open>node_inv\<close>) or ends the process. Tasks handed to the executor may run at
  any time, so they are events of their own.

  \<^item> A panic ends the process in a goroutine of its own, a handler of the server or the start of a component. Flushes,
    anti-entropy, pings, handoff and the reads of \<open>BatchGet\<close> and of the consistency levels run in the executor, which
    recovers a panic; they have no branch that ends the process.
  \<^item> A \<open>machine\<close> is a node with its files and its table of hints. A file operation of a checkpoint succeeds or fails;
    the end of the process in the middle of one is the subject of \<open>checkpoint_crash_safe\<close>.
  \<^item> Running out of memory is not modelled; \<open>Deserialize\<close> allocates for the count in a message before it checks it.
\<close>

section \<open>No operation of a well-formed store panics\<close>

lemma evict_until_total: "storage_inv E s \<Longrightarrow> evict_until f sz tgt mx n s \<noteq> None"
proof (induction f arbitrary: s n)
  case (Suc f)
  have "evictBatchLRU (evictBatchSize s) s \<noteq> None"
    using Suc.prems by (intro evictBatchLRU_total) (simp add: storage_inv_def)
  then obtain s1 k where e: "evictBatchLRU (evictBatchSize s) s = Some (s1, k)" by auto
  then show ?case using Suc.IH evictBatchLRU_inv [OF Suc.prems e] by simp
qed simp

lemma checkAndEvict_no_panic:
  assumes "storage_inv E s" "checkAndEvict sz s = (s', r)"
  shows "r \<noteq> Inl ErrPanic"
proof -
  have "evictBatchLRU 5 s \<noteq> None" using assms(1) by (intro evictBatchLRU_total) (simp add: storage_inv_def)
  moreover have "evict_until 200 sz tgt 200 0 s = None \<Longrightarrow> False" for tgt using evict_until_total [OF assms(1)] by blast
  ultimately show ?thesis
    using assms(2) by (auto simp: checkAndEvict_def Let_def split: if_splits option.splits prod.splits)
qed

lemma Set_no_panic:
  assumes "storage_inv E s" "Set E key item s = (s', r)"
  shows "r \<noteq> Inl ErrPanic"
  using assms
proof (cases rule: Set_cases)
  case (full item i ci sz s1 e)
  then show ?thesis using checkAndEvict_no_panic [OF assms(1) full(4)] by simp
qed simp_all

lemma get_with_no_panic:
  assumes "storage_inv E s" "get_with clone E now key s = (s', r)"
  shows "r \<noteq> Inl ErrPanic"
proof -
  have "mask_ok s" using assms(1) by (simp add: storage_inv_def)
  then obtain i where "getShard E s key = Some i" by (rule getShard_total)
  then show ?thesis using assms(2) by (auto simp: get_with_def Let_def split: if_splits option.splits)
qed

section \<open>What the operations of a node keep\<close>

definition parts_ok :: "env \<Rightarrow> (string \<Rightarrow> uint64) \<Rightarrow> 'a writer_scheme \<Rightarrow> bool" where
  "parts_ok E hi w \<longleftrightarrow> storage_inv E (g_store w) \<and> cache_inv (hash128 E hi) (w_cache w)"

text \<open>Operations that change only the store, the cache and queues.\<close>

definition keeps :: "env \<Rightarrow> (string \<Rightarrow> uint64) \<Rightarrow> 'a writer_scheme \<Rightarrow> 'a writer_scheme \<Rightarrow> bool" where
  "keeps E hi w w' \<longleftrightarrow> (parts_ok E hi w \<longrightarrow> parts_ok E hi w') \<and> g_ring w' = g_ring w \<and> g_member w' = g_member w"

lemma keeps_refl [simp]: "keeps E hi w w"
  by (simp add: keeps_def)

lemma keeps_trans: "keeps E hi a b \<Longrightarrow> keeps E hi b c \<Longrightarrow> keeps E hi a c"
  by (simp add: keeps_def)

lemma keeps_queues [simp]:
  "keeps E hi w (w'\<lparr>pendingOps := q\<rparr>) = keeps E hi w w'" "keeps E hi w (w'\<lparr>flushPending := f\<rparr>) = keeps E hi w w'"
  "keeps E hi w (w'\<lparr>batchCount := n\<rparr>) = keeps E hi w w'" "keeps E hi w (w'\<lparr>w_hlc := h\<rparr>) = keeps E hi w w'"
  "keeps E hi w (w'\<lparr>lastVersions := lv\<rparr>) = keeps E hi w w'"
  by (simp_all add: keeps_def parts_ok_def)

lemma keeps_limiter [simp]: "keeps E hi w (w'\<lparr>r_limiter := rl\<rparr>) = keeps E hi w w'"
  by (simp add: keeps_def parts_ok_def)

lemma keeps_store: "(storage_inv E (g_store w) \<Longrightarrow> storage_inv E s) \<Longrightarrow> keeps E hi w (w\<lparr>g_store := s\<rparr>)"
  by (simp add: keeps_def parts_ok_def)

lemma keeps_cache:
  "(cache_inv (hash128 E hi) (w_cache w) \<Longrightarrow> cache_inv (hash128 E hi) c) \<Longrightarrow> keeps E hi w (w\<lparr>w_cache := c\<rparr>)"
  by (simp add: keeps_def parts_ok_def)

lemma keeps_Set: "keeps E hi w (w\<lparr>g_store := fst (Set E key it (g_store w))\<rparr>)"
  using Set_inv [of E "g_store w" key it] by (intro keeps_store) (cases "Set E key it (g_store w)", simp)

lemma keeps_Get: "keeps E hi w (w\<lparr>g_store := fst (Get E now key (g_store w))\<rparr>)"
  using get_with_inv [of E "g_store w" FastCloneBytes now key]
  by (intro keeps_store) (cases "Get E now key (g_store w)", simp add: Get_def)

lemma keeps_drain: "keeps E hi w (w\<lparr>g_store := fst (GetSyncBuffer E now (g_store w))\<rparr>)"
  using GetSyncBuffer_inv [of E "g_store w" now] by (intro keeps_store) (cases "GetSyncBuffer E now (g_store w)", simp)

lemma keeps_uncache: "keeps E hi w (w\<lparr>w_cache := fst (cache_Delete (hash128 E hi) key (w_cache w))\<rparr>)"
  using cache_Delete_ok [of "hash128 E hi" "w_cache w" key]
  by (intro keeps_cache) (cases "cache_Delete (hash128 E hi) key (w_cache w)", simp)

subsection \<open>Writes\<close>

lemma triggerBatch_keeps: "keeps E hi w (fst (triggerBatch ex w))"
  by (cases "triggerBatch ex w") (simp add: keeps_def parts_ok_def triggerBatch_frame)

definition store_panic :: "writer_err + unit \<Rightarrow> bool" where
  "store_panic r \<longleftrightarrow> (case r of Inl (ErrStoreLocal _ e) \<Rightarrow> e = ErrPanic | _ \<Rightarrow> False)"

lemma storeOrQueue_keeps: "keeps E hi w (fst (storeOrQueue E hi ex key item ot w))"
proof -
  let ?s = "fst (Set E key (Some item) (g_store w))"
  have "keeps E hi w (fst (triggerBatch ex (w\<lparr>g_store := ?s, pendingOps := q\<rparr>)))" for q
    by (rule keeps_trans [OF _ triggerBatch_keeps]) (simp add: keeps_Set)
  from keeps_trans [OF this keeps_uncache] show ?thesis
    by (auto simp: storeOrQueue_def Let_def case_prod_beta keeps_Set split: sum.split)
qed

lemma storeOrQueue_no_panic:
  assumes "parts_ok E hi w"
  shows "\<not> store_panic (snd (snd (storeOrQueue E hi ex key item ot w)))"
  using Set_no_panic [of E "g_store w" key "Some item"] assms
  by (auto simp: storeOrQueue_def Let_def store_panic_def parts_ok_def case_prod_beta prod_eq_iff split: sum.split)

text \<open>The common end of \<open>Set\<close> and \<open>Delete\<close>: store, then trigger the batch.\<close>

definition store_then_trigger ::
  "env \<Rightarrow> (string \<Rightarrow> uint64) \<Rightarrow> (nat \<Rightarrow> bool \<times> bool) \<Rightarrow> string \<Rightarrow> StoredItem \<Rightarrow> OpType \<Rightarrow> 'a writer_scheme
   \<Rightarrow> 'a writer_scheme \<times> writer_effect list \<times> (writer_err + unit)" where
  "store_then_trigger E hi ex key item ot w =
     (case storeOrQueue E hi (ex 0) key item ot w of
        (w2, es, Inl e) \<Rightarrow> (w2, es, Inl e)
      | (w2, es, Inr _) \<Rightarrow> (case triggerBatch (ex 1) w2 of (w3, es') \<Rightarrow> (w3, es @ es', Inr ())))"

lemma store_then_trigger_keeps:
  "keeps E hi w (fst (store_then_trigger E hi ex key item ot w))"
  "parts_ok E hi w \<Longrightarrow> \<not> store_panic (snd (snd (store_then_trigger E hi ex key item ot w)))"
  using storeOrQueue_keeps [of E hi w "ex 0" key item ot] storeOrQueue_no_panic [of E hi w "ex 0" key item ot]
    keeps_trans [OF storeOrQueue_keeps [of E hi w "ex 0" key item ot] triggerBatch_keeps [of E hi _ "ex 1"]]
  by (auto simp: store_then_trigger_def case_prod_beta store_panic_def split: sum.split)

lemma parts_ok_clock [simp]:
  "parts_ok E hi (w\<lparr>w_hlc := h\<rparr>) = parts_ok E hi w" "parts_ok E hi (w\<lparr>lastVersions := lv\<rparr>) = parts_ok E hi w"
  by (simp_all add: parts_ok_def)

lemma writer_Set_keeps:
  "keeps E hi w (fst (writer_Set E hi now order ex key item w))"
  "parts_ok E hi w \<Longrightarrow> \<not> store_panic (snd (snd (writer_Set E hi now order ex key item w)))"
proof -
  obtain h ver where nv: "next_version now key w = (h, ver)" by (cases "next_version now key w")
  let ?w = "w\<lparr>w_hlc := h, lastVersions := trim_versions order (AList.update key ver (lastVersions w))\<rparr>"
  let ?it = "\<lparr>Version = ver, ExpireAt = ExpireAt item, Value = Value item, Key = key\<rparr>"
  have eq: "writer_Set E hi now order ex key item w = store_then_trigger E hi ex key ?it OpSet ?w"
    by (simp only: writer_Set_def nv Let_def store_then_trigger_def prod.case)
  show "keeps E hi w (fst (writer_Set E hi now order ex key item w))"
    unfolding eq by (rule keeps_trans [OF _ store_then_trigger_keeps(1)]) simp
  show "parts_ok E hi w \<Longrightarrow> \<not> store_panic (snd (snd (writer_Set E hi now order ex key item w)))"
    unfolding eq by (rule store_then_trigger_keeps(2)) simp
qed

lemma writer_Delete_keeps:
  "keeps E hi w (fst (writer_Delete E hi now ex key ver w))"
  "parts_ok E hi w \<Longrightarrow> \<not> store_panic (snd (snd (writer_Delete E hi now ex key ver w)))"
proof -
  obtain h st where nv: "HLC_Now (UnixNano now) (w_hlc w) = (h, st)" by (cases "HLC_Now (UnixNano now) (w_hlc w)")
  let ?it = "\<lparr>Version = delete_version (hlcToInt64 now st) ver, ExpireAt = zero_time, Value = go_nil, Key = key\<rparr>"
  have eq: "writer_Delete E hi now ex key ver w = store_then_trigger E hi ex key ?it OpDelete (w\<lparr>w_hlc := h\<rparr>)"
    by (simp only: writer_Delete_def nv Let_def store_then_trigger_def prod.case)
  show "keeps E hi w (fst (writer_Delete E hi now ex key ver w))"
    unfolding eq by (rule keeps_trans [OF _ store_then_trigger_keeps(1)]) simp
  show "parts_ok E hi w \<Longrightarrow> \<not> store_panic (snd (snd (writer_Delete E hi now ex key ver w)))"
    unfolding eq by (rule store_then_trigger_keeps(2)) simp
qed

lemma batch_item_keeps: "keeps E hi w (batch_item E hi ver kv w)"
proof (cases kv)
  case (Pair key item)
  let ?it = "\<lparr>Version = ver, ExpireAt = ExpireAt item, Value = Value item, Key = key\<rparr>"
  have "keeps E hi w (w\<lparr>g_store := fst (Set E key (Some ?it) (g_store w)),
      w_cache := fst (cache_Delete (hash128 E hi) key (w_cache w))\<rparr>)"
    using keeps_trans [OF keeps_Set [of E hi w key "Some ?it"] keeps_uncache [of E hi _ key]] by simp
  then show ?thesis by (simp add: Pair batch_item_def Let_def)
qed

lemma fold_batch_keeps: "keeps E hi w (fold (batch_item E hi ver) kvs w)"
  by (induction kvs arbitrary: w) (auto intro: keeps_trans [OF batch_item_keeps])

lemma writer_BatchSet_keeps: "keeps E hi w (fst (writer_BatchSet E hi now ex kvs w))"
proof -
  have "keeps E hi w (fst (triggerBatch ex (fold (batch_item E hi ver) kvs (w\<lparr>w_hlc := h\<rparr>))))" for ver h
    by (rule keeps_trans [OF keeps_trans [OF _ fold_batch_keeps] triggerBatch_keeps]) simp
  then show ?thesis by (simp add: writer_BatchSet_def case_prod_beta Let_def)
qed

lemma item_no_panic: "parts_ok E hi w \<Longrightarrow> \<not> item_panics E hi ver kv w"
  using Set_no_panic [of E "g_store w"] by (auto simp: item_panics_def parts_ok_def prod_eq_iff split: prod.split)

lemma batch_no_panic: "parts_ok E hi w \<Longrightarrow> \<not> batch_panics E hi ver kvs w"
proof (induction kvs arbitrary: w)
  case (Cons kv kvs)
  have "parts_ok E hi (batch_item E hi ver kv w)" using batch_item_keeps [of E hi w ver kv] Cons.prems by (simp add: keeps_def)
  then show ?case using Cons.IH item_no_panic [OF Cons.prems] by simp
qed simp

lemma BatchSet_no_panic: "parts_ok E hi w \<Longrightarrow> \<not> BatchSet_panics E hi now kvs w"
  by (simp add: BatchSet_panics_def case_prod_beta Let_def batch_no_panic)

lemma flush_keeps: "keeps E hi w (fst (run_flush E hi now accept w))"
  by (simp add: run_flush_def flushInternal_def case_prod_beta Let_def keeps_drain)

lemma retry_keeps: "keeps E hi w (fst (run_retry ex w))"
  using keeps_trans [OF _ triggerBatch_keeps, of E hi w "w\<lparr>flushPending := False\<rparr>" ex] by (simp add: run_retry_def)

lemma timer_keeps: "keeps E hi w (fst (timer_tick ex w))"
  by (simp add: timer_tick_def)

subsection \<open>Reads\<close>

lemma cache_Get_keeps: "keeps E hi w (w\<lparr>w_cache := fst (cache_Get (hash128 E hi) now key (w_cache w))\<rparr>)"
  using cache_Get_ok [of "hash128 E hi" "w_cache w" now key]
  by (intro keeps_cache) (cases "cache_Get (hash128 E hi) now key (w_cache w)", simp)

lemma cache_Set_keeps: "cache_Set (hash128 E hi) now key v ttl (w_cache w) = Some c \<Longrightarrow> keeps E hi w (w\<lparr>w_cache := c\<rparr>)"
  using cache_Set_ok [of "hash128 E hi" "w_cache w" now key v ttl] by (intro keeps_cache) auto

lemma reader_Get_keeps:
  "keeps E hi r (fst (reader_Get E hi now remote key r))"
  "parts_ok E hi r \<Longrightarrow> snd (reader_Get E hi now remote key r) \<noteq> Inl ErrPanic"
proof -
  obtain c x where c: "cache_Get (hash128 E hi) now key (w_cache r) = (c, x)"
    by (cases "cache_Get (hash128 E hi) now key (w_cache r)")
  obtain s y where s: "Get E now key (g_store r) = (s, y)" by (cases "Get E now key (g_store r)")
  let ?r = "r\<lparr>w_cache := c, g_store := s\<rparr>"
  have k1: "keeps E hi r (r\<lparr>w_cache := c\<rparr>)" using cache_Get_keeps [of E hi r now key] c by simp
  have k2: "keeps E hi r ?r"
    using keeps_trans [OF k1 keeps_Get [of E hi "r\<lparr>w_cache := c\<rparr>" now key]] s by simp
  have k3: "keeps E hi r (?r\<lparr>w_cache := c'\<rparr>)"
    if "cache_Set (hash128 E hi) now key v ttl c = Some c'" for v ttl c'
    using keeps_trans [OF k2 cache_Set_keeps [of E hi now key v ttl ?r c']] that by simp
  have k4: "keeps E hi r (r\<lparr>g_store := s, w_cache := c'\<rparr>)"
    if "cache_Set (hash128 E hi) now key v ttl c = Some c'" for v ttl c'
    using k3 [OF that] by simp
  show "keeps E hi r (fst (reader_Get E hi now remote key r))"
    by (auto simp: reader_Get_def c s Let_def k1 k2 k3 k4 split: sum.split option.split)
  show "snd (reader_Get E hi now remote key r) \<noteq> Inl ErrPanic" if ok: "parts_ok E hi r"
  proof -
    have "y \<noteq> Inl ErrPanic" using get_with_no_panic [OF _ s [unfolded Get_def]] ok by (simp add: parts_ok_def)
    moreover have n: "cache_Set (hash128 E hi) now key v ttl c = None \<longleftrightarrow> False" for v ttl
      using cache_Set_ok [of "hash128 E hi" c now key v ttl] cache_Get_ok [OF _ c] ok by (auto simp: parts_ok_def)
    ultimately show ?thesis by (auto simp: reader_Get_def c s Let_def n split: sum.split option.split)
  qed
qed

lemma batch_get_keeps: "keeps E hi r (fst (batch_get E hi now remote ks result r))"
proof (induction ks arbitrary: result r)
  case (Cons key ks)
  note k = keeps_trans [OF reader_Get_keeps(1) [of E hi r now "\<lambda>t. remote t key" key] Cons.IH]
  show ?case
    using k by (auto simp: case_prod_beta split: sum.split option.split)
qed simp

lemma read_all_keeps: "keeps E hi r (fst (read_all E now remote key ts r))"
proof (induction ts arbitrary: r)
  case (Cons t ts)
  have "keeps E hi r (fst (read_one E now remote key t r))"
    using keeps_Get [of E hi r now key] by (auto simp: read_one_def case_prod_beta split: sum.split)
  from keeps_trans [OF this Cons.IH] show ?case by (simp add: case_prod_beta)
qed simp

lemma repair_items_keeps: "keeps E hi r (fst (repair_items now accept key its r))"
  by (simp add: repair_items_def case_prod_beta)

lemma GetSpeculative_keeps:
  assumes "reader_GetSpeculative E hi now remote arrivals cancelled accept key n r = Some (r', res, task)"
  shows "keeps E hi r r'"
  using assms keeps_trans [OF read_all_keeps repair_items_keeps]
  by (auto simp: reader_GetSpeculative_def Let_def case_prod_beta split: if_splits)

lemma GetWithConsistency_keeps:
  "keeps E hi r (fst (reader_GetWithConsistency E hi now remote arrivals key level r))"
  "snd (reader_GetWithConsistency E hi now remote arrivals key level r) \<noteq> Inl ErrPanic"
proof -
  have "keeps E hi r (r\<lparr>w_cache := fst (cache_Get (hash128 E hi) now key (w_cache r))\<rparr>)" by (rule cache_Get_keeps)
  note k = this keeps_trans [OF this read_all_keeps]
  show "keeps E hi r (fst (reader_GetWithConsistency E hi now remote arrivals key level r))"
    using k read_all_keeps
    by (auto simp: reader_GetWithConsistency_def Let_def case_prod_beta split: option.split if_split)
  show "snd (reader_GetWithConsistency E hi now remote arrivals key level r) \<noteq> Inl ErrPanic"
    by (auto simp: reader_GetWithConsistency_def Let_def case_prod_beta split: option.split if_split)
qed

subsection \<open>Messages\<close>

text \<open>The gossip handler changes nothing but the store.\<close>

definition store_only :: "env \<Rightarrow> 'a gossip_scheme \<Rightarrow> 'a gossip_scheme \<Rightarrow> bool" where
  "store_only E g g' \<longleftrightarrow> (\<exists>s. g' = g\<lparr>g_store := s\<rparr> \<and> (storage_inv E (g_store g) \<longrightarrow> storage_inv E s))"

lemma store_only_refl [simp]: "store_only E g g"
  unfolding store_only_def by (rule exI [of _ "g_store g"]) simp

lemma store_only_trans: "store_only E a b \<Longrightarrow> store_only E b c \<Longrightarrow> store_only E a c"
  by (auto simp: store_only_def)

lemma store_onlyI: "(storage_inv E (g_store g) \<Longrightarrow> storage_inv E s) \<Longrightarrow> store_only E g (g\<lparr>g_store := s\<rparr>)"
  unfolding store_only_def by blast

lemma store_only_keeps: "store_only E w w' \<Longrightarrow> keeps E hi w w'"
  by (auto simp: store_only_def intro: keeps_store)

lemma apply_one_inv:
  assumes "storage_inv E s" "apply_one E now key item s = (s', r)"
  shows "storage_inv E s'"
proof -
  have "storage_inv E (fst (GetNoCopy E now key s))"
    using get_with_inv [OF assms(1), of "\<lambda>v. v" now key] by (cases "GetNoCopy E now key s") (simp add: GetNoCopy_def)
  then show ?thesis
    using assms(2) Set_inv [of E "fst (GetNoCopy E now key s)" key "Some item"]
    by (auto simp: apply_one_def case_prod_beta split: sum.splits if_splits)
qed

lemma apply_loop_only: "store_only E g (fst (apply_loop E hi now ops c g))"
proof (induction ops arbitrary: c g)
  case (Cons p ops)
  have o: "store_only E g (g\<lparr>g_store := s\<rparr>)" if "apply_one E now k it (g_store g) = (s, r)" for k it s r
    using apply_one_inv [OF _ that] by (rule store_onlyI)
  show ?case
    using Cons.IH store_only_trans [OF o Cons.IH] o
    by (auto split: option.split prod.split sum.split)
qed simp

lemma HandleMessage_only: "store_only E g (fst (gossip_HandleMessage E hi now accept dat g))"
  using apply_loop_only [of E g hi now]
  by (auto simp: gossip_HandleMessage_def applyOps_def Let_def case_prod_beta)

lemma drain_only: "store_only E g (g\<lparr>g_store := fst (GetSyncBuffer E now (g_store g))\<rparr>)"
  using GetSyncBuffer_inv [of E "g_store g" now] by (intro store_onlyI) (cases "GetSyncBuffer E now (g_store g)", simp)

lemma Pull_only: "store_only E g (fst (Pull E now target g))"
  by (simp add: Pull_def case_prod_beta drain_only)

lemma pull_response_only: "store_only E g (fst (pull_response E now target g))"
  by (simp add: pull_response_def case_prod_beta drain_only)

lemma Get_store_inv: "storage_inv E s \<Longrightarrow> storage_inv E (fst (Get E now key s))"
  using storage_exec_inv [of E s "storage_call.CGet now key"] by simp

lemma Keys_store_inv: "storage_inv E s \<Longrightarrow> storage_inv E (fst (Keys now s))"
  using storage_exec_inv [of E s "storage_call.CKeys now"] by simp

lemma digest_loop_inv: "storage_inv E s \<Longrightarrow> storage_inv E (fst (digest_loop E hi now ks bloom vv s))"
  by (induction ks arbitrary: bloom vv s) (simp_all add: case_prod_beta Get_store_inv)

lemma Digest_inv: "storage_inv E s \<Longrightarrow> storage_inv E (fst (Digest E hi now rangeKey s))"
  by (simp add: Digest_def getKeysInRange_def case_prod_beta digest_loop_inv Keys_store_inv)

lemma sync_keys_inv: "storage_inv E s \<Longrightarrow> storage_inv E (fst (sync_keys E hi now bloom lb vv ks s))"
  by (induction ks arbitrary: s) (auto simp: case_prod_beta Let_def Get_store_inv)

lemma sync_missing_inv: "storage_inv E s \<Longrightarrow> storage_inv E (fst (sync_missing E now ks s))"
  by (induction ks arbitrary: s) (simp_all add: case_prod_beta Get_store_inv)

lemma Sync_inv: "storage_inv E s \<Longrightarrow> storage_inv E (fst (Sync E hi now bloom vv s))"
  by (simp add: Sync_def case_prod_beta sync_missing_inv sync_keys_inv Digest_inv Keys_store_inv)

lemma doAntiEntropy_only: "store_only E g (fst (doAntiEntropy E hi now g))"
proof -
  have "store_only E g (g\<lparr>g_store := fst (Sync E hi now bloom [] (fst (Digest E hi now '''' (g_store g))))\<rparr>)" for bloom
    by (rule store_onlyI) (intro Sync_inv Digest_inv)
  note k = this store_only_trans [OF this Pull_only]
  show ?thesis by (simp add: doAntiEntropy_def Let_def case_prod_beta k)
qed

lemma clean_only: "store_only E g (g\<lparr>g_store := cleanExpired now (g_store g)\<rparr>)"
  by (rule store_onlyI) (simp add: cleanExpired_inv)

lemma runAsyncEviction_total: "storage_inv E s \<Longrightarrow> runAsyncEviction s \<noteq> None"
  using evict_until_total [of E s] by (simp add: runAsyncEviction_def Let_def)

section \<open>The invariant of a node\<close>

text \<open>
  The store, the cache, the member table and the ring are each well formed; \<open>lv\<close> says whether the node may have
  left.
\<close>

definition node_inv :: "env \<Rightarrow> (string \<Rightarrow> uint64) \<Rightarrow> bool \<Rightarrow> 'a cluster_scheme \<Rightarrow> bool" where
  "node_inv E hi lv c \<longleftrightarrow> parts_ok E hi c \<and> ring_inv (g_ring c) \<and> mgr_inv lv (g_member c)"

lemma node_inv_keeps: "keeps E hi c c' \<Longrightarrow> node_inv E hi lv c \<Longrightarrow> node_inv E hi lv c'"
  by (simp add: keeps_def node_inv_def)

lemma node_inv_out [simp]: "node_inv E hi lv (c\<lparr>c_out := es\<rparr>) = node_inv E hi lv c"
  by (simp add: node_inv_def parts_ok_def)

lemma node_inv_mono: "node_inv E hi lv c \<Longrightarrow> node_inv E hi (lv \<or> lw) c"
  by (simp add: node_inv_def mgr_inv_mono)

lemma updateRing_inv: "ring_inv r \<Longrightarrow> ring_inv (updateRing hi now ms r)"
  by (simp add: updateRing_def Let_def ring_inv_Update)

lemma ring_follow_inv: "ring_inv r \<Longrightarrow> ring_inv (fst (ring_follow hi clock i es r))"
  by (induction hi clock i es r rule: ring_follow.induct) (auto simp: updateRing_inv split: member_effect.split)

lemma member_step_node_inv:
  assumes "node_inv E hi lv c"
  shows "node_inv E hi (lv \<or> e = EvLeave) (fst (cluster_member_step hi clock i e c))"
proof -
  have m: "mgr_inv lv (g_member c)" "mgr_inv (lv \<or> e = EvLeave) (g_member c)"
    using assms mgr_inv_mono by (auto simp: node_inv_def)
  have "mgr_inv (lv \<or> e = EvLeave) (fst (member_step e (g_member c)))"
    using table_steps_keep [OF member_step_steps [OF m(1)]] m(2) by blast
  then show ?thesis
    using assms by (simp add: cluster_member_step_def case_prod_beta node_inv_def parts_ok_def ring_follow_inv)
qed

lemma cluster_New_inv:
  assumes "cluster_New hi now blank cfg st h = Some c" "storage_inv E st"
  shows "node_inv E hi False c"
proof -
  have "g_store c = st" "w_cache c = cache_New 256 (if cc_CacheSize cfg \<le> 0 then 10000 else cc_CacheSize cfg) blank"
    using assms(1) unfolding cluster_New_def Let_def
    by (auto simp: newReader_def newWriter_def newGossip_def gossip.defs writer.defs reader.defs split: if_split_asm)
  moreover have "mgr_inv False (g_member c)"
    by (simp add: cluster_New_fields(1) [OF assms(1)] mgr_inv_callback newMemberMgr_inv)
  moreover have "ring_inv (g_ring c)"
    unfolding cluster_New_fields(2) [OF assms(1)] by (intro updateRing_inv ring_inv_new)
  ultimately show ?thesis using assms(2) by (simp add: node_inv_def parts_ok_def cache_New_ok)
qed

section \<open>Events\<close>

text \<open>
  A speculative read whose answers never come has no event. \<open>NMember\<close> is a step of the member manager other than the
  receipt of a message; the loops and timers of the node produce it.
\<close>

datatype node_event =
  NSet gotime "string list \<Rightarrow> string list" "nat \<Rightarrow> bool \<times> bool" string StoredItem
| NBatchSet gotime "bool \<times> bool" "(string \<times> StoredItem) list"
| NDelete gotime "nat \<Rightarrow> bool \<times> bool" string
| NGet gotime "string \<Rightarrow> remote_result" string
| NBatchGet gotime "string \<Rightarrow> string \<Rightarrow> remote_result" "string \<Rightarrow> bool" "string list"
| NSpeculative gotime "string \<Rightarrow> remote_result" "string list \<Rightarrow> string list" bool bool string int
| NConsistent gotime "string \<Rightarrow> remote_result" "string list \<Rightarrow> string list" string ConsistencyLevel
| NFlush gotime "string \<Rightarrow> bool"
| NRetry "bool \<times> bool"
| NTimer "bool \<times> bool"
| NPull gotime string
| NPullResponse gotime string
| NClean gotime
| NEvict
| NEntropy gotime
| NMember "nat \<Rightarrow> gotime" member_event
| NJoin gotime "nat \<Rightarrow> bool" "string list"
| NReceive gotime "nat \<Rightarrow> gotime" "string \<Rightarrow> bool" "nat \<Rightarrow> byte" string "byte list"

text \<open>\<open>None\<close> is a process that has ended by a panic.\<close>

fun node_step :: "env \<Rightarrow> (string \<Rightarrow> uint64) \<Rightarrow> node_event \<Rightarrow> cluster \<Rightarrow> cluster option" where
  "node_step E hi (NSet now order ex key item) c =
     (case writer_Set E hi now order ex key item c of (c', _, r) \<Rightarrow> if store_panic r then None else Some c')"
| "node_step E hi (NBatchSet now ex kvs) c =
     (if BatchSet_panics E hi now kvs c then None else Some (fst (writer_BatchSet E hi now ex kvs c)))"
| "node_step E hi (NDelete now ex key) c =
     (if snd (Get E now key (g_store c)) = Inl ErrPanic then None
      else case cluster_Delete E hi now ex key c of (c', _, r) \<Rightarrow> if store_panic r then None else Some c')"
| "node_step E hi (NGet now remote key) c =
     (case cluster_Get E hi now remote key c of (c', r) \<Rightarrow> if r = Inl ErrPanic then None else Some c')"
| "node_step E hi (NBatchGet now remote accept ks) c = Some (fst (reader_BatchGet E hi now remote accept ks c))"
| "node_step E hi (NSpeculative now remote arrivals cancelled accept key n) c =
     (case reader_GetSpeculative E hi now remote arrivals cancelled accept key n c of
        None \<Rightarrow> Some c
      | Some (c', _) \<Rightarrow> Some c')"
| "node_step E hi (NConsistent now remote arrivals key level) c =
     (case reader_GetWithConsistency E hi now remote arrivals key level c of (c', r) \<Rightarrow>
        if r = Inl ErrPanic then None else Some c')"
| "node_step E hi (NFlush now accept) c = Some (fst (run_flush E hi now accept c))"
| "node_step E hi (NRetry ex) c = Some (fst (run_retry ex c))"
| "node_step E hi (NTimer ex) c = Some (fst (timer_tick ex c))"
| "node_step E hi (NPull now target) c = Some (fst (Pull E now target c))"
| "node_step E hi (NPullResponse now target) c = Some (fst (pull_response E now target c))"
| "node_step E hi (NClean now) c = Some (c\<lparr>g_store := cleanExpired now (g_store c)\<rparr>)"
| "node_step E hi NEvict c = map_option (\<lambda>s. c\<lparr>g_store := s\<rparr>) (runAsyncEviction (g_store c))"
| "node_step E hi (NEntropy now) c = Some (fst (doAntiEntropy E hi now c))"
| "node_step E hi (NMember clock e) c = Some (fst (cluster_member_step hi clock 0 e c))"
| "node_step E hi (NJoin now ok seeds) c = Some (fst (cluster_Join hi now ok seeds c))"
| "node_step E hi (NReceive now clock accept junk addr dat) c =
     fst (node_receive E hi now clock accept junk addr dat (Some c))"

text \<open>The node with its files and hints. \<open>MStop\<close> is the checkpoint of \<open>Close\<close>.\<close>

record machine =
  m_node :: cluster
  m_files :: fs
  m_hints :: hints

datatype machine_event =
  MNode node_event
| MCheckpoint gotime string "save_step \<Rightarrow> nat option"
| MStop gotime string "save_step \<Rightarrow> nat option"
| MReplay gotime string bool "bool \<times> bool" "string \<Rightarrow> bool"
| MHint bool string "SyncOperation list"
| MHandoff string "nat \<Rightarrow> cluster \<times> (string \<Rightarrow> bool) \<times> (hints \<Rightarrow> hints)"

definition failing :: "(save_step \<Rightarrow> nat option) \<Rightarrow> save_step \<Rightarrow> io" where
  "failing out st = (case out st of None \<Rightarrow> IoOk | Some n \<Rightarrow> IoFail n)"

definition set_files :: "machine \<Rightarrow> MemStorage \<times> fs \<Rightarrow> machine" where
  "set_files m sf = m\<lparr>m_node := (m_node m)\<lparr>g_store := fst sf\<rparr>, m_files := snd sf\<rparr>"

fun machine_step :: "env \<Rightarrow> (string \<Rightarrow> uint64) \<Rightarrow> machine_event \<Rightarrow> machine \<Rightarrow> machine option" where
  "machine_step E hi (MNode e) m = map_option (\<lambda>c. m\<lparr>m_node := c\<rparr>) (node_step E hi e (m_node m))"
| "machine_step E hi (MCheckpoint now path out) m =
     Some (set_files m (checkpoint_tick E now path (failing out) (g_store (m_node m), m_files m)))"
| "machine_step E hi (MStop now path out) m =
     Some (set_files m (replay_Close E now path (failing out) (g_store (m_node m), m_files m)))"
| "machine_step E hi (MReplay now path readable ex accept) m =
     map_option (\<lambda>(c, _). m\<lparr>m_node := c\<rparr>)
       (replay_Start E hi now ex accept (LoadCheckpoint path readable (m_files m)) (m_hints m) (m_node m))"
| "machine_step E hi (MHint accept n ops) m = Some (m\<lparr>m_hints := fst (HintedHandoff accept n ops (m_hints m))\<rparr>)"
| "machine_step E hi (MHandoff n attempts) m = Some (m\<lparr>m_hints := fst (retryHintedHandoff n attempts (m_hints m))\<rparr>)"

primrec machine_exec :: "env \<Rightarrow> (string \<Rightarrow> uint64) \<Rightarrow> machine_event list \<Rightarrow> machine \<Rightarrow> machine option" where
  "machine_exec E hi [] m = Some m"
| "machine_exec E hi (e # evs) m = (case machine_step E hi e m of None \<Rightarrow> None | Some m' \<Rightarrow> machine_exec E hi evs m')"

definition leaves :: "node_event \<Rightarrow> bool" where
  "leaves e \<longleftrightarrow> (case e of NMember _ ev \<Rightarrow> ev = EvLeave | _ \<Rightarrow> False)"

text \<open>The frames that end the process: a connect message whose body is no message and is not refused.\<close>

definition fatal :: "env \<Rightarrow> node_event \<Rightarrow> bool" where
  "fatal E e \<longleftrightarrow>
     (case e of
        NReceive _ _ _ _ _ dat \<Rightarrow>
          22 \<le> length dat
          \<and> (case decodeMessage (lz E) dat of
               Inl _ \<Rightarrow> False
             | Inr msg \<Rightarrow> mType msg = MessageTypeConnect \<and> 2 \<le> go_len (mData msg)
                 \<and> DecodeMemberMsg (go_bytes (mData msg)) 2 = None \<and> \<not> refused_connect (go_bytes (mData msg)))
      | _ \<Rightarrow> False)"

section \<open>Received frames\<close>

lemmas message_types = MessageTypeRequest_def MessageTypeResponse_def MessageTypeOneWay_def MessageTypeHeartbeat_def
  MessageTypePing_def MessageTypeConnect_def MessageTypeLeave_def MessageTypeGossipPush_def MessageTypeGossipPull_def
  MessageTypeGossipResponse_def MessageTypeReadRequest_def MessageTypeReadResponse_def

lemma Route_state:
  "fst (Route r now addr msg s) = s
   \<or> (\<exists>h. map_of (handlers r) (mType msg) = Some h \<and> fst (Route r now addr msg s) = fst (h addr (mData msg) s))"
  by (auto simp: Route_def Let_def case_prod_beta split: option.split sum.split)

lemma node_handlers:
  assumes "map_of (handlers (setupNetworkHandlers E hi now clock accept network_router)) t = Some h"
  obtains "t = MessageTypePing" "h = member_handler hi now clock MessageTypePing"
  | "t = MessageTypeConnect" "h = member_handler hi now clock MessageTypeConnect"
  | "t = MessageTypeLeave" "h = member_handler hi now clock MessageTypeLeave"
  | "h = gossip_handler E hi now accept" "t \<noteq> MessageTypeConnect"
  | "h = request_handler E now" "t \<noteq> MessageTypeConnect"
  | "h = read_handler E now" "t \<noteq> MessageTypeConnect"
  | "h = (\<lambda>remote dat s. (s, Inr go_nil))" "t \<noteq> MessageTypeConnect"
  using assms
  by (auto simp: setupNetworkHandlers_def RegisterHandler_def network_router_def NewRouter_def update_conv' message_types split: if_splits)

definition survives :: "env \<Rightarrow> (string \<Rightarrow> uint64) \<Rightarrow> bool \<Rightarrow> cluster option \<Rightarrow> bool" where
  "survives E hi lv s \<longleftrightarrow> (\<exists>c. s = Some c \<and> node_inv E hi lv c)"

lemma survives_Some [simp]: "survives E hi lv (Some c) = node_inv E hi lv c" "\<not> survives E hi lv None"
  by (simp_all add: survives_def)

lemma gossip_handler_survives:
  assumes "node_inv E hi lv c"
  shows "survives E hi lv (fst (gossip_handler E hi now accept addr dat (Some c)))"
  using node_inv_keeps [OF store_only_keeps [OF HandleMessage_only] assms]
  by (simp add: gossip_handler_def case_prod_beta)

lemma stored_value_inv:
  assumes "node_inv E hi lv c"
  shows "node_inv E hi lv (fst (stored_value E now dat c))"
  using node_inv_keeps [OF keeps_Get assms] by (simp add: stored_value_def case_prod_beta split: sum.split)

lemma read_handlers_survive:
  assumes "node_inv E hi lv c"
  shows "survives E hi lv (fst (read_handler E now addr dat (Some c)))"
    "survives E hi lv (fst (request_handler E now addr dat (Some c)))"
  using stored_value_inv [OF assms, of now dat] assms
  by (auto simp: read_handler_def request_handler_def case_prod_beta split: option.split)

lemma handle_iface_survives:
  assumes "node_inv E hi lv c" "v \<noteq> NilPtr 2"
  shows "survives E hi lv (handle_iface hi now clock v c)"
  using assms member_step_node_inv [OF assms(1), of "EvReceive now msg" for msg]
  by (auto simp: handle_iface_def split: go_iface.split)

lemma decodeMemberMsg_nil:
  "decodeMemberMsg dat t = NilPtr 2 \<longleftrightarrow>
   t = MessageTypeConnect \<and> dat \<noteq> [] \<and> DecodeMemberMsg dat 2 = None \<and> \<not> refused_connect dat"
  by (auto simp: decodeMemberMsg_def message_types split: option.split)

lemma member_handler_survives:
  assumes "node_inv E hi lv c" "\<not> (t = MessageTypeConnect \<and> 2 \<le> go_len dat
      \<and> DecodeMemberMsg (go_bytes dat) 2 = None \<and> \<not> refused_connect (go_bytes dat))"
  shows "survives E hi lv (fst (member_handler hi now clock t addr dat (Some c)))"
proof (cases "t = MessageTypeConnect \<and> go_len dat < 2")
  case False
  then have "decodeMemberMsg (go_bytes dat) t \<noteq> NilPtr 2" using assms(2) by (auto simp: decodeMemberMsg_nil)
  from handle_iface_survives [OF assms(1) this] False show ?thesis by (auto simp: member_handler_def)
qed (simp add: member_handler_def assms(1))

lemma fatal_receive:
  assumes "22 \<le> length dat" "decodeMessage (lz E) dat = Inr msg"
    and "mType msg = MessageTypeConnect" "2 \<le> go_len (mData msg)"
    and "DecodeMemberMsg (go_bytes (mData msg)) 2 = None" "\<not> refused_connect (go_bytes (mData msg))"
  shows "fst (node_receive E hi now clock accept junk addr dat (Some c)) = None"
proof -
  have "decodeMemberMsg (go_bytes (mData msg)) MessageTypeConnect = NilPtr 2"
    using assms(4-6) by (auto simp: decodeMemberMsg_nil go_len_def)
  then have "fst (member_handler hi now clock MessageTypeConnect addr (mData msg) (Some c)) = None"
    using assms(4) by (simp add: member_handler_def handle_iface_def)
  then have "fst (Route (setupNetworkHandlers E hi now clock accept network_router) now addr msg (Some c)) = None"
    using assms(3)
    by (simp add: handler_lookup(2) [unfolded MessageTypeConnect_def] Route_def message_types Let_def case_prod_beta
        split: sum.split)
  then show ?thesis
    using assms(1,2) by (simp add: node_receive_def server_handler_def case_prod_beta split: sum.split option.split)
qed

lemma receive_survives:
  assumes "node_inv E hi lv c" "\<not> fatal E (NReceive now clock accept junk addr dat)"
  shows "survives E hi lv (fst (node_receive E hi now clock accept junk addr dat (Some c)))"
proof -
  have "survives E hi lv (fst (Route (setupNetworkHandlers E hi now clock accept network_router) now addr msg (Some c)))"
    if d: "22 \<le> length dat" "decodeMessage (lz E) dat = Inr msg" for msg
    using Route_state [of "setupNetworkHandlers E hi now clock accept network_router" now addr msg "Some c"]
  proof (elim disjE exE conjE)
    fix h assume h: "map_of (handlers (setupNetworkHandlers E hi now clock accept network_router)) (mType msg) = Some h"
      "fst (Route (setupNetworkHandlers E hi now clock accept network_router) now addr msg (Some c)) = fst (h addr (mData msg) (Some c))"
    have ok: "\<not> (mType msg = MessageTypeConnect \<and> 2 \<le> go_len (mData msg)
        \<and> DecodeMemberMsg (go_bytes (mData msg)) 2 = None \<and> \<not> refused_connect (go_bytes (mData msg)))"
      using assms(2) d by (auto simp: fatal_def)
    from h(1) show ?thesis
      by (cases rule: node_handlers) (use ok assms(1) in \<open>simp_all add: h(2) read_handlers_survive [OF assms(1)]
          gossip_handler_survives [OF assms(1)] member_handler_survives [OF assms(1)]\<close>)
  qed (simp add: assms(1))
  then show ?thesis
    by (auto simp: node_receive_def server_handler_def case_prod_beta assms(1) split: sum.split option.split)
qed

section \<open>Safety of the node\<close>

lemma node_step_survives:
  assumes "node_inv E hi lv c" "\<not> fatal E e"
  shows "survives E hi (lv \<or> leaves e) (node_step E hi e c)"
proof (cases e)
  case (NSet now order ex key item)
  have "\<not> store_panic (snd (snd (writer_Set E hi now order ex key item c)))"
    by (rule writer_Set_keeps(2)) (use assms(1) in \<open>simp add: node_inv_def\<close>)
  with NSet show ?thesis
    by (simp add: case_prod_beta leaves_def node_inv_keeps [OF writer_Set_keeps(1) assms(1)])
next
  case (NDelete now ex key)
  have c1: "node_inv E hi lv (c\<lparr>g_store := fst (Get E now key (g_store c))\<rparr>)" by (rule node_inv_keeps [OF keeps_Get assms(1)])
  have "snd (Get E now key (g_store c)) \<noteq> Inl ErrPanic"
    using get_with_no_panic [of E "g_store c" FastCloneBytes now key] assms(1)
    by (cases "Get E now key (g_store c)") (simp add: Get_def node_inv_def parts_ok_def)
  moreover have "\<not> store_panic (snd (snd (cluster_Delete E hi now ex key c)))"
    unfolding cluster_Delete_def case_prod_beta by (rule writer_Delete_keeps(2)) (use c1 in \<open>simp add: node_inv_def\<close>)
  moreover have "node_inv E hi lv (fst (cluster_Delete E hi now ex key c))"
    unfolding cluster_Delete_def case_prod_beta by (rule node_inv_keeps [OF writer_Delete_keeps(1) c1])
  ultimately show ?thesis using NDelete by (simp add: case_prod_beta leaves_def)
next
  case (NGet now remote key)
  have "snd (reader_Get E hi now remote key c) \<noteq> Inl ErrPanic" 
    by (rule reader_Get_keeps(2)) (use assms(1) in \<open>simp add: node_inv_def\<close>)
  with NGet show ?thesis
    by (auto simp: node_inv_keeps [OF reader_Get_keeps(1) assms(1)] cluster_Get_def case_prod_beta leaves_def split: sum.split option.split)
next
  case (NSpeculative now remote arrivals cancelled accept key n)
  then show ?thesis
    using node_inv_keeps [OF GetSpeculative_keeps assms(1)] assms(1)
    by (auto simp: leaves_def split: option.split)
next
  case (NConsistent now remote arrivals key level)
  then show ?thesis
    by (simp add: case_prod_beta leaves_def GetWithConsistency_keeps(2) node_inv_keeps [OF GetWithConsistency_keeps(1) assms(1)])
next
  case (NBatchSet now ex kvs)
  have "\<not> BatchSet_panics E hi now kvs c" by (rule BatchSet_no_panic) (use assms(1) in \<open>simp add: node_inv_def\<close>)
  with NBatchSet show ?thesis by (simp add: leaves_def node_inv_keeps [OF writer_BatchSet_keeps assms(1)])
next
  case NEvict
  have st: "storage_inv E (g_store c)" using assms(1) by (simp add: node_inv_def parts_ok_def)
  then obtain t where t: "runAsyncEviction (g_store c) = Some t" using runAsyncEviction_total by fastforce
  have "storage_inv E t" using runAsyncEviction_inv [OF st t] by blast
  then have "node_inv E hi lv (c\<lparr>g_store := t\<rparr>)" by (intro node_inv_keeps [OF keeps_store assms(1)])
  with NEvict t show ?thesis by (simp add: leaves_def)
next
  case (NMember clock ev)
  then show ?thesis using member_step_node_inv [OF assms(1)] by (simp add: leaves_def)
next
  case (NJoin now ok seeds)
  then show ?thesis
    using assms(1) by (simp add: cluster_Join_def case_prod_beta leaves_def node_inv_def parts_ok_def updateRing_inv split: sum.split)
next
  case (NReceive now clock accept junk addr dat)
  then show ?thesis using receive_survives [OF assms(1)] assms(2) by (simp add: leaves_def)
qed (simp_all add: leaves_def reader_BatchGet_def assms(1)
    node_inv_keeps [OF batch_get_keeps assms(1)] node_inv_keeps [OF store_only_keeps [OF clean_only] assms(1)]
    node_inv_keeps [OF store_only_keeps [OF doAntiEntropy_only] assms(1)]
    node_inv_keeps [OF flush_keeps assms(1)] node_inv_keeps [OF retry_keeps assms(1)]
    node_inv_keeps [OF timer_keeps assms(1)] node_inv_keeps [OF store_only_keeps [OF Pull_only] assms(1)]
    node_inv_keeps [OF store_only_keeps [OF pull_response_only] assms(1)])

lemma node_step_fatal:
  assumes "fatal E e"
  shows "node_step E hi e c = None"
  using assms fatal_receive by (cases e) (auto simp: fatal_def split: sum.splits)

text \<open>A checkpoint file whose replay panics: a length close to \<open>2^32\<close>, or an operation that does not decode.\<close>

definition bad_checkpoint :: "load_result \<Rightarrow> bool" where
  "bad_checkpoint r \<longleftrightarrow> (case r of LoadPanic \<Rightarrow> True | LoadOps ops \<Rightarrow> None \<in> set ops | LoadError \<Rightarrow> False)"

definition ends_process :: "env \<Rightarrow> machine_event \<Rightarrow> machine \<Rightarrow> bool" where
  "ends_process E e m \<longleftrightarrow>
     (case e of
        MNode ev \<Rightarrow> fatal E ev
      | MReplay now path readable ex accept \<Rightarrow> bad_checkpoint (LoadCheckpoint path readable (m_files m))
      | _ \<Rightarrow> False)"

definition machine_leaves :: "machine_event \<Rightarrow> bool" where
  "machine_leaves e \<longleftrightarrow> (case e of MNode ev \<Rightarrow> leaves ev | _ \<Rightarrow> False)"

lemma replay_items_None: "replay_items ops kvs = None \<longleftrightarrow> None \<in> set ops"
  by (induction ops kvs rule: replay_items.induct) auto

lemma replay_items_Some: "replay_items ops kvs = Some r \<Longrightarrow> None \<notin> set ops"
  using replay_items_None [of ops kvs] by simp

lemma replay_Start_inv:
  assumes "node_inv E hi lv c"
  shows "case replay_Start E hi now ex accept loaded hh c of
      None \<Rightarrow> bad_checkpoint loaded | Some (c', _) \<Rightarrow> \<not> bad_checkpoint loaded \<and> node_inv E hi lv c'"
proof -
  have "\<not> BatchSet_panics E hi now kvs c" for kvs
    by (rule BatchSet_no_panic) (use assms in \<open>simp add: node_inv_def\<close>)
  moreover have "node_inv E hi lv (fst (writer_BatchSet E hi now ex kvs c))" for kvs
    by (rule node_inv_keeps [OF writer_BatchSet_keeps assms])
  ultimately show ?thesis
    using assms
    by (auto simp: replay_Start_def Let_def bad_checkpoint_def case_prod_beta replay_items_None dest: replay_items_Some
        split: load_result.split option.split)
qed

lemma node_inv_drain:
  assumes "node_inv E hi lv c"
  shows "node_inv E hi lv (c\<lparr>g_store := fst (GetSyncBuffer E now (g_store c))\<rparr>)"
  by (rule node_inv_keeps [OF keeps_drain assms])

lemma machine_step_safe:
  assumes "node_inv E hi lv (m_node m)"
  shows "case machine_step E hi e m of
      None \<Rightarrow> ends_process E e m | Some m' \<Rightarrow> \<not> ends_process E e m \<and> node_inv E hi (lv \<or> machine_leaves e) (m_node m')"
proof (cases e)
  case (MNode ev)
  show ?thesis
  proof (cases "fatal E ev")
    case True
    then show ?thesis using MNode node_step_fatal [OF True] by (simp add: ends_process_def)
  next
    case False
    then show ?thesis
      using node_step_survives [OF assms False] MNode by (auto simp: survives_def ends_process_def machine_leaves_def)
  qed
next
  case (MReplay now path readable ex accept)
  then show ?thesis
    using replay_Start_inv [OF assms, where loaded = "LoadCheckpoint path readable (m_files m)" and hh = "m_hints m"
        and now = now and ex = ex and accept = accept]
    by (auto simp: ends_process_def machine_leaves_def split: option.splits)
qed (simp_all add: ends_process_def machine_leaves_def assms set_files_def checkpoint_tick_def replay_Close_def case_prod_beta
    node_inv_drain)

lemma ex_prefix:
  "(\<exists>pre f post. x # xs = pre @ f # post \<and> P pre f) \<longleftrightarrow> P [] x \<or> (\<exists>pre f post. xs = pre @ f # post \<and> P (x # pre) f)"
proof
  assume "\<exists>pre f post. x # xs = pre @ f # post \<and> P pre f"
  then obtain pre f post where "x # xs = pre @ f # post" "P pre f" by blast
  then show "P [] x \<or> (\<exists>pre f post. xs = pre @ f # post \<and> P (x # pre) f)" by (cases pre) auto
next
  assume "P [] x \<or> (\<exists>pre f post. xs = pre @ f # post \<and> P (x # pre) f)"
  then show "\<exists>pre f post. x # xs = pre @ f # post \<and> P pre f" by (metis append_Cons append_Nil)
qed

lemma machine_exec_safe:
  assumes "node_inv E hi lv (m_node m)"
  shows "(machine_exec E hi evs m = None \<longleftrightarrow>
      (\<exists>pre e post m1. evs = pre @ e # post \<and> machine_exec E hi pre m = Some m1 \<and> ends_process E e m1))
    \<and> (\<forall>m'. machine_exec E hi evs m = Some m' \<longrightarrow> node_inv E hi (lv \<or> list_ex machine_leaves evs) (m_node m'))"
  using assms
proof (induction evs arbitrary: m lv)
  case (Cons e evs)
  note st = machine_step_safe [OF Cons.prems, of e]
  let ?P = "\<lambda>m pre f. \<exists>m1. machine_exec E hi pre m = Some m1 \<and> ends_process E f m1"
  have eq: "(\<exists>pre f post m1. xs = pre @ f # post \<and> machine_exec E hi pre m = Some m1 \<and> ends_process E f m1)
      \<longleftrightarrow> (\<exists>pre f post. xs = pre @ f # post \<and> ?P m pre f)" for xs m by blast
  show ?case
  proof (cases "machine_step E hi e m")
    case None
    then have "?P m [] e" using st by simp
    then show ?thesis unfolding eq ex_prefix using None by simp
  next
    case (Some m2)
    then have n: "\<not> ?P m [] e" and inv: "node_inv E hi (lv \<or> machine_leaves e) (m_node m2)" using st by simp_all
    have "?P m (e # pre) f = ?P m2 pre f" for pre f using Some by simp
    then show ?thesis
      using Cons.IH [OF inv] n Some unfolding eq ex_prefix by (simp add: disj_assoc)
  qed
qed simp

text \<open>
  C3: a node is type safe. A node built over a fresh store, with any files, runs through any sequence of these events:
  client calls, flushes, retries and timer ticks of the writer, pulls, cleaning, eviction, anti-entropy, checkpoints,
  replay, hints and handoff, steps of the member manager, joins and received frames. It still satisfies the invariants
  of its store, cache, ring and member table afterwards, or has ended by a panic; and it has ended exactly if a
  received frame was a connect message whose body does not decode, or a replay read a checkpoint file with a length
  close to \<open>2^32\<close> or an operation that does not decode. Memory does not run out.
\<close>

theorem node_type_safe:
  assumes "1 \<le> New_shardCount cpus (ShardCount scfg)" "cluster_New hi now blank cfg (New cpus scfg) h = Some c"
    and "m = \<lparr>m_node = c, m_files = files, m_hints = hh\<rparr>"
  shows "(machine_exec E hi evs m = None \<longleftrightarrow>
      (\<exists>pre e post m1. evs = pre @ e # post \<and> machine_exec E hi pre m = Some m1 \<and> ends_process E e m1))
    \<and> (\<forall>m'. machine_exec E hi evs m = Some m' \<longrightarrow> node_inv E hi (list_ex machine_leaves evs) (m_node m'))"
proof -
  have "node_inv E hi False (m_node m)" using cluster_New_inv [OF assms(2) New_inv [OF assms(1)]] assms(3) by simp
  from machine_exec_safe [OF this, of evs] show ?thesis by simp
qed

definition example_frame :: "byte list \<Rightarrow> byte list" where
  "example_frame body = encodeMessage (lz example_env) (\<lambda>_. 0)
     \<lparr>mType = MessageTypeConnect, mID = 1, mData = Some body, mTimestamp = 1, mCompressed = False\<rparr>"

lemma example_fatal:
  assumes "2 \<le> length body" "length body \<le> 256"
  shows "fatal example_env (NReceive now clock accept junk addr (example_frame body)) \<longleftrightarrow>
    DecodeMemberMsg body 2 = None \<and> \<not> refused_connect body"
  using decode_fits [OF example_lz4, of "\<lparr>mType = MessageTypeConnect, mID = 1, mData = Some body, mTimestamp = 1,
      mCompressed = False\<rparr>" "\<lambda>_. 0"] assms
  by (simp add: fatal_def example_frame_def length_encodeMessage small_fits go_len_def)

theorem node_type_safe_witness:
  "\<exists>c m. cluster_New (\<lambda>_. 0) 1 undefined example_cfg (New 1 DefaultConfig) (NewHLC ''a'') = Some c
    \<and> m = \<lparr>m_node = c, m_files = [''c'' \<mapsto> [255, 255, 255, 255]], m_hints = []\<rparr>
    \<and> machine_exec example_env (\<lambda>_. 0) [MNode (NSet 5 id (\<lambda>_. (True, True)) ''k'' (example_item 0)),
         MNode (NEntropy 6), MCheckpoint 7 ''c'' (\<lambda>_. None)] m \<noteq> None
    \<and> machine_exec example_env (\<lambda>_. 0) [MNode (NReceive 6 (\<lambda>i. int i + 10) (\<lambda>_. True) (\<lambda>_. 0) ''x:1'' (example_frame [5, 0, 1]))] m
        = None"
proof -
  obtain c where c: "cluster_New (\<lambda>_. 0) 1 undefined example_cfg (New 1 DefaultConfig) (NewHLC ''a'') = Some c"
    using example_New by blast
  define m where "m = \<lparr>m_node = c, m_files = [''c'' \<mapsto> [255, 255, 255, 255]], m_hints = []\<rparr>"
  have pos: "1 \<le> New_shardCount 1 (ShardCount DefaultConfig)"
    by (rule New_shardCount_pos) (simp_all add: DefaultConfig_def)
  have "DecodeMemberMsg [5, 0, 1] 2 = None \<and> \<not> refused_connect [5, 0, 1]" by code_simp
  then have bad: "fatal example_env (NReceive 6 (\<lambda>i. int i + 10) (\<lambda>_. True) (\<lambda>_. 0) ''x:1'' (example_frame [5, 0, 1]))"
    by (simp add: example_fatal)
  let ?good = "[MNode (NSet 5 id (\<lambda>_. (True, True)) ''k'' (example_item 0)), MNode (NEntropy 6), MCheckpoint 7 ''c'' (\<lambda>_. None)]"
  let ?bad = "MNode (NReceive 6 (\<lambda>i. int i + 10) (\<lambda>_. True) (\<lambda>_. 0) ''x:1'' (example_frame [5, 0, 1]))"
  have "\<not> (\<exists>pre e post m1. ?good = pre @ e # post \<and> machine_exec example_env (\<lambda>_. 0) pre m = Some m1
      \<and> ends_process example_env e m1)"
  proof (intro notI, elim exE conjE)
    fix pre e post m1 assume g: "?good = pre @ e # post" "ends_process example_env e m1"
    have "e \<in> set ?good" unfolding g(1) by simp
    then show False using g(2) by (auto simp: ends_process_def fatal_def)
  qed
  then have ok: "machine_exec example_env (\<lambda>_. 0) ?good m \<noteq> None"
    by (subst node_type_safe [OF pos c m_def, THEN conjunct1])
  have "[?bad] = [] @ ?bad # [] \<and> machine_exec example_env (\<lambda>_. 0) [] m = Some m \<and> ends_process example_env ?bad m"
    using bad by (simp add: ends_process_def)
  then have "\<exists>pre e post m1. [?bad] = pre @ e # post \<and> machine_exec example_env (\<lambda>_. 0) pre m = Some m1
      \<and> ends_process example_env e m1" by (intro exI)
  then have "machine_exec example_env (\<lambda>_. 0) [?bad] m = None"
    by (subst node_type_safe [OF pos c m_def, THEN conjunct1])
  with c ok m_def show ?thesis by (intro exI [of _ c] exI [of _ m]) simp
qed

end
