(* ===== verification/GridKV_Config.thy ===== *)
theory GridKV_Config
  imports GridKV_Prelude
begin

text \<open>
  \<open>config.go\<close>: the options of a node, their defaults, the functional options and the configuration file.

  \<^item> A configuration file is its decoded form, the record \<open>ConfigFile\<close> (the Go type \<open>Config\<close>); how a duration string
    is read is the argument \<open>pd\<close> (\<open>time.ParseDuration\<close>, which computes fractions in floating point).
  \<^item> The \<open>Log\<close> option only selects a logger; a value that is not a \<open>LoggerOptions\<close> is \<open>LogOther\<close>.
\<close>

section \<open>Options\<close>


definition TCP :: int where "TCP = 1"
definition QUIC :: int where "QUIC = 3"

record NetworkOptions =
  n_Type :: int
  n_BindAddr :: string
  n_MaxIdle :: int
  n_MaxConns :: int
  n_Timeout :: duration
  n_ReadTimeout :: duration
  n_WriteTimeout :: duration

record StorageOptions =
  s_MaxMemoryMB :: int
  s_ShardCount :: int

record LoggerOptions =
  l_Level :: string
  l_Format :: string
  l_TimeFormat :: string
  l_NoCaller :: bool
  l_NoTime :: bool

datatype log_setting = LogNil | LogOptions LoggerOptions | LogOther

record Options =
  o_LocalNodeID :: string
  o_LocalAddress :: string
  o_SeedAddrs :: "string list"
  o_TTL :: duration
  o_HotReadCacheTTL :: duration
  o_HotCacheSize :: int
  o_VirtualNodes :: int
  o_ReplicaCount :: int
  o_ReadRepairRateLimitPerSec :: int64
  o_FailureTimeout :: duration
  o_SuspectTimeout :: duration
  o_GossipInterval :: duration
  o_ReplicationTimeout :: duration
  o_ReadTimeout :: duration
  o_StartupGracePeriod :: duration
  o_DisableAuth :: bool
  o_BatchThreshold :: int
  o_BatchWindow :: duration
  o_Network :: "NetworkOptions option"
  o_Storage :: "StorageOptions option"
  o_Log :: log_setting

definition zero_NetworkOptions :: NetworkOptions where
  "zero_NetworkOptions =
     \<lparr>n_Type = 0, n_BindAddr = '''', n_MaxIdle = 0, n_MaxConns = 0, n_Timeout = 0, n_ReadTimeout = 0, n_WriteTimeout = 0\<rparr>"

definition zero_StorageOptions :: StorageOptions where
  "zero_StorageOptions = \<lparr>s_MaxMemoryMB = 0, s_ShardCount = 0\<rparr>"

definition zero_Options :: Options where
  "zero_Options =
     \<lparr>o_LocalNodeID = '''', o_LocalAddress = '''', o_SeedAddrs = [], o_TTL = 0, o_HotReadCacheTTL = 0, o_HotCacheSize = 0,
      o_VirtualNodes = 0, o_ReplicaCount = 0, o_ReadRepairRateLimitPerSec = 0, o_FailureTimeout = 0,
      o_SuspectTimeout = 0, o_GossipInterval = 0, o_ReplicationTimeout = 0, o_ReadTimeout = 0,
      o_StartupGracePeriod = 0, o_DisableAuth = False, o_BatchThreshold = 0, o_BatchWindow = 0, o_Network = None,
      o_Storage = None, o_Log = LogNil\<rparr>"

section \<open>Defaults\<close>

definition if_zero :: "int \<Rightarrow> int \<Rightarrow> int" where
  "if_zero d x = (if x = 0 then d else x)"

definition network_defaults :: "string \<Rightarrow> NetworkOptions \<Rightarrow> NetworkOptions" where
  "network_defaults localAddress n =
     \<lparr>n_Type = if_zero TCP (n_Type n),
      n_BindAddr = (if n_BindAddr n = '''' then localAddress else n_BindAddr n),
      n_MaxIdle = if_zero 32 (n_MaxIdle n), n_MaxConns = if_zero 128 (n_MaxConns n),
      n_Timeout = if_zero (10 * time_Second) (n_Timeout n), n_ReadTimeout = if_zero (5 * time_Second) (n_ReadTimeout n),
      n_WriteTimeout = if_zero (5 * time_Second) (n_WriteTimeout n)\<rparr>"

definition default_log :: LoggerOptions where
  "default_log = \<lparr>l_Level = ''info'', l_Format = ''text'', l_TimeFormat = '''', l_NoCaller = True, l_NoTime = False\<rparr>"

definition applyDefaults :: "Options \<Rightarrow> Options" where
  "applyDefaults o1 =
     (let failure = if_zero (5 * time_Second) (o_FailureTimeout o1);
          net = network_defaults (o_LocalAddress o1) (case o_Network o1 of None \<Rightarrow> zero_NetworkOptions | Some n \<Rightarrow> n);
          st = (case o_Storage o1 of None \<Rightarrow> zero_StorageOptions | Some s \<Rightarrow> s)
      in o1\<lparr>o_Network := Some net,
            o_Storage := Some (st\<lparr>s_MaxMemoryMB := if_zero 1024 (s_MaxMemoryMB st)\<rparr>),
            o_Log := (if o_Log o1 = LogNil then LogOptions default_log else o_Log o1),
            o_VirtualNodes := if_zero 128 (o_VirtualNodes o1),
            o_ReplicaCount := if_zero 3 (o_ReplicaCount o1),
            o_FailureTimeout := failure,
            o_SuspectTimeout := if_zero (failure sdiv 2) (o_SuspectTimeout o1),
            o_GossipInterval := if_zero (200 * time_Millisecond) (o_GossipInterval o1),
            o_ReadTimeout := if_zero (5 * time_Second) (o_ReadTimeout o1),
            o_ReplicationTimeout := if_zero (2 * time_Second) (o_ReplicationTimeout o1),
            o_BatchThreshold := if_zero 10 (o_BatchThreshold o1),
            o_BatchWindow := if_zero (10 * time_Millisecond) (o_BatchWindow o1),
            o_StartupGracePeriod := if_zero (1 * time_Second) (o_StartupGracePeriod o1)\<rparr>)"

section \<open>Functional options\<close>

type_synonym Option = "Options \<Rightarrow> Options"

definition WithLocalNodeID :: "string \<Rightarrow> Option" where
  "WithLocalNodeID nodeID = (\<lambda>o1. o1\<lparr>o_LocalNodeID := nodeID\<rparr>)"

definition WithLocalAddress :: "string \<Rightarrow> Option" where
  "WithLocalAddress addr = (\<lambda>o1. o1\<lparr>o_LocalAddress := addr\<rparr>)"

definition WithSeedAddrs :: "string list \<Rightarrow> Option" where
  "WithSeedAddrs addrs = (\<lambda>o1. o1\<lparr>o_SeedAddrs := addrs\<rparr>)"

definition WithTTL :: "duration \<Rightarrow> Option" where
  "WithTTL ttl = (\<lambda>o1. o1\<lparr>o_TTL := ttl\<rparr>)"

definition WithHotReadCacheTTL :: "duration \<Rightarrow> Option" where
  "WithHotReadCacheTTL ttl = (\<lambda>o1. o1\<lparr>o_HotReadCacheTTL := ttl\<rparr>)"

definition WithHotCacheSize :: "int \<Rightarrow> Option" where
  "WithHotCacheSize n = (\<lambda>o1. o1\<lparr>o_HotCacheSize := n\<rparr>)"

definition WithVirtualNodes :: "int \<Rightarrow> Option" where
  "WithVirtualNodes n = (\<lambda>o1. o1\<lparr>o_VirtualNodes := n\<rparr>)"

definition WithReplicaCount :: "int \<Rightarrow> Option" where
  "WithReplicaCount n = (\<lambda>o1. o1\<lparr>o_ReplicaCount := n\<rparr>)"

definition WithReadRepairRateLimit :: "int64 \<Rightarrow> Option" where
  "WithReadRepairRateLimit limit = (\<lambda>o1. o1\<lparr>o_ReadRepairRateLimitPerSec := limit\<rparr>)"

definition WithFailureTimeout :: "duration \<Rightarrow> Option" where
  "WithFailureTimeout timeout = (\<lambda>o1. o1\<lparr>o_FailureTimeout := timeout\<rparr>)"

definition WithSuspectTimeout :: "duration \<Rightarrow> Option" where
  "WithSuspectTimeout timeout = (\<lambda>o1. o1\<lparr>o_SuspectTimeout := timeout\<rparr>)"

definition WithGossipInterval :: "duration \<Rightarrow> Option" where
  "WithGossipInterval interval = (\<lambda>o1. o1\<lparr>o_GossipInterval := interval\<rparr>)"

definition WithReplicationTimeout :: "duration \<Rightarrow> Option" where
  "WithReplicationTimeout timeout = (\<lambda>o1. o1\<lparr>o_ReplicationTimeout := timeout\<rparr>)"

definition WithReadTimeout :: "duration \<Rightarrow> Option" where
  "WithReadTimeout timeout = (\<lambda>o1. o1\<lparr>o_ReadTimeout := timeout\<rparr>)"

definition WithStartupGracePeriod :: "duration \<Rightarrow> Option" where
  "WithStartupGracePeriod period = (\<lambda>o1. o1\<lparr>o_StartupGracePeriod := period\<rparr>)"

definition WithDisableAuth :: "bool \<Rightarrow> Option" where
  "WithDisableAuth disable = (\<lambda>o1. o1\<lparr>o_DisableAuth := disable\<rparr>)"

definition WithBatchThreshold :: "int \<Rightarrow> Option" where
  "WithBatchThreshold threshold = (\<lambda>o1. o1\<lparr>o_BatchThreshold := threshold\<rparr>)"

definition WithBatchWindow :: "duration \<Rightarrow> Option" where
  "WithBatchWindow window = (\<lambda>o1. o1\<lparr>o_BatchWindow := window\<rparr>)"

definition WithLogger :: "log_setting \<Rightarrow> Option" where
  "WithLogger log = (\<lambda>o1. o1\<lparr>o_Log := log\<rparr>)"

definition WithLoggerOptions :: "LoggerOptions \<Rightarrow> Option" where
  "WithLoggerOptions opts = (\<lambda>o1. o1\<lparr>o_Log := LogOptions opts\<rparr>)"

text \<open>The options inside \<open>Network\<close> and \<open>Storage\<close>, which are created when missing.\<close>

definition with_network :: "(NetworkOptions \<Rightarrow> NetworkOptions) \<Rightarrow> Option" where
  "with_network f = (\<lambda>o1. o1\<lparr>o_Network := Some (f (case o_Network o1 of None \<Rightarrow> zero_NetworkOptions | Some n \<Rightarrow> n))\<rparr>)"

definition with_storage :: "(StorageOptions \<Rightarrow> StorageOptions) \<Rightarrow> Option" where
  "with_storage f = (\<lambda>o1. o1\<lparr>o_Storage := Some (f (case o_Storage o1 of None \<Rightarrow> zero_StorageOptions | Some st \<Rightarrow> st))\<rparr>)"

definition WithNetworkType :: "int \<Rightarrow> Option" where
  "WithNetworkType netType = with_network (\<lambda>n. n\<lparr>n_Type := netType\<rparr>)"

definition WithNetworkBindAddr :: "string \<Rightarrow> Option" where
  "WithNetworkBindAddr addr = with_network (\<lambda>n. n\<lparr>n_BindAddr := addr\<rparr>)"

definition WithNetworkMaxIdle :: "int \<Rightarrow> Option" where
  "WithNetworkMaxIdle maxIdle = with_network (\<lambda>n. n\<lparr>n_MaxIdle := maxIdle\<rparr>)"

definition WithNetworkMaxConns :: "int \<Rightarrow> Option" where
  "WithNetworkMaxConns maxConns = with_network (\<lambda>n. n\<lparr>n_MaxConns := maxConns\<rparr>)"

definition WithNetworkTimeout :: "duration \<Rightarrow> Option" where
  "WithNetworkTimeout timeout = with_network (\<lambda>n. n\<lparr>n_Timeout := timeout\<rparr>)"

definition WithNetworkReadTimeout :: "duration \<Rightarrow> Option" where
  "WithNetworkReadTimeout timeout = with_network (\<lambda>n. n\<lparr>n_ReadTimeout := timeout\<rparr>)"

definition WithNetworkWriteTimeout :: "duration \<Rightarrow> Option" where
  "WithNetworkWriteTimeout timeout = with_network (\<lambda>n. n\<lparr>n_WriteTimeout := timeout\<rparr>)"

definition WithStorageMaxMemoryMB :: "int \<Rightarrow> Option" where
  "WithStorageMaxMemoryMB mb = with_storage (\<lambda>st. st\<lparr>s_MaxMemoryMB := mb\<rparr>)"

definition WithStorageShardCount :: "int \<Rightarrow> Option" where
  "WithStorageShardCount n = with_storage (\<lambda>st. st\<lparr>s_ShardCount := n\<rparr>)"

lemmas option_defs = WithLocalNodeID_def WithLocalAddress_def WithSeedAddrs_def WithTTL_def WithHotReadCacheTTL_def
  WithHotCacheSize_def WithVirtualNodes_def WithReplicaCount_def WithReadRepairRateLimit_def WithFailureTimeout_def
  WithSuspectTimeout_def WithGossipInterval_def WithReplicationTimeout_def WithReadTimeout_def
  WithStartupGracePeriod_def WithDisableAuth_def WithBatchThreshold_def WithBatchWindow_def WithLogger_def
  WithLoggerOptions_def WithNetworkType_def WithNetworkBindAddr_def WithNetworkMaxIdle_def WithNetworkMaxConns_def
  WithNetworkTimeout_def WithNetworkReadTimeout_def WithNetworkWriteTimeout_def WithStorageMaxMemoryMB_def
  WithStorageShardCount_def with_network_def with_storage_def

section \<open>Configuration files\<close>

record NetworkConfig =
  nc_Type :: string
  nc_BindAddr :: string
  nc_MaxIdle :: int
  nc_MaxConns :: int
  nc_Timeout :: string
  nc_ReadTimeout :: string
  nc_WriteTimeout :: string

record StorageConfig =
  sc_MaxMemoryMB :: int
  sc_ShardCount :: int

record ConfigFile =
  f_LocalNodeID :: string
  f_LocalAddress :: string
  f_SeedAddrs :: "string list"
  f_TTL :: string
  f_HotReadCacheTTL :: string
  f_HotCacheSize :: int
  f_VirtualNodes :: int
  f_ReplicaCount :: int
  f_ReadRepairRateLimitPerSec :: int64
  f_FailureTimeout :: string
  f_SuspectTimeout :: string
  f_GossipInterval :: string
  f_ReplicationTimeout :: string
  f_ReadTimeout :: string
  f_StartupGracePeriod :: string
  f_DisableAuth :: bool
  f_BatchThreshold :: int
  f_BatchWindow :: string
  f_Network :: "NetworkConfig option"
  f_Storage :: "StorageConfig option"
  f_Log :: "LoggerOptions option"

text \<open>The text is not JSON of the right form, or a setting, which the error names, is not a duration.\<close>

datatype config_err = ErrParseConfig | ErrInvalidDuration string

definition bind_err :: "'e + 'a \<Rightarrow> ('a \<Rightarrow> 'e + 'b) \<Rightarrow> 'e + 'b" where
  "bind_err m f = (case m of Inl e \<Rightarrow> Inl e | Inr x \<Rightarrow> f x)"

definition parse_duration :: "(string \<Rightarrow> duration option) \<Rightarrow> string \<Rightarrow> string \<Rightarrow> config_err + duration" where
  "parse_duration pd name txt =
     (if txt = '''' then Inr 0 else case pd txt of None \<Rightarrow> Inl (ErrInvalidDuration name) | Some d \<Rightarrow> Inr d)"

definition network_type :: "string \<Rightarrow> int" where
  "network_type t = (if t = ''quic'' \<or> t = ''QUIC'' then QUIC else TCP)"

definition parse_network :: "(string \<Rightarrow> duration option) \<Rightarrow> NetworkConfig \<Rightarrow> config_err + NetworkOptions" where
  "parse_network pd n =
     bind_err (parse_duration pd ''network timeout'' (nc_Timeout n)) (\<lambda>timeout.
     bind_err (parse_duration pd ''network read_timeout'' (nc_ReadTimeout n)) (\<lambda>readTimeout.
     bind_err (parse_duration pd ''network write_timeout'' (nc_WriteTimeout n)) (\<lambda>writeTimeout.
     Inr \<lparr>n_Type = network_type (nc_Type n), n_BindAddr = nc_BindAddr n, n_MaxIdle = nc_MaxIdle n,
          n_MaxConns = nc_MaxConns n, n_Timeout = timeout, n_ReadTimeout = readTimeout, n_WriteTimeout = writeTimeout\<rparr>)))"

definition config_options :: "(string \<Rightarrow> duration option) \<Rightarrow> ConfigFile \<Rightarrow> config_err + Options" where
  "config_options pd cfg =
     bind_err (parse_duration pd ''ttl'' (f_TTL cfg)) (\<lambda>ttl.
     bind_err (parse_duration pd ''hot_read_cache_ttl'' (f_HotReadCacheTTL cfg)) (\<lambda>cacheTTL.
     bind_err (parse_duration pd ''failure_timeout'' (f_FailureTimeout cfg)) (\<lambda>failure.
     bind_err (parse_duration pd ''suspect_timeout'' (f_SuspectTimeout cfg)) (\<lambda>suspect.
     bind_err (parse_duration pd ''gossip_interval'' (f_GossipInterval cfg)) (\<lambda>gossip.
     bind_err (parse_duration pd ''replication_timeout'' (f_ReplicationTimeout cfg)) (\<lambda>replication.
     bind_err (parse_duration pd ''read_timeout'' (f_ReadTimeout cfg)) (\<lambda>rt.
     bind_err (parse_duration pd ''startup_grace_period'' (f_StartupGracePeriod cfg)) (\<lambda>grace.
     bind_err (parse_duration pd ''batch_window'' (f_BatchWindow cfg)) (\<lambda>window.
     bind_err (case f_Network cfg of None \<Rightarrow> Inr None | Some n \<Rightarrow> bind_err (parse_network pd n) (\<lambda>net. Inr (Some net))) (\<lambda>net.
     Inr (applyDefaults
       \<lparr>o_LocalNodeID = f_LocalNodeID cfg, o_LocalAddress = f_LocalAddress cfg, o_SeedAddrs = f_SeedAddrs cfg,
        o_TTL = ttl, o_HotReadCacheTTL = cacheTTL,
        o_HotCacheSize = (if f_HotCacheSize cfg > 0 then f_HotCacheSize cfg else 10000),
        o_VirtualNodes = f_VirtualNodes cfg, o_ReplicaCount = f_ReplicaCount cfg,
        o_ReadRepairRateLimitPerSec = f_ReadRepairRateLimitPerSec cfg, o_FailureTimeout = failure,
        o_SuspectTimeout = suspect, o_GossipInterval = gossip, o_ReplicationTimeout = replication, o_ReadTimeout = rt,
        o_StartupGracePeriod = grace, o_DisableAuth = f_DisableAuth cfg, o_BatchThreshold = f_BatchThreshold cfg,
        o_BatchWindow = window, o_Network = net,
        o_Storage = map_option (\<lambda>st. \<lparr>s_MaxMemoryMB = sc_MaxMemoryMB st, s_ShardCount = sc_ShardCount st\<rparr>) (f_Storage cfg),
        o_Log = (case f_Log cfg of None \<Rightarrow> LogNil | Some l \<Rightarrow> LogOptions l)\<rparr>)))))))))))"

text \<open>\<open>json.Unmarshal\<close> into the structure of the file is the argument \<open>json\<close>.\<close>

definition ParseConfig ::
  "(string \<Rightarrow> ConfigFile option) \<Rightarrow> (string \<Rightarrow> duration option) \<Rightarrow> string \<Rightarrow> config_err + Options" where
  "ParseConfig json pd dat = (case json dat of None \<Rightarrow> Inl ErrParseConfig | Some cfg \<Rightarrow> config_options pd cfg)"

section \<open>What the defaults give\<close>

text \<open>Options with every setting the node reads filled in.\<close>

definition options_complete :: "Options \<Rightarrow> bool" where
  "options_complete o1 \<longleftrightarrow>
     (\<exists>n. o_Network o1 = Some n \<and> n_Type n \<noteq> 0 \<and> n_MaxIdle n \<noteq> 0 \<and> n_MaxConns n \<noteq> 0 \<and> n_Timeout n \<noteq> 0
        \<and> n_ReadTimeout n \<noteq> 0 \<and> n_WriteTimeout n \<noteq> 0 \<and> (n_BindAddr n = '''' \<longrightarrow> o_LocalAddress o1 = ''''))
     \<and> (\<exists>st. o_Storage o1 = Some st \<and> s_MaxMemoryMB st \<noteq> 0) \<and> o_Log o1 \<noteq> LogNil
     \<and> o_VirtualNodes o1 \<noteq> 0 \<and> o_ReplicaCount o1 \<noteq> 0 \<and> o_FailureTimeout o1 \<noteq> 0
     \<and> (o_SuspectTimeout o1 = 0 \<longrightarrow> \<bar>o_FailureTimeout o1\<bar> = 1)
     \<and> o_GossipInterval o1 \<noteq> 0 \<and> o_ReadTimeout o1 \<noteq> 0 \<and> o_ReplicationTimeout o1 \<noteq> 0
     \<and> o_BatchThreshold o1 \<noteq> 0 \<and> o_BatchWindow o1 \<noteq> 0 \<and> o_StartupGracePeriod o1 \<noteq> 0"

lemma if_zero_nonzero [simp]: "d \<noteq> 0 \<Longrightarrow> if_zero d x \<noteq> 0" "if_zero d (if_zero d x) = if_zero d x"
  by (simp_all add: if_zero_def)

lemma half_zero: "x sdiv 2 = 0 \<Longrightarrow> \<bar>x\<bar> \<le> (1 :: int)"
  by (auto simp: signed_divide_int_def sgn_if split: if_splits)

lemma complete_fixed:
  assumes "options_complete o1"
  shows "applyDefaults o1 = o1"
proof -
  obtain n st where n: "o_Network o1 = Some n" "n_Type n \<noteq> 0" "n_MaxIdle n \<noteq> 0" "n_MaxConns n \<noteq> 0" "n_Timeout n \<noteq> 0"
      "n_ReadTimeout n \<noteq> 0" "n_WriteTimeout n \<noteq> 0" "n_BindAddr n = '''' \<longrightarrow> o_LocalAddress o1 = ''''"
    and st: "o_Storage o1 = Some st" "s_MaxMemoryMB st \<noteq> 0"
    using assms unfolding options_complete_def by blast
  have "network_defaults (o_LocalAddress o1) n = n" using n(2-8) by (simp add: network_defaults_def if_zero_def)
  moreover have "o_FailureTimeout o1 sdiv 2 = 0" if "o_SuspectTimeout o1 = 0"
    using assms that by (auto simp: options_complete_def signed_divide_int_def abs_if split: if_splits)
  ultimately show ?thesis
    using assms n(1) st unfolding options_complete_def by (simp add: applyDefaults_def Let_def if_zero_def)
qed

lemma applyDefaults_complete: "options_complete (applyDefaults o1)"
proof -
  let ?f = "if_zero (5 * time_Second) (o_FailureTimeout o1)"
  have f: "?f \<noteq> 0" by (simp add: time_Second_def)
  have "\<bar>?f\<bar> = 1" if "if_zero (?f sdiv 2) (o_SuspectTimeout o1) = 0"
    using that half_zero [of ?f] f by (simp add: if_zero_def split: if_splits)
  then show ?thesis
    by (simp add: options_complete_def applyDefaults_def Let_def network_defaults_def TCP_def time_Second_def
        time_Millisecond_def)
qed

section \<open>Properties\<close>

lemma bind_err_Inr: "bind_err m f = Inr y \<longleftrightarrow> (\<exists>x. m = Inr x \<and> f x = Inr y)"
  by (cases m) (simp_all add: bind_err_def)

lemma ParseConfig_complete: "ParseConfig json pd dat = Inr o1 \<Longrightarrow> options_complete o1"
  by (auto simp: ParseConfig_def config_options_def bind_err_Inr applyDefaults_complete split: option.splits)

text \<open>
  The defaults complete the options. \<open>applyDefaults\<close> fills every setting the node reads, and the options it does
  not change are exactly the complete ones; so it changes nothing when \<open>NewGridKV\<close> applies it again to the options of
  \<open>ParseConfig\<close>.
\<close>

theorem defaults_complete:
  "options_complete (applyDefaults o1) \<and> (options_complete o1 \<longleftrightarrow> applyDefaults o1 = o1)"
  using applyDefaults_complete [of o1] complete_fixed [of o1] by metis

end
