(* ===== verification/GridKV.thy ===== *)
theory GridKV
  imports Node Conn_Pool GridKV_Config
begin

text \<open>
  \<open>gridkv.go\<close>: the public interface. A \<open>GridKV\<close> holds a node; its store and network are those of the node.

  \<^item> \<open>NewGridKV\<close> takes the options as they are passed: a pointer to \<open>Options\<close>, functional options, or values of
    another type. What the outside decides (whether the network layer could be built, how the components start,
    which joins succeed) is an argument.
  \<^item> A panic inside \<open>Set\<close>, \<open>Get\<close> or \<open>Delete\<close> is recovered and returned as an error.
  \<^item> \<open>time.Now()\<close> is read more than once in a call; each reading is an argument. The network and storage counters of
    \<open>Stats\<close> are left out.
\<close>

section \<open>State\<close>

record GridKV =
  kv_cluster :: "cluster option"
  kv_ttl :: duration
  kv_replicaCount :: int
  kv_shuttingDown :: bool

datatype kv_err =
  ErrNotInitialized
| ErrShuttingDown
| ErrKeyEmpty
| ErrNotReady int int
| ErrUnstable
| ErrNoHealthyNodes
| ErrRecovered
| ErrWrite writer_err
| ErrRead storage_err
| ErrStopFailed lifecycle_err

record ClusterStats =
  cs_Ready :: bool
  cs_ClusterSize :: int
  cs_HealthyNodes :: int
  cs_ReplicaFactor :: int
  cs_LocalNodeID :: string
  cs_PeerCount :: int

definition isShuttingDown :: "GridKV \<Rightarrow> bool" where
  "isShuttingDown kv = kv_shuttingDown kv"

section \<open>Statistics\<close>

fun first_id :: "NodeInfo list \<Rightarrow> string" where
  "first_id [] = ''''"
| "first_id (m # ms) = (if NodeID m \<noteq> '''' then NodeID m else first_id ms)"

definition kv_Stats :: "GridKV \<Rightarrow> ClusterStats" where
  "kv_Stats kv =
     (case kv_cluster kv of
        None \<Rightarrow> \<lparr>cs_Ready = False, cs_ClusterSize = 0, cs_HealthyNodes = 0, cs_ReplicaFactor = 0, cs_LocalNodeID = '''',
                 cs_PeerCount = 0\<rparr>
      | Some c \<Rightarrow>
          (let ms = Members (g_member c);
               healthyNodes = int (length (filter (\<lambda>m. State m = NodeStateAlive) ms))
           in \<lparr>cs_Ready = healthyNodes > 0, cs_ClusterSize = int (length ms), cs_HealthyNodes = healthyNodes,
               cs_ReplicaFactor = (if kv_replicaCount kv \<le> 0 then 3 else kv_replicaCount kv),
               cs_LocalNodeID = first_id ms, cs_PeerCount = int (length ms) - 1\<rparr>))"

definition HealthCheck :: "GridKV \<Rightarrow> kv_err + unit" where
  "HealthCheck kv =
     (if kv_cluster kv = None then Inl ErrNotInitialized
      else
        (let s = kv_Stats kv in
         if \<not> cs_Ready s then Inl (ErrNotReady (cs_ClusterSize s) (cs_HealthyNodes s))
         else if cs_HealthyNodes s = 0 then Inl ErrNoHealthyNodes
         else Inr ()))"

section \<open>Set, Get and Delete\<close>

text \<open>The expiration time; \<open>ttl\<close> is the optional argument of \<open>Set\<close>.\<close>

definition expire_at :: "gotime \<Rightarrow> duration option \<Rightarrow> GridKV \<Rightarrow> gotime" where
  "expire_at now ttl kv =
     (case ttl of
        Some d \<Rightarrow> if d > 0 then now + d else zero_time
      | None \<Rightarrow> if kv_ttl kv > 0 then now + kv_ttl kv else zero_time)"

definition kv_Set ::
  "env \<Rightarrow> (string \<Rightarrow> uint64) \<Rightarrow> gotime \<Rightarrow> gotime \<Rightarrow> (string list \<Rightarrow> string list) \<Rightarrow> (nat \<Rightarrow> bool \<times> bool) \<Rightarrow> string \<Rightarrow> bytes
   \<Rightarrow> duration option \<Rightarrow> GridKV \<Rightarrow> GridKV \<times> writer_effect list \<times> (kv_err + unit)" where
  "kv_Set E hi t0 now order ex key v ttl kv =
     (case kv_cluster kv of
        None \<Rightarrow> (kv, [], Inl ErrNotInitialized)
      | Some c \<Rightarrow>
          if isShuttingDown kv then (kv, [], Inl ErrShuttingDown)
          else if key = '''' then (kv, [], Inl ErrKeyEmpty)
          else
            (let s = kv_Stats kv in
             if \<not> cs_Ready s \<and> cs_HealthyNodes s = 0
             then (kv, [], Inl (ErrNotReady (cs_ClusterSize s) (cs_HealthyNodes s)))
             else
               (case writer_Set E hi now order ex key
                       \<lparr>Version = 0, ExpireAt = expire_at t0 ttl kv, Value = v, Key = key\<rparr> c of
                  (c', es, r) \<Rightarrow>
                    (kv\<lparr>kv_cluster := Some c'\<rparr>, es,
                     if store_panic r then Inl ErrRecovered else map_sum ErrWrite id r))))"

definition kv_Get ::
  "env \<Rightarrow> (string \<Rightarrow> uint64) \<Rightarrow> gotime \<Rightarrow> gotime \<Rightarrow> (string \<Rightarrow> remote_result) \<Rightarrow> string \<Rightarrow> GridKV
   \<Rightarrow> GridKV \<times> (kv_err + bytes)" where
  "kv_Get E hi now t1 remote key kv =
     (case kv_cluster kv of
        None \<Rightarrow> (kv, Inl ErrNotInitialized)
      | Some c \<Rightarrow>
          if key = '''' then (kv, Inl ErrKeyEmpty)
          else if isShuttingDown kv then (kv, Inl ErrShuttingDown)
          else
            (case reader_Get E hi now remote key c of (c', r) \<Rightarrow>
               (kv\<lparr>kv_cluster := Some c'\<rparr>,
                case r of
                  Inl e \<Rightarrow> if e = ErrPanic then Inl ErrRecovered else Inl (ErrRead e)
                | Inr None \<Rightarrow> Inr go_nil
                | Inr (Some item) \<Rightarrow>
                    if IsTombstone item \<or> IsExpired t1 item \<or> go_len (Value item) = 0 then Inr go_nil
                    else Inr (Some (go_bytes (Value item))))))"

definition kv_delete_at ::
  "env \<Rightarrow> (string \<Rightarrow> uint64) \<Rightarrow> gotime \<Rightarrow> (nat \<Rightarrow> bool \<times> bool) \<Rightarrow> string \<Rightarrow> int64 \<Rightarrow> cluster \<Rightarrow> GridKV
   \<Rightarrow> GridKV \<times> writer_effect list \<times> (kv_err + unit)" where
  "kv_delete_at E hi now ex key ver c kv =
     (case writer_Delete E hi now ex key ver c of
        (c', es, r) \<Rightarrow>
          (kv\<lparr>kv_cluster := Some c'\<rparr>, es, if store_panic r then Inl ErrRecovered else map_sum ErrWrite id r))"

definition kv_Delete ::
  "env \<Rightarrow> (string \<Rightarrow> uint64) \<Rightarrow> gotime \<Rightarrow> (nat \<Rightarrow> bool \<times> bool) \<Rightarrow> string \<Rightarrow> GridKV
   \<Rightarrow> GridKV \<times> writer_effect list \<times> (kv_err + unit)" where
  "kv_Delete E hi now ex key kv =
     (case kv_cluster kv of
        None \<Rightarrow> (kv, [], Inl ErrNotInitialized)
      | Some c \<Rightarrow>
          if key = '''' then (kv, [], Inl ErrKeyEmpty)
          else if isShuttingDown kv then (kv, [], Inl ErrShuttingDown)
          else
            (case Get E now key (g_store c) of (s, res) \<Rightarrow>
               (let c1 = c\<lparr>g_store := s\<rparr>; kv1 = kv\<lparr>kv_cluster := Some c1\<rparr> in
                case res of
                  Inl e \<Rightarrow>
                    if e = ErrPanic then (kv1, [], Inl ErrRecovered)
                    else if e \<noteq> ErrNotFound \<and> e \<noteq> ErrExpired then (kv1, [], Inl (ErrRead e))
                    else kv_delete_at E hi now ex key 0 c1 kv1
                | Inr item \<Rightarrow> kv_delete_at E hi now ex key (Version item) c1 kv1)))"

section \<open>Construction\<close>

datatype kv_arg = OptionsPtr "Options option" | OptionFn Option | OtherArg

datatype new_err =
  ErrOptionsRequired
| ErrMixedOptions
| ErrInvalidOption
| ErrNilOptions
| ErrNodeIDRequired
| ErrAddressRequired
| ErrCreateNetwork
| ErrCreateCluster
| ErrStartCluster lifecycle_err

fun apply_options :: "kv_arg list \<Rightarrow> Options \<Rightarrow> Options option" where
  "apply_options [] o1 = Some o1"
| "apply_options (OptionFn f # args) o1 = apply_options args (f o1)"
| "apply_options (_ # args) o1 = None"

definition read_options :: "kv_arg list \<Rightarrow> new_err + Options" where
  "read_options args =
     (case args of
        [] \<Rightarrow> Inl ErrOptionsRequired
      | OptionsPtr p # rest \<Rightarrow>
          if rest \<noteq> [] then Inl ErrMixedOptions
          else (case p of None \<Rightarrow> Inl ErrNilOptions | Some o1 \<Rightarrow> Inr o1)
      | _ \<Rightarrow> (case apply_options args zero_Options of None \<Rightarrow> Inl ErrInvalidOption | Some o1 \<Rightarrow> Inr o1))"

definition network_options :: "Options \<Rightarrow> NetworkOptions" where
  "network_options o1 = (case o_Network o1 of None \<Rightarrow> zero_NetworkOptions | Some n \<Rightarrow> n)"

definition store_config :: "Options \<Rightarrow> Config" where
  "store_config o1 =
     (let st = (case o_Storage o1 of None \<Rightarrow> zero_StorageOptions | Some st \<Rightarrow> st)
      in \<lparr>MaxMemoryMB = s_MaxMemoryMB st, ShardCount = s_ShardCount st, CompressionEnabled = True,
          CompressionThreshold = 64, EvictThreshold = 0, EvictTarget = 0, EvictBatchSize = 0, AsyncEviction = False\<rparr>)"

definition bind_address :: "Options \<Rightarrow> string" where
  "bind_address o1 =
     (if n_BindAddr (network_options o1) \<noteq> '''' then n_BindAddr (network_options o1) else o_LocalAddress o1)"

text \<open>The pool configuration starts from the zero value, so \<open>WaitTimeout\<close> stays zero.\<close>

definition pool_config :: "Options \<Rightarrow> PoolConfig" where
  "pool_config o1 =
     (let n = network_options o1
      in \<lparr>MaxIdle = (if n_MaxIdle n > 0 then n_MaxIdle n else 0), MaxActive = (if n_MaxConns n > 0 then n_MaxConns n else 0),
          IdleTimeout = 30 * time_Second, WaitTimeout = 0\<rparr>)"

definition cluster_config :: "Options \<Rightarrow> ClusterConfig" where
  "cluster_config o1 =
     \<lparr>cc_NodeID = o_LocalNodeID o1, cc_Address = bind_address o1, cc_PingInterval = o_FailureTimeout o1 sdiv 3,
      cc_FailureTimeout = o_FailureTimeout o1, cc_SuspectTimeout = o_SuspectTimeout o1,
      cc_VirtualNodes = o_VirtualNodes o1, cc_ReplicaCount = o_ReplicaCount o1,
      cc_BatchThreshold = o_BatchThreshold o1, cc_BatchWindow = o_BatchWindow o1,
      cc_GossipInterval = o_GossipInterval o1, cc_CacheTTL = o_HotReadCacheTTL o1, cc_CacheSize = o_HotCacheSize o1,
      cc_HasNetwork = True, cc_HasSendFunc = False, cc_ReadRepairRateLimitPerSec = o_ReadRepairRateLimitPerSec o1\<rparr>"

text \<open>
  The effects of starting the components: the member manager gets its incarnation, and the replay writes what it loads
  from the checkpoint file; the others start their loops, whose steps are events of the node. \<open>None\<close> is a panic of the
  replay, which ends the process.
\<close>

record boot =
  bt_now :: gotime
  bt_exec :: "bool \<times> bool"
  bt_loaded :: load_result

definition start_components :: "env \<Rightarrow> (string \<Rightarrow> uint64) \<Rightarrow> boot \<Rightarrow> cluster \<Rightarrow> cluster option" where
  "start_components E hi b c =
     map_option fst (replay_Start E hi (bt_now b) (bt_exec b) (\<lambda>_. True) (bt_loaded b) []
       (fst (cluster_member_step hi (\<lambda>_. bt_now b) 0 (EvStart (bt_now b)) c)))"

definition NewGridKV ::
  "env \<Rightarrow> (string \<Rightarrow> uint64) \<Rightarrow> gotime \<Rightarrow> int \<Rightarrow> StoredItem entry \<Rightarrow> bool \<Rightarrow> boot \<Rightarrow> string list \<Rightarrow> (string \<Rightarrow> bool) \<Rightarrow> bool
   \<Rightarrow> kv_arg list \<Rightarrow> (new_err + GridKV) option" where
  "NewGridKV E hi now cpus blank netOk b finish fails late args =
     (case read_options args of
        Inl e \<Rightarrow> Some (Inl e)
      | Inr o0 \<Rightarrow>
          (let o1 = applyDefaults o0 in
           if o_LocalNodeID o1 = '''' then Some (Inl ErrNodeIDRequired)
           else if o_LocalAddress o1 = '''' then Some (Inl ErrAddressRequired)
           else if \<not> netOk then Some (Inl ErrCreateNetwork)
           else
             (case cluster_New hi now blank (cluster_config o1) (New cpus (store_config o1)) (NewHLC (o_LocalNodeID o1)) of
                None \<Rightarrow> Some (Inl ErrCreateCluster)
              | Some c \<Rightarrow>
                  (case start_components E hi b c of
                     None \<Rightarrow> None
                   | Some c' \<Rightarrow>
                       (case StartWithTimeout finish fails late (c_lifecycle c) of
                          (lm, Inl e) \<Rightarrow> Some (Inl (ErrStartCluster e))
                        | (lm, Inr _) \<Rightarrow>
                            Some (Inr \<lparr>kv_cluster = Some (c'\<lparr>c_lifecycle := lm\<rparr>), kv_ttl = o_TTL o1,
                              kv_replicaCount = o_ReplicaCount o1, kv_shuttingDown = False\<rparr>))))))"

text \<open>
  The goroutine that joins the seeds: up to five attempts, each with the time it runs at and the sends that succeed.
\<close>

fun join_attempts ::
  "(string \<Rightarrow> uint64) \<Rightarrow> string list \<Rightarrow> (gotime \<times> (nat \<Rightarrow> bool)) list \<Rightarrow> cluster \<Rightarrow> cluster" where
  "join_attempts hi seeds [] c = c"
| "join_attempts hi seeds ((now, ok) # as) c =
     (case cluster_Join hi now ok seeds c of
        (c', Inr _) \<Rightarrow> c'
      | (c', Inl _) \<Rightarrow> join_attempts hi seeds as c')"

definition join_seeds ::
  "(string \<Rightarrow> uint64) \<Rightarrow> string list \<Rightarrow> (gotime \<times> (nat \<Rightarrow> bool)) list \<Rightarrow> GridKV \<Rightarrow> GridKV" where
  "join_seeds hi seeds as kv =
     (if length seeds > 0 then kv\<lparr>kv_cluster := map_option (join_attempts hi seeds (take 5 as)) (kv_cluster kv)\<rparr> else kv)"

section \<open>Waiting and closing\<close>

text \<open>
  The loop of \<open>WaitReady\<close>. A poll has the time of the loop condition, the statistics, and the time read after them;
  the first component of the result says whether the cluster was found stable, and the statistics are those of the
  poll that ended the loop. \<open>None\<close> is a loop that goes on.
\<close>

type_synonym poll = "gotime \<times> ClusterStats \<times> gotime"

definition stabilityGracePeriod :: duration where
  "stabilityGracePeriod = 500 * time_Millisecond"

definition is_ready :: "ClusterStats \<Rightarrow> bool" where
  "is_ready s \<longleftrightarrow> cs_Ready s \<and> cs_HealthyNodes s > 0"

definition seen :: "ClusterStats \<Rightarrow> int \<times> int" where
  "seen s = (cs_ClusterSize s, cs_HealthyNodes s)"

fun wait_loop :: "gotime \<Rightarrow> poll list \<Rightarrow> (gotime \<times> int \<times> int) option \<Rightarrow> (bool \<times> ClusterStats) option" where
  "wait_loop deadline [] firstReady = None"
| "wait_loop deadline ((t, s, t') # polls) firstReady =
     (if \<not> t < deadline then Some (False, s)
      else if \<not> is_ready s then wait_loop deadline polls None
      else case firstReady of
        None \<Rightarrow> wait_loop deadline polls (Some (t', seen s))
      | Some (t0, last_seen) \<Rightarrow>
          if seen s \<noteq> last_seen then wait_loop deadline polls (Some (t', seen s))
          else if t' - t0 \<ge> stabilityGracePeriod then Some (True, s)
          else wait_loop deadline polls firstReady)"

definition WaitReady :: "gotime \<Rightarrow> duration \<Rightarrow> poll list \<Rightarrow> GridKV \<Rightarrow> (kv_err + unit) option" where
  "WaitReady now timeout polls kv =
     (if kv_cluster kv = None then Some (Inl ErrNotInitialized)
      else
        map_option (\<lambda>(stable, s).
            if stable then Inr ()
            else if \<not> cs_Ready s then Inl (ErrNotReady (cs_ClusterSize s) (cs_HealthyNodes s))
            else Inl ErrUnstable)
          (wait_loop (now + timeout) polls None))"

definition kv_Close ::
  "(string \<Rightarrow> uint64) \<Rightarrow> gotime \<Rightarrow> (string \<Rightarrow> bool) \<Rightarrow> GridKV \<Rightarrow> GridKV \<times> string list \<times> (kv_err + unit)" where
  "kv_Close hi now fails kv =
     (let kv1 = kv\<lparr>kv_shuttingDown := True\<rparr> in
      case kv_cluster kv of
        None \<Rightarrow> (kv1, [], Inr ())
      | Some c \<Rightarrow>
          (case cluster_Stop hi now fails c of (c', closing, r) \<Rightarrow>
             (kv1\<lparr>kv_cluster := Some c'\<rparr>, closing, map_sum ErrStopFailed id r)))"

section \<open>Reading what was set\<close>

lemma Set_then_Get_expired:
  assumes "storage_inv E s" "Set E key (Some item) s = (s', Inr ())"
    and "\<forall>ci. lookup E s key = Some ci \<longrightarrow> sint (cVersion ci) < sint (Version item)"
    and "\<not> IsZero (ExpireAt item)" "sint (UnixNano (ExpireAt item)) < sint (UnixNano now)"
  shows "snd (Get E now key s') = Inl ErrExpired"
proof -
  obtain ci sz s1 where p: "prepareCompressedItem E s key item = (ci, sz)" and s1: "submap s s1" "same_config s s1"
    and l: "\<And>k. lookup E s' k =
      (if k = key then lww_merge (\<lambda>c. sint (cVersion c)) (lookup E s1 key) ci else lookup E s1 k)"
    using Set_lookup [OF assms(1,2)] by blast
  note f = prepare_fields [OF p]
  have "lookup E s1 key = None \<or> lookup E s1 key = lookup E s key" using lookup_submap [OF s1(2,1)] .
  then have "lookup E s' key = Some ci"
    using assms(3) by (auto simp: l lww_merge_def f split: option.splits)
  moreover have "key \<noteq> ''''" using assms(2) by (auto simp: Set_def)
  ultimately show ?thesis
    using assms(4,5) f by (auto simp: Get_def get_with_def Let_def lookup_def split: option.splits)
qed

lemma first_remote_item: "first_remote remote ts = Some it \<Longrightarrow> \<exists>t. remote t = RItem (Some it)"
  by (induction ts) (auto split: remote_result.splits option.splits if_splits)

text \<open>After an expired \<open>Set\<close> the node has nothing of its own: a read gives nothing or what a replica answered.\<close>

lemma reader_Get_expired:
  assumes "parts_ok E hi r" "writer_Set E hi now order ex key item r = (r', es, Inr ())"
    and "\<forall>ci. lookup E (g_store r) key = Some ci \<longrightarrow> sint (cVersion ci) < sint (snd (next_version now key r))"
    and "\<not> IsZero (ExpireAt item)" "sint (UnixNano (ExpireAt item)) < sint (UnixNano now')"
  shows "snd (reader_Get E hi now' remote key r') = Inr None
    \<or> (\<exists>t it. remote t = RItem (Some it) \<and> snd (reader_Get E hi now' remote key r') = Inr (DeepCopy (Some it)))"
proof -
  note f = writer_Set_ok [OF assms(2)]
  have inv: "storage_inv E (g_store r)" "cache_inv (hash128 E hi) (w_cache r)" using assms(1) by (simp_all add: parts_ok_def)
  obtain c b where d: "cache_Delete (hash128 E hi) key (w_cache r) = (c, b)" by fastforce
  have c: "cache_inv (hash128 E hi) c" "closed c \<or> key = '''' \<or> cview (hash128 E hi) c key = None"
    using cache_Delete_ok [OF inv(2) d] by (auto simp: fun_upd_def)
  obtain c2 res where g: "cache_Get (hash128 E hi) now' key c = (c2, res)" by fastforce
  have miss: "res = None" using cache_Get_ok [OF c(1) g] c(2) by (auto split: if_splits option.splits)
  have ok: "cache_inv (hash128 E hi) c2" using cache_Get_ok [OF c(1) g] by blast
  have "snd (Get E now' key (g_store r')) = Inl ErrExpired"
    by (rule Set_then_Get_expired [OF inv(1) f(1)]) (use assms(3-5) in \<open>simp_all add: set_item_def\<close>)
  then obtain s where s: "Get E now' key (g_store r') = (s, Inl ErrExpired)" by (metis prod.collapse)
  have n: "cache_Set (hash128 E hi) now' key v ttl c2 = None \<longleftrightarrow> False" for v ttl
    using cache_Set_ok [OF ok, of now' key v ttl] by auto
  show ?thesis
    using f(8) first_remote_item
    by (auto simp: reader_Get_def d g miss s Let_def n split: option.splits)
qed

text \<open>A time that \<open>UnixNano\<close> represents.\<close>

definition nano_range :: "gotime \<Rightarrow> bool" where
  "nano_range t \<longleftrightarrow> 0 \<le> t \<and> t < 2 ^ 63"

lemma sint_UnixNano: "nano_range t \<Longrightarrow> sint (UnixNano t) = t"
  by (simp add: nano_range_def UnixNano_def signed_of_int signed_take_bit_int_eq_self)

lemma nano_not_zero: "nano_range t \<Longrightarrow> \<not> IsZero t"
  by (auto simp: nano_range_def IsZero_def zero_time_def)

lemma map_sum_ok: "map_sum f id r = Inr () \<longleftrightarrow> r = Inr ()"
  by (cases r) simp_all

lemma kv_Set_ok:
  assumes "kv_Set E hi t0 now order ex key v ttl kv = (kv', es, Inr ())" "kv_cluster kv = Some c"
  obtains c' where "writer_Set E hi now order ex key \<lparr>Version = 0, ExpireAt = expire_at t0 ttl kv, Value = v, Key = key\<rparr> c
      = (c', es, Inr ())" "kv' = kv\<lparr>kv_cluster := Some c'\<rparr>" "key \<noteq> ''''" "\<not> isShuttingDown kv"
  using assms by (auto simp: kv_Set_def Let_def map_sum_ok split: if_splits prod.splits)

section \<open>Properties\<close>

text \<open>Set and then Get, over the expiration time the write was given.\<close>

lemma kv_set_get_at:
  assumes "kv_cluster kv = Some c" "node_inv E hi lv c" "lz4_decodes (lz E)"
    and "kv_Set E hi t0 now order ex key v ttl kv = (kv', es, Inr ())"
    and "\<forall>ci. lookup E (g_store c) key = Some ci \<longrightarrow> sint (cVersion ci) < sint (snd (next_version now key c))"
    and "0 < go_len v" "go_len v \<le> maxAlloc"
    and "expire_at t0 ttl kv = zero_time \<or> nano_range (expire_at t0 ttl kv)"
    and "nano_range t1" "t1 \<le> t2" "\<forall>t it. remote t = RItem (Some it) \<longrightarrow> IsExpired t2 it"
  shows "snd (kv_Get E hi t1 t2 remote key kv') =
    Inr (if expire_at t0 ttl kv = zero_time \<or> t2 \<le> expire_at t0 ttl kv then Some (go_bytes v) else go_nil)"
proof -
  let ?x = "expire_at t0 ttl kv"
  let ?it = "\<lparr>Version = 0, ExpireAt = ?x, Value = v, Key = key\<rparr>"
  obtain c' where s: "writer_Set E hi now order ex key ?it c = (c', es, Inr ())"
    and kv': "kv' = kv\<lparr>kv_cluster := Some c'\<rparr>" "key \<noteq> ''''" "\<not> isShuttingDown kv"
    by (rule kv_Set_ok [OF assms(4,1)])
  have ok: "parts_ok E hi c" "storage_inv E (g_store c)" "cache_inv (hash128 E hi) (w_cache c)"
    using assms(2) by (simp_all add: node_inv_def parts_ok_def)
  have get: "snd (kv_Get E hi t1 t2 remote key kv') = (case snd (reader_Get E hi t1 remote key c') of
        Inl e \<Rightarrow> if e = ErrPanic then Inl ErrRecovered else Inl (ErrRead e)
      | Inr None \<Rightarrow> Inr go_nil
      | Inr (Some item) \<Rightarrow>
          if IsTombstone item \<or> IsExpired t2 item \<or> go_len (Value item) = 0 then Inr go_nil
          else Inr (Some (go_bytes (Value item))))"
    using kv' by (simp add: kv_Get_def isShuttingDown_def case_prod_beta)
  show ?thesis
  proof (cases "IsZero ?x \<or> t1 \<le> ?x")
    case True
    then have "IsZero (ExpireAt ?it) \<or> sint (UnixNano t1) \<le> sint (UnixNano (ExpireAt ?it))"
      using assms(8,9) sint_UnixNano by (auto simp: IsZero_def)
    then have "snd (reader_Get E hi t1 remote key c')
        = Inr (Some \<lparr>Version = snd (next_version now key c), ExpireAt = ?x, Value = v, Key = ''''\<rparr>)"
      using read_your_write [OF ok(2) assms(3) ok(3) s assms(5), of t1 remote] assms(7) by simp
    then show ?thesis using assms(6) by (auto simp: get IsTombstone_def IsExpired_def IsZero_def)
  next
    case False
    then have x: "\<not> IsZero ?x" "?x < t1" "nano_range ?x" using assms(8) by (auto simp: IsZero_def)
    have "sint (UnixNano (ExpireAt ?it)) < sint (UnixNano t1)" using x assms(9) by (simp add: sint_UnixNano)
    then have "snd (reader_Get E hi t1 remote key c') = Inr None
      \<or> (\<exists>t it. remote t = RItem (Some it) \<and> snd (reader_Get E hi t1 remote key c') = Inr (DeepCopy (Some it)))"
      using reader_Get_expired [OF ok(1) s assms(5), of t1 remote] x(1) by simp
    moreover have "ExpireAt (the (DeepCopy (Some it))) = ExpireAt it" "DeepCopy (Some it) \<noteq> None" for it
      by (simp_all add: DeepCopy_def)
    ultimately have "snd (kv_Get E hi t1 t2 remote key kv') = Inr go_nil"
      using assms(11) by (fastforce simp: get IsExpired_def)
    then show ?thesis using x assms(10) by (simp add: IsZero_def)
  qed
qed

text \<open>
  C4: a value that was set is read until it expires, and not afterwards. When \<open>Set\<close> has returned without an error,
  \<open>Get\<close> on the same node returns the value for the time to live given by the argument or else by the default, forever if
  that is not positive, and nothing after it, as long as the replicas, if asked, have nothing newer: every item they answer with has
  expired, too. The version of the write is above the stored one, and times are representable in nanoseconds.
\<close>

theorem kv_set_get:
  assumes "kv_cluster kv = Some c" "node_inv E hi lv c" "lz4_decodes (lz E)"
    and "kv_Set E hi t0 now order ex key v ttl kv = (kv', es, Inr ())"
    and "\<forall>ci. lookup E (g_store c) key = Some ci \<longrightarrow> sint (cVersion ci) < sint (snd (next_version now key c))"
    and "0 < go_len v" "go_len v \<le> maxAlloc"
    and "life = (case ttl of Some d \<Rightarrow> d | None \<Rightarrow> kv_ttl kv)" "nano_range (t0 + life)"
    and "nano_range t1" "t1 \<le> t2" "\<forall>t it. remote t = RItem (Some it) \<longrightarrow> IsExpired t2 it"
  shows "snd (kv_Get E hi t1 t2 remote key kv') =
    Inr (if life \<le> 0 \<or> t2 \<le> t0 + life then Some (go_bytes v) else go_nil)"
proof -
  have x: "expire_at t0 ttl kv = (if life > 0 then t0 + life else zero_time)"
    by (simp add: expire_at_def assms(8) split: option.split)
  have "\<not> nano_range zero_time" by (simp add: nano_range_def zero_time_def)
  then have "t0 + life \<noteq> zero_time" using assms(9) by auto
  moreover have "expire_at t0 ttl kv = zero_time \<or> nano_range (expire_at t0 ttl kv)" using assms(9) by (simp add: x)
  ultimately show ?thesis
    using kv_set_get_at [OF assms(1-7) _ assms(10-12)] by (auto simp: x)
qed

definition example_kv :: GridKV where
  "example_kv = \<lparr>kv_cluster = Some example_node, kv_ttl = 0, kv_replicaCount = 3, kv_shuttingDown = False\<rparr>"

lemma example_node_inv: "node_inv example_env (\<lambda>_. 0) False example_node"
proof -
  have "g_member example_node = duo_mgr" "w_cache example_node = w_cache example_reader"
    by (simp_all add: example_node_def reader.defs)
  then show ?thesis
    using example_reader_cache solo_inv duo_ring_inv
    by (simp add: node_inv_def parts_ok_def) (simp add: duo_mgr_def example_simps self_ok_def)
qed

lemma solo_Set_any:
  assumes "Value it = Some v" "length v \<le> 1000" "v \<noteq> []"
  shows "snd (Set example_env ''k'' (Some it) solo_store) = Inr ()"
  using assms
  by (simp add: Set_def getShard_def solo_shard prepareCompressedItem_def checkAndEvict_def Let_def
      storeItemWithConflictResolution_eq store_iter_def load_def tryStoreNewKey_def calculateItemSize_def
      new_shard_fields del: replicate.simps)

lemma example_kv_Set:
  "\<exists>kv' es. kv_Set example_env (\<lambda>_. 0) t0 now order ex ''k'' (Some [5, 6]) ttl example_kv = (kv', es, Inr ())"
proof -
  let ?it = "\<lparr>Version = 0, ExpireAt = expire_at t0 ttl example_kv, Value = Some [5, 6], Key = ''k''\<rparr>"
  have "\<exists>c' es. writer_Set example_env (\<lambda>_. 0) now order ex ''k'' ?it example_node = (c', es, Inr ())"
  proof (rule writer_Set_succeeds)
    show "snd (Set example_env ''k'' (Some (set_item now ''k'' ?it example_node)) (g_store example_node)) = Inr ()"
      using solo_Set_any [of "set_item now ''k'' ?it example_node" "[5, 6]"] by (simp add: set_item_def)
  qed (simp add: duo_ring_GetN)
  moreover have "cs_Ready (kv_Stats example_kv)"
    by (simp add: kv_Stats_def example_kv_def Let_def example_node_def reader.defs)
      (simp add: example_reader_def newReader_def writer.defs duo_mgr_def example_mgr_def example_info_def Members_def)
  ultimately show ?thesis
    by (auto simp: kv_Set_def example_kv_def isShuttingDown_def Let_def store_panic_def)
qed

theorem kv_set_get_witness:
  "\<exists>kv' es. kv_Set example_env (\<lambda>_. 0) 1700 1701 id (\<lambda>_. (True, True)) ''k'' (Some [5, 6]) (Some 100) example_kv = (kv', es, Inr ())
     \<and> snd (kv_Get example_env (\<lambda>_. 0) 1750 1751 (\<lambda>_. RError) ''k'' kv') = Inr (Some [5, 6])
     \<and> snd (kv_Get example_env (\<lambda>_. 0) 1900 1901 (\<lambda>_. RError) ''k'' kv') = Inr go_nil"
proof -
  obtain kv' es where s: "kv_Set example_env (\<lambda>_. 0) 1700 1701 id (\<lambda>_. (True, True)) ''k'' (Some [5, 6]) (Some 100) example_kv
      = (kv', es, Inr ())"
    using example_kv_Set by blast
  have c: "kv_cluster example_kv = Some example_node" by (simp add: example_kv_def)
  have l: "lookup example_env (g_store example_node) ''k'' = None"
    using solo_store_empty [of example_env "''k''"] by (simp add: view_def)
  have "snd (kv_Get example_env (\<lambda>_. 0) 1750 1751 (\<lambda>_. RError) ''k'' kv') = Inr (Some [5, 6])"
    using kv_set_get [OF c example_node_inv example_lz4(1) s, of 100 1750 1751 "\<lambda>_. RError"] l
    by (simp add: nano_range_def maxAlloc_def)
  moreover have "snd (kv_Get example_env (\<lambda>_. 0) 1900 1901 (\<lambda>_. RError) ''k'' kv') = Inr go_nil"
    using kv_set_get [OF c example_node_inv example_lz4(1) s, of 100 1900 1901 "\<lambda>_. RError"] l
    by (simp add: nano_range_def maxAlloc_def)
  ultimately show ?thesis using s by blast
qed

section \<open>New instances\<close>

lemma node_inv_lifecycle [simp]: "node_inv E hi lv (c\<lparr>c_lifecycle := lm\<rparr>) = node_inv E hi lv c"
  by (simp add: node_inv_def parts_ok_def)

lemma Register_started [simp]: "started (Register n ds lm) = started lm"
  by (simp add: Register_def Let_def)

lemma registered_started [simp]: "started (fold (\<lambda>(n, ds). Register n ds) rs lm) = started lm"
  by (induction rs arbitrary: lm) (simp_all add: case_prod_beta)

lemma cluster_lifecycle_fresh: "\<not> started (cluster_lifecycle hasNet)"
  unfolding cluster_lifecycle_def registered_started by (simp add: lifecycle_New_def)

lemma cluster_New_network:
  assumes "cc_HasNetwork cfg"
  obtains c where "cluster_New hi now blank cfg st h = Some c" "c_lifecycle c = cluster_lifecycle True"
  using that assms unfolding cluster_New_def Let_def reader.defs by simp

lemma member_Start_step: "fst (cluster_member_step hi clock i (EvStart now) c) = c\<lparr>g_member := Start now (g_member c)\<rparr>"
  by (cases c) (simp add: cluster_member_step_def)

lemma replay_Start_member:
  assumes "replay_Start E hi now ex accept loaded hh c = Some (c', es, rs)"
  shows "g_member c' = g_member c"
  using assms writer_BatchSet_keeps [of E hi c now ex]
  by (auto simp: replay_Start_def Let_def keeps_def case_prod_beta split: load_result.splits if_splits option.splits)

lemma start_components_ok:
  assumes "node_inv E hi False c" "\<not> bad_checkpoint (bt_loaded b)"
  obtains c' where "start_components E hi b c = Some c'" "node_inv E hi False c'"
    "g_member c' = Start (bt_now b) (g_member c)"
proof -
  let ?c = "fst (cluster_member_step hi (\<lambda>_. bt_now b) 0 (EvStart (bt_now b)) c)"
  have i: "node_inv E hi False ?c" using member_step_node_inv [OF assms(1), where e = "EvStart (bt_now b)"] by simp
  note r = replay_Start_inv [OF i, where loaded = "bt_loaded b" and hh = "[]" and now = "bt_now b" and ex = "bt_exec b"
      and accept = "\<lambda>_. True"]
  then obtain c' es rs where c': "replay_Start E hi (bt_now b) (bt_exec b) (\<lambda>_. True) (bt_loaded b) [] ?c = Some (c', es, rs)"
    using assms(2) by (auto split: option.splits)
  have "node_inv E hi False c'" using r c' by simp
  moreover have "g_member c' = Start (bt_now b) (g_member c)" using replay_Start_member [OF c'] by (simp add: member_Start_step)
  ultimately show thesis using c' by (intro that) (simp_all add: start_components_def)
qed

lemma ready_alone:
  assumes "cluster_New hi now blank cfg st h = Some c" "g_member c' = Start t (g_member c)"
  shows "HealthCheck \<lparr>kv_cluster = Some (c'\<lparr>c_lifecycle := lm\<rparr>), kv_ttl = d, kv_replicaCount = n, kv_shuttingDown = b\<rparr> = Inr ()"
  by (simp add: HealthCheck_def kv_Stats_def Let_def assms(2) cluster_New_fields(1) [OF assms(1)] newMemberMgr_def Members_def Start_def)

text \<open>The instance that named options give.\<close>

lemma NewGridKV_succeeds:
  assumes "read_options args = Inr o0" "o_LocalNodeID o0 \<noteq> ''''" "o_LocalAddress o0 \<noteq> ''''"
  obtains c lm where "cluster_New hi now blank (cluster_config (applyDefaults o0)) (New cpus (store_config (applyDefaults o0)))
       (NewHLC (o_LocalNodeID o0)) = Some c"
    "NewGridKV E hi now cpus blank True b finish (\<lambda>_. False) False args =
       map_option (\<lambda>c'. Inr \<lparr>kv_cluster = Some (c'\<lparr>c_lifecycle := lm\<rparr>), kv_ttl = o_TTL (applyDefaults o0),
            kv_replicaCount = o_ReplicaCount (applyDefaults o0), kv_shuttingDown = False\<rparr>) (start_components E hi b c)"
proof -
  let ?o = "applyDefaults o0"
  have id: "o_LocalNodeID ?o = o_LocalNodeID o0" "o_LocalAddress ?o = o_LocalAddress o0"
    by (simp_all add: applyDefaults_def Let_def)
  obtain c where c: "cluster_New hi now blank (cluster_config ?o) (New cpus (store_config ?o)) (NewHLC (o_LocalNodeID o0)) = Some c"
    "c_lifecycle c = cluster_lifecycle True"
    by (rule cluster_New_network [of "cluster_config ?o"]) (simp add: cluster_config_def)
  have never: "List.find (\<lambda>_. False) xs = None" for xs :: "string list" by (induction xs) simp_all
  obtain lm where lm: "StartWithTimeout finish (\<lambda>_. False) False (c_lifecycle c) = (lm, Inr ())"
    using cluster_order_resolves [of True] cluster_lifecycle_fresh [of True] by (auto simp: c(2) StartWithTimeout_def never)
  show thesis
    by (rule that [OF c(1), of lm]) (use assms c(1) in \<open>simp add: NewGridKV_def Let_def id lm split: option.split\<close>)
qed

text \<open>
  C7: a new instance is usable. Options that name the node and its address, with a shard count that is not negative
  (and at most 2^62), give an instance when the network layer could be built, no component fails to start or
  is late, and the checkpoint file that is replayed at the start is absent, unreadable or well formed: it passes its health
  check, is not shutting down, and its node, with the replayed items written, satisfies the invariants of store, cache,
  ring and member table.
\<close>

theorem NewGridKV_usable:
  assumes "read_options args = Inr o0" "o_LocalNodeID o0 \<noteq> ''''" "o_LocalAddress o0 \<noteq> ''''"
    and "0 \<le> ShardCount (store_config (applyDefaults o0))" "ShardCount (store_config (applyDefaults o0)) \<le> 2 ^ 62" "0 \<le> cpus"
    and "\<not> bad_checkpoint (bt_loaded b)"
  shows "\<exists>kv. NewGridKV E hi now cpus blank True b finish (\<lambda>_. False) False args = Some (Inr kv)
    \<and> HealthCheck kv = Inr () \<and> \<not> isShuttingDown kv \<and> (\<exists>c. kv_cluster kv = Some c \<and> node_inv E hi False c)"
proof (rule NewGridKV_succeeds [OF assms(1-3), of hi now blank cpus E b finish])
  fix c lm
  assume c: "cluster_New hi now blank (cluster_config (applyDefaults o0)) (New cpus (store_config (applyDefaults o0)))
      (NewHLC (o_LocalNodeID o0)) = Some c"
    and kv: "NewGridKV E hi now cpus blank True b finish (\<lambda>_. False) False args =
       map_option (\<lambda>c'. Inr \<lparr>kv_cluster = Some (c'\<lparr>c_lifecycle := lm\<rparr>), kv_ttl = o_TTL (applyDefaults o0),
            kv_replicaCount = o_ReplicaCount (applyDefaults o0), kv_shuttingDown = False\<rparr>) (start_components E hi b c)"
  have "node_inv E hi False c"
    by (rule cluster_New_inv [OF c New_inv]) (rule New_shardCount_pos [OF assms(4-6)])
  from start_components_ok [OF this assms(7)] obtain c' where c': "start_components E hi b c = Some c'"
    "node_inv E hi False c'" "g_member c' = Start (bt_now b) (g_member c)" .
  then show ?thesis using kv ready_alone [OF c c'(3)] by (simp add: isShuttingDown_def)
qed

definition example_boot :: boot where
  "example_boot = \<lparr>bt_now = 6, bt_exec = (True, True), bt_loaded = LoadOps []\<rparr>"

theorem NewGridKV_usable_witness:
  "\<exists>kv. NewGridKV example_env (\<lambda>_. 0) 5 4 undefined True (example_boot\<lparr>bt_loaded := LoadOps [Some (example_op 7)]\<rparr>) [] (\<lambda>_. False) False
       [OptionFn (WithLocalNodeID ''n1''), OptionFn (WithLocalAddress ''h:1''), OptionFn (WithReplicaCount 2)] = Some (Inr kv)
     \<and> HealthCheck kv = Inr ()"
  using NewGridKV_usable [of "[OptionFn (WithLocalNodeID ''n1''), OptionFn (WithLocalAddress ''h:1''), OptionFn (WithReplicaCount 2)]"
      "zero_Options\<lparr>o_LocalNodeID := ''n1'', o_LocalAddress := ''h:1'', o_ReplicaCount := 2\<rparr>" 4
      "example_boot\<lparr>bt_loaded := LoadOps [Some (example_op 7)]\<rparr>" example_env "\<lambda>_. 0" 5 undefined "[]"]
  by (auto simp: read_options_def option_defs store_config_def applyDefaults_def Let_def zero_Options_def zero_StorageOptions_def
      bad_checkpoint_def)

section \<open>Waiting for a stable cluster\<close>

abbreviation poll_time :: "poll \<Rightarrow> gotime" where
  "poll_time p \<equiv> snd (snd p)"

definition ready_as :: "int \<times> int \<Rightarrow> poll \<Rightarrow> bool" where
  "ready_as k p \<longleftrightarrow> is_ready (fst (snd p)) \<and> seen (fst (snd p)) = k"

text \<open>Consecutive polls that see a ready cluster of the same size and health for at least half a second.\<close>

definition stable_window :: "poll list \<Rightarrow> bool" where
  "stable_window mid \<longleftrightarrow> mid \<noteq> [] \<and> (\<exists>k. list_all (ready_as k) mid)
     \<and> poll_time (last mid) - poll_time (hd mid) \<ge> stabilityGracePeriod"

definition before_deadline :: "gotime \<Rightarrow> poll list \<Rightarrow> bool" where
  "before_deadline deadline ps \<longleftrightarrow> list_all (\<lambda>p. fst p < deadline) ps"

lemma before_simps [simp]:
  "before_deadline d []" "before_deadline d (p # ps) \<longleftrightarrow> fst p < d \<and> before_deadline d ps"
  "before_deadline d (ps @ qs) \<longleftrightarrow> before_deadline d ps \<and> before_deadline d qs"
  by (simp_all add: before_deadline_def)

lemma grace_pos: "0 < stabilityGracePeriod"
  by (simp add: stabilityGracePeriod_def time_Millisecond_def)

text \<open>A window that goes on from a poll that was seen ready before returns.\<close>

lemma wait_loop_continues:
  assumes "mid \<noteq> []" "list_all (ready_as k) mid" "before_deadline d mid" "poll_time (last mid) - t0 \<ge> stabilityGracePeriod"
  shows "\<exists>s. wait_loop d (mid @ post) (Some (t0, k)) = Some (True, s)"
  using assms
proof (induction mid)
  case (Cons p mid)
  obtain t s t' where p: "p = (t, s, t')" by (cases p)
  show ?case using Cons by (cases "mid = []") (auto simp: p ready_as_def)
qed simp

lemma wait_loop_window:
  assumes "before_deadline d (pre @ mid)" "stable_window mid" "sorted (map poll_time (pre @ mid))"
    and "\<And>t0 k. fr = Some (t0, k) \<Longrightarrow> list_all (\<lambda>p. t0 \<le> poll_time p) (pre @ mid)"
  shows "\<exists>s. wait_loop d (pre @ mid @ post) fr = Some (True, s)"
  using assms
proof (induction pre arbitrary: fr)
  case Nil
  obtain p mid' where mid: "mid = p # mid'" using Nil(2) by (cases mid) (auto simp: stable_window_def)
  obtain t s t' where p: "p = (t, s, t')" by (cases p)
  obtain k where k: "list_all (ready_as k) mid" "poll_time (last mid) - t' \<ge> stabilityGracePeriod"
    using Nil(2) by (auto simp: stable_window_def mid p)
  have ne: "mid' \<noteq> []" using k(2) grace_pos by (auto simp: mid p)
  have fresh: "\<exists>s. wait_loop d (mid' @ post) (Some (t', k)) = Some (True, s)"
    by (rule wait_loop_continues) (use Nil(1) k ne in \<open>auto simp: mid p\<close>)
  show ?case
  proof (cases fr)
    case None
    then show ?thesis using fresh k(1) Nil(1) by (auto simp: mid p ready_as_def)
  next
    case (Some fr1)
    obtain t0 k0 where fr: "fr1 = (t0, k0)" by (cases fr1)
    show ?thesis
    proof (cases "k0 = k")
      case True
      have "t0 \<le> t'" using Nil(4) [of t0 k0] Some fr by (simp add: mid p)
      then show ?thesis
        using wait_loop_continues [of mid k d t0 post] Nil(1) k Some fr True mid by simp
    next
      case False
      then show ?thesis using fresh k(1) Nil(1) Some fr by (auto simp: mid p ready_as_def)
    qed
  qed
next
  case (Cons p pre)
  obtain t s t' where p: "p = (t, s, t')" by (cases p)
  have d: "before_deadline d (pre @ mid)" "sorted (map poll_time (pre @ mid))" using Cons(2,4) by simp_all
  have le: "list_all (\<lambda>q. t' \<le> poll_time q) (pre @ mid)" using Cons(4) by (auto simp: p list_all_iff)
  note ih = Cons.IH [OF d(1) Cons(3) d(2)]
  have new: "\<exists>s. wait_loop d (pre @ mid @ post) (Some (t', k)) = Some (True, s)" for k
    by (rule ih) (use le in auto)
  have none: "\<exists>s. wait_loop d (pre @ mid @ post) None = Some (True, s)" by (rule ih) auto
  have old: "\<exists>s. wait_loop d (pre @ mid @ post) fr = Some (True, s)" by (rule ih) (use Cons(5) in auto)
  show ?case
    using Cons(2) new none old by (auto simp: p split: option.split)
qed

text \<open>Conversely, a loop that finds the cluster stable has seen such a window, or continued one.\<close>

definition saw_window :: "gotime \<Rightarrow> poll list \<Rightarrow> bool" where
  "saw_window d ps \<longleftrightarrow> (\<exists>pre mid post. ps = pre @ mid @ post \<and> before_deadline d (pre @ mid) \<and> stable_window mid)"

definition continued :: "gotime \<Rightarrow> poll list \<Rightarrow> gotime \<Rightarrow> int \<times> int \<Rightarrow> bool" where
  "continued d ps t0 k \<longleftrightarrow> (\<exists>mid post. ps = mid @ post \<and> mid \<noteq> [] \<and> before_deadline d mid \<and> list_all (ready_as k) mid
     \<and> poll_time (last mid) - t0 \<ge> stabilityGracePeriod)"

lemma saw_later:
  assumes "saw_window d ps" "fst p < d"
  shows "saw_window d (p # ps)"
proof -
  obtain pre mid post where w: "ps = pre @ mid @ post" "before_deadline d (pre @ mid)" "stable_window mid"
    using assms(1) unfolding saw_window_def by (elim exE conjE)
  have "p # ps = (p # pre) @ mid @ post \<and> before_deadline d ((p # pre) @ mid) \<and> stable_window mid"
    using w assms(2) by simp
  then show ?thesis unfolding saw_window_def by (intro exI)
qed

lemma continued_later:
  assumes "continued d ps t0 k" "fst p < d" "ready_as k p"
  shows "continued d (p # ps) t0 k"
proof -
  obtain mid post where w: "ps = mid @ post" "mid \<noteq> []" "before_deadline d mid" "list_all (ready_as k) mid"
    "poll_time (last mid) - t0 \<ge> stabilityGracePeriod"
    using assms(1) unfolding continued_def by (elim exE conjE)
  have "p # ps = (p # mid) @ post \<and> p # mid \<noteq> [] \<and> before_deadline d (p # mid) \<and> list_all (ready_as k) (p # mid)
     \<and> poll_time (last (p # mid)) - t0 \<ge> stabilityGracePeriod"
    using w assms(2,3) by simp
  then show ?thesis unfolding continued_def by (intro exI)
qed

lemma continued_now: "fst p < d \<Longrightarrow> ready_as k p \<Longrightarrow> poll_time p - t0 \<ge> stabilityGracePeriod \<Longrightarrow> continued d (p # ps) t0 k"
  unfolding continued_def by (intro exI [of _ "[p]"] exI [of _ ps]) simp

lemma continued_begun:
  assumes "continued d ps (poll_time p) k" "fst p < d" "ready_as k p"
  shows "saw_window d (p # ps)"
proof -
  obtain mid post where w: "p # ps = mid @ post" "mid \<noteq> []" "before_deadline d mid" "list_all (ready_as k) mid"
    "poll_time (last mid) - poll_time p \<ge> stabilityGracePeriod"
    using continued_later [OF assms] unfolding continued_def by (elim exE conjE)
  have "hd mid = p" using w(1,2) by (cases mid) auto
  then have "p # ps = [] @ mid @ post \<and> before_deadline d ([] @ mid) \<and> stable_window mid"
    using w unfolding stable_window_def by (intro conjI exI [of _ k]) simp_all
  then show ?thesis unfolding saw_window_def by (intro exI)
qed

lemma wait_loop_sees:
  assumes "wait_loop d ps fr = Some (True, s)"
  shows "saw_window d ps \<or> (case fr of None \<Rightarrow> False | Some (t0, k) \<Rightarrow> continued d ps t0 k)"
  using assms
proof (induction ps arbitrary: fr)
  case (Cons p ps)
  obtain t s' t' where p: "p = (t, s', t')" by (cases p)
  have lt: "t < d" using Cons.prems by (auto simp: p split: if_splits)
  have later: "saw_window d ps \<Longrightarrow> saw_window d (p # ps)" by (rule saw_later) (simp_all add: lt p)
  have begun: "saw_window d (p # ps)" if "is_ready s'" "wait_loop d ps (Some (t', seen s')) = Some (True, s)"
    using Cons.IH [OF that(2)] later continued_begun [of d ps p "seen s'"] that(1) by (auto simp: p lt ready_as_def)
  show ?case
  proof (cases "is_ready s'")
    case False
    then have "wait_loop d ps None = Some (True, s)" using Cons.prems by (simp add: p lt)
    then show ?thesis using Cons.IH later by fastforce
  next
    case ready: True
    show ?thesis
    proof (cases fr)
      case None
      then show ?thesis using Cons.prems begun ready by (simp add: p lt)
    next
      case (Some fr1)
      obtain t0 k where fr: "fr = Some (t0, k)" using Some by (cases fr1) simp
      show ?thesis
      proof (cases "seen s' = k")
        case False
        then show ?thesis using Cons.prems begun ready by (simp add: p lt fr)
      next
        case eq: True
        have r: "ready_as k p" by (simp add: p ready eq ready_as_def)
        show ?thesis
        proof (cases "t' - t0 \<ge> stabilityGracePeriod")
          case True
          then show ?thesis using continued_now [of p d k t0 ps] r lt by (simp add: fr p)
        next
          case False
          then have "wait_loop d ps fr = Some (True, s)" using Cons.prems ready eq by (simp add: p lt fr)
          from Cons.IH [OF this] show ?thesis using later continued_later [of d ps t0 k p] r lt by (auto simp: fr p)
        qed
      qed
    qed
  qed
qed simp

text \<open>
  C8: \<open>WaitReady\<close> returns without an error exactly when, before the deadline, consecutive polls have seen a ready
  cluster of unchanged size and health for at least half a second. The clock readings of the polls do not decrease.
\<close>

theorem WaitReady_iff_stable:
  assumes "kv_cluster kv \<noteq> None" "sorted (map (snd \<circ> snd) polls)"
  shows "WaitReady now timeout polls kv = Some (Inr ()) \<longleftrightarrow>
    (\<exists>pre mid post. polls = pre @ mid @ post \<and> before_deadline (now + timeout) (pre @ mid) \<and> stable_window mid)"
proof
  assume "WaitReady now timeout polls kv = Some (Inr ())"
  then obtain s where "wait_loop (now + timeout) polls None = Some (True, s)"
    using assms(1) by (auto simp: WaitReady_def split: if_splits)
  from wait_loop_sees [OF this]
  show "\<exists>pre mid post. polls = pre @ mid @ post \<and> before_deadline (now + timeout) (pre @ mid) \<and> stable_window mid"
    by (simp add: saw_window_def)
next
  assume "\<exists>pre mid post. polls = pre @ mid @ post \<and> before_deadline (now + timeout) (pre @ mid) \<and> stable_window mid"
  then obtain pre mid post where w: "polls = pre @ mid @ post" "before_deadline (now + timeout) (pre @ mid)" "stable_window mid"
    by blast
  have "sorted (map poll_time (pre @ mid))" using assms(2) by (simp add: w(1) sorted_append comp_def)
  with wait_loop_window [OF w(2,3), of None post] obtain s where "wait_loop (now + timeout) polls None = Some (True, s)"
    by (auto simp: w(1))
  then show "WaitReady now timeout polls kv = Some (Inr ())" using assms(1) by (simp add: WaitReady_def)
qed

definition example_stats :: ClusterStats where
  "example_stats = \<lparr>cs_Ready = True, cs_ClusterSize = 2, cs_HealthyNodes = 2, cs_ReplicaFactor = 3, cs_LocalNodeID = ''a'',
     cs_PeerCount = 1\<rparr>"

theorem WaitReady_iff_stable_witness:
  "WaitReady 0 900000000 [(100, example_stats, 200), (500000000, example_stats, 500000300)] example_kv = Some (Inr ())
   \<and> WaitReady 0 900000000 [(100, example_stats, 200), (400000000, example_stats, 400000300)] example_kv \<noteq> Some (Inr ())"
proof -
  have a: "stable_window [(100, example_stats, 200), (500000000, example_stats, 500000300)]"
    by (auto simp: stable_window_def ready_as_def is_ready_def example_stats_def stabilityGracePeriod_def time_Millisecond_def)
  have kv: "kv_cluster example_kv \<noteq> None" by (simp add: example_kv_def)
  let ?ps = "[(100, example_stats, 200), (500000000, example_stats, 500000300)]"
  have "?ps = [] @ ?ps @ [] \<and> before_deadline (0 + 900000000) ([] @ ?ps) \<and> stable_window ?ps" by (simp add: a)
  then have "\<exists>pre mid post. ?ps = pre @ mid @ post \<and> before_deadline (0 + 900000000) (pre @ mid) \<and> stable_window mid"
    by (intro exI)
  then have "WaitReady 0 900000000 ?ps example_kv = Some (Inr ())" by (subst WaitReady_iff_stable [OF kv]) simp_all
  moreover have "WaitReady 0 900000000 [(100, example_stats, 200), (400000000, example_stats, 400000300)] example_kv \<noteq> Some (Inr ())"
    by (simp add: WaitReady_def kv is_ready_def example_stats_def stabilityGracePeriod_def time_Millisecond_def)
  ultimately show ?thesis ..
qed

section \<open>Negative shard counts\<close>

lemma nextPowerOf2_negative:
  assumes "- (2 ^ 63) < sc" "sc < 0"
  shows "nextPowerOf2 (word_of_int sc) = 0"
proof -
  let ?x = "word_of_int (sc - 1) :: uint64"
  have "(sc - 1) div 2 ^ 63 = - 1"
    by (rule int_div_pos_eq [of _ _ _ "sc - 1 + 2 ^ 63"]) (use assms in simp_all)
  then have "bit (sc - 1) 63" by (simp add: bit_iff_odd)
  then have b: "bit ?x 63" unfolding bit_word_of_int_iff by simp
  have "bit (smear 32 (smear 16 (smear 8 (smear 4 (smear 2 (smear 1 ?x)))))) n" if "n < 64" for n
    unfolding bit_smear_chain by (rule exI [of _ "63 - n"]) (use that b in auto)
  then have "smear 32 (smear 16 (smear 8 (smear 4 (smear 2 (smear 1 ?x))))) = - 1"
    by (intro bit_word_eqI) simp
  moreover have "sint (word_of_int sc :: uint64) = sc"
    using assms by (simp add: signed_of_int signed_take_bit_int_eq_self)
  then have "(word_of_int sc :: uint64) \<noteq> 0" using assms(2) by force
  ultimately show ?thesis by (simp add: nextPowerOf2_def)
qed

lemma New_negative:
  assumes "- (2 ^ 63) < ShardCount cfg" "ShardCount cfg < 0"
  shows "shards (New cpus cfg) = []"
  using assms by (simp add: New_def New_shardCount_def Let_def nextPowerOf2_negative)

lemma no_shards:
  assumes "shards s = []" "key \<noteq> ''''"
  shows "snd (Set E key (Some it) s) = Inl ErrPanic" "snd (Get E now key s) = Inl ErrPanic"
  using assms by (simp_all add: Set_def Get_def get_with_def getShard_def Let_def)

lemma NewGridKV_made:
  assumes "NewGridKV E hi now cpus blank netOk b finish fails late args = Some (Inr kv)" "read_options args = Inr o0"
  obtains c c' lm where "cluster_New hi now blank (cluster_config (applyDefaults o0)) (New cpus (store_config (applyDefaults o0)))
       (NewHLC (o_LocalNodeID (applyDefaults o0))) = Some c"
    "start_components E hi b c = Some c'" "kv_cluster kv = Some (c'\<lparr>c_lifecycle := lm\<rparr>)" "\<not> isShuttingDown kv"
proof -
  let ?c = "cluster_New hi now blank (cluster_config (applyDefaults o0)) (New cpus (store_config (applyDefaults o0)))
       (NewHLC (o_LocalNodeID (applyDefaults o0)))"
  from assms(1) show thesis
    by (cases ?c; cases "start_components E hi b (the ?c)"; cases "StartWithTimeout finish fails late (c_lifecycle (the ?c))")
      (auto simp: NewGridKV_def assms(2) Let_def isShuttingDown_def intro: that split: sum.splits if_splits)
qed

lemma cluster_New_store: "cluster_New hi now blank cfg st h = Some c \<Longrightarrow> g_store c = st"
  unfolding cluster_New_def Let_def
  by (auto simp: newReader_def newWriter_def newGossip_def gossip.defs writer.defs reader.defs split: if_split_asm)

text \<open>
  A negative shard count gives an instance that cannot be used. The options are accepted and \<open>NewGridKV\<close> returns
  an instance without an error when there is no checkpoint, but the store has no shards: every \<open>Set\<close> and every \<open>Delete\<close> of a key on the new
  instance fails.
\<close>

theorem negative_shards_unusable:
  assumes "NewGridKV E hi now cpus blank netOk b finish fails late args = Some (Inr kv)" "read_options args = Inr o0"
    and "bt_loaded b = LoadOps []" "- (2 ^ 63) < ShardCount (store_config (applyDefaults o0))" "ShardCount (store_config (applyDefaults o0)) < 0"
    and "key \<noteq> ''''"
  shows "(\<exists>e. snd (snd (kv_Set E hi t0 now' order ex key v ttl kv)) = Inl e)
    \<and> snd (snd (kv_Delete E hi now' ex key kv)) = Inl ErrRecovered"
proof -
  let ?st = "New cpus (store_config (applyDefaults o0))"
  obtain c c' lm where c: "cluster_New hi now blank (cluster_config (applyDefaults o0)) ?st (NewHLC (o_LocalNodeID (applyDefaults o0))) = Some c"
    and st: "start_components E hi b c = Some c'" and kv: "kv_cluster kv = Some (c'\<lparr>c_lifecycle := lm\<rparr>)" "\<not> isShuttingDown kv"
    by (rule NewGridKV_made [OF assms(1,2)])
  let ?c = "c'\<lparr>c_lifecycle := lm\<rparr>"
  have "g_store c' = g_store c"
    using st assms(3) by (auto simp: start_components_def member_Start_step replay_Start_def Let_def)
  then have e: "shards (g_store ?c) = []" using New_negative [OF assms(4,5)] cluster_New_store [OF c] by simp
  have "snd (snd (writer_Set E hi now' order ex key it ?c)) \<noteq> Inr ()" for it
  proof
    assume "snd (snd (writer_Set E hi now' order ex key it ?c)) = Inr ()"
    then obtain w es where "writer_Set E hi now' order ex key it ?c = (w, es, Inr ())" by (metis prod.collapse)
    from writer_Set_ok(1) [OF this] no_shards(1) [OF e assms(6)] show False by (metis sndI Inl_Inr_False)
  qed
  then have "\<exists>e. snd (snd (kv_Set E hi t0 now' order ex key v ttl kv)) = Inl e"
    using kv assms(6) by (auto simp: kv_Set_def Let_def case_prod_beta map_sum_def split: sum.splits)
  moreover have "snd (snd (kv_Delete E hi now' ex key kv)) = Inl ErrRecovered"
    using no_shards(2) [OF e assms(6), of E now'] kv assms(6) by (simp add: kv_Delete_def Let_def case_prod_beta)
  ultimately show ?thesis ..
qed

theorem negative_shards_unusable_witness:
  "\<exists>kv. NewGridKV example_env (\<lambda>_. 0) 5 4 undefined True example_boot [] (\<lambda>_. False) False
       [OptionFn (WithLocalNodeID ''n1''), OptionFn (WithLocalAddress ''h:1''), OptionFn (WithStorageShardCount (- 1))] = Some (Inr kv)
     \<and> snd (snd (kv_Delete example_env (\<lambda>_. 0) 9 (\<lambda>_. (True, True)) ''k'' kv)) = Inl ErrRecovered"
proof -
  let ?args = "[OptionFn (WithLocalNodeID ''n1''), OptionFn (WithLocalAddress ''h:1''), OptionFn (WithStorageShardCount (- 1))]"
  let ?o = "zero_Options\<lparr>o_LocalNodeID := ''n1'', o_LocalAddress := ''h:1'', o_Storage := Some \<lparr>s_MaxMemoryMB = 0, s_ShardCount = - 1\<rparr>\<rparr>"
  have r: "read_options ?args = Inr ?o"
    by (simp add: read_options_def option_defs zero_Options_def zero_StorageOptions_def)
  have sc: "ShardCount (store_config (applyDefaults ?o)) = - 1" by (simp add: store_config_def applyDefaults_def Let_def)
  obtain kv where kv: "NewGridKV example_env (\<lambda>_. 0) 5 4 undefined True example_boot [] (\<lambda>_. False) False ?args = Some (Inr kv)"
    by (rule NewGridKV_succeeds [OF r, of "\<lambda>_. 0" 5 undefined 4 example_env example_boot "[]"])
      (simp_all add: r start_components_def replay_Start_def example_boot_def Let_def)
  show ?thesis
    using negative_shards_unusable [OF kv r, of "''k''" 0 9 id "\<lambda>_. (True, True)" None None] kv by (simp add: sc example_boot_def)
qed

section \<open>Closed instances\<close>

lemma closed_rejects:
  assumes "kv_Close hi now fails kv = (kv', closing, r)" "kv_cluster kv \<noteq> None" "key \<noteq> ''''"
  shows "kv_Set E hi t0 now' order ex key v ttl kv' = (kv', [], Inl ErrShuttingDown)"
    "kv_Get E hi now' t1 remote key kv' = (kv', Inl ErrShuttingDown)"
    "kv_Delete E hi now' ex key kv' = (kv', [], Inl ErrShuttingDown)"
  using assms
  by (auto simp: kv_Close_def Let_def kv_Set_def kv_Get_def kv_Delete_def isShuttingDown_def split: prod.splits)

end
