(* ===== verification/Cgo_Api.thy ===== *)
theory Cgo_Api
  imports GridKV
begin

text \<open>
  \<open>cgo/cgo.go\<close>: the C interface. Instances are kept in a table under integer handles; results and error messages are
  allocated with \<open>malloc\<close> and released by the caller through the functions \<open>gkv_free_...\<close>.

  \<^item> The C heap is the list of the live blocks. Releasing a block that is not live is undefined in C and is \<open>None\<close>
    here. \<open>C.malloc\<close> never returns a null pointer.
  \<^item> A string or memory argument is its contents, \<open>None\<close> the null pointer. An error message is its block and the error.
  \<^item> The arguments of \<open>gkv_new\<close> are those of \<open>ParseConfig\<close> and \<open>NewGridKV\<close>; \<open>None\<close> is a panic during the start. Of
    \<open>gkv_stats\<close> the key fields, which are constants, and the network and storage counters are left out.
\<close>

datatype cgo_err =
  InstanceNotFound | ConfigRequired | ConfigError config_err | CreateError new_err | EmptyKey | KvError kv_err

type_synonym cstring = "nat \<times> cgo_err"

record capi =
  ci_instances :: "(uint64 \<times> GridKV) list"
  ci_instanceID :: uint64
  ci_heap :: "nat list"
  ci_fresh :: nat
  ci_version :: "nat option"

definition malloc :: "capi \<Rightarrow> nat \<times> capi" where
  "malloc st = (ci_fresh st, st\<lparr>ci_heap := ci_fresh st # ci_heap st, ci_fresh := ci_fresh st + 1\<rparr>)"

definition c_free :: "nat \<Rightarrow> capi \<Rightarrow> capi option" where
  "c_free b st = (if b \<in> set (ci_heap st) then Some (st\<lparr>ci_heap := remove1 b (ci_heap st)\<rparr>) else None)"

definition CString :: "cgo_err \<Rightarrow> capi \<Rightarrow> cstring \<times> capi" where
  "CString e st = (case malloc st of (b, st1) \<Rightarrow> ((b, e), st1))"

definition GoString :: "string option \<Rightarrow> string" where
  "GoString s = (case s of None \<Rightarrow> '''' | Some s \<Rightarrow> s)"

definition getInstance :: "uint64 \<Rightarrow> capi \<Rightarrow> GridKV option" where
  "getInstance i st = map_of (ci_instances st) i"

definition store_instance :: "uint64 \<Rightarrow> GridKV \<Rightarrow> capi \<Rightarrow> capi" where
  "store_instance i kv st = st\<lparr>ci_instances := AList.update i kv (ci_instances st)\<rparr>"

section \<open>Instances\<close>

record gkv_result_t =
  res_block :: nat
  res_id :: uint64
  res_error :: "cstring option"

definition result_error :: "nat \<Rightarrow> cgo_err \<Rightarrow> capi \<Rightarrow> capi \<times> gkv_result_t" where
  "result_error b e st = (case CString e st of (c, st1) \<Rightarrow> (st1, \<lparr>res_block = b, res_id = 0, res_error = Some c\<rparr>))"

definition gkv_new ::
  "env \<Rightarrow> (string \<Rightarrow> ConfigFile option) \<Rightarrow> (string \<Rightarrow> duration option) \<Rightarrow> (string \<Rightarrow> uint64) \<Rightarrow> gotime \<Rightarrow> int
   \<Rightarrow> StoredItem entry \<Rightarrow> bool \<Rightarrow> boot \<Rightarrow> string list \<Rightarrow> (string \<Rightarrow> bool) \<Rightarrow> bool \<Rightarrow> string option \<Rightarrow> capi
   \<Rightarrow> (capi \<times> gkv_result_t) option" where
  "gkv_new E json pd hi now cpus blank netOk bt finish fails late configJSON st =
     (case malloc st of (b, st1) \<Rightarrow>
        if GoString configJSON = '''' then Some (result_error b ConfigRequired st1)
        else
          (case ParseConfig json pd (GoString configJSON) of
             Inl e \<Rightarrow> Some (result_error b (ConfigError e) st1)
           | Inr opts \<Rightarrow>
               (case NewGridKV E hi now cpus blank netOk bt finish fails late [OptionsPtr (Some opts)] of
                  None \<Rightarrow> None
                | Some (Inl e) \<Rightarrow> Some (result_error b (CreateError e) st1)
                | Some (Inr kv) \<Rightarrow>
                    (let i = ci_instanceID st1 + 1
                     in Some (store_instance i kv (st1\<lparr>ci_instanceID := i\<rparr>),
                              \<lparr>res_block = b, res_id = i, res_error = None\<rparr>)))))"

definition string_error :: "cgo_err \<Rightarrow> capi \<Rightarrow> capi \<times> cstring option" where
  "string_error e st = (case CString e st of (c, st1) \<Rightarrow> (st1, Some c))"

definition kv_outcome :: "kv_err + unit \<Rightarrow> capi \<Rightarrow> capi \<times> cstring option" where
  "kv_outcome r st = (case r of Inl e \<Rightarrow> string_error (KvError e) st | Inr _ \<Rightarrow> (st, None))"

definition close_timeout :: "32 word \<Rightarrow> duration" where
  "close_timeout timeoutSec = (if sint timeoutSec > 0 then sint timeoutSec * time_Second else 30 * time_Second)"

text \<open>The outcome of \<open>Close\<close> under the timeout is part of \<open>fails\<close>.\<close>

definition gkv_close ::
  "(string \<Rightarrow> uint64) \<Rightarrow> gotime \<Rightarrow> (string \<Rightarrow> bool) \<Rightarrow> uint64 \<Rightarrow> capi \<Rightarrow> capi \<times> cstring option" where
  "gkv_close hi now fails i st =
     (case getInstance i st of
        None \<Rightarrow> string_error InstanceNotFound st
      | Some kv \<Rightarrow>
          (let st1 = st\<lparr>ci_instances := AList.delete i (ci_instances st)\<rparr>
           in case kv_Close hi now fails kv of (_, _, r) \<Rightarrow> kv_outcome r st1))"

section \<open>Operations\<close>

text \<open>
  \<open>C.GoBytes\<close> takes the length as a C \<open>int\<close>; a negative one panics. Bytes beyond the memory given are not modelled: the
  caller promises that the memory has the length it passes.
\<close>

definition GoBytes :: "byte list option \<Rightarrow> uint64 \<Rightarrow> bytes option" where
  "GoBytes value valueLen =
     (case value of
        None \<Rightarrow> Some go_nil
      | Some mem \<Rightarrow>
          if valueLen = 0 then Some go_nil
          else
            (let n = sint (ucast valueLen :: 32 word)
             in if n < 0 then None else Some (Some (take (nat n) mem))))"

definition c_ttl :: "32 word \<Rightarrow> duration" where
  "c_ttl ttlSec = (if sint ttlSec > 0 then sint ttlSec * time_Second else 0)"

definition gkv_set ::
  "env \<Rightarrow> (string \<Rightarrow> uint64) \<Rightarrow> gotime \<Rightarrow> gotime \<Rightarrow> (string list \<Rightarrow> string list) \<Rightarrow> (nat \<Rightarrow> bool \<times> bool)
   \<Rightarrow> uint64 \<Rightarrow> string option \<Rightarrow> byte list option \<Rightarrow> uint64 \<Rightarrow> 32 word \<Rightarrow> capi
   \<Rightarrow> (capi \<times> writer_effect list \<times> cstring option) option" where
  "gkv_set E hi t0 now order ex i key value valueLen ttlSec st =
     (case getInstance i st of
        None \<Rightarrow> (case string_error InstanceNotFound st of (st1, c) \<Rightarrow> Some (st1, [], c))
      | Some kv \<Rightarrow>
          if GoString key = '''' then (case string_error EmptyKey st of (st1, c) \<Rightarrow> Some (st1, [], c))
          else
            (case GoBytes value valueLen of
               None \<Rightarrow> None
             | Some v \<Rightarrow>
                 (case kv_Set E hi t0 now order ex (GoString key) v (Some (c_ttl ttlSec)) kv of
                    (kv', es, r) \<Rightarrow>
                      (case kv_outcome r (store_instance i kv' st) of (st1, c) \<Rightarrow> Some (st1, es, c)))))"

record gkv_get_result_t =
  get_block :: nat
  get_data :: "(nat \<times> byte list) option"
  get_error :: "cstring option"

definition get_failed :: "nat \<Rightarrow> cgo_err \<Rightarrow> capi \<Rightarrow> capi \<times> gkv_get_result_t" where
  "get_failed b e st = (case CString e st of (c, st1) \<Rightarrow> (st1, \<lparr>get_block = b, get_data = None, get_error = Some c\<rparr>))"

definition gkv_get ::
  "env \<Rightarrow> (string \<Rightarrow> uint64) \<Rightarrow> gotime \<Rightarrow> gotime \<Rightarrow> (string \<Rightarrow> remote_result) \<Rightarrow> uint64 \<Rightarrow> string option \<Rightarrow> capi
   \<Rightarrow> capi \<times> gkv_get_result_t" where
  "gkv_get E hi now t1 remote i key st =
     (case malloc st of (b, st1) \<Rightarrow>
        (case getInstance i st1 of
           None \<Rightarrow> get_failed b InstanceNotFound st1
         | Some kv \<Rightarrow>
             if GoString key = '''' then get_failed b EmptyKey st1
             else
               (case kv_Get E hi now t1 remote (GoString key) kv of (kv', r) \<Rightarrow>
                  (let st2 = store_instance i kv' st1 in
                   case r of
                     Inl e \<Rightarrow> get_failed b (KvError e) st2
                   | Inr value \<Rightarrow>
                       if go_len value = 0 then (st2, \<lparr>get_block = b, get_data = None, get_error = None\<rparr>)
                       else (case malloc st2 of (d, st3) \<Rightarrow>
                               (st3, \<lparr>get_block = b, get_data = Some (d, go_bytes value), get_error = None\<rparr>))))))"

definition gkv_delete ::
  "env \<Rightarrow> (string \<Rightarrow> uint64) \<Rightarrow> gotime \<Rightarrow> (nat \<Rightarrow> bool \<times> bool) \<Rightarrow> uint64 \<Rightarrow> string option \<Rightarrow> capi
   \<Rightarrow> capi \<times> writer_effect list \<times> cstring option" where
  "gkv_delete E hi now ex i key st =
     (case getInstance i st of
        None \<Rightarrow> (case string_error InstanceNotFound st of (st1, c) \<Rightarrow> (st1, [], c))
      | Some kv \<Rightarrow>
          if GoString key = '''' then (case string_error EmptyKey st of (st1, c) \<Rightarrow> (st1, [], c))
          else
            (case kv_Delete E hi now ex (GoString key) kv of
               (kv', es, r) \<Rightarrow> (case kv_outcome r (store_instance i kv' st) of (st1, c) \<Rightarrow> (st1, es, c))))"

definition gkv_health_check :: "uint64 \<Rightarrow> capi \<Rightarrow> capi \<times> cstring option" where
  "gkv_health_check i st =
     (case getInstance i st of
        None \<Rightarrow> string_error InstanceNotFound st
      | Some kv \<Rightarrow> kv_outcome (HealthCheck kv) st)"

definition wait_timeout :: "32 word \<Rightarrow> duration" where
  "wait_timeout timeoutSec =
     (let timeout = sint timeoutSec * time_Second in if timeout \<le> 0 then 30 * time_Second else timeout)"

definition gkv_wait_ready :: "gotime \<Rightarrow> poll list \<Rightarrow> uint64 \<Rightarrow> 32 word \<Rightarrow> capi \<Rightarrow> (capi \<times> cstring option) option" where
  "gkv_wait_ready now polls i timeoutSec st =
     (case getInstance i st of
        None \<Rightarrow> Some (string_error InstanceNotFound st)
      | Some kv \<Rightarrow> map_option (\<lambda>r. kv_outcome r st) (WaitReady now (wait_timeout timeoutSec) polls kv))"

section \<open>Version and statistics\<close>

text \<open>The version string is allocated once and shared by all callers.\<close>

definition gkv_version :: "capi \<Rightarrow> capi \<times> nat" where
  "gkv_version st =
     (case ci_version st of
        Some b \<Rightarrow> (st, b)
      | None \<Rightarrow> (case malloc st of (b, st1) \<Rightarrow> (st1\<lparr>ci_version := Some b\<rparr>, b)))"

record gkv_stats_t =
  st_block :: nat
  st_ready :: "32 word"
  st_cluster_size :: "32 word"
  st_healthy_nodes :: "32 word"
  st_replica_factor :: "32 word"
  st_local_node_id :: "(nat \<times> string) option"
  st_peer_count :: "32 word"
  st_version :: "nat option"
  st_error :: "cstring option"

definition boolToInt :: "bool \<Rightarrow> int" where
  "boolToInt b = (if b then 1 else 0)"

definition gkv_stats :: "uint64 \<Rightarrow> capi \<Rightarrow> capi \<times> gkv_stats_t" where
  "gkv_stats i st =
     (case malloc st of (b, st1) \<Rightarrow>
        (case getInstance i st1 of
           None \<Rightarrow>
             (case CString InstanceNotFound st1 of (c, st2) \<Rightarrow>
                (st2, \<lparr>st_block = b, st_ready = 0, st_cluster_size = 0, st_healthy_nodes = 0, st_replica_factor = 0,
                       st_local_node_id = None, st_peer_count = 0, st_version = None, st_error = Some c\<rparr>))
         | Some kv \<Rightarrow>
             (let s = kv_Stats kv in
              case malloc st1 of (n, st2) \<Rightarrow>
                (case gkv_version st2 of (st3, v) \<Rightarrow>
                   (st3, \<lparr>st_block = b, st_ready = word_of_int (boolToInt (cs_Ready s)),
                        st_cluster_size = word_of_int (cs_ClusterSize s), st_healthy_nodes = word_of_int (cs_HealthyNodes s),
                        st_replica_factor = word_of_int (cs_ReplicaFactor s), st_local_node_id = Some (n, cs_LocalNodeID s),
                        st_peer_count = word_of_int (cs_PeerCount s), st_version = Some v, st_error = None\<rparr>)))))"

section \<open>Releasing\<close>

definition free_opt :: "(nat \<times> 'a) option \<Rightarrow> capi \<Rightarrow> capi option" where
  "free_opt p st = (case p of None \<Rightarrow> Some st | Some (b, _) \<Rightarrow> c_free b st)"

definition gkv_free_result :: "gkv_result_t option \<Rightarrow> capi \<Rightarrow> capi option" where
  "gkv_free_result r st =
     (case r of None \<Rightarrow> Some st | Some r \<Rightarrow> Option.bind (free_opt (res_error r) st) (c_free (res_block r)))"

definition gkv_free_get_result :: "gkv_get_result_t option \<Rightarrow> capi \<Rightarrow> capi option" where
  "gkv_free_get_result r st =
     (case r of
        None \<Rightarrow> Some st
      | Some r \<Rightarrow> Option.bind (free_opt (get_data r) st)
                   (\<lambda>st1. Option.bind (free_opt (get_error r) st1) (c_free (get_block r))))"

definition gkv_free_string :: "cstring option \<Rightarrow> capi \<Rightarrow> capi option" where
  "gkv_free_string s st = free_opt s st"

definition gkv_free_stats :: "gkv_stats_t option \<Rightarrow> capi \<Rightarrow> capi option" where
  "gkv_free_stats r st =
     (case r of
        None \<Rightarrow> Some st
      | Some r \<Rightarrow> Option.bind (free_opt (st_local_node_id r) st)
                   (\<lambda>st1. Option.bind (free_opt (st_error r) st1) (c_free (st_block r))))"

definition gkv_result_has_error :: "gkv_result_t option \<Rightarrow> int" where
  "gkv_result_has_error r = (case r of None \<Rightarrow> 1 | Some r \<Rightarrow> if res_error r \<noteq> None then 1 else 0)"

definition gkv_get_result_has_error :: "gkv_get_result_t option \<Rightarrow> int" where
  "gkv_get_result_has_error r = (case r of None \<Rightarrow> 1 | Some r \<Rightarrow> if get_error r \<noteq> None then 1 else 0)"

section \<open>Memory\<close>

lemma malloc_heap: "malloc st = (b, st1) \<Longrightarrow> b = ci_fresh st \<and> ci_heap st1 = b # ci_heap st \<and> ci_instances st1 = ci_instances st
  \<and> ci_instanceID st1 = ci_instanceID st \<and> ci_version st1 = ci_version st \<and> ci_fresh st1 = b + 1"
  by (auto simp: malloc_def)

lemma c_free_fst: "ci_heap st = b # bs \<Longrightarrow> c_free b st = Some (st\<lparr>ci_heap := bs\<rparr>)"
  by (simp add: c_free_def)

lemma store_instance_heap [simp]:
  "ci_heap (store_instance i kv st) = ci_heap st" "ci_fresh (store_instance i kv st) = ci_fresh st"
  "ci_version (store_instance i kv st) = ci_version st" "ci_instanceID (store_instance i kv st) = ci_instanceID st"
  by (simp_all add: store_instance_def)

text \<open>An error message, alone or in a result, is released by the matching call.\<close>

lemma string_error_balanced:
  "string_error e st = (st1, c) \<Longrightarrow> \<exists>st2. gkv_free_string c st1 = Some st2 \<and> ci_heap st2 = ci_heap st"
  by (auto simp: string_error_def CString_def malloc_def gkv_free_string_def free_opt_def c_free_def)

lemma kv_outcome_balanced:
  "kv_outcome r st = (st1, c) \<Longrightarrow> \<exists>st2. gkv_free_string c st1 = Some st2 \<and> ci_heap st2 = ci_heap st"
  using string_error_balanced by (auto simp: kv_outcome_def gkv_free_string_def free_opt_def split: sum.splits)

lemma result_error_balanced:
  "result_error b e st = (st1, r) \<Longrightarrow> ci_heap st = b # bs \<Longrightarrow>
    \<exists>st2. gkv_free_result (Some r) st1 = Some st2 \<and> ci_heap st2 = bs"
  by (auto simp: result_error_def CString_def malloc_def gkv_free_result_def free_opt_def c_free_def)

lemma get_failed_balanced:
  "get_failed b e st = (st1, r) \<Longrightarrow> ci_heap st = b # bs \<Longrightarrow>
    \<exists>st2. gkv_free_get_result (Some r) st1 = Some st2 \<and> ci_heap st2 = bs"
  by (auto simp: get_failed_def CString_def malloc_def gkv_free_get_result_def free_opt_def c_free_def)

lemma gkv_new_balanced:
  assumes "gkv_new E json pd hi now cpus blank netOk bt finish fails late cfg st = Some (st1, r)"
  shows "\<exists>st2. gkv_free_result (Some r) st1 = Some st2 \<and> ci_heap st2 = ci_heap st"
proof -
  obtain b s where m: "malloc st = (b, s)" by (cases "malloc st")
  note h = malloc_heap [OF m]
  have err: "\<exists>st2. gkv_free_result (Some r) st1 = Some st2 \<and> ci_heap st2 = ci_heap st" if "result_error b e s = (st1, r)" for e
    using result_error_balanced [OF that] h by simp
  have ok: "\<exists>st2. gkv_free_result (Some \<lparr>res_block = b, res_id = i, res_error = None\<rparr>) (store_instance i kv (s\<lparr>ci_instanceID := i\<rparr>)) = Some st2
      \<and> ci_heap st2 = ci_heap st" for i kv
    using h by (simp add: gkv_free_result_def free_opt_def c_free_fst)
  show ?thesis
    using assms m err ok by (auto simp: gkv_new_def Let_def split: if_splits option.splits sum.splits)
qed

lemma gkv_get_balanced:
  assumes "gkv_get E hi now t1 remote i key st = (st1, r)"
  shows "\<exists>st2. gkv_free_get_result (Some r) st1 = Some st2 \<and> ci_heap st2 = ci_heap st"
proof -
  obtain b s where m: "malloc st = (b, s)" by (cases "malloc st")
  note h = malloc_heap [OF m]
  have err: "\<exists>st2. gkv_free_get_result (Some r) st1 = Some st2 \<and> ci_heap st2 = ci_heap st"
    if "get_failed b e s' = (st1, r)" "ci_heap s' = ci_heap s" for e s'
    using get_failed_balanced [OF that(1)] that(2) h by simp
  have empty: "\<exists>st2. gkv_free_get_result (Some \<lparr>get_block = b, get_data = None, get_error = None\<rparr>) s' = Some st2
      \<and> ci_heap st2 = ci_heap st" if "ci_heap s' = ci_heap s" for s'
    using h that by (simp add: gkv_free_get_result_def free_opt_def c_free_fst)
  have data: "\<exists>st2. gkv_free_get_result (Some \<lparr>get_block = b, get_data = Some (d, v), get_error = None\<rparr>) s' = Some st2
      \<and> ci_heap st2 = ci_heap st" if "ci_heap s' = d # ci_heap s" for s' d v
    using h that by (simp add: gkv_free_get_result_def free_opt_def c_free_fst)
  show ?thesis
  proof (cases "getInstance i s")
    case None
    then show ?thesis using assms m err [of InstanceNotFound s] by (simp add: gkv_get_def)
  next
    case (Some kv)
    obtain kv' v where g: "kv_Get E hi now t1 remote (GoString key) kv = (kv', v)"
      by (cases "kv_Get E hi now t1 remote (GoString key) kv")
    obtain d s3 where m3: "malloc (store_instance i kv' s) = (d, s3)" by (cases "malloc (store_instance i kv' s)")
    have "ci_heap s3 = d # ci_heap s" using malloc_heap [OF m3] by simp
    then show ?thesis
      using assms m Some g m3 err [of EmptyKey s] err [of "KvError e" "store_instance i kv' s" for e]
        empty [of "store_instance i kv' s"] data [of s3 d]
      by (auto simp: gkv_get_def Let_def split: if_splits sum.splits)
  qed
qed

lemma gkv_set_balanced:
  assumes "gkv_set E hi t0 now order ex i key value n ttl st = Some (st1, es, c)"
  shows "\<exists>st2. gkv_free_string c st1 = Some st2 \<and> ci_heap st2 = ci_heap st"
proof -
  have k: "\<exists>st2. gkv_free_string c st1 = Some st2 \<and> ci_heap st2 = ci_heap st"
    if "kv_outcome r (store_instance i kv st) = (st1, c)" for r kv
    using kv_outcome_balanced [OF that] by simp
  show ?thesis
    using assms string_error_balanced [of _ st st1 c] k
    by (auto simp: gkv_set_def split: option.splits if_splits prod.splits)
qed

lemma gkv_delete_balanced:
  assumes "gkv_delete E hi now ex i key st = (st1, es, c)"
  shows "\<exists>st2. gkv_free_string c st1 = Some st2 \<and> ci_heap st2 = ci_heap st"
proof -
  have k: "\<exists>st2. gkv_free_string c st1 = Some st2 \<and> ci_heap st2 = ci_heap st"
    if "kv_outcome r (store_instance i kv st) = (st1, c)" for r kv
    using kv_outcome_balanced [OF that] by simp
  show ?thesis
    using assms string_error_balanced [of _ st st1 c] k
    by (auto simp: gkv_delete_def split: option.splits if_splits prod.splits)
qed

lemma gkv_stats_balanced:
  assumes "gkv_stats i st = (st1, r)"
  shows "\<exists>st2. gkv_free_stats (Some r) st1 = Some st2
    \<and> (ci_heap st2 = ci_heap st \<or> (\<exists>v. ci_version st1 = Some v \<and> ci_version st = None \<and> ci_heap st2 = v # ci_heap st))"
proof (cases "getInstance i st")
  case None
  then show ?thesis
    using assms by (auto simp: gkv_stats_def getInstance_def malloc_def CString_def gkv_free_stats_def free_opt_def c_free_def)
next
  case (Some kv)
  then show ?thesis
    using assms
    by (auto simp: gkv_stats_def getInstance_def malloc_def gkv_version_def Let_def gkv_free_stats_def free_opt_def c_free_def
        split: option.splits)
qed

section \<open>Properties\<close>


definition example_capi :: capi where
  "example_capi = \<lparr>ci_instances = [], ci_instanceID = 0, ci_heap = [], ci_fresh = 0, ci_version = None\<rparr>"


lemma kv_outcome_ok: "kv_outcome r st = (st1, None) \<Longrightarrow> r = Inr () \<and> st1 = st"
  by (auto simp: kv_outcome_def string_error_def CString_def malloc_def split: sum.splits)

lemma GoBytes_whole: "0 < length mem \<Longrightarrow> length mem < 2 ^ 31 \<Longrightarrow> GoBytes (Some mem) (of_nat (length mem)) = Some (Some mem)"
proof -
  assume l: "0 < length mem" "length mem < 2 ^ 31"
  have "sint (ucast (of_nat (length mem) :: uint64) :: 32 word) = int (length mem)"
    using l by (simp add: unsigned_of_nat signed_of_nat signed_take_bit_int_eq_self take_bit_nat_eq_self)
  moreover have "unat (of_nat (length mem) :: uint64) = length mem" using l by (simp add: unsigned_of_nat take_bit_nat_eq_self)
  then have "(of_nat (length mem) :: uint64) \<noteq> 0" using l(1) by (metis unsigned_0 less_irrefl)
  ultimately show ?thesis using l by (simp add: GoBytes_def Let_def)
qed

text \<open>
  A value set through the C interface is read back through it. It is there for the number of seconds given, and
  forever if that number is not positive, whatever default time to live the instance has.
\<close>

theorem cgo_set_get:
  assumes "getInstance i st = Some kv" "kv_cluster kv = Some c" "node_inv E hi lv c" "lz4_decodes (lz E)"
    and "gkv_set E hi t0 now order ex i (Some key) (Some mem) (of_nat (length mem)) ttlSec st = Some (st', es, None)"
    and "\<forall>ci. lookup E (g_store c) key = Some ci \<longrightarrow> sint (cVersion ci) < sint (snd (next_version now key c))"
    and "0 < length mem" "length mem \<le> maxAlloc" "nano_range (t0 + c_ttl ttlSec)"
    and "nano_range t1" "t1 \<le> t2" "\<forall>t it. remote t = RItem (Some it) \<longrightarrow> IsExpired t2 it"
    and "gkv_get E hi t1 t2 remote i (Some key) st' = (st'', r)"
  shows "get_error r = None
    \<and> map_option snd (get_data r) = (if sint ttlSec \<le> 0 \<or> t2 \<le> t0 + sint ttlSec * time_Second then Some mem else None)"
proof -
  let ?ttl = "c_ttl ttlSec"
  have small: "length mem < 2 ^ 31" using assms(8) by (simp add: maxAlloc_def)
  have key: "key \<noteq> ''''"
    using assms(1,5) by (auto simp: gkv_set_def GoString_def string_error_def CString_def malloc_def split: if_splits)
  obtain kv' es' r0 where s: "kv_Set E hi t0 now order ex key (Some mem) (Some ?ttl) kv = (kv', es', r0)"
    by (metis prod.exhaust)
  then have "kv_outcome r0 (store_instance i kv' st) = (st', None) \<and> es' = es"
    using assms(1,5) key GoBytes_whole [OF assms(7) small] by (auto simp: gkv_set_def GoString_def split: prod.splits)
  then have ok: "r0 = Inr ()" "st' = store_instance i kv' st" "es' = es" using kv_outcome_ok by auto
  have "\<not> nano_range zero_time" by (simp add: nano_range_def zero_time_def)
  then have nz: "t0 + ?ttl \<noteq> zero_time" using assms(9) by auto
  have x: "expire_at t0 (Some ?ttl) kv = (if ?ttl > 0 then t0 + ?ttl else zero_time)" by (simp add: expire_at_def)
  have "snd (kv_Get E hi t1 t2 remote key kv') = Inr (if ?ttl \<le> 0 \<or> t2 \<le> t0 + ?ttl then Some mem else go_nil)"
    using kv_set_get_at [OF assms(2,3,4) s [unfolded ok(1)] assms(6) _ _ _ assms(10-12)] assms(7,8,9) nz
    by (auto simp: x go_len_def go_bytes_def)
  then obtain kv2 where g: "kv_Get E hi t1 t2 remote key kv' = (kv2, Inr (if ?ttl \<le> 0 \<or> t2 \<le> t0 + ?ttl then Some mem else go_nil))"
    by (metis prod.collapse)
  have t: "(?ttl \<le> 0 \<or> t2 \<le> t0 + ?ttl) = (sint ttlSec \<le> 0 \<or> t2 \<le> t0 + sint ttlSec * time_Second)"
    by (auto simp: c_ttl_def time_Second_def)
  have "getInstance i (snd (malloc st')) = Some kv'"
    by (simp add: ok(2) getInstance_def store_instance_def malloc_def update_conv')
  then have "r = (if ?ttl \<le> 0 \<or> t2 \<le> t0 + ?ttl
      then \<lparr>get_block = fst (malloc st'), get_data = Some (fst (malloc (store_instance i kv2 (snd (malloc st')))), mem), get_error = None\<rparr>
      else \<lparr>get_block = fst (malloc st'), get_data = None, get_error = None\<rparr>)"
    using assms(7,13) key g
    by (auto simp: gkv_get_def GoString_def Let_def case_prod_beta go_len_def go_bytes_def split: if_splits)
  then show ?thesis unfolding t by auto
qed

theorem cgo_set_get_witness:
  "\<exists>st' es. gkv_set example_env (\<lambda>_. 0) 1700 1701 id (\<lambda>_. (True, True)) 7 (Some ''k'') (Some [5, 6]) 2 0
       (example_capi\<lparr>ci_instances := [(7, example_kv)]\<rparr>) = Some (st', es, None)
     \<and> map_option snd (get_data (snd (gkv_get example_env (\<lambda>_. 0) 1750 1751 (\<lambda>_. RError) 7 (Some ''k'') st'))) = Some [5, 6]"
proof -
  let ?st = "example_capi\<lparr>ci_instances := [(7, example_kv)]\<rparr>"
  obtain kv' es where s: "kv_Set example_env (\<lambda>_. 0) 1700 1701 id (\<lambda>_. (True, True)) ''k'' (Some [5, 6]) (Some 0) example_kv
      = (kv', es, Inr ())"
    using example_kv_Set by blast
  have i: "getInstance 7 ?st = Some example_kv" by (simp add: getInstance_def)
  have b: "GoBytes (Some [5, 6]) 2 = Some (Some [5, 6])" using GoBytes_whole [of "[5, 6]"] by simp
  define st' where "st' = store_instance 7 kv' ?st"
  have g: "gkv_set example_env (\<lambda>_. 0) 1700 1701 id (\<lambda>_. (True, True)) 7 (Some ''k'') (Some [5, 6]) (of_nat (length [5 :: byte, 6])) 0 ?st
      = Some (st', es, None)"
    using s i b by (simp add: gkv_set_def GoString_def c_ttl_def kv_outcome_def st'_def)
  have c: "kv_cluster example_kv = Some example_node" by (simp add: example_kv_def)
  have l: "lookup example_env (g_store example_node) ''k'' = None"
    using solo_store_empty [of example_env "''k''"] by (simp add: view_def)
  obtain st'' r where r: "gkv_get example_env (\<lambda>_. 0) 1750 1751 (\<lambda>_. RError) 7 (Some ''k'') st' = (st'', r)" by fastforce
  have "map_option snd (get_data r) = Some [5, 6]"
    using cgo_set_get [OF i c example_node_inv example_lz4(1) g _ _ _ _ _ _ _ r] l
    by (simp add: nano_range_def maxAlloc_def c_ttl_def)
  then show ?thesis using g r by auto
qed

end
